(* ===== verification/Lumabri_Prelude.thy ===== *)
theory Lumabri_Prelude
  imports Main "HOL-Library.Word" "HOL-Library.Monad_Syntax"
begin

text \<open>
  Shared vocabulary of the development.

  \<^item> The C integer types as machine words: \<open>uint8_t\<close>, \<open>uint16_t\<close>, \<open>uint32_t\<close>,
    \<open>uint64_t\<close> are \<open>u8\<close>, \<open>u16\<close>, \<open>u32\<close>, \<open>u64\<close>; arithmetic on them wraps as it does in C.
  \<^item> \<open>size_t\<close> values and array indices are \<open>nat\<close>; where the source compares with
    \<open>SIZE_MAX\<close> the bound is written out.
  \<^item> A byte array is a list of \<open>u8\<close>. A fixed-size \<open>char\<close> buffer is the list of all its
    bytes; \<open>c_str\<close> is the C string it holds, \<open>c_term\<close> says that it holds one.
  \<^item> The heap allocator is a parameter of every operation that allocates: \<open>mem n\<close> says
    whether a request for \<open>n\<close> bytes succeeds, so that each out-of-memory branch of the
    source is a branch of the model.
  \<^item> A function returning 0 or -1 with an out parameter returns \<open>Some\<close> of the out value,
    or \<open>None\<close>.
\<close>

unbundle bit_operations_syntax

type_synonym u8 = "8 word"
type_synonym u16 = "16 word"
type_synonym u32 = "32 word"
type_synonym u64 = "64 word"
type_synonym bytes = "u8 list"
type_synonym alloc = "nat \<Rightarrow> bool"

abbreviation SIZE_MAX :: nat where "SIZE_MAX \<equiv> 2 ^ 64 - 1"
abbreviation UINT32_MAX :: u32 where "UINT32_MAX \<equiv> - 1"
abbreviation UINT64_MAX :: u64 where "UINT64_MAX \<equiv> - 1"

named_theorems wire_simps "byte-level reading and writing"
named_theorems valid_defs "definitions of the validity predicates"
named_theorems table_simps "simplification rules of the session table"

section \<open>Options and lists\<close>

lemma bind_SomeE:
  assumes "x \<bind> f = Some y"
  obtains z where "x = Some z" "f z = Some y"
  using assms by (cases x) auto

lemma if_SomeE:
  assumes "(if b then Some x else None) = Some y"
  obtains b "y = x"
  using assms by (auto split: if_splits)

lemma take_drop_append_exact [wire_simps]:
  "length xs = n \<Longrightarrow> take n (xs @ ys) = xs"
  "length xs = n \<Longrightarrow> drop n (xs @ ys) = ys"
  by simp_all

lemma list_update_same_conv_nth:
  "i < length xs \<Longrightarrow> xs ! i = x \<Longrightarrow> xs[i := x] = xs"
  by auto

lemma length_filter_update:
  assumes "i < length xs"
  shows "length (filter P (xs[i := x])) + (if P (xs ! i) then 1 else 0) =
         length (filter P xs) + (if P x then 1 else 0)"
  using assms
proof (induction xs arbitrary: i)
  case Nil
  then show ?case by simp
next
  case (Cons a xs)
  then show ?case by (cases i) auto
qed

lemma length_filter_less_ex:
  "length (filter P xs) < length xs \<Longrightarrow> \<exists>i < length xs. \<not> P (xs ! i)"
  by (induction xs) (auto split: if_splits intro: exI [of _ 0])

section \<open>C strings\<close>

text \<open>
  \<open>memchr (value, 0, capacity)\<close>: a buffer is terminated when one of its bytes is zero; the
  string is what precedes the first zero.
\<close>

definition c_term :: "bytes \<Rightarrow> bool" where
  "c_term buf \<longleftrightarrow> 0 \<in> set buf"

definition c_str :: "bytes \<Rightarrow> bytes" where
  "c_str buf = takeWhile (\<lambda>b. b \<noteq> 0) buf"

text \<open>A \<open>char\<close> buffer of \<open>cap\<close> zeroed bytes after a string has been copied into it.\<close>

definition c_buf :: "nat \<Rightarrow> bytes \<Rightarrow> bytes" where
  "c_buf cap s = s @ replicate (cap - length s) 0"

lemma c_str_no_zero: "0 \<notin> set (c_str buf)"
  by (auto simp: c_str_def dest: set_takeWhileD)

lemma c_str_length: "c_term buf \<Longrightarrow> length (c_str buf) < length buf"
  unfolding c_term_def c_str_def by (induction buf) auto

lemma c_str_c_buf [simp]: "0 \<notin> set s \<Longrightarrow> length s < cap \<Longrightarrow> c_str (c_buf cap s) = s"
  unfolding c_str_def c_buf_def
  by (subst takeWhile_append2) (auto simp: takeWhile_eq_Nil_iff hd_replicate)

lemma c_term_c_buf [simp]: "length s < cap \<Longrightarrow> c_term (c_buf cap s)"
  by (simp add: c_term_def c_buf_def)

lemma length_c_buf [simp]: "length s \<le> cap \<Longrightarrow> length (c_buf cap s) = cap"
  by (simp add: c_buf_def)

section \<open>Words\<close>

lemma u64_split [wire_simps]:
  fixes v :: u64
  shows "ucast (ucast v :: u32) OR push_bit 32 (ucast (ucast (drop_bit 32 v) :: u32)) = v"
  by (rule bit_word_eqI) (auto simp: bit_simps)

lemma u16_split [wire_simps]:
  fixes v :: u16
  shows "ucast (ucast v :: u8) OR push_bit 8 (ucast (ucast (drop_bit 8 v) :: u8)) = v"
  by (rule bit_word_eqI) (auto simp: bit_simps)

lemma not_less_zero_word [simp]: "\<not> (x :: 'a :: len word) < 0"
  by (simp add: word_less_nat_alt)

lemma unat_of_nat_u16: "n < 2 ^ 16 \<Longrightarrow> unat (of_nat n :: u16) = n"
  by (simp add: unat_of_nat take_bit_nat_eq_self)

lemma unat_of_nat_u32: "n < 2 ^ 32 \<Longrightarrow> unat (of_nat n :: u32) = n"
  by (simp add: unat_of_nat take_bit_nat_eq_self)

lemma unat_UINT_MAX [simp]: "unat UINT32_MAX = 2 ^ 32 - 1" "unat UINT64_MAX = 2 ^ 64 - 1"
  by (simp_all add: unsigned_minus_1_eq_mask mask_eq_exp_minus_1)

lemma word_or_eq_0_iff [simp]: "x OR y = 0 \<longleftrightarrow> x = 0 \<and> y = (0 :: 'a :: len word)"
  by (metis or.right_neutral or.left_neutral or.assoc or.idem)

lemma unat_u32_less: "unat (x :: u32) < 4294967296"
  using unsigned_less [of x, where ?'a = nat] by simp

lemma unat_u64_less: "unat (x :: u64) < 18446744073709551616"
  using unsigned_less [of x, where ?'a = nat] by simp

lemma unat_mult_exact:
  fixes a b :: u64
  shows "unat a * unat b < 2 ^ 64 \<Longrightarrow> unat (a * b) = unat a * unat b"
  by (simp add: unat_word_ariths)

lemma unat_ucast_u32_u64 [simp]:
  fixes x :: u32
  shows "unat (ucast x :: u64) = unat x"
  using unat_u32_less [of x] by (simp only: unsigned_ucast_eq) (simp add: take_bit_nat_eq_self)

end
