(* ===== verification/Wire.thy ===== *)
theory Wire
  imports Lumabri_Prelude
begin

text \<open>
  The transport-independent wire vocabulary of \<^verbatim>\<open>src/protocol/lumabri_wire.h\<close>: the little-endian
  32-bit integers every frame is made of, the shape limits a frame must satisfy before anything
  is allocated for it, the constant-time token comparison, and the exact bf16 packing.
  A \<open>float\<close> is represented by its 32 bits, which is how the packing code reads it.
\<close>

section \<open>Constants\<close>

abbreviation LMB_MAGIC :: u32 where "LMB_MAGIC \<equiv> 0x31424D4C"
abbreviation LMB_MAX_BODY :: u32 where "LMB_MAX_BODY \<equiv> 0x4000000"
abbreviation LMB_MAX_PAY :: u32 where "LMB_MAX_PAY \<equiv> 0x4000000"
abbreviation LMB_MAX_CONTROL_BODY :: u32 where "LMB_MAX_CONTROL_BODY \<equiv> 0x400000"
abbreviation LMB_MAX_PLACEMENT_BODY :: u32 where "LMB_MAX_PLACEMENT_BODY \<equiv> 0x800000"
abbreviation LMB_MAX_SMALL_BODY :: u32 where "LMB_MAX_SMALL_BODY \<equiv> 0x10000"
abbreviation LMB_TOKEN_MAX :: nat where "LMB_TOKEN_MAX \<equiv> 127"
abbreviation LMB_PATH_MAX :: nat where "LMB_PATH_MAX \<equiv> 512"

section \<open>Tokens\<close>

text \<open>
  Both buffers have \<open>LMB_TOKEN_MAX + 1\<close> bytes; the loop accumulates the differences of all of
  them and never leaves early.
\<close>

fun lmb_token_diff :: "bytes \<Rightarrow> bytes \<Rightarrow> nat \<Rightarrow> u32" where
  "lmb_token_diff a b 0 = 0"
| "lmb_token_diff a b (Suc n) = lmb_token_diff a b n OR (ucast (a ! n) XOR ucast (b ! n))"

definition lmb_token_equal :: "bytes \<Rightarrow> bytes \<Rightarrow> bool" where
  "lmb_token_equal a b \<longleftrightarrow> lmb_token_diff a b (LMB_TOKEN_MAX + 1) = 0"

lemma ucast_xor_zero: "(ucast (x :: u8) :: u32) XOR ucast y = 0 \<longleftrightarrow> x = y"
proof
  assume eq: "(ucast x :: u32) XOR ucast y = 0"
  show "x = y"
  proof (rule bit_word_eqI)
    fix n
    assume n: "n < LENGTH(8)"
    have "\<not> bit ((ucast x :: u32) XOR ucast y) n" by (simp add: eq)
    with n show "bit x n = bit y n" by (simp add: bit_simps)
  qed
qed simp

lemma lmb_token_diff_zero:
  "lmb_token_diff a b n = 0 \<longleftrightarrow> (\<forall>i < n. a ! i = b ! i)"
  by (induction n) (auto simp: ucast_xor_zero less_Suc_eq)

lemma lmb_token_diff_eq:
  assumes "length a = n" and "length b = n"
  shows "lmb_token_diff a b n = 0 \<longleftrightarrow> a = b"
  using assms unfolding lmb_token_diff_zero by (auto intro: nth_equalityI)

section \<open>Exact bf16\<close>

definition lmb_bf16_exact :: "u32 list \<Rightarrow> bool" where
  "lmb_bf16_exact v = list_all (\<lambda>bits. bits AND 0xFFFF = 0) v"

definition lmb_bf16_pack :: "u32 list \<Rightarrow> u16 list" where
  "lmb_bf16_pack src = map (\<lambda>bits. ucast (drop_bit 16 bits)) src"

definition lmb_bf16_unpack :: "u16 list \<Rightarrow> u32 list" where
  "lmb_bf16_unpack src = map (\<lambda>h. push_bit 16 (ucast h)) src"

section \<open>Little-endian integers\<close>

definition lmb_put32 :: "u32 \<Rightarrow> bytes" where
  "lmb_put32 v = [ucast v, ucast (drop_bit 8 v), ucast (drop_bit 16 v), ucast (drop_bit 24 v)]"

definition lmb_get32 :: "bytes \<Rightarrow> u32" where
  "lmb_get32 p = ucast (p ! 0) OR push_bit 8 (ucast (p ! 1)) OR
                 push_bit 16 (ucast (p ! 2)) OR push_bit 24 (ucast (p ! 3))"

lemma length_lmb_put32 [simp]: "length (lmb_put32 v) = 4"
  by (simp add: lmb_put32_def)

lemma lmb_get32_put32 [simp, wire_simps]: "lmb_get32 (lmb_put32 v @ r) = v"
proof (rule bit_word_eqI)
  fix n
  assume "n < LENGTH(32)"
  then show "bit (lmb_get32 (lmb_put32 v @ r)) n = bit v n"
    unfolding lmb_get32_def lmb_put32_def
    by (cases "n < 8"; cases "n < 16"; cases "n < 24") (auto simp: bit_simps)
qed

lemma lmb_get32_put32' [simp, wire_simps]: "lmb_get32 (lmb_put32 v) = v"
  using lmb_get32_put32 [of v "[]"] by simp

lemma lmb_put32_inject [simp]: "lmb_put32 v = lmb_put32 w \<longleftrightarrow> v = w"
  by (metis lmb_get32_put32')

section \<open>Frame shapes\<close>

abbreviation LMB_MANIFEST_R :: u32 where "LMB_MANIFEST_R \<equiv> 5"
abbreviation LMB_READ_R :: u32 where "LMB_READ_R \<equiv> 7"
abbreviation LMB_REGISTER :: u32 where "LMB_REGISTER \<equiv> 8"
abbreviation LMB_PLACEMENT_R :: u32 where "LMB_PLACEMENT_R \<equiv> 10"
abbreviation LMB_EXEC :: u32 where "LMB_EXEC \<equiv> 11"
abbreviation LMB_EXEC_R :: u32 where "LMB_EXEC_R \<equiv> 12"
abbreviation LMB_EMANIFEST_R :: u32 where "LMB_EMANIFEST_R \<equiv> 14"
abbreviation LMB_SWARM_R :: u32 where "LMB_SWARM_R \<equiv> 16"
abbreviation LMB_RREAD_FWD :: u32 where "LMB_RREAD_FWD \<equiv> 18"
abbreviation LMB_RREAD_R :: u32 where "LMB_RREAD_R \<equiv> 19"
abbreviation LMB_EPEERS_R :: u32 where "LMB_EPEERS_R \<equiv> 25"
abbreviation LMB_HASHES_R :: u32 where "LMB_HASHES_R \<equiv> 27"
abbreviation LMB_EASSIGN_R :: u32 where "LMB_EASSIGN_R \<equiv> 29"
abbreviation LMB_REXEC :: u32 where "LMB_REXEC \<equiv> 32"
abbreviation LMB_REXEC_FWD :: u32 where "LMB_REXEC_FWD \<equiv> 33"
abbreviation LMB_REXEC_R :: u32 where "LMB_REXEC_R \<equiv> 34"
abbreviation LMB_SEG_RUN :: u32 where "LMB_SEG_RUN \<equiv> 41"
abbreviation LMB_SEG_RUN_R :: u32 where "LMB_SEG_RUN_R \<equiv> 42"
abbreviation LMB_SEG_SNAPSHOT_R :: u32 where "LMB_SEG_SNAPSHOT_R \<equiv> 44"
abbreviation LMB_SEG_RESTORE :: u32 where "LMB_SEG_RESTORE \<equiv> 45"
abbreviation LMB_SEG_ROUTES_R :: u32 where "LMB_SEG_ROUTES_R \<equiv> 54"
abbreviation LMB_RSEG :: u32 where "LMB_RSEG \<equiv> 57"
abbreviation LMB_RSEG_FWD :: u32 where "LMB_RSEG_FWD \<equiv> 58"
abbreviation LMB_RSEG_R :: u32 where "LMB_RSEG_R \<equiv> 59"
abbreviation LMB_SWARM_DETAIL_R :: u32 where "LMB_SWARM_DETAIL_R \<equiv> 61"
abbreviation LMB_TEXEC :: u32 where "LMB_TEXEC \<equiv> 66"
abbreviation LMB_TMAN_R :: u32 where "LMB_TMAN_R \<equiv> 69"
abbreviation LMB_EXEC2 :: u32 where "LMB_EXEC2 \<equiv> 72"
abbreviation LMB_EXEC2_R :: u32 where "LMB_EXEC2_R \<equiv> 73"
abbreviation LMB_HOST_STREAM :: u32 where "LMB_HOST_STREAM \<equiv> 76"
abbreviation LMB_MACHINE_LIST_R :: u32 where "LMB_MACHINE_LIST_R \<equiv> 79"
abbreviation LMB_HOME_EXPERT :: u32 where "LMB_HOME_EXPERT \<equiv> 89"
abbreviation LMB_LINK_PROBE :: u32 where "LMB_LINK_PROBE \<equiv> 92"
abbreviation LMB_LINK_PROBE_R :: u32 where "LMB_LINK_PROBE_R \<equiv> 93"
abbreviation LMB_SEG_COMPUTE_GET_R :: u32 where "LMB_SEG_COMPUTE_GET_R \<equiv> 101"

text \<open>The pair of caps \<open>(body_cap, pay_cap)\<close>, in the order of the source's \<open>switch\<close>.\<close>

definition lmb_frame_caps :: "u32 \<Rightarrow> u32 \<times> u32" where
  "lmb_frame_caps op =
     (if op \<in> {LMB_LINK_PROBE, LMB_LINK_PROBE_R} then (16, 0x10000)
      else if op = LMB_HOME_EXPERT then (80, 0x40000)
      else if op = LMB_REGISTER then (LMB_MAX_BODY, 0)
      else if op \<in> {LMB_MANIFEST_R, LMB_SWARM_R, LMB_SWARM_DETAIL_R, LMB_MACHINE_LIST_R,
                    LMB_EPEERS_R, LMB_EMANIFEST_R, LMB_EASSIGN_R, LMB_SEG_ROUTES_R}
        then (LMB_MAX_CONTROL_BODY, 0)
      else if op = LMB_PLACEMENT_R then (LMB_MAX_PLACEMENT_BODY, 0)
      else if op \<in> {LMB_READ_R, LMB_RREAD_R, LMB_HASHES_R, LMB_EXEC_R, LMB_EXEC2_R, LMB_REXEC_R,
                    LMB_TEXEC, LMB_TMAN_R, LMB_SEG_RUN, LMB_SEG_RUN_R, LMB_SEG_SNAPSHOT_R,
                    LMB_SEG_RESTORE, LMB_HOST_STREAM, LMB_RSEG, LMB_RSEG_FWD, LMB_RSEG_R}
        then (if op \<in> {LMB_RSEG, LMB_RSEG_FWD, LMB_RSEG_R}
              then LMB_MAX_CONTROL_BODY else LMB_MAX_SMALL_BODY, LMB_MAX_PAY)
      else if op \<in> {LMB_RREAD_FWD, LMB_EXEC, LMB_EXEC2, LMB_REXEC, LMB_REXEC_FWD}
        then (LMB_MAX_CONTROL_BODY, LMB_MAX_PAY)
      else (LMB_MAX_SMALL_BODY, 0))"

definition lmb_frame_shape_ok :: "u32 \<Rightarrow> u32 \<Rightarrow> u32 \<Rightarrow> bool" where
  "lmb_frame_shape_ok op body_len pay_len =
     (let (bc, pc) = lmb_frame_caps op in body_len \<le> bc \<and> pay_len \<le> pc)"

lemma lmb_frame_caps_bounds:
  "fst (lmb_frame_caps op) \<le> LMB_MAX_BODY" "snd (lmb_frame_caps op) \<le> LMB_MAX_PAY"
  "unat (fst (lmb_frame_caps op)) + unat (snd (lmb_frame_caps op)) \<le> 68 * 2 ^ 20"
  unfolding lmb_frame_caps_def by (simp_all split: if_split)

lemma lmb_frame_shape_okD:
  assumes "lmb_frame_shape_ok op bl pl"
  shows "unat bl + unat pl \<le> 68 * 2 ^ 20"
proof -
  from assms have "unat bl \<le> unat (fst (lmb_frame_caps op))" "unat pl \<le> unat (snd (lmb_frame_caps op))"
    by (auto simp: lmb_frame_shape_ok_def word_le_nat_alt split: prod.splits)
  with lmb_frame_caps_bounds(3) [of op] show ?thesis by linarith
qed

section \<open>Properties\<close>

text \<open>The constant-time comparison of two token buffers decides their equality: it answers
  yes exactly when all 128 bytes agree.\<close>

lemma token_equal_iff:
  assumes "length a = LMB_TOKEN_MAX + 1" and "length b = LMB_TOKEN_MAX + 1"
  shows "lmb_token_equal a b \<longleftrightarrow> a = b"
  unfolding lmb_token_equal_def using assms by (rule lmb_token_diff_eq)

theorem token_equal_iff_witness:
  "lmb_token_equal (replicate 128 7) (replicate 128 7)"
proof -
  have l: "length (replicate 128 (7 :: u8)) = LMB_TOKEN_MAX + 1" by (simp only: length_replicate)
  show ?thesis by (rule token_equal_iff [OF l l, THEN iffD2]) (rule refl)
qed

end
