(* ===== verification/Chacha.thy ===== *)
theory Chacha
  imports Wire
begin

text \<open>
  The stream cipher of \<^verbatim>\<open>lumabri_crypto.h\<close>, ChaCha20 (RFC 8439). Keys, nonces and messages are byte
  lists; the sixteen words of the state are a list. In-place use of the C routine (\<open>in == out\<close>) is
  the same function, because every byte is read before it is written.
\<close>

section \<open>Words\<close>

definition lc_rotl :: "u32 \<Rightarrow> nat \<Rightarrow> u32" where
  "lc_rotl x n = push_bit n x OR drop_bit (32 - n) x"

definition lc_ld32 :: "bytes \<Rightarrow> u32" where
  "lc_ld32 p = ucast (p ! 0) OR push_bit 8 (ucast (p ! 1)) OR
               push_bit 16 (ucast (p ! 2)) OR push_bit 24 (ucast (p ! 3))"

definition lc_st32 :: "u32 \<Rightarrow> bytes" where
  "lc_st32 v = [ucast v, ucast (drop_bit 8 v), ucast (drop_bit 16 v), ucast (drop_bit 24 v)]"

lemma lc_ld32_eq: "lc_ld32 = lmb_get32" and lc_st32_eq: "lc_st32 = lmb_put32"
  by (simp_all add: fun_eq_iff lc_ld32_def lmb_get32_def lc_st32_def lmb_put32_def)

lemma length_lc_st32 [simp]: "length (lc_st32 v) = 4"
  by (simp add: lc_st32_def)

section \<open>The block function\<close>

text \<open>The macro \<open>LC_QR\<close> on the words with these indices.\<close>

definition lc_qr :: "nat \<Rightarrow> nat \<Rightarrow> nat \<Rightarrow> nat \<Rightarrow> u32 list \<Rightarrow> u32 list" where
  "lc_qr a b c d x =
     (let x = x[a := x ! a + x ! b]; x = x[d := x ! d XOR x ! a]; x = x[d := lc_rotl (x ! d) 16];
          x = x[c := x ! c + x ! d]; x = x[b := x ! b XOR x ! c]; x = x[b := lc_rotl (x ! b) 12];
          x = x[a := x ! a + x ! b]; x = x[d := x ! d XOR x ! a]; x = x[d := lc_rotl (x ! d) 8];
          x = x[c := x ! c + x ! d]; x = x[b := x ! b XOR x ! c]; x = x[b := lc_rotl (x ! b) 7]
      in x)"

definition lc_double_round :: "u32 list \<Rightarrow> u32 list" where
  "lc_double_round x =
     (let x = lc_qr 0 4 8 12 x; x = lc_qr 1 5 9 13 x; x = lc_qr 2 6 10 14 x; x = lc_qr 3 7 11 15 x;
          x = lc_qr 0 5 10 15 x; x = lc_qr 1 6 11 12 x; x = lc_qr 2 7 8 13 x; x = lc_qr 3 4 9 14 x
      in x)"

text \<open>The ASCII codes of \<open>expand 32-byte k\<close>.\<close>

definition lc_sigma :: bytes where
  "lc_sigma = [101, 120, 112, 97, 110, 100, 32, 51, 50, 45, 98, 121, 116, 101, 32, 107]"

definition lc_chacha_state :: "bytes \<Rightarrow> u32 \<Rightarrow> bytes \<Rightarrow> u32 list" where
  "lc_chacha_state key counter nonce =
     [lc_ld32 lc_sigma, lc_ld32 (drop 4 lc_sigma), lc_ld32 (drop 8 lc_sigma), lc_ld32 (drop 12 lc_sigma)] @
     map (\<lambda>i. lc_ld32 (drop (4 * i) key)) [0..<8] @
     [counter, lc_ld32 nonce, lc_ld32 (drop 4 nonce), lc_ld32 (drop 8 nonce)]"

definition lc_chacha_block :: "bytes \<Rightarrow> u32 \<Rightarrow> bytes \<Rightarrow> bytes" where
  "lc_chacha_block key counter nonce =
     (let s = lc_chacha_state key counter nonce; x = (lc_double_round ^^ 10) s
      in concat (map (\<lambda>i. lc_st32 (x ! i + s ! i)) [0..<16]))"

lemma length_chacha_block [simp]: "length (lc_chacha_block key counter nonce) = 64"
  by (simp add: lc_chacha_block_def Let_def upt_conv_Cons)

section \<open>The cipher\<close>

function lc_chacha20 :: "bytes \<Rightarrow> u32 \<Rightarrow> bytes \<Rightarrow> bytes \<Rightarrow> bytes" where
  "lc_chacha20 key counter nonce inp =
     (if inp = [] then []
      else let blk = lc_chacha_block key counter nonce; m = (if length inp < 64 then length inp else 64)
           in map2 (XOR) (take m inp) (take m blk) @ lc_chacha20 key (counter + 1) nonce (drop m inp))"
  by pat_completeness auto

termination
  by (relation "measure (\<lambda>(_, _, _, inp). length inp)") (auto simp: Let_def)

declare lc_chacha20.simps [simp del]

lemma chacha20_Nil [simp]: "lc_chacha20 key counter nonce [] = []"
  by (simp add: lc_chacha20.simps)

text \<open>The reference: the input under a key stream of whole blocks.\<close>

primrec key_stream :: "bytes \<Rightarrow> u32 \<Rightarrow> bytes \<Rightarrow> nat \<Rightarrow> bytes" where
  "key_stream key counter nonce 0 = []"
| "key_stream key counter nonce (Suc n) = lc_chacha_block key counter nonce @ key_stream key (counter + 1) nonce n"

lemma length_key_stream [simp]: "length (key_stream key counter nonce n) = 64 * n"
  by (induction n arbitrary: counter) simp_all

lemma zip_take_right: "zip xs (take (length xs) ys) = zip xs ys"
  by (induction xs arbitrary: ys) (simp, case_tac ys, simp_all)

lemma chacha20_key_stream:
  "length inp \<le> 64 * n \<Longrightarrow> lc_chacha20 key counter nonce inp = map2 (XOR) inp (key_stream key counter nonce n)"
proof (induction n arbitrary: counter inp)
  case 0
  then show ?case by simp
next
  case (Suc n)
  show ?case
  proof (cases "inp = []")
    case False
    let ?m = "if length inp < 64 then length inp else 64" and ?blk = "lc_chacha_block key counter nonce"
    have m: "?m \<le> 64" "?m \<le> length inp" by simp_all
    have IH: "lc_chacha20 key (counter + 1) nonce (drop ?m inp) =
        map2 (XOR) (drop ?m inp) (key_stream key (counter + 1) nonce n)"
      using Suc.prems by (intro Suc.IH) (auto simp: le_diff_conv)
    have "map2 (XOR) inp (?blk @ key_stream key (counter + 1) nonce n) =
        map2 (XOR) (take ?m inp) (take ?m ?blk) @ map2 (XOR) (drop ?m inp) (key_stream key (counter + 1) nonce n)"
    proof (cases "length inp < 64")
      case True
      then show ?thesis by (simp add: zip_append2 zip_take_right)
    next
      case False
      then have "zip inp (?blk @ key_stream key (counter + 1) nonce n) =
          zip (take 64 inp) ?blk @ zip (drop 64 inp) (key_stream key (counter + 1) nonce n)"
        by (simp add: zip_append2)
      with False show ?thesis by simp
    qed
    then show ?thesis using False IH by (simp add: lc_chacha20.simps [of key counter] Let_def)
  qed simp
qed

lemma length_chacha20 [simp]: "length (lc_chacha20 key counter nonce inp) = length inp"
  using chacha20_key_stream [of inp "length inp" key counter nonce] by simp

lemma xor_twice: "length xs \<le> length ks \<Longrightarrow> map2 (XOR) (map2 (XOR) xs ks) ks = (xs :: bytes)"
proof (induction xs arbitrary: ks)
  case (Cons x xs)
  then show ?case by (cases ks) (simp_all add: xor.assoc)
qed simp

text \<open>Decryption is encryption.\<close>

lemma chacha20_involution: "lc_chacha20 key counter nonce (lc_chacha20 key counter nonce inp) = inp"
  using chacha20_key_stream [of inp "length inp" key counter nonce]
    chacha20_key_stream [of "lc_chacha20 key counter nonce inp" "length inp" key counter nonce]
  by (simp add: xor_twice)

text \<open>The quarter round on the test vector of RFC 8439, section 2.1.1.\<close>

lemma quarter_round_rfc8439:
  "lc_qr 0 1 2 3 [0x11111111, 0x01020304, 0x9b8d6f43, 0x01234567] =
    [0xea2a92f4, 0xcb1cf8ce, 0x4581472e, 0x5881c4bb]"
  by code_simp

end
