(* ===== verification/Poly1305.thy ===== *)
theory Poly1305
  imports Chacha
begin

text \<open>
  The one-time authenticator of \<^verbatim>\<open>lumabri_crypto.h\<close>, Poly1305 on five 26-bit limbs, and its
  reference: the evaluation of a polynomial modulo \<open>2\<^sup>1\<^sup>3\<^sup>0 - 5\<close> over numbers. The buffer of the C
  state is its valid prefix \<open>buffer[0 .. leftover)\<close>.
\<close>

section \<open>The code\<close>

type_synonym limbs = "u32 \<times> u32 \<times> u32 \<times> u32 \<times> u32"

record lc_poly =
  lp_r :: limbs
  lp_h :: limbs
  lp_pad :: "u32 list"
  lp_buf :: bytes
  lp_final :: bool

definition lc_poly_init :: "bytes \<Rightarrow> lc_poly" where
  "lc_poly_init key =
     \<lparr>lp_r = (lc_ld32 key AND 0x3ffffff,
              drop_bit 2 (lc_ld32 (drop 3 key)) AND 0x3ffff03,
              drop_bit 4 (lc_ld32 (drop 6 key)) AND 0x3ffc0ff,
              drop_bit 6 (lc_ld32 (drop 9 key)) AND 0x3f03fff,
              drop_bit 8 (lc_ld32 (drop 12 key)) AND 0x00fffff),
      lp_h = (0, 0, 0, 0, 0),
      lp_pad = [lc_ld32 (drop 16 key), lc_ld32 (drop 20 key), lc_ld32 (drop 24 key), lc_ld32 (drop 28 key)],
      lp_buf = [], lp_final = False\<rparr>"

text \<open>The limbs of the accumulator after a block of the message has been added.\<close>

definition poly_add_block :: "u32 \<Rightarrow> bytes \<Rightarrow> limbs \<Rightarrow> limbs" where
  "poly_add_block hibit m h =
     (case h of (h0, h1, h2, h3, h4) \<Rightarrow>
       (h0 + (lc_ld32 m AND 0x3ffffff),
        h1 + (drop_bit 2 (lc_ld32 (drop 3 m)) AND 0x3ffffff),
        h2 + (drop_bit 4 (lc_ld32 (drop 6 m)) AND 0x3ffffff),
        h3 + (drop_bit 6 (lc_ld32 (drop 9 m)) AND 0x3ffffff),
        h4 + (drop_bit 8 (lc_ld32 (drop 12 m)) OR hibit)))"

text \<open>The products of the limbs and the chain of carries.\<close>

abbreviation wide :: "u32 \<Rightarrow> u64" where "wide x \<equiv> ucast x"

definition poly_mul :: "limbs \<Rightarrow> limbs \<Rightarrow> limbs" where
  "poly_mul r h =
     (case r of (r0, r1, r2, r3, r4) \<Rightarrow> case h of (h0, h1, h2, h3, h4) \<Rightarrow>
      let s1 = r1 * 5; s2 = r2 * 5; s3 = r3 * 5; s4 = r4 * 5;
          d0 = wide h0 * wide r0 + wide h1 * wide s4 + wide h2 * wide s3 + wide h3 * wide s2 + wide h4 * wide s1;
          d1 = wide h0 * wide r1 + wide h1 * wide r0 + wide h2 * wide s4 + wide h3 * wide s3 + wide h4 * wide s2;
          d2 = wide h0 * wide r2 + wide h1 * wide r1 + wide h2 * wide r0 + wide h3 * wide s4 + wide h4 * wide s3;
          d3 = wide h0 * wide r3 + wide h1 * wide r2 + wide h2 * wide r1 + wide h3 * wide r0 + wide h4 * wide s4;
          d4 = wide h0 * wide r4 + wide h1 * wide r3 + wide h2 * wide r2 + wide h3 * wide r1 + wide h4 * wide r0;
          c = ucast (drop_bit 26 d0) :: u32; h0 = ucast d0 AND 0x3ffffff;
          d1 = d1 + wide c; c = ucast (drop_bit 26 d1); h1 = ucast d1 AND 0x3ffffff;
          d2 = d2 + wide c; c = ucast (drop_bit 26 d2); h2 = ucast d2 AND 0x3ffffff;
          d3 = d3 + wide c; c = ucast (drop_bit 26 d3); h3 = ucast d3 AND 0x3ffffff;
          d4 = d4 + wide c; c = ucast (drop_bit 26 d4); h4 = ucast d4 AND 0x3ffffff;
          h0 = h0 + c * 5; c = drop_bit 26 h0; h0 = h0 AND 0x3ffffff; h1 = h1 + c
      in (h0, h1, h2, h3, h4))"

text \<open>The loop over the whole blocks of \<open>m\<close>.\<close>

function poly_loop :: "limbs \<Rightarrow> u32 \<Rightarrow> bytes \<Rightarrow> limbs \<Rightarrow> limbs" where
  "poly_loop r hibit m h =
     (if 16 \<le> length m then poly_loop r hibit (drop 16 m) (poly_mul r (poly_add_block hibit m h)) else h)"
  by pat_completeness auto

termination
  by (relation "measure (\<lambda>(_, _, m, _). length m)") auto

declare poly_loop.simps [simp del]

definition lc_poly_blocks :: "lc_poly \<Rightarrow> bytes \<Rightarrow> lc_poly" where
  "lc_poly_blocks st m =
     st\<lparr>lp_h := poly_loop (lp_r st) (if lp_final st then 0 else push_bit 24 1) m (lp_h st)\<rparr>"

definition poly_update_rest :: "bytes \<Rightarrow> lc_poly \<Rightarrow> lc_poly" where
  "poly_update_rest m st =
     (let want = length m - length m mod 16;
          st = (if 16 \<le> length m then lc_poly_blocks st (take want m) else st);
          m = (if 16 \<le> length m then drop want m else m)
      in if m \<noteq> [] then st\<lparr>lp_buf := lp_buf st @ m\<rparr> else st)"

definition lc_poly_update :: "bytes \<Rightarrow> lc_poly \<Rightarrow> lc_poly" where
  "lc_poly_update m st =
     (if lp_buf st \<noteq> []
      then let want = min (16 - length (lp_buf st)) (length m);
               buf = lp_buf st @ take want m
           in if length buf < 16 then st\<lparr>lp_buf := buf\<rparr>
              else poly_update_rest (drop want m) (lc_poly_blocks st buf\<lparr>lp_buf := []\<rparr>)
      else poly_update_rest m st)"

definition poly_freeze :: "limbs \<Rightarrow> limbs" where
  "poly_freeze h =
     (case h of (h0, h1, h2, h3, h4) \<Rightarrow>
      let c = drop_bit 26 h1; h1 = h1 AND 0x3ffffff; h2 = h2 + c; c = drop_bit 26 h2; h2 = h2 AND 0x3ffffff;
          h3 = h3 + c; c = drop_bit 26 h3; h3 = h3 AND 0x3ffffff; h4 = h4 + c; c = drop_bit 26 h4;
          h4 = h4 AND 0x3ffffff; h0 = h0 + c * 5; c = drop_bit 26 h0; h0 = h0 AND 0x3ffffff; h1 = h1 + c;
          g0 = h0 + 5; c = drop_bit 26 g0; g0 = g0 AND 0x3ffffff;
          g1 = h1 + c; c = drop_bit 26 g1; g1 = g1 AND 0x3ffffff;
          g2 = h2 + c; c = drop_bit 26 g2; g2 = g2 AND 0x3ffffff;
          g3 = h3 + c; c = drop_bit 26 g3; g3 = g3 AND 0x3ffffff;
          g4 = h4 + c - push_bit 26 1;
          m = drop_bit 31 g4 - 1;
          n = NOT m
      in ((h0 AND n) OR (g0 AND m), (h1 AND n) OR (g1 AND m), (h2 AND n) OR (g2 AND m),
          (h3 AND n) OR (g3 AND m), (h4 AND n) OR (g4 AND m)))"

definition poly_serialise :: "limbs \<Rightarrow> u32 list \<Rightarrow> bytes" where
  "poly_serialise h pad =
     (case h of (h0, h1, h2, h3, h4) \<Rightarrow>
      let h0 = (h0 OR push_bit 26 h1) AND 0xffffffff;
          h1 = (drop_bit 6 h1 OR push_bit 20 h2) AND 0xffffffff;
          h2 = (drop_bit 12 h2 OR push_bit 14 h3) AND 0xffffffff;
          h3 = (drop_bit 18 h3 OR push_bit 8 h4) AND 0xffffffff;
          f = wide h0 + wide (pad ! 0); h0 = ucast f;
          f = wide h1 + wide (pad ! 1) + drop_bit 32 f; h1 = ucast f;
          f = wide h2 + wide (pad ! 2) + drop_bit 32 f; h2 = ucast f;
          f = wide h3 + wide (pad ! 3) + drop_bit 32 f; h3 = ucast f
      in lc_st32 h0 @ lc_st32 h1 @ lc_st32 h2 @ lc_st32 h3)"

definition lc_poly_finish :: "lc_poly \<Rightarrow> bytes" where
  "lc_poly_finish st =
     (let st = (if lp_buf st \<noteq> []
                then lc_poly_blocks (st\<lparr>lp_final := True\<rparr>) (lp_buf st @ 1 # replicate (15 - length (lp_buf st)) 0)
                else st)
      in poly_serialise (poly_freeze (lp_h st)) (lp_pad st))"

end
