(* ===== verification/Poly1305_Limbs.thy ===== *)
theory Poly1305_Limbs
  imports Poly1305
begin

text \<open>
  The arithmetic of the limbs: what a block adds to the number the limbs stand for, and that the
  multiplication of \<^verbatim>\<open>lc_poly_blocks\<close> is multiplication modulo \<open>2\<^sup>1\<^sup>3\<^sup>0 - 5\<close> which never
  overflows a column of 64 bits or a limb of 32.
\<close>

section \<open>Bytes as numbers\<close>

fun le_num :: "bytes \<Rightarrow> nat" where
  "le_num [] = 0"
| "le_num (b # bs) = unat b + 256 * le_num bs"

lemma unat_u8_less: "unat (b :: u8) < 256"
  using unsigned_less [of b, where ?'a = nat] by simp

lemma le_num_less: "le_num bs < 256 ^ length bs"
proof (induction bs)
  case (Cons b bs)
  have "unat b + 256 * le_num bs < 256 + 256 * le_num bs" using unat_u8_less [of b] by simp
  also have "\<dots> = 256 * (le_num bs + 1)" by simp
  also have "\<dots> \<le> 256 * 256 ^ length bs" using Cons.IH by (intro mult_le_mono2) simp
  finally show ?case by simp
qed simp

lemma le_num_append: "le_num (xs @ ys) = le_num xs + 256 ^ length xs * le_num ys"
  by (induction xs) (simp_all add: algebra_simps)

lemma le_num_zeros [simp]: "le_num (replicate n 0) = 0"
  by (induction n) simp_all

lemma le_num_take_drop:
  assumes "k \<le> length bs"
  shows "le_num (take k bs) = le_num bs mod 256 ^ k" "le_num (drop k bs) = le_num bs div 256 ^ k"
proof -
  have e: "le_num bs = le_num (take k bs) + 256 ^ k * le_num (drop k bs)"
    using le_num_append [of "take k bs" "drop k bs"] assms by (simp add: min_absorb2)
  have l: "le_num (take k bs) < 256 ^ k" using le_num_less [of "take k bs"] assms by (simp add: min_absorb2)
  show "le_num (take k bs) = le_num bs mod 256 ^ k" "le_num (drop k bs) = le_num bs div 256 ^ k"
    using e l by simp_all
qed

lemma or_plus: "a AND b = 0 \<Longrightarrow> a OR b = a + (b :: 'a :: len word)"
  by (simp add: disjunctive_add_eq_or)

lemma unat_ucast_u8_u32 [simp]: "unat (ucast (x :: u8) :: u32) = unat x"
  by (simp add: unsigned_ucast_eq take_bit_nat_eq_self unat_u8_less [THEN less_trans])

lemma unat_ld32:
  assumes "4 \<le> length p"
  shows "unat (lc_ld32 p) = le_num (take 4 p)"
proof -
  obtain a b c d r where p: "p = a # b # c # d # r"
    using assms by (auto simp: numeral_eq_Suc Suc_le_length_iff)
  let ?a = "ucast a :: u32" and ?b = "push_bit 8 (ucast b) :: u32" and ?c = "push_bit 16 (ucast c) :: u32"
  let ?d = "push_bit 24 (ucast d) :: u32"
  have n: "?a AND ?b = 0" "(?a OR ?b) AND ?c = 0" "((?a OR ?b) OR ?c) AND ?d = 0"
    by (rule bit_word_eqI; auto simp: bit_simps dest: bit_imp_le_length)+
  have "lc_ld32 p = ((?a OR ?b) OR ?c) OR ?d" by (simp add: lc_ld32_def p or.assoc)
  also have "\<dots> = ?a + ?b + ?c + ?d"
    using or_plus [OF n(1)] or_plus [OF n(2)] or_plus [OF n(3)] by (simp only:)
  finally have "unat (lc_ld32 p) = (unat a + 256 * unat b + 65536 * unat c + 16777216 * unat d) mod 4294967296"
    by (simp add: push_bit_eq_mult unat_word_ariths mod_simps mult.commute)
  moreover have "unat a + 256 * unat b + 65536 * unat c + 16777216 * unat d < 4294967296"
    using unat_u8_less [of a] unat_u8_less [of b] unat_u8_less [of c] unat_u8_less [of d] by linarith
  moreover have "take 4 p = [a, b, c, d]" by (simp add: p)
  ultimately show ?thesis by simp
qed

lemma unat_ld32_drop:
  assumes "k + 4 \<le> length p"
  shows "unat (lc_ld32 (drop k p)) = le_num p div 256 ^ k mod 4294967296"
  using assms unat_ld32 [of "drop k p"] le_num_take_drop [of k p] le_num_take_drop [of 4 "drop k p"]
  by simp

section \<open>Limbs as numbers\<close>

lemma unat_and_26: "unat ((x :: u32) AND 0x3ffffff) = unat x mod 67108864"
proof -
  have "(0x3ffffff :: u32) = mask 26" by (simp add: mask_eq_exp_minus_1)
  then have "x AND 0x3ffffff = take_bit 26 x" by (simp only: take_bit_eq_mask)
  then show ?thesis by (simp only: unsigned_take_bit_eq) (simp only: take_bit_eq_mod, simp)
qed

lemma unat_drop [simp]: "unat (drop_bit n x) = unat x div 2 ^ n"
  by (subst unsigned_drop_bit_eq) (simp only: take_bit_nat_eq_self unsigned_less drop_bit_eq_div)

lemma unat_add_32: "unat a + unat b < 4294967296 \<Longrightarrow> unat (a + b) = unat a + unat (b :: u32)"
  by (simp add: unat_word_ariths)

definition val :: "limbs \<Rightarrow> nat" where
  "val h = (case h of (h0, h1, h2, h3, h4) \<Rightarrow>
     unat h0 + 67108864 * (unat h1 + 67108864 * (unat h2 + 67108864 * (unat h3 + 67108864 * unat h4))))"

text \<open>The bounds between blocks: reduced, but for the carry into the second limb.\<close>

definition limbs_ok :: "limbs \<Rightarrow> bool" where
  "limbs_ok h = (case h of (h0, h1, h2, h3, h4) \<Rightarrow>
     unat h0 < 67108864 \<and> unat h1 < 67108864 + 64 \<and> unat h2 < 67108864 \<and> unat h3 < 67108864 \<and> unat h4 < 67108864)"

lemma digits: "n = n mod 67108864 + 67108864 * (n div 67108864 mod 67108864 +
    67108864 * (n div 4503599627370496 mod 67108864 + 67108864 * (n div 302231454903657293676544 mod 67108864 +
    67108864 * (n div 20282409603651670423947251286016))))" for n :: nat
proof -
  let ?B = "67108864 :: nat"
  define a where "a = n div ?B" define b where "b = a div ?B" define c where "c = b div ?B" define d where "d = c div ?B"
  have "n div 4503599627370496 = b" "n div 302231454903657293676544 = c" "n div 20282409603651670423947251286016 = d"
    by (simp_all add: a_def b_def c_def d_def flip: div_mult2_eq)
  moreover have "n = n mod ?B + ?B * a" "a = a mod ?B + ?B * b" "b = b mod ?B + ?B * c" "c = c mod ?B + ?B * d"
    by (simp_all add: a_def b_def c_def d_def)
  ultimately show ?thesis by (simp add: a_def [symmetric])
qed

lemma window_26:
  "a mod 4294967296 mod 67108864 = a mod 67108864"
  "a mod 4294967296 div 4 mod 67108864 = a div 4 mod 67108864"
  "a mod 4294967296 div 16 mod 67108864 = a div 16 mod 67108864"
  "a mod 4294967296 div 64 mod 67108864 = a div 64 mod 67108864" for a :: nat
proof -
  have "take_bit 26 (drop_bit k (take_bit 32 a)) = take_bit 26 (drop_bit k a)" if "k \<le> 6" for k
    using that by (simp add: drop_bit_take_bit)
  from this [of 0] this [of 2] this [of 4] this [of 6] show
    "a mod 4294967296 mod 67108864 = a mod 67108864"
    "a mod 4294967296 div 4 mod 67108864 = a div 4 mod 67108864"
    "a mod 4294967296 div 16 mod 67108864 = a div 16 mod 67108864"
    "a mod 4294967296 div 64 mod 67108864 = a div 64 mod 67108864"
    by (simp_all only: take_bit_eq_mod drop_bit_eq_div) simp_all
qed

lemma message_limbs:
  assumes "length m = 16"
  shows "unat (lc_ld32 m AND 0x3ffffff) = le_num m mod 67108864"
    "unat (drop_bit 2 (lc_ld32 (drop 3 m)) AND 0x3ffffff) = le_num m div 67108864 mod 67108864"
    "unat (drop_bit 4 (lc_ld32 (drop 6 m)) AND 0x3ffffff) = le_num m div 4503599627370496 mod 67108864"
    "unat (drop_bit 6 (lc_ld32 (drop 9 m)) AND 0x3ffffff) = le_num m div 302231454903657293676544 mod 67108864"
    "unat (drop_bit 8 (lc_ld32 (drop 12 m))) = le_num m div 20282409603651670423947251286016"
    "unat (drop_bit 8 (lc_ld32 (drop 12 m))) < 16777216"
proof -
  have n: "le_num m < 340282366920938463463374607431768211456" using le_num_less [of m] assms by simp
  show "unat (lc_ld32 m AND 0x3ffffff) = le_num m mod 67108864"
    using unat_ld32_drop [of 0 m] assms by (simp add: unat_and_26 window_26)
  show "unat (drop_bit 2 (lc_ld32 (drop 3 m)) AND 0x3ffffff) = le_num m div 67108864 mod 67108864"
    using assms by (simp add: unat_and_26 unat_ld32_drop window_26 flip: div_mult2_eq)
  show "unat (drop_bit 4 (lc_ld32 (drop 6 m)) AND 0x3ffffff) = le_num m div 4503599627370496 mod 67108864"
    using assms by (simp add: unat_and_26 unat_ld32_drop window_26 flip: div_mult2_eq)
  show "unat (drop_bit 6 (lc_ld32 (drop 9 m)) AND 0x3ffffff) = le_num m div 302231454903657293676544 mod 67108864"
    using assms by (simp add: unat_and_26 unat_ld32_drop window_26 flip: div_mult2_eq)
  have "le_num m div 79228162514264337593543950336 < 4294967296"
    using n by (simp add: less_mult_imp_div_less)
  then show four: "unat (drop_bit 8 (lc_ld32 (drop 12 m))) = le_num m div 20282409603651670423947251286016"
    using assms by (simp add: unat_ld32_drop flip: div_mult2_eq)
  show "unat (drop_bit 8 (lc_ld32 (drop 12 m))) < 16777216"
    unfolding four using n by (simp add: less_mult_imp_div_less)
qed

definition limbs_below :: "nat \<Rightarrow> limbs \<Rightarrow> bool" where
  "limbs_below n h = (case h of (h0, h1, h2, h3, h4) \<Rightarrow>
     unat h0 < n \<and> unat h1 < n \<and> unat h2 < n \<and> unat h3 < n \<and> unat h4 < n)"

lemma or_24: "unat (x :: u32) < 16777216 \<Longrightarrow> x OR 0x1000000 = x + 0x1000000"
proof (rule or_plus, rule bit_word_eqI)
  fix n
  assume "unat x < 16777216"
  then have "take_bit 24 (unat x) = unat x" by (simp add: take_bit_nat_eq_self_iff)
  then have "\<not> bit (unat x) 24" by (metis bit_take_bit_iff less_irrefl)
  then have "\<not> bit x 24" by (simp add: bit_unsigned_iff)
  moreover have "bit (0x1000000 :: u32) n \<longleftrightarrow> n = 24"
  proof -
    have "(0x1000000 :: u32) = 2 ^ 24" by simp
    then show ?thesis by (simp only: bit_exp_iff) auto
  qed
  ultimately show "bit (x AND 0x1000000) n = bit (0 :: u32) n" by (auto simp: bit_and_iff)
qed

lemma limb_sums:
  "a0 + b0 + 67108864 * (a1 + b1 + 67108864 * (a2 + b2 + 67108864 * (a3 + b3 + 67108864 * (a4 + (b4 + t))))) =
   a0 + 67108864 * (a1 + 67108864 * (a2 + 67108864 * (a3 + 67108864 * a4))) +
   (b0 + 67108864 * (b1 + 67108864 * (b2 + 67108864 * (b3 + 67108864 * b4))) + 20282409603651670423947251286016 * t)"
  for t :: nat
  by (simp add: algebra_simps)

text \<open>Adding a block: the accumulator grows by the number of the block, with one bit above it.\<close>

lemma add_block:
  assumes "length m = 16" "limbs_ok h" "hibit = 0 \<or> hibit = 0x1000000"
  shows "val (poly_add_block hibit m h) = val h + (le_num m + (if hibit = 0 then 0 else 340282366920938463463374607431768211456)) \<and>
    limbs_below 134217792 (poly_add_block hibit m h)"
proof -
  obtain h0 h1 h2 h3 h4 where h: "h = (h0, h1, h2, h3, h4)" by (cases h) auto
  note M = message_limbs [OF assms(1)]
  have b: "unat h0 < 67108864" "unat h1 < 67108928" "unat h2 < 67108864" "unat h3 < 67108864" "unat h4 < 67108864"
    using assms(2) by (simp_all add: limbs_ok_def h)
  let ?m0 = "lc_ld32 m AND 0x3ffffff" and ?m1 = "drop_bit 2 (lc_ld32 (drop 3 m)) AND 0x3ffffff"
  let ?m2 = "drop_bit 4 (lc_ld32 (drop 6 m)) AND 0x3ffffff" and ?m3 = "drop_bit 6 (lc_ld32 (drop 9 m)) AND 0x3ffffff"
  let ?m4 = "drop_bit 8 (lc_ld32 (drop 12 m))"
  have lt: "unat ?m0 < 67108864" "unat ?m1 < 67108864" "unat ?m2 < 67108864" "unat ?m3 < 67108864"
    unfolding unat_and_26 by simp_all
  have top: "unat (?m4 OR hibit) = unat ?m4 + unat hibit"
  proof (cases "hibit = 0")
    case False
    then have hb: "hibit = 0x1000000" using assms(3) by simp
    have "unat ?m4 + unat (0x1000000 :: u32) < 4294967296" using M(6) by simp
    from unat_add_32 [OF this] show ?thesis unfolding hb or_24 [OF M(6)] .
  qed simp
  have hb: "unat hibit \<le> 16777216" using assms(3) by auto
  have s: "unat (h0 + ?m0) = unat h0 + unat ?m0" "unat (h1 + ?m1) = unat h1 + unat ?m1"
    "unat (h2 + ?m2) = unat h2 + unat ?m2" "unat (h3 + ?m3) = unat h3 + unat ?m3"
    "unat (h4 + (?m4 OR hibit)) = unat h4 + (unat ?m4 + unat hibit)"
    using b lt M(6) hb top by (simp_all only: unat_add_32)
  have v1: "val (poly_add_block hibit m h) = unat h0 + unat ?m0 + 67108864 * (unat h1 + unat ?m1 +
      67108864 * (unat h2 + unat ?m2 + 67108864 * (unat h3 + unat ?m3 + 67108864 * (unat h4 + (unat ?m4 + unat hibit)))))"
    by (simp only: val_def poly_add_block_def h prod.case s)
  have v0: "val h = unat h0 + 67108864 * (unat h1 + 67108864 * (unat h2 + 67108864 * (unat h3 + 67108864 * unat h4)))"
    by (simp only: val_def h prod.case)
  have n: "le_num m = unat ?m0 + 67108864 * (unat ?m1 + 67108864 * (unat ?m2 + 67108864 * (unat ?m3 + 67108864 * unat ?m4)))"
    using digits [of "le_num m"] by (simp only: M(1-5))
  have v: "val (poly_add_block hibit m h) = val h + (le_num m + 20282409603651670423947251286016 * unat hibit)"
    unfolding v1 n v0 by (rule limb_sums)
  have "limbs_below 134217792 (poly_add_block hibit m h)"
    using b lt M(6) hb by (simp only: limbs_below_def poly_add_block_def h prod.case s) linarith
  with v assms(3) show ?thesis by auto
qed

section \<open>Multiplication\<close>

text \<open>The same chain on numbers.\<close>

definition mul_columns :: "nat \<times> nat \<times> nat \<times> nat \<times> nat \<Rightarrow> nat \<times> nat \<times> nat \<times> nat \<times> nat \<Rightarrow> nat \<times> nat \<times> nat \<times> nat \<times> nat" where
  "mul_columns r h =
     (case r of (r0, r1, r2, r3, r4) \<Rightarrow> case h of (h0, h1, h2, h3, h4) \<Rightarrow>
       (h0 * r0 + h1 * (5 * r4) + h2 * (5 * r3) + h3 * (5 * r2) + h4 * (5 * r1),
        h0 * r1 + h1 * r0 + h2 * (5 * r4) + h3 * (5 * r3) + h4 * (5 * r2),
        h0 * r2 + h1 * r1 + h2 * r0 + h3 * (5 * r4) + h4 * (5 * r3),
        h0 * r3 + h1 * r2 + h2 * r1 + h3 * r0 + h4 * (5 * r4),
        h0 * r4 + h1 * r3 + h2 * r2 + h3 * r1 + h4 * r0))"

definition nval :: "nat \<times> nat \<times> nat \<times> nat \<times> nat \<Rightarrow> nat" where
  "nval h = (case h of (h0, h1, h2, h3, h4) \<Rightarrow>
     h0 + 67108864 * (h1 + 67108864 * (h2 + 67108864 * (h3 + 67108864 * h4))))"

text \<open>The prime \<open>2\<^sup>1\<^sup>3\<^sup>0 - 5\<close>.\<close>

definition poly_p :: nat where
  "poly_p = 1361129467683753853853498429727072845819"

lemma columns_value: "nval r * nval h mod poly_p = nval (mul_columns r h) mod poly_p"
proof -
  obtain r0 r1 r2 r3 r4 where r: "r = (r0, r1, r2, r3, r4)" by (cases r) auto
  obtain h0 h1 h2 h3 h4 where h: "h = (h0, h1, h2, h3, h4)" by (cases h) auto
  have "nval r * nval h = nval (mul_columns r h) +
      poly_p * ((h1 * r4 + h2 * r3 + h3 * r2 + h4 * r1) + 67108864 * ((h2 * r4 + h3 * r3 + h4 * r2) +
        67108864 * ((h3 * r4 + h4 * r3) + 67108864 * (h4 * r4))))"
    by (simp add: r h nval_def mul_columns_def poly_p_def algebra_simps)
  then show ?thesis by simp
qed

definition nlimbs :: "limbs \<Rightarrow> nat \<times> nat \<times> nat \<times> nat \<times> nat" where
  "nlimbs h = (case h of (h0, h1, h2, h3, h4) \<Rightarrow> (unat h0, unat h1, unat h2, unat h3, unat h4))"

lemma val_nval: "val h = nval (nlimbs h)"
  by (simp add: val_def nval_def nlimbs_def split: prod.splits)

text \<open>One carry: the low 26 bits stay, the rest moves to the next column, multiplied by \<open>k\<close> at the end.\<close>

lemma carry_26:
  fixes d :: u64
  assumes "unat d < 288230376151711744"
  shows "unat (ucast (drop_bit 26 d) :: u32) = unat d div 67108864"
    "unat (ucast d AND 0x3ffffff :: u32) = unat d mod 67108864"
    "unat (wide (ucast (drop_bit 26 d))) = unat d div 67108864"
proof -
  have "unat d div 67108864 < 4294967296" using assms by (simp add: less_mult_imp_div_less)
  then show c: "unat (ucast (drop_bit 26 d) :: u32) = unat d div 67108864"
    by (simp add: unsigned_ucast_eq take_bit_nat_eq_self)
  then show "unat (wide (ucast (drop_bit 26 d))) = unat d div 67108864" by simp
  have "unat (ucast d :: u32) = unat d mod 4294967296" by (simp add: unsigned_ucast_eq take_bit_eq_mod)
  then show "unat (ucast d AND 0x3ffffff :: u32) = unat d mod 67108864"
    by (simp only: unat_and_26 window_26)
qed

lemma unat_add_64: "unat a + unat b < 18446744073709551616 \<Longrightarrow> unat (a + b) = unat a + unat (b :: u64)"
  by (simp add: unat_word_ariths)

lemma unat_mult_u32_wide:
  fixes x y :: u32
  shows "unat (wide x * wide y) = unat x * unat y"
proof -
  have "unat x * unat y \<le> 4294967295 * 4294967295"
    using unat_u32_less [of x] unat_u32_less [of y] by (intro mult_le_mono) simp_all
  then show ?thesis by (simp add: unat_word_ariths)
qed

lemma unat_prod5:
  fixes a b c d e v w x y z :: u32
  assumes "unat a * unat v + unat b * unat w + unat c * unat x + unat d * unat y + unat e * unat z < 18446744073709551616"
  shows "unat (wide a * wide v + wide b * wide w + wide c * wide x + wide d * wide y + wide e * wide z) =
    unat a * unat v + unat b * unat w + unat c * unat x + unat d * unat y + unat e * unat z"
  using assms by (simp only: unat_add_64 unat_mult_u32_wide)

text \<open>The multiplication keeps the value modulo \<open>p\<close> and restores the bounds; no column, carry or
  sum wraps.\<close>

lemma mult_bound: "a < m \<Longrightarrow> b < n \<Longrightarrow> a * b \<le> m * n" for a b m n :: nat
  by (intro mult_le_mono) simp_all

lemma carry_sums:
  fixes d0 :: nat
  assumes "d0 = 67108864 * q0 + r0" "d1 + q0 = 67108864 * q1 + r1" "d2 + q1 = 67108864 * q2 + r2"
    "d3 + q2 = 67108864 * q3 + r3" "d4 + q3 = 67108864 * q4 + r4" "r0 + q4 * 5 = 67108864 * q5 + r5"
  shows "nval (d0, d1, d2, d3, d4) = nval (r5, r1 + q5, r2, r3, r4) + poly_p * q4"
proof -
  let ?B = "67108864 :: nat"
  have step: "d + ?B * (e + x) = r + ?B * ((e + q) + x)" if "d = ?B * q + r" for d e x q r
    using that by (simp add: algebra_simps)
  have "nval (d0, d1, d2, d3, d4) = d0 + ?B * (d1 + ?B * (d2 + ?B * (d3 + ?B * (d4 + 0))))" by (simp add: nval_def)
  also have "\<dots> = r0 + ?B * (r1 + ?B * (r2 + ?B * (r3 + ?B * (?B * q4 + r4))))"
    unfolding step [OF assms(1)] step [OF assms(2)] step [OF assms(3)] step [OF assms(4)] assms(5) by simp
  also have "\<dots> = (r0 + q4 * 5) + ?B * (r1 + ?B * (r2 + ?B * (r3 + ?B * r4))) + poly_p * q4"
    by (simp add: poly_p_def algebra_simps)
  also have "\<dots> = nval (r5, r1 + q5, r2, r3, r4) + poly_p * q4"
    unfolding assms(6) by (simp add: nval_def algebra_simps)
  finally show ?thesis .
qed

lemma carry_chain:
  fixes d0 d1 d2 d3 d4 :: nat
  assumes "e1 = d1 + d0 div 67108864" "e2 = d2 + e1 div 67108864" "e3 = d3 + e2 div 67108864"
    "e4 = d4 + e3 div 67108864" "f = d0 mod 67108864 + e4 div 67108864 * 5"
  shows "nval (f mod 67108864, e1 mod 67108864 + f div 67108864, e2 mod 67108864, e3 mod 67108864, e4 mod 67108864) mod poly_p =
    nval (d0, d1, d2, d3, d4) mod poly_p"
proof -
  have q: "n = 67108864 * (n div 67108864) + n mod 67108864" for n :: nat by simp
  show ?thesis
    by (subst carry_sums [of d0 "d0 div 67108864" "d0 mod 67108864" d1 "e1 div 67108864" "e1 mod 67108864" d2
          "e2 div 67108864" "e2 mod 67108864" d3 "e3 div 67108864" "e3 mod 67108864" d4
          "e4 div 67108864" "e4 mod 67108864" "f div 67108864" "f mod 67108864"])
       (simp_all only: q [symmetric] assms [symmetric] mod_mult_self2)
qed

lemma column_bounds:
  fixes h0 h1 h2 h3 h4 r0 r1 r2 r3 r4 :: nat
  assumes "h0 < 134217792" "h1 < 134217792" "h2 < 134217792" "h3 < 134217792" "h4 < 134217792"
    "r0 < 67108864" "r1 < 67108864" "r2 < 67108864" "r3 < 67108864" "r4 < 67108864"
    "mul_columns (r0, r1, r2, r3, r4) (h0, h1, h2, h3, h4) = (d0, d1, d2, d3, d4)"
  shows "d0 < 200000000000000000" "d1 < 200000000000000000" "d2 < 200000000000000000" "d3 < 200000000000000000"
    "d4 < 46000000000000000"
proof -
  have b: "h * r \<le> 9007203549708288" if "h < 134217792" "r < 67108864" for h r :: nat
    using mult_bound [OF that] by simp
  have b5: "h * (5 * r) \<le> 45036017748541440" if "h < 134217792" "r < 67108864" for h r :: nat
    using mult_le_mono2 [OF b [OF that], of 5] by (simp add: mult.left_commute)
  note d = assms(11) [unfolded mul_columns_def prod.case prod.inject]
  note B = b [OF assms(1) assms(6)] b [OF assms(1) assms(7)] b [OF assms(1) assms(8)] b [OF assms(1) assms(9)]
    b [OF assms(1) assms(10)] b [OF assms(2) assms(6)] b [OF assms(2) assms(7)] b [OF assms(2) assms(8)]
    b [OF assms(2) assms(9)] b [OF assms(3) assms(6)] b [OF assms(3) assms(7)] b [OF assms(3) assms(8)]
    b [OF assms(4) assms(6)] b [OF assms(4) assms(7)] b [OF assms(5) assms(6)]
    b5 [OF assms(2) assms(10)] b5 [OF assms(3) assms(9)] b5 [OF assms(4) assms(8)] b5 [OF assms(5) assms(7)]
    b5 [OF assms(3) assms(10)] b5 [OF assms(4) assms(9)] b5 [OF assms(5) assms(8)]
    b5 [OF assms(4) assms(10)] b5 [OF assms(5) assms(9)] b5 [OF assms(5) assms(10)]
  show "d0 < 200000000000000000" using d B(1) B(16-19) by linarith
  show "d1 < 200000000000000000" using d B(2) B(6) B(20-22) by linarith
  show "d2 < 200000000000000000" using d B(3) B(7) B(10) B(23,24) by linarith
  show "d3 < 200000000000000000" using d B(4) B(8) B(11) B(13) B(25) by linarith
  show "d4 < 46000000000000000" using d B(5) B(9) B(12) B(14) B(15) by linarith
qed

lemma unat_times_5: "unat (r :: u32) < 67108864 \<Longrightarrow> unat (r * 5) = 5 * unat r"
  by (simp add: unat_word_ariths)

lemma carry_into:
  fixes x y :: u64
  assumes "unat x < m" "m \<le> 200000000000000000" "unat y < 288230376151711744"
  shows "unat (x + wide (ucast (drop_bit 26 y))) = unat x + unat y div 67108864 \<and>
    unat x + unat y div 67108864 < m + 4294967296"
proof -
  have "unat y div 67108864 < 4294967296" using assms(3) by (simp add: less_mult_imp_div_less)
  then show ?thesis using assms carry_26(3) [OF assms(3)] by (subst unat_add_64) simp_all
qed

lemma poly_mul_correct:
  assumes "limbs_below 67108864 r" "limbs_below 134217792 h"
  shows "limbs_ok (poly_mul r h) \<and> val (poly_mul r h) mod poly_p = val r * val h mod poly_p"
proof -
  obtain r0 r1 r2 r3 r4 where r: "r = (r0, r1, r2, r3, r4)" by (cases r) auto
  obtain h0 h1 h2 h3 h4 where h: "h = (h0, h1, h2, h3, h4)" by (cases h) auto
  have rb: "unat r0 < 67108864" "unat r1 < 67108864" "unat r2 < 67108864" "unat r3 < 67108864" "unat r4 < 67108864"
    using assms(1) by (simp_all add: limbs_below_def r)
  have hb: "unat h0 < 134217792" "unat h1 < 134217792" "unat h2 < 134217792" "unat h3 < 134217792" "unat h4 < 134217792"
    using assms(2) by (simp_all add: limbs_below_def h)
  obtain n0 n1 n2 n3 n4 where n: "mul_columns (nlimbs r) (nlimbs h) = (n0, n1, n2, n3, n4)" by (cases "mul_columns (nlimbs r) (nlimbs h)") auto
  note n' = n [unfolded nlimbs_def r h prod.case]
  note D = column_bounds [OF hb rb n']
  note cols = n' [unfolded mul_columns_def prod.case prod.inject]
  note five = unat_times_5 [OF rb(2)] unat_times_5 [OF rb(3)] unat_times_5 [OF rb(4)] unat_times_5 [OF rb(5)]
  define d0 where "d0 = wide h0 * wide r0 + wide h1 * wide (r4 * 5) + wide h2 * wide (r3 * 5) + wide h3 * wide (r2 * 5) + wide h4 * wide (r1 * 5)"
  define d1 where "d1 = wide h0 * wide r1 + wide h1 * wide r0 + wide h2 * wide (r4 * 5) + wide h3 * wide (r3 * 5) + wide h4 * wide (r2 * 5)"
  define d2 where "d2 = wide h0 * wide r2 + wide h1 * wide r1 + wide h2 * wide r0 + wide h3 * wide (r4 * 5) + wide h4 * wide (r3 * 5)"
  define d3 where "d3 = wide h0 * wide r3 + wide h1 * wide r2 + wide h2 * wide r1 + wide h3 * wide r0 + wide h4 * wide (r4 * 5)"
  define d4 where "d4 = wide h0 * wide r4 + wide h1 * wide r3 + wide h2 * wide r2 + wide h3 * wide r1 + wide h4 * wide r0"
  have d: "unat d0 = n0" "unat d1 = n1" "unat d2 = n2" "unat d3 = n3" "unat d4 = n4"
    unfolding d0_def d1_def d2_def d3_def d4_def
    using D cols five by (subst unat_prod5, simp_all)+
  define e1 where "e1 = d1 + wide (ucast (drop_bit 26 d0))"
  define e2 where "e2 = d2 + wide (ucast (drop_bit 26 e1))"
  define e3 where "e3 = d3 + wide (ucast (drop_bit 26 e2))"
  define e4 where "e4 = d4 + wide (ucast (drop_bit 26 e3))"
  define f where "f = (ucast d0 AND 0x3ffffff) + ucast (drop_bit 26 e4) * (5 :: u32)"
  have b0: "unat d0 < 288230376151711744" using d D by simp
  note E1 = carry_into [of d1 200000000000000000 d0, folded e1_def]
  have e1: "unat e1 = n1 + n0 div 67108864" "unat e1 < 288230376151711744" using E1 d D b0 by simp_all
  note E2 = carry_into [of d2 200000000000000000 e1, folded e2_def]
  have e2: "unat e2 = n2 + unat e1 div 67108864" "unat e2 < 288230376151711744" using E2 d D e1(2) by simp_all
  note E3 = carry_into [of d3 200000000000000000 e2, folded e3_def]
  have e3: "unat e3 = n3 + unat e2 div 67108864" "unat e3 < 288230376151711744" using E3 d D e2(2) by simp_all
  note E4 = carry_into [of d4 46000000000000000 e3, folded e4_def]
  have e4: "unat e4 = n4 + unat e3 div 67108864" "unat e4 < 46000004294967296" using E4 d D e3(2) by simp_all
  have b4: "unat e4 < 288230376151711744" using e4(2) by simp
  have q4: "unat e4 div 67108864 < 685453500" using e4(2) by (simp add: less_mult_imp_div_less)
  have f5: "unat (ucast (drop_bit 26 e4) * (5 :: u32)) = unat e4 div 67108864 * 5"
    using q4 carry_26(1) [OF b4] by (simp add: unat_word_ariths)
  have f: "unat f = n0 mod 67108864 + unat e4 div 67108864 * 5"
    unfolding f_def using q4 f5 carry_26(2) [OF b0] d(1) mod_less_divisor [of 67108864 n0] by (subst unat_add_32) simp_all
  have fq: "unat f div 67108864 < 64"
    unfolding f using q4 mod_less_divisor [of 67108864 n0] by (intro less_mult_imp_div_less) simp
  have res: "poly_mul r h = (f AND 0x3ffffff, (ucast e1 AND 0x3ffffff) + drop_bit 26 f, ucast e2 AND 0x3ffffff,
      ucast e3 AND 0x3ffffff, ucast e4 AND 0x3ffffff)"
    by (simp only: poly_mul_def r h prod.case Let_def d0_def d1_def d2_def d3_def d4_def e1_def e2_def e3_def e4_def f_def)
  have last: "unat ((ucast e1 AND 0x3ffffff) + drop_bit 26 f) = unat e1 mod 67108864 + unat f div 67108864"
    using carry_26(2) [OF e1(2)] fq mod_less_divisor [of 67108864 "unat e1"] by (subst unat_add_32) simp_all
  have nl: "nlimbs (poly_mul r h) = (unat f mod 67108864, unat e1 mod 67108864 + unat f div 67108864,
      unat e2 mod 67108864, unat e3 mod 67108864, unat e4 mod 67108864)"
    unfolding nlimbs_def res prod.case last carry_26(2) [OF e2(2)] carry_26(2) [OF e3(2)] carry_26(2) [OF b4]
    unfolding unat_and_26 by (rule refl)
  have "val (poly_mul r h) mod poly_p = nval (n0, n1, n2, n3, n4) mod poly_p"
    unfolding val_nval nl by (rule carry_chain [OF e1(1) e2(1) e3(1) e4(1) f])
  also have "\<dots> = val r * val h mod poly_p"
    unfolding val_nval n [symmetric] by (rule columns_value [symmetric])
  finally have v: "val (poly_mul r h) mod poly_p = val r * val h mod poly_p" .
  have "limbs_ok (poly_mul r h)"
    using nl fq by (simp add: limbs_ok_def nlimbs_def split: prod.splits)
  with v show ?thesis by blast
qed

end
