(* ===== verification/Poly1305_Stream.thy ===== *)
theory Poly1305_Stream
  imports Poly1305_Limbs
begin

text \<open>
  The reference of the authenticator, a polynomial over the sixteen-byte blocks of the message read as
  little-endian numbers with a one above them, and the state of the code after any sequence of
  updates: it depends on the bytes alone and not on how they were cut.
\<close>

section \<open>The reference\<close>

fun le_bytes :: "nat \<Rightarrow> nat \<Rightarrow> bytes" where
  "le_bytes 0 n = []"
| "le_bytes (Suc k) n = of_nat (n mod 256) # le_bytes k (n div 256)"

lemma le_bytes_le_num: "le_bytes (length bs) (le_num bs) = bs"
proof (induction bs)
  case (Cons b bs)
  then show ?case using unat_u8_less [of b] by (simp flip: of_nat_add)
qed simp

definition poly_clamp :: "nat \<Rightarrow> nat" where
  "poly_clamp n = n AND 0x0ffffffc0ffffffc0ffffffc0fffffff"

function poly_eval :: "nat \<Rightarrow> bytes \<Rightarrow> nat \<Rightarrow> nat" where
  "poly_eval r m a =
     (if m = [] then a else poly_eval r (drop 16 m) ((a + le_num (take 16 m @ [1])) * r mod poly_p))"
  by pat_completeness auto

termination
  by (relation "measure (\<lambda>(_, m, _). length m)") auto

declare poly_eval.simps [simp del]

definition poly1305_tag :: "bytes \<Rightarrow> bytes \<Rightarrow> bytes" where
  "poly1305_tag key m =
     le_bytes 16 (poly_eval (poly_clamp (le_num (take 16 key))) m 0 + le_num (take 16 (drop 16 key)))"

lemma le_bytes_mod: "le_bytes k (n mod 256 ^ k) = le_bytes k n"
proof (induction k arbitrary: n)
  case (Suc k)
  have "n mod (256 * 256 ^ k) = 256 * (n div 256 mod 256 ^ k) + n mod 256" by (simp only: mod_mult2_eq)
  then have "n mod (256 * 256 ^ k) div 256 = n div 256 mod 256 ^ k" "n mod (256 * 256 ^ k) mod 256 = n mod 256"
    by simp_all
  then show ?case by (simp add: Suc.IH)
qed simp

section \<open>The clamped key\<close>

lemma nat_and_digits: "n AND 0x0ffffffc0ffffffc0ffffffc0fffffff =
    (n mod 67108864 AND 0x3ffffff) + 67108864 * ((n div 67108864 mod 67108864 AND 0x3ffff03) +
    67108864 * ((n div 4503599627370496 mod 67108864 AND 0x3ffc0ff) + 67108864 * (
      (n div 302231454903657293676544 mod 67108864 AND 0x3f03fff) +
    67108864 * (n div 20282409603651670423947251286016 AND 0x00fffff))))" for n :: nat
proof -
  let ?c = "0x0ffffffc0ffffffc0ffffffc0fffffff :: nat"
  have w: "(n AND ?c) div 2 ^ k mod 67108864 = (n div 2 ^ k mod 67108864) AND (?c div 2 ^ k mod 67108864)" for k
  proof -
    have "take_bit 26 (drop_bit k (n AND ?c)) = take_bit 26 (drop_bit k n) AND take_bit 26 (drop_bit k ?c)"
      by (simp only: drop_bit_and take_bit_and)
    then show ?thesis by (simp only: take_bit_eq_mod drop_bit_eq_div) simp
  qed
  have t: "(n AND ?c) div 2 ^ 104 = n div 2 ^ 104 AND (?c div 2 ^ 104)"
    using drop_bit_and [of 104 n ?c] by (simp only: drop_bit_eq_div)
  show ?thesis using w [of 0] w [of 26] w [of 52] w [of 78] t by (subst digits) simp
qed

lemma unat_and: "unat (x AND y) = unat x AND unat (y :: u32)"
  by (rule unsigned_and_eq)

lemma init_limbs:
  assumes "16 \<le> length key"
  shows "val (lp_r (lc_poly_init key)) = poly_clamp (le_num (take 16 key))"
    "limbs_below 67108864 (lp_r (lc_poly_init key))"
proof -
  let ?k = "take 16 key"
  have l: "length ?k = 16" using assms by simp
  note M = message_limbs [OF l]
  have ld: "lc_ld32 (drop i key) = lc_ld32 (drop i ?k)" if "i \<le> 12" for i
    using that assms by (simp add: lc_ld32_def)
  have mask: "x AND 0x3ffff03 = (x AND 0x3ffffff) AND 0x3ffff03" "x AND 0x3ffc0ff = (x AND 0x3ffffff) AND 0x3ffc0ff"
    "x AND 0x3f03fff = (x AND 0x3ffffff) AND 0x3f03fff" for x :: u32
    by (simp_all add: and.assoc)
  have r: "lp_r (lc_poly_init key) =
      (lc_ld32 ?k AND 0x3ffffff, (drop_bit 2 (lc_ld32 (drop 3 ?k)) AND 0x3ffffff) AND 0x3ffff03,
       (drop_bit 4 (lc_ld32 (drop 6 ?k)) AND 0x3ffffff) AND 0x3ffc0ff,
       (drop_bit 6 (lc_ld32 (drop 9 ?k)) AND 0x3ffffff) AND 0x3f03fff,
       drop_bit 8 (lc_ld32 (drop 12 ?k)) AND 0x00fffff)"
    using ld [of 0] ld [of 3] ld [of 6] ld [of 9] ld [of 12]
    by (simp only: lc_poly_init_def lc_poly.simps mask [symmetric]) simp
  have m0: "lc_ld32 ?k AND 0x3ffffff = (lc_ld32 ?k AND 0x3ffffff) AND 0x3ffffff" by (simp add: and.assoc)
  show "val (lp_r (lc_poly_init key)) = poly_clamp (le_num ?k)"
    unfolding r val_def prod.case poly_clamp_def
    by (subst m0) (simp only: unat_and [of "_ AND 0x3ffffff"] unat_and [of "drop_bit 8 _"] M nat_and_digits, simp)
  show "limbs_below 67108864 (lp_r (lc_poly_init key))"
  proof -
    have le: "unat (x AND y) \<le> unat y" for x y :: u32 using word_and_le1 [of x y] by (simp add: word_le_nat_alt)
    have "unat (x AND 0x3ffffff) < 67108864" "unat (x AND 0x3ffff03) < 67108864" "unat (x AND 0x3ffc0ff) < 67108864"
      "unat (x AND 0x3f03fff) < 67108864" "unat (x AND 0x00fffff) < 67108864" for x :: u32
      by (rule le_less_trans [OF le], simp)+
    then show ?thesis by (simp only: limbs_below_def lc_poly_init_def lc_poly.simps prod.case)
  qed
qed

section \<open>The loop\<close>

lemma add_block_take: "16 \<le> length m \<Longrightarrow> poly_add_block hibit (take 16 m) h = poly_add_block hibit m h"
  by (simp add: poly_add_block_def lc_ld32_def)

lemma poly_loop_append:
  assumes "16 dvd length xs"
  shows "poly_loop r hibit (xs @ ys) h = poly_loop r hibit ys (poly_loop r hibit xs h)"
  using assms
proof (induction r hibit xs h rule: poly_loop.induct)
  case (1 r hibit m h)
  show ?case
  proof (cases "16 \<le> length m")
    case True
    then have ab: "poly_add_block hibit (m @ ys) h = poly_add_block hibit m h"
      using add_block_take [of m hibit h] add_block_take [of "m @ ys" hibit h] by simp
    from True "1.prems" have "16 dvd length (drop 16 m)" by (simp add: dvd_diff_nat)
    then show ?thesis using True "1.IH" by (simp add: poly_loop.simps [of _ _ m] poly_loop.simps [of _ _ "m @ ys"] ab)
  next
    case False
    with "1.prems" have "m = []" by (auto dest: dvd_imp_le)
    then show ?thesis by (simp add: poly_loop.simps [of _ _ "[]"])
  qed
qed

lemma poly_eval_append:
  assumes "16 dvd length xs"
  shows "poly_eval r (xs @ ys) a = poly_eval r ys (poly_eval r xs a)"
  using assms
proof (induction r xs a rule: poly_eval.induct)
  case (1 r m a)
  show ?case
  proof (cases "m = []")
    case False
    with "1.prems" have l: "16 \<le> length m" by (auto dest: dvd_imp_le)
    with "1.prems" have "16 dvd length (drop 16 m)" by (simp add: dvd_diff_nat)
    then show ?thesis using False l "1.IH" by (simp add: poly_eval.simps [of _ m] poly_eval.simps [of _ "m @ ys"])
  qed (simp add: poly_eval.simps [of _ "[]"])
qed

lemma poly_loop_one: "length c = 16 \<Longrightarrow> poly_loop r hibit c h = poly_mul r (poly_add_block hibit c h)"
  by (simp add: poly_loop.simps [of _ _ c] poly_loop.simps [of _ _ "[]"])

lemma block_step:
  assumes "length m = 16" "limbs_ok h" "hibit = 0 \<or> hibit = 0x1000000" "limbs_below 67108864 r"
  shows "limbs_ok (poly_mul r (poly_add_block hibit m h)) \<and>
    val (poly_mul r (poly_add_block hibit m h)) mod poly_p =
      (val h mod poly_p + (le_num m + (if hibit = 0 then 0 else 340282366920938463463374607431768211456))) * val r mod poly_p"
proof -
  let ?a = "le_num m + (if hibit = 0 then 0 else 340282366920938463463374607431768211456)"
  have "(v mod poly_p + a) * r mod poly_p = r * (v + a) mod poly_p" for v a r :: nat
    by (metis mod_add_left_eq mod_mult_right_eq mult.commute)
  then show ?thesis
    using add_block [OF assms(1-3)] poly_mul_correct [OF assms(4), of "poly_add_block hibit m h"] by simp
qed

text \<open>On whole blocks the loop is the evaluation of the polynomial.\<close>

lemma poly_loop_eval:
  assumes "16 dvd length m" "limbs_ok h" "limbs_below 67108864 r"
  shows "limbs_ok (poly_loop r 0x1000000 m h) \<and>
    val (poly_loop r 0x1000000 m h) mod poly_p = poly_eval (val r) m (val h mod poly_p)"
  using assms
proof (induction r "0x1000000 :: u32" m h rule: poly_loop.induct)
  case (1 r m h)
  show ?case
  proof (cases "16 \<le> length m")
    case True
    let ?h = "poly_mul r (poly_add_block 0x1000000 m h)"
    have t: "length (take 16 m) = 16" using True by simp
    have ab: "poly_add_block 0x1000000 (take 16 m) h = poly_add_block 0x1000000 m h"
      using True by (rule add_block_take)
    have b: "limbs_ok ?h \<and> val ?h mod poly_p = (val h mod poly_p + le_num (take 16 m @ [1])) * val r mod poly_p"
      using block_step [OF t "1.prems"(2) _ "1.prems"(3), of "0x1000000"] t by (simp add: ab le_num_append)
    have d: "16 dvd length (drop 16 m)" using True "1.prems"(1) by (simp add: dvd_diff_nat)
    have ne: "m \<noteq> []" using True by auto
    show ?thesis
      using "1.hyps" [OF True d _ "1.prems"(3)] b True ne
      by (simp add: poly_loop.simps [of r _ m] poly_eval.simps [of "val r" m])
  next
    case False
    with "1.prems"(1) have "m = []" by (auto dest: dvd_imp_le)
    then show ?thesis using "1.prems"(2) by (simp add: poly_loop.simps [of _ _ "[]"] poly_eval.simps [of _ "[]"])
  qed
qed

section \<open>Streaming\<close>

text \<open>The state after the message \<open>m\<close> has been fed in, however it was cut.\<close>

definition poly_state :: "bytes \<Rightarrow> bytes \<Rightarrow> lc_poly" where
  "poly_state key m =
     (let k = length m - length m mod 16
      in (lc_poly_init key)\<lparr>lp_h := poly_loop (lp_r (lc_poly_init key)) 0x1000000 (take k m) (0, 0, 0, 0, 0),
                           lp_buf := drop k m\<rparr>)"

lemma poly_state_Nil: "poly_state key [] = lc_poly_init key"
  by (simp add: poly_state_def poly_loop.simps [of _ _ "[]"] lc_poly_init_def)

lemma poly_state_split:
  assumes "16 dvd length xs" "length ys < 16"
  shows "poly_state key (xs @ ys) =
    (lc_poly_init key)\<lparr>lp_h := poly_loop (lp_r (lc_poly_init key)) 0x1000000 xs (0, 0, 0, 0, 0), lp_buf := ys\<rparr>"
proof -
  have "(length xs + length ys) mod 16 = length ys" using assms by (auto elim!: dvdE)
  then show ?thesis by (simp add: poly_state_def Let_def)
qed

lemma update_rest:
  assumes "16 dvd length xs"
  shows "poly_update_rest m (poly_state key xs) = poly_state key (xs @ m)"
proof -
  let ?k = "length m - length m mod 16"
  have k: "16 dvd ?k" by (simp add: dvd_minus_mod)
  have s: "poly_state key (xs @ m) = poly_state key ((xs @ take ?k m) @ drop ?k m)" by simp
  have d: "16 dvd length (xs @ take ?k m)" using dvd_add [OF assms k] by simp
  have l: "length (drop ?k m) < 16" by simp
  note S = poly_state_split [OF d l, of key] poly_state_split [OF assms, of "[]" key]
  show ?thesis
  proof (cases "16 \<le> length m")
    case True
    show ?thesis unfolding s S(1) poly_update_rest_def using S(2) True
      by (simp add: Let_def lc_poly_blocks_def lc_poly_init_def poly_loop_append [OF assms])
  next
    case False
    then show ?thesis unfolding s S(1) poly_update_rest_def using S(2)
      by (simp add: Let_def lc_poly_init_def)
  qed
qed

lemma split16: obtains a b where "m = a @ b" "16 dvd length a" "length b < (16 :: nat)"
proof
  let ?k = "length m - length m mod 16"
  show "m = take ?k m @ drop ?k m" "16 dvd length (take ?k m)" "length (drop ?k m) < 16"
    by (simp_all add: dvd_minus_mod)
qed

lemma update_state: "lc_poly_update m (poly_state key xs) = poly_state key (xs @ m)"
proof -
  obtain a b where xs: "xs = a @ b" and a: "16 dvd length a" and b: "length b < 16" by (rule split16)
  note S = poly_state_split [OF a b, of key]
  show ?thesis
  proof (cases "b = []")
    case True
    then have "lp_buf (poly_state key xs) = []" using S by (simp add: xs)
    then show ?thesis using update_rest a True by (simp add: lc_poly_update_def xs)
  next
    case False
    let ?w = "min (16 - length b) (length m)"
    show ?thesis
    proof (cases "length (b @ take ?w m) < 16")
      case True
      then have w: "take ?w m = m" and l: "length (b @ m) < 16" using b by auto
      have "lc_poly_update m (poly_state key xs) = (poly_state key xs)\<lparr>lp_buf := b @ m\<rparr>"
        using False True w by (simp add: lc_poly_update_def xs S Let_def)
      then show ?thesis using poly_state_split [OF a l, of key] S by (simp add: xs)
    next
      case full: False
      let ?c = "b @ take ?w m"
      have c: "length ?c = 16" using full b by auto
      then have d: "16 dvd length (a @ ?c)" using a by (simp only: length_append [of a]) simp
      have e: "xs @ m = (a @ ?c) @ drop ?w m" by (simp only: xs append_assoc append_take_drop_id)
      have "lc_poly_update m (poly_state key xs) =
          poly_update_rest (drop ?w m) (lc_poly_blocks (poly_state key xs) ?c\<lparr>lp_buf := []\<rparr>)"
        using False c by (simp add: lc_poly_update_def xs S Let_def)
      also have "lc_poly_blocks (poly_state key xs) ?c\<lparr>lp_buf := []\<rparr> = poly_state key (a @ ?c)"
        using poly_state_split [OF d, of "[]" key]
        by (simp add: lc_poly_blocks_def xs S poly_loop_append [OF a] lc_poly_init_def)
      also have "poly_update_rest (drop ?w m) \<dots> = poly_state key (xs @ m)" unfolding e by (rule update_rest [OF d])
      finally show ?thesis .
    qed
  qed
qed

lemma update_stream: "fold lc_poly_update chunks (lc_poly_init key) = poly_state key (concat chunks)"
proof -
  have "fold lc_poly_update chunks (poly_state key xs) = poly_state key (xs @ concat chunks)" for xs
    by (induction chunks arbitrary: xs) (simp_all add: update_state)
  from this [of "[]"] show ?thesis by (simp add: poly_state_Nil)
qed

section \<open>The last block\<close>

definition poly_last :: "lc_poly \<Rightarrow> limbs" where
  "poly_last st =
     lp_h (if lp_buf st \<noteq> []
           then lc_poly_blocks (st\<lparr>lp_final := True\<rparr>) (lp_buf st @ 1 # replicate (15 - length (lp_buf st)) 0) else st)"

lemma last_block:
  assumes "16 \<le> length key"
  shows "limbs_ok (poly_last (poly_state key m)) \<and>
    val (poly_last (poly_state key m)) mod poly_p = poly_eval (poly_clamp (le_num (take 16 key))) m 0"
proof -
  let ?k = "length m - length m mod 16"
  let ?a = "take ?k m" and ?b = "drop ?k m"
  let ?r = "lp_r (lc_poly_init key)" and ?z = "(0, 0, 0, 0, 0) :: limbs"
  have a: "16 dvd length ?a" by (simp add: dvd_minus_mod)
  have b: "length ?b < 16" by simp
  note R = init_limbs [OF assms]
  have z: "limbs_ok ?z" "val ?z mod poly_p = 0" by (simp_all add: limbs_ok_def val_def)
  note L = poly_loop_eval [OF a z(1) R(2), unfolded z(2) R(1)]
  have st: "poly_state key m = poly_state key (?a @ ?b)" by simp
  note S = poly_state_split [OF a b, of key]
  have m: "poly_eval r m 0 = poly_eval r ?b (poly_eval r ?a 0)" for r
    using poly_eval_append [OF a, of r ?b 0] by simp
  let ?h = "poly_loop ?r 0x1000000 ?a ?z"
  show "limbs_ok (poly_last (poly_state key m)) \<and>
    val (poly_last (poly_state key m)) mod poly_p = poly_eval (poly_clamp (le_num (take 16 key))) m 0"
  proof (cases "?b = []")
    case True
    have "poly_last (poly_state key m) = ?h" unfolding st S poly_last_def using True by simp
    then show ?thesis
      using L unfolding m [of "poly_clamp _"] True by (simp_all add: poly_eval.simps [of _ "[]"])
  next
    case False
    let ?c = "?b @ 1 # replicate (15 - length ?b) 0"
    have c: "length ?c = 16" using b by simp
    have "poly_last (poly_state key m) = poly_loop ?r 0 ?c ?h" unfolding st S poly_last_def using False
      by (simp add: lc_poly_blocks_def)
    also have "\<dots> = poly_mul ?r (poly_add_block 0 ?c ?h)"
      by (rule poly_loop_one [OF c])
    finally have e: "poly_last (poly_state key m) = poly_mul ?r (poly_add_block 0 ?c ?h)" .
    have B: "limbs_ok (poly_mul ?r (poly_add_block 0 ?c ?h)) \<and> val (poly_mul ?r (poly_add_block 0 ?c ?h)) mod poly_p =
        (val ?h mod poly_p + le_num ?c) * val ?r mod poly_p"
      using block_step [OF c, of ?h 0 ?r] L R(2) by simp
    have "le_num ?c = le_num (?b @ [1])" by (simp add: le_num_append)
    moreover have "poly_eval r ?b x = (x + le_num (?b @ [1])) * r mod poly_p" for r x
      using False b by (simp add: poly_eval.simps [of _ ?b] poly_eval.simps [of _ "[]"])
    ultimately show ?thesis
      unfolding e using B L unfolding m [of "poly_clamp _"] by (simp_all add: R(1))
  qed
qed

end
