(* ===== verification/Poly1305_Claims.thy ===== *)
theory Poly1305_Claims
  imports Poly1305_Stream
begin

text \<open>
  The end of the authenticator: \<^verbatim>\<open>lc_poly_finish\<close> reduces the accumulator completely, adds the pad and
  writes sixteen bytes, so that the whole computation is the reference of Poly1305_Stream.
\<close>

section \<open>The final reduction\<close>

text \<open>A carry on limbs of 32 bits.\<close>

lemma carry_step:
  fixes x c :: u32
  assumes "unat x < 134217728" "unat c \<le> 67108864"
  shows "unat (x + c) = unat x + unat c"
  using assms by (subst unat_add_32) simp_all

lemma unat_and_26': "unat ((x :: u32) AND 0x3ffffff) = unat x mod 67108864" "unat (drop_bit 26 x :: u32) = unat x div 67108864"
  by (simp only: unat_and_26) simp

definition poly_carry :: "limbs \<Rightarrow> limbs" where
  "poly_carry h =
     (case h of (h0, h1, h2, h3, h4) \<Rightarrow>
      let c = drop_bit 26 h1; h1 = h1 AND 0x3ffffff; h2 = h2 + c; c = drop_bit 26 h2; h2 = h2 AND 0x3ffffff;
          h3 = h3 + c; c = drop_bit 26 h3; h3 = h3 AND 0x3ffffff; h4 = h4 + c; c = drop_bit 26 h4;
          h4 = h4 AND 0x3ffffff; h0 = h0 + c * 5; c = drop_bit 26 h0; h0 = h0 AND 0x3ffffff; h1 = h1 + c
      in (h0, h1, h2, h3, h4))"

text \<open>The same carries over numbers.\<close>

lemma carry_once:
  fixes h0 h1 h2 h3 h4 :: nat
  assumes "h0 < 67108864" "h1 < 67108928" "h2 < 67108864" "h3 < 67108864" "h4 < 67108864"
    "e2 = h2 + h1 div 67108864" "e3 = h3 + e2 div 67108864" "e4 = h4 + e3 div 67108864" "f = h0 + e4 div 67108864 * 5"
  shows "nval (f mod 67108864, h1 mod 67108864 + f div 67108864, e2 mod 67108864, e3 mod 67108864, e4 mod 67108864) mod poly_p =
      nval (h0, h1, h2, h3, h4) mod poly_p"
    "h1 mod 67108864 + f div 67108864 < 67108864"
    "e2 \<le> 67108864" "e3 \<le> 67108864" "e4 \<le> 67108864" "f < 67108869"
proof -
  have q: "h1 div 67108864 \<le> 1" using assms(2) by (simp add: less_Suc_eq_le [symmetric] less_mult_imp_div_less)
  show e2: "e2 \<le> 67108864" using assms(3,6) q by simp
  then have q2: "e2 div 67108864 \<le> 1" by (simp add: less_Suc_eq_le [symmetric] less_mult_imp_div_less)
  show e3: "e3 \<le> 67108864" using assms(4,7) q2 by simp
  then have q3: "e3 div 67108864 \<le> 1" by (simp add: less_Suc_eq_le [symmetric] less_mult_imp_div_less)
  show e4: "e4 \<le> 67108864" using assms(5,8) q3 by simp
  then have q4: "e4 div 67108864 \<le> 1" by (simp add: less_Suc_eq_le [symmetric] less_mult_imp_div_less)
  show f: "f < 67108869" using assms(1,9) q4 by simp
  then have qf: "f div 67108864 \<le> 1" by (simp add: less_Suc_eq_le [symmetric] less_mult_imp_div_less)
  show "h1 mod 67108864 + f div 67108864 < 67108864"
  proof (cases "f < 67108864")
    case False
    then have "e4 div 67108864 \<noteq> 0" using assms(1,9) by auto
    then have "e3 div 67108864 \<noteq> 0" using assms(5,8) by (auto simp: div_eq_0_iff)
    then have "e2 div 67108864 \<noteq> 0" using assms(4,7) by (auto simp: div_eq_0_iff)
    then have "h1 div 67108864 \<noteq> 0" using assms(3,6) by (auto simp: div_eq_0_iff)
    then have "67108864 \<le> h1" by (simp add: div_eq_0_iff)
    then have "h1 mod 67108864 < 64" using assms(2) by (simp add: le_mod_geq)
    then show ?thesis using qf by simp
  qed simp
  have "nval (h0, h1, h2, h3, h4) = nval (f mod 67108864, h1 mod 67108864 + f div 67108864, e2 mod 67108864, e3 mod 67108864, e4 mod 67108864)
      + poly_p * (e4 div 67108864)"
  proof (rule carry_sums [where ?q0.0 = 0 and ?q1.0 = "h1 div 67108864" and ?q2.0 = "e2 div 67108864" and ?q3.0 = "e3 div 67108864"])
  qed (simp_all add: assms)
  then show "nval (f mod 67108864, h1 mod 67108864 + f div 67108864, e2 mod 67108864, e3 mod 67108864, e4 mod 67108864) mod poly_p =
      nval (h0, h1, h2, h3, h4) mod poly_p" by simp
qed


lemma poly_carry_correct:
  assumes "limbs_ok h"
  shows "limbs_below 67108864 (poly_carry h) \<and> val (poly_carry h) mod poly_p = val h mod poly_p"
proof -
  obtain h0 h1 h2 h3 h4 where h: "h = (h0, h1, h2, h3, h4)" by (cases h) auto
  have b: "unat h0 < 67108864" "unat h1 < 67108928" "unat h2 < 67108864" "unat h3 < 67108864" "unat h4 < 67108864"
    using assms by (simp_all add: limbs_ok_def h)
  define e2 where "e2 = h2 + drop_bit 26 h1"
  define e3 where "e3 = h3 + drop_bit 26 e2"
  define e4 where "e4 = h4 + drop_bit 26 e3"
  define f where "f = h0 + drop_bit 26 e4 * 5"
  have small: "unat (drop_bit 26 x) \<le> 64" for x :: u32
    using unat_u32_less [of x] by (simp add: less_Suc_eq_le [symmetric] less_mult_imp_div_less)
  have e2: "unat e2 = unat h2 + unat h1 div 67108864" unfolding e2_def using b small [of h1] by (subst unat_add_32) simp_all
  have e3: "unat e3 = unat h3 + unat e2 div 67108864" unfolding e3_def using b small [of e2] by (subst unat_add_32) simp_all
  have e4: "unat e4 = unat h4 + unat e3 div 67108864" unfolding e4_def using b small [of e3] by (subst unat_add_32) simp_all
  have five: "unat (drop_bit 26 e4 * 5) = unat e4 div 67108864 * 5"
    using small [of e4] by (simp add: unat_word_ariths)
  have f: "unat f = unat h0 + unat e4 div 67108864 * 5"
    unfolding f_def using b(1) small [of e4] five by (subst unat_add_32) simp_all
  note C = carry_once [OF b e2 e3 e4 f]
  have res: "poly_carry h = (f AND 0x3ffffff, (h1 AND 0x3ffffff) + drop_bit 26 f, e2 AND 0x3ffffff, e3 AND 0x3ffffff, e4 AND 0x3ffffff)"
    by (simp only: poly_carry_def h prod.case Let_def e2_def e3_def e4_def f_def)
  have last: "unat ((h1 AND 0x3ffffff) + drop_bit 26 f) = unat h1 mod 67108864 + unat f div 67108864"
    using C(2) by (subst unat_add_32; simp only: unat_and_26')
  have nl: "nlimbs (poly_carry h) = (unat f mod 67108864, unat h1 mod 67108864 + unat f div 67108864,
      unat e2 mod 67108864, unat e3 mod 67108864, unat e4 mod 67108864)"
    unfolding nlimbs_def res prod.case last unat_and_26 by (rule refl)
  have "val h = nval (unat h0, unat h1, unat h2, unat h3, unat h4)" by (simp add: val_nval nlimbs_def h)
  then have "val (poly_carry h) mod poly_p = val h mod poly_p" unfolding val_nval nl using C(1) by (simp only: val_nval)
  moreover have "limbs_below 67108864 (poly_carry h)"
    using nl C(2) by (simp add: limbs_below_def nlimbs_def split: prod.splits)
  ultimately show ?thesis by simp
qed

definition poly_select :: "limbs \<Rightarrow> limbs" where
  "poly_select h =
     (case h of (h0, h1, h2, h3, h4) \<Rightarrow>
      let g0 = h0 + 5; c = drop_bit 26 g0; g0 = g0 AND 0x3ffffff;
          g1 = h1 + c; c = drop_bit 26 g1; g1 = g1 AND 0x3ffffff;
          g2 = h2 + c; c = drop_bit 26 g2; g2 = g2 AND 0x3ffffff;
          g3 = h3 + c; c = drop_bit 26 g3; g3 = g3 AND 0x3ffffff;
          g4 = h4 + c - push_bit 26 1;
          m = drop_bit 31 g4 - 1;
          n = NOT m
      in ((h0 AND n) OR (g0 AND m), (h1 AND n) OR (g1 AND m), (h2 AND n) OR (g2 AND m),
          (h3 AND n) OR (g3 AND m), (h4 AND n) OR (g4 AND m)))"

lemma poly_freeze_split: "poly_freeze h = poly_select (poly_carry h)"
  by (simp only: poly_freeze_def poly_select_def poly_carry_def Let_def split: prod.split) simp

lemma top_limb:
  fixes t :: u32
  assumes "unat t \<le> 67108864"
  shows "drop_bit 31 (t - 0x4000000) - 1 = (if 67108864 \<le> unat t then - 1 else 0 :: u32)"
    "67108864 \<le> unat t \<Longrightarrow> unat (t - 0x4000000) = unat t - 67108864"
proof -
  show g: "unat (t - 0x4000000) = unat t - 67108864" if "67108864 \<le> unat t"
    using that by (simp add: unat_sub word_le_nat_alt)
  show "drop_bit 31 (t - 0x4000000) - 1 = (if 67108864 \<le> unat t then - 1 else 0 :: u32)"
  proof (cases "67108864 \<le> unat t")
    case True
    then have "t = 0x4000000" using assms by (simp add: word_unat_eq_iff)
    then show ?thesis by simp
  next
    case False
    then have "unat (t - 0x4000000) = 4294967296 + unat t - 67108864"
      using unat_sub_if' [of t "0x4000000"] by (simp add: word_le_nat_alt)
    then have "unat (drop_bit 31 (t - 0x4000000)) = 1"
      using False by (simp add: div_nat_eqI)
    then have "drop_bit 31 (t - 0x4000000) = 1" by (simp add: word_unat_eq_iff)
    then show ?thesis using False by simp
  qed
qed


lemma nval_less:
  assumes "h0 < 67108864" "h1 < 67108864" "h2 < 67108864" "h3 < 67108864" "h4 < 67108864"
  shows "nval (h0, h1, h2, h3, h4) < 1361129467683753853853498429727072845824"
proof -
  have step: "a + 67108864 * x < 67108864 * n" if "a < 67108864" "x < n" for a x n :: nat using that by simp
  have "h0 + 67108864 * (h1 + 67108864 * (h2 + 67108864 * (h3 + 67108864 * h4))) <
      67108864 * (67108864 * (67108864 * (67108864 * 67108864)))"
    by (intro step assms)
  then show ?thesis by (simp add: nval_def)
qed

lemma small_limb: "unat (x :: u32) < 67108864 \<Longrightarrow> x AND 0x3ffffff = x"
  by (simp add: word_unat_eq_iff unat_and_26)

lemma poly_select_correct:
  assumes "limbs_below 67108864 h"
  shows "limbs_below 67108864 (poly_select h) \<and> val (poly_select h) = val h mod poly_p"
proof -
  obtain h0 h1 h2 h3 h4 where h: "h = (h0, h1, h2, h3, h4)" by (cases h) auto
  have b: "unat h0 < 67108864" "unat h1 < 67108864" "unat h2 < 67108864" "unat h3 < 67108864" "unat h4 < 67108864"
    using assms by (simp_all add: limbs_below_def h)
  define g0 where "g0 = h0 + 5"
  define g1 where "g1 = h1 + drop_bit 26 g0"
  define g2 where "g2 = h2 + drop_bit 26 g1"
  define g3 where "g3 = h3 + drop_bit 26 g2"
  define t where "t = h4 + drop_bit 26 g3"
  have small: "unat (drop_bit 26 x) \<le> 64" for x :: u32
    using unat_u32_less [of x] by (simp add: less_Suc_eq_le [symmetric] less_mult_imp_div_less)
  have g0: "unat g0 = unat h0 + 5" unfolding g0_def using b(1) by (subst unat_add_32) simp_all
  have g1: "unat g1 = unat h1 + unat g0 div 67108864" unfolding g1_def using b small [of g0] by (subst unat_add_32) simp_all
  have g2: "unat g2 = unat h2 + unat g1 div 67108864" unfolding g2_def using b small [of g1] by (subst unat_add_32) simp_all
  have g3: "unat g3 = unat h3 + unat g2 div 67108864" unfolding g3_def using b small [of g2] by (subst unat_add_32) simp_all
  have t: "unat t = unat h4 + unat g3 div 67108864" unfolding t_def using b small [of g3] by (subst unat_add_32) simp_all
  have V: "val h = nval (unat h0, unat h1, unat h2, unat h3, unat h4)" by (simp add: val_nval nlimbs_def h)
  have sum: "val h + 5 = nval (unat g0 mod 67108864, unat g1 mod 67108864, unat g2 mod 67108864, unat g3 mod 67108864, unat t)"
  proof -
    have "nval (unat h0 + 5, unat h1, unat h2, unat h3, unat h4) = nval (unat g0 mod 67108864, unat g1 mod 67108864 + 0,
        unat g2 mod 67108864, unat g3 mod 67108864, unat t) + poly_p * 0"
      by (rule carry_sums [where ?q0.0 = "unat g0 div 67108864" and ?q1.0 = "unat g1 div 67108864" and
            ?q2.0 = "unat g2 div 67108864" and ?q3.0 = "unat g3 div 67108864"]) (simp_all add: g0 g1 g2 g3 t)
    then show ?thesis by (simp add: V nval_def)
  qed
  have t_le: "unat t \<le> 67108864"
  proof -
    have one: "n div 67108864 \<le> 1" if "n < 134217728" for n :: nat
      using that by (simp add: less_Suc_eq_le [symmetric] less_mult_imp_div_less)
    have "unat g0 div 67108864 \<le> 1" using b g0 by (intro one) simp
    then have "unat g1 div 67108864 \<le> 1" using b g1 by (intro one) simp
    then have "unat g2 div 67108864 \<le> 1" using b g2 by (intro one) simp
    then have "unat g3 div 67108864 \<le> 1" using b g3 by (intro one) simp
    then show ?thesis using b t by simp
  qed
  have res: "poly_select h = (if 67108864 \<le> unat t
      then (g0 AND 0x3ffffff, g1 AND 0x3ffffff, g2 AND 0x3ffffff, g3 AND 0x3ffffff, t - 0x4000000) else h)"
  proof -
    have p: "push_bit 26 1 = (0x4000000 :: u32)" by simp
    show ?thesis
      by (simp only: poly_select_def h prod.case Let_def p g0_def [symmetric] g1_def [symmetric] g2_def [symmetric]
          g3_def [symmetric] t_def [symmetric] top_limb(1) [OF t_le] split: if_split) simp
  qed
  show ?thesis
  proof (cases "67108864 \<le> unat t")
    case True
    then have t': "unat t = 67108864" using t_le by simp
    have nl: "nlimbs (poly_select h) = (unat g0 mod 67108864, unat g1 mod 67108864, unat g2 mod 67108864, unat g3 mod 67108864, 0)"
      using True top_limb(2) [OF t_le] t' by (simp only: res if_P nlimbs_def prod.case unat_and_26) simp
    have vs: "val (poly_select h) = nval (unat g0 mod 67108864, unat g1 mod 67108864, unat g2 mod 67108864, unat g3 mod 67108864, 0)"
      by (simp only: val_nval nl)
    have v: "val h + 5 = val (poly_select h) + 1361129467683753853853498429727072845824"
      unfolding sum vs by (simp add: nval_def t')
    have "val (poly_select h) < poly_p"
      using v nval_less [OF b, folded V] by (simp add: poly_p_def)
    moreover have "val h = val (poly_select h) + poly_p" using v by (simp add: poly_p_def)
    ultimately have "val (poly_select h) = val h mod poly_p" by simp
    moreover have "limbs_below 67108864 (poly_select h)"
      using nl by (simp add: limbs_below_def nlimbs_def split: prod.splits)
    ultimately show ?thesis by simp
  next
    case False
    then have "val h + 5 < 1361129467683753853853498429727072845824"
      unfolding sum by (intro nval_less) simp_all
    then show ?thesis using False assms by (simp add: res poly_p_def)
  qed
qed


lemma poly_freeze_correct:
  assumes "limbs_ok h"
  shows "limbs_below 67108864 (poly_freeze h) \<and> val (poly_freeze h) = val h mod poly_p"
  using poly_carry_correct [OF assms] poly_select_correct [of "poly_carry h"] by (simp add: poly_freeze_split)

section \<open>Serialisation\<close>

lemma le_num_st32: "le_num (lc_st32 v) = unat v"
proof -
  have "unat v < 4294967296" by (rule unat_u32_less)
  moreover have "le_num (lc_st32 v) = unat v mod 256 + 256 * (unat v div 256 mod 256 + 256 * (unat v div 65536 mod 256 +
      256 * (unat v div 16777216 mod 256)))"
    by (simp add: lc_st32_def unsigned_ucast_eq take_bit_eq_mod)
  moreover have "unat v div 16777216 < 256" using \<open>unat v < 4294967296\<close> by (simp add: less_mult_imp_div_less)
  moreover have "n mod 256 + 256 * (n div 256 mod 256 + 256 * (n div 65536 mod 256 + 256 * (n div 16777216))) = n" for n :: nat
  proof -
    have "n div 65536 = n div 256 div 256" "n div 16777216 = n div 256 div 256 div 256" by (simp_all flip: div_mult2_eq)
    then show ?thesis by simp
  qed
  ultimately show ?thesis by simp
qed

text \<open>Two limbs packed into a word of 32 bits.\<close>

lemma pack:
  fixes x y :: u32
  assumes "unat x < 2 ^ k" "k \<le> 32"
  shows "unat ((x OR push_bit k y) AND 0xffffffff) = (unat x + 2 ^ k * unat y) mod 4294967296"
proof -
  have "(0xffffffff :: u32) = - 1" by simp
  then have m: "(z AND 0xffffffff) = z" for z :: u32 by (simp only: bit.conj_one_right)
  have "x AND push_bit k y = 0"
  proof (rule bit_word_eqI)
    fix n
    have "take_bit k (unat x) = unat x" using assms(1) by (simp add: take_bit_nat_eq_self_iff)
    moreover have "bit (unat x) n" if "bit x n" using that by (simp add: bit_unsigned_iff)
    ultimately have "bit x n \<Longrightarrow> n < k" by (metis bit_take_bit_iff)
    then show "bit (x AND push_bit k y) n = bit (0 :: u32) n" by (auto simp: bit_and_iff bit_push_bit_iff)
  qed
  then have "x OR push_bit k y = x + push_bit k y" by (rule or_plus)
  moreover have "unat (push_bit k y) = 2 ^ k * unat y mod 4294967296"
    by (subst unsigned_push_bit_eq) (simp add: take_bit_eq_mod push_bit_eq_mult mult.commute)
  ultimately show ?thesis unfolding m by (simp only: unat_word_ariths) (simp add: mod_simps)
qed


text \<open>The four words of a number given by its limbs, and their sum with four others.\<close>

lemma packed_words:
  fixes h0 h1 h2 h3 h4 :: nat
  assumes "h0 < 67108864" "h1 < 67108864" "h2 < 67108864" "h3 < 67108864"
  defines "V \<equiv> nval (h0, h1, h2, h3, h4)"
  shows "(h0 + 67108864 * h1) mod 4294967296 = V mod 4294967296"
    "(h1 div 64 + 1048576 * h2) mod 4294967296 = V div 4294967296 mod 4294967296"
    "(h2 div 4096 + 16384 * h3) mod 4294967296 = V div 18446744073709551616 mod 4294967296"
    "(h3 div 262144 + 256 * h4) mod 4294967296 = V div 79228162514264337593543950336 mod 4294967296"
proof -
  define Z where "Z = h3 + 67108864 * h4"
  define Y where "Y = h2 + 67108864 * Z"
  define X where "X = h1 + 67108864 * Y"
  have V: "V = h0 + 67108864 * X" by (simp add: V_def nval_def X_def Y_def Z_def)
  have X: "V div 67108864 = X" using assms(1) by (simp add: V)
  have Y: "X div 67108864 = Y" using assms(2) by (simp add: X_def)
  have Z: "Y div 67108864 = Z" using assms(3) by (simp add: Y_def)
  have sh: "(a + n * (k * b)) div n = a div n + k * b" if "0 < n" for a n k b :: nat using that by simp
  have md: "(a + c * (b + d * e)) mod m = (a + c * b) mod m" if dv: "m dvd c * d" for a b c d e m :: nat
  proof -
    obtain q where "c * d = m * q" using dv unfolding dvd_def by blast
    then have "a + c * (b + d * e) = (a + c * b) + m * (q * e)" by (simp add: algebra_simps)
    then show ?thesis by (simp only: mod_mult_self2)
  qed
  show "(h0 + 67108864 * h1) mod 4294967296 = V mod 4294967296"
    unfolding V X_def by (rule md [symmetric]) simp
  have "V div 4294967296 = X div 64" unfolding X [symmetric] by (simp flip: div_mult2_eq)
  also have "\<dots> = h1 div 64 + 1048576 * Y" using sh [of 64 h1 1048576 Y] by (simp add: X_def)
  finally show "(h1 div 64 + 1048576 * h2) mod 4294967296 = V div 4294967296 mod 4294967296"
    unfolding Y_def by (simp only:) (rule md [symmetric], simp)
  have "V div 18446744073709551616 = Y div 4096" unfolding Y [symmetric] X [symmetric] by (simp flip: div_mult2_eq)
  also have "\<dots> = h2 div 4096 + 16384 * Z" using sh [of 4096 h2 16384 Z] by (simp add: Y_def)
  finally show "(h2 div 4096 + 16384 * h3) mod 4294967296 = V div 18446744073709551616 mod 4294967296"
    unfolding Z_def by (simp only:) (rule md [symmetric], simp)
  have "V div 79228162514264337593543950336 = Z div 262144"
    unfolding Z [symmetric] Y [symmetric] X [symmetric] by (simp flip: div_mult2_eq)
  also have "\<dots> = h3 div 262144 + 256 * h4" using sh [of 262144 h3 256 h4] by (simp add: Z_def)
  finally show "(h3 div 262144 + 256 * h4) mod 4294967296 = V div 79228162514264337593543950336 mod 4294967296"
    by simp
qed

lemma add_words:
  fixes a0 :: nat
  assumes "f0 = a0 + b0" "f1 = a1 + b1 + f0 div 4294967296" "f2 = a2 + b2 + f1 div 4294967296" "f3 = a3 + b3 + f2 div 4294967296"
  shows "f0 mod 4294967296 + 4294967296 * (f1 mod 4294967296 + 4294967296 * (f2 mod 4294967296 + 4294967296 * (f3 mod 4294967296))) =
    (a0 + 4294967296 * (a1 + 4294967296 * (a2 + 4294967296 * a3)) + (b0 + 4294967296 * (b1 + 4294967296 * (b2 + 4294967296 * b3))))
      mod 340282366920938463463374607431768211456"
proof -
  let ?W = "4294967296 :: nat"
  have q: "d = ?W * (d div ?W) + d mod ?W" for d :: nat by simp
  have step: "(d + ?W * x) mod (?W * n) = d mod ?W + ?W * ((d div ?W + x) mod n)" for d x n :: nat
  proof -
    have "d + ?W * x = d mod ?W + ?W * (d div ?W + x)" by (simp add: algebra_simps)
    then show ?thesis by (simp only: mod_mult2_eq) (simp add: add.commute)
  qed
  have "(a0 + ?W * (a1 + ?W * (a2 + ?W * a3)) + (b0 + ?W * (b1 + ?W * (b2 + ?W * b3)))) mod (?W * (?W * (?W * ?W))) =
      (f0 + ?W * ((a1 + b1) + ?W * ((a2 + b2) + ?W * (a3 + b3)))) mod (?W * (?W * (?W * ?W)))"
    by (simp add: assms(1) algebra_simps)
  also have "\<dots> = f0 mod ?W + ?W * ((f0 div ?W + ((a1 + b1) + ?W * ((a2 + b2) + ?W * (a3 + b3)))) mod (?W * (?W * ?W)))"
    by (rule step)
  also have "f0 div ?W + ((a1 + b1) + ?W * ((a2 + b2) + ?W * (a3 + b3))) = f1 + ?W * ((a2 + b2) + ?W * (a3 + b3))"
    by (simp add: assms(2))
  also have "(f1 + ?W * ((a2 + b2) + ?W * (a3 + b3))) mod (?W * (?W * ?W)) =
      f1 mod ?W + ?W * ((f1 div ?W + ((a2 + b2) + ?W * (a3 + b3))) mod (?W * ?W))" by (rule step)
  also have "f1 div ?W + ((a2 + b2) + ?W * (a3 + b3)) = f2 + ?W * (a3 + b3)" by (simp add: assms(3))
  also have "(f2 + ?W * (a3 + b3)) mod (?W * ?W) = f2 mod ?W + ?W * ((f2 div ?W + (a3 + b3)) mod ?W)" by (rule step)
  also have "f2 div ?W + (a3 + b3) = f3" by (simp add: assms(4))
  finally show ?thesis by simp
qed


lemma digits_32: "n mod 340282366920938463463374607431768211456 = n mod 4294967296 + 4294967296 * (n div 4294967296 mod 4294967296 +
      4294967296 * (n div 18446744073709551616 mod 4294967296 + 4294967296 * (n div 79228162514264337593543950336 mod 4294967296)))"
  for n :: nat
proof -
  let ?W = "4294967296 :: nat"
  have "n mod (?W * (?W * (?W * ?W))) = n mod ?W + ?W * (n div ?W mod ?W + ?W * (n div ?W div ?W mod ?W +
      ?W * (n div ?W div ?W div ?W mod ?W)))"
    by (simp only: mod_mult2_eq add.commute)
  then show ?thesis by (simp flip: div_mult2_eq)
qed

lemma serialise_value:
  assumes "limbs_below 67108864 h"
  shows "length (poly_serialise h pad) = 16"
    "le_num (poly_serialise h pad) = (val h mod 340282366920938463463374607431768211456 +
      (unat (pad ! 0) + 4294967296 * (unat (pad ! 1) + 4294967296 * (unat (pad ! 2) + 4294967296 * unat (pad ! 3)))))
        mod 340282366920938463463374607431768211456"
proof -
  obtain h0 h1 h2 h3 h4 where h: "h = (h0, h1, h2, h3, h4)" by (cases h) auto
  have b: "unat h0 < 67108864" "unat h1 < 67108864" "unat h2 < 67108864" "unat h3 < 67108864"
    using assms by (simp_all add: limbs_below_def h)
  let ?V = "val h"
  have V: "?V = nval (unat h0, unat h1, unat h2, unat h3, unat h4)" by (simp add: val_nval nlimbs_def h)
  note P = packed_words [OF b, of "unat h4", folded V]
  define w0 where "w0 = (h0 OR push_bit 26 h1) AND 0xffffffff"
  define w1 where "w1 = (drop_bit 6 h1 OR push_bit 20 h2) AND 0xffffffff"
  define w2 where "w2 = (drop_bit 12 h2 OR push_bit 14 h3) AND 0xffffffff"
  define w3 where "w3 = (drop_bit 18 h3 OR push_bit 8 h4) AND 0xffffffff"
  have w: "unat w0 = ?V mod 4294967296" "unat w1 = ?V div 4294967296 mod 4294967296"
    "unat w2 = ?V div 18446744073709551616 mod 4294967296"
    "unat w3 = ?V div 79228162514264337593543950336 mod 4294967296"
    unfolding w0_def w1_def w2_def w3_def P [symmetric]
    using b by (subst pack; simp add: less_mult_imp_div_less)+
  define f0 where "f0 = wide w0 + wide (pad ! 0)"
  define f1 where "f1 = wide w1 + wide (pad ! 1) + drop_bit 32 f0"
  define f2 where "f2 = wide w2 + wide (pad ! 2) + drop_bit 32 f1"
  define f3 where "f3 = wide w3 + wide (pad ! 3) + drop_bit 32 f2"
  have sum: "unat (wide x + wide y + drop_bit 32 f) = unat x + unat y + unat f div 4294967296" for x y and f :: u64
  proof -
    have "unat f div 4294967296 < 4294967296"
      using unsigned_less [of f, where ?'a = nat] by (simp add: less_mult_imp_div_less)
    then show ?thesis using unat_u32_less [of x] unat_u32_less [of y] by (subst unat_add_64; subst unat_add_64; simp)+
  qed
  have f0: "unat f0 = unat w0 + unat (pad ! 0)" using sum [of w0 "pad ! 0" 0] by (simp add: f0_def)
  note F = sum [of w1 "pad ! 1" f0, folded f1_def] sum [of w2 "pad ! 2" f1, folded f2_def] sum [of w3 "pad ! 3" f2, folded f3_def]
  have res: "poly_serialise h pad = lc_st32 (ucast f0) @ lc_st32 (ucast f1) @ lc_st32 (ucast f2) @ lc_st32 (ucast f3)"
    by (simp only: poly_serialise_def h prod.case Let_def w0_def w1_def w2_def w3_def f0_def f1_def f2_def f3_def)
  then show "length (poly_serialise h pad) = 16" by simp
  have u: "unat (ucast f :: u32) = unat f mod 4294967296" for f :: u64 by (simp add: unsigned_ucast_eq take_bit_eq_mod)
  have d: "?V mod 340282366920938463463374607431768211456 = ?V mod 4294967296 + 4294967296 * (?V div 4294967296 mod 4294967296 +
      4294967296 * (?V div 18446744073709551616 mod 4294967296 + 4294967296 * (?V div 79228162514264337593543950336 mod 4294967296)))"
    by (rule digits_32)
  have "le_num (poly_serialise h pad) = unat f0 mod 4294967296 + 4294967296 * (unat f1 mod 4294967296 +
      4294967296 * (unat f2 mod 4294967296 + 4294967296 * (unat f3 mod 4294967296)))"
    by (simp add: res le_num_append le_num_st32 u)
  then show "le_num (poly_serialise h pad) = (val h mod 340282366920938463463374607431768211456 +
      (unat (pad ! 0) + 4294967296 * (unat (pad ! 1) + 4294967296 * (unat (pad ! 2) + 4294967296 * unat (pad ! 3)))))
        mod 340282366920938463463374607431768211456"
    unfolding d add_words [OF f0 F] w .
qed


section \<open>The authenticator\<close>

lemma pad_value:
  assumes "32 \<le> length key"
  shows "unat (lp_pad (lc_poly_init key) ! 0) + 4294967296 * (unat (lp_pad (lc_poly_init key) ! 1) + 4294967296 *
      (unat (lp_pad (lc_poly_init key) ! 2) + 4294967296 * unat (lp_pad (lc_poly_init key) ! 3))) =
    le_num (take 16 (drop 16 key))"
proof -
  have s: "take 16 (drop 16 key) = take 4 (drop 16 key) @ take 4 (drop 20 key) @ take 4 (drop 24 key) @ take 4 (drop 28 key)"
    using take_add [of 4 12 "drop 16 key"] take_add [of 4 8 "drop 20 key"] take_add [of 4 4 "drop 24 key"] by simp
  show ?thesis unfolding s using assms by (simp add: le_num_append unat_ld32 lc_poly_init_def)
qed

lemma finish_state: "lc_poly_finish st = poly_serialise (poly_freeze (poly_last st)) (lp_pad st)"
  by (simp add: lc_poly_finish_def poly_last_def lc_poly_blocks_def Let_def)

lemma lp_pad_state: "lp_pad (poly_state key m) = lp_pad (lc_poly_init key)"
  by (simp add: poly_state_def Let_def)

lemma poly_finish_state:
  assumes "32 \<le> length key"
  shows "lc_poly_finish (poly_state key m) = poly1305_tag key m"
proof -
  have k: "16 \<le> length key" using assms by simp
  let ?h = "poly_last (poly_state key m)" and ?p = "lp_pad (lc_poly_init key)"
  let ?v = "poly_eval (poly_clamp (le_num (take 16 key))) m 0"
  have F: "limbs_below 67108864 (poly_freeze ?h)" "val (poly_freeze ?h) = ?v"
    using last_block [OF k, of m] poly_freeze_correct [of ?h] by simp_all
  note S = serialise_value [OF F(1), of ?p]
  have "le_num (poly_serialise (poly_freeze ?h) ?p) = (?v + le_num (take 16 (drop 16 key))) mod 256 ^ 16"
    unfolding S(2) pad_value [OF assms] F(2) by (simp add: mod_simps)
  then have "poly_serialise (poly_freeze ?h) ?p = le_bytes 16 ((?v + le_num (take 16 (drop 16 key))) mod 256 ^ 16)"
    using le_bytes_le_num [of "poly_serialise (poly_freeze ?h) ?p"] by (simp add: S(1))
  then show ?thesis
    unfolding le_bytes_mod finish_state lp_pad_state poly1305_tag_def .
qed

text \<open>C21: However the message is cut into updates, \<open>lc_poly_init\<close>, \<open>lc_poly_update\<close> and \<open>lc_poly_finish\<close> on their 26-bit limbs
  compute Poly1305: the polynomial of the clamped first half of the key at the message modulo
  \<open>2\<^sup>1\<^sup>3\<^sup>0 - 5\<close>, plus the second half of the key, in sixteen little-endian bytes. No intermediate sum
  or product wraps.\<close>

theorem poly1305_correct:
  assumes "length key = 32"
  shows "lc_poly_finish (fold lc_poly_update chunks (lc_poly_init key)) = poly1305_tag key (concat chunks)"
  using assms by (simp add: update_stream poly_finish_state)

lemma poly1305_correct_witness:
  "lc_poly_finish (fold lc_poly_update [[1, 2, 3], [], [4]] (lc_poly_init (replicate 32 7))) =
   poly1305_tag (replicate 32 7) [1, 2, 3, 4]"
  using poly1305_correct [of "replicate 32 7" "[[1, 2, 3], [], [4]]"] by simp


lemma le_bytes_numeral: "le_bytes (numeral k) n = of_nat (n mod 256) # le_bytes (pred_numeral k) (n div 256)"
  unfolding numeral_eq_Suc [of k] by simp

text \<open>The vector of RFC 8439, section 2.5.2.\<close>

lemma poly1305_rfc8439:
  "poly1305_tag
     [0x85, 0xd6, 0xbe, 0x78, 0x57, 0x55, 0x6d, 0x33, 0x7f, 0x44, 0x52, 0xfe, 0x42, 0xd5, 0x06, 0xa8,
      0x01, 0x03, 0x80, 0x8a, 0xfb, 0x0d, 0xb2, 0xfd, 0x4a, 0xbf, 0xf6, 0xaf, 0x41, 0x49, 0xf5, 0x1b]
     [0x43, 0x72, 0x79, 0x70, 0x74, 0x6f, 0x67, 0x72, 0x61, 0x70, 0x68, 0x69, 0x63, 0x20, 0x46, 0x6f, 0x72,
      0x75, 0x6d, 0x20, 0x52, 0x65, 0x73, 0x65, 0x61, 0x72, 0x63, 0x68, 0x20, 0x47, 0x72, 0x6f, 0x75, 0x70] =
   [0xa8, 0x06, 0x1d, 0xc1, 0x30, 0x51, 0x36, 0xc6, 0xc2, 0x2b, 0x8b, 0xaf, 0x0c, 0x01, 0x27, 0xa9]"
  by (simp add: poly1305_tag_def poly_clamp_def poly_eval.simps poly_p_def le_bytes_numeral)

end
