(* ===== verification/Aead.thy ===== *)
theory Aead
  imports Poly1305_Claims
begin

text \<open>
  The authenticated encryption of \<^verbatim>\<open>lumabri_crypto.h\<close>: \<^verbatim>\<open>lc_aead_seal\<close> and \<^verbatim>\<open>lc_aead_open\<close> over the
  cipher of Chacha and the authenticator of Poly1305. The tag is compared with the reference of
  Poly1305_Stream.
\<close>

section \<open>The code\<close>

definition lc_ct_eq16 :: "bytes \<Rightarrow> bytes \<Rightarrow> bool" where
  "lc_ct_eq16 a b \<longleftrightarrow> fold (\<lambda>i d. d OR (a ! i XOR b ! i)) [0..<16] 0 = 0"

definition lc_poly_pad16 :: "nat \<Rightarrow> lc_poly \<Rightarrow> lc_poly" where
  "lc_poly_pad16 len st = (if len mod 16 \<noteq> 0 then lc_poly_update (replicate (16 - len mod 16) 0) st else st)"

definition aead_lens :: "nat \<Rightarrow> nat \<Rightarrow> bytes" where
  "aead_lens aad_len ct_len =
     map (\<lambda>i. ucast (drop_bit (8 * i) (of_nat aad_len :: u64))) [0..<8] @
     map (\<lambda>i. ucast (drop_bit (8 * i) (of_nat ct_len :: u64))) [0..<8]"

text \<open>The tag over the associated data and the ciphertext, the same steps in both functions.\<close>

definition aead_mac :: "bytes \<Rightarrow> bytes \<Rightarrow> bytes \<Rightarrow> bytes \<Rightarrow> bytes" where
  "aead_mac key nonce aad ct =
     (let polykey = lc_chacha_block key 0 nonce;
          st = lc_poly_init polykey;
          st = (if aad \<noteq> [] then lc_poly_pad16 (length aad) (lc_poly_update aad st) else st);
          st = lc_poly_pad16 (length ct) (lc_poly_update ct st);
          st = lc_poly_update (aead_lens (length aad) (length ct)) st
      in lc_poly_finish st)"

definition lc_aead_seal :: "bytes \<Rightarrow> bytes \<Rightarrow> bytes \<Rightarrow> bytes \<Rightarrow> bytes \<times> bytes" where
  "lc_aead_seal key nonce aad pt =
     (let ct = lc_chacha20 key 1 nonce pt in (ct, aead_mac key nonce aad ct))"

definition lc_aead_open :: "bytes \<Rightarrow> bytes \<Rightarrow> bytes \<Rightarrow> bytes \<Rightarrow> bytes \<Rightarrow> bytes option" where
  "lc_aead_open key nonce aad ct tag =
     (let want = aead_mac key nonce aad ct
      in if \<not> lc_ct_eq16 want tag then None else Some (lc_chacha20 key 1 nonce ct))"

section \<open>The comparison\<close>

lemma or_fold_zero: "fold (\<lambda>i d. d OR f i) is d = 0 \<longleftrightarrow> d = 0 \<and> (\<forall>i \<in> set is. f i = (0 :: u8))"
proof (induction "is" arbitrary: d)
  case (Cons i "is")
  have "d OR f i = 0 \<longleftrightarrow> d = 0 \<and> f i = 0"
    by (auto simp: bit_eq_iff bit_simps)
  then show ?case using Cons by auto
qed simp

lemma xor_eq_zero: "(x :: u8) XOR y = 0 \<longleftrightarrow> x = y"
  by (metis xor_self_eq xor.assoc xor.right_neutral xor.left_neutral)

lemma ct_eq16_iff:
  assumes "length a = 16" "length b = 16"
  shows "lc_ct_eq16 a b \<longleftrightarrow> a = b"
  using assms unfolding lc_ct_eq16_def or_fold_zero
  by (auto simp: xor_eq_zero list_eq_iff_nth_eq)

section \<open>The tag\<close>

definition pad16 :: "bytes \<Rightarrow> bytes" where
  "pad16 m = m @ (if length m mod 16 = 0 then [] else replicate (16 - length m mod 16) 0)"

definition aead_tag :: "bytes \<Rightarrow> bytes \<Rightarrow> bytes \<Rightarrow> bytes \<Rightarrow> bytes" where
  "aead_tag key nonce aad ct =
     poly1305_tag (lc_chacha_block key 0 nonce)
       (pad16 aad @ pad16 ct @ le_bytes 8 (length aad) @ le_bytes 8 (length ct))"

lemma length_le_bytes_n [simp]: "length (le_bytes k n) = k"
  by (induction k arbitrary: n) simp_all

lemma length_poly1305_tag [simp]: "length (poly1305_tag key m) = 16"
  by (simp add: poly1305_tag_def)

lemma length_aead_tag [simp]: "length (aead_tag key nonce aad ct) = 16"
  by (simp add: aead_tag_def)

lemma le_bytes_u64: "map (\<lambda>i. ucast (drop_bit (8 * i) (of_nat n :: u64))) [0..<8] = le_bytes 8 n"
proof -
  have b: "ucast (drop_bit k (of_nat n :: u64)) = (of_nat (n div 2 ^ k mod 256) :: u8)" if "k + 8 \<le> 64" for k
  proof -
    have "take_bit 8 (drop_bit k (take_bit 64 n)) = take_bit 8 (drop_bit k n)"
      using that by (simp add: drop_bit_take_bit)
    then have "n mod 2 ^ 64 div 2 ^ k mod 256 = n div 2 ^ k mod 256"
      by (simp only: take_bit_eq_mod drop_bit_eq_div) simp
    moreover have "unat (ucast (drop_bit k (of_nat n :: u64)) :: u8) = n mod 2 ^ 64 div 2 ^ k mod 256"
      by (simp add: unsigned_ucast_eq take_bit_eq_mod unsigned_of_nat)
    ultimately show ?thesis by (simp add: word_unat_eq_iff unsigned_of_nat take_bit_eq_mod)
  qed
  have "le_bytes 8 n = map (\<lambda>i. of_nat (n div 2 ^ (8 * i) mod 256)) [0..<8]"
    by (simp add: le_bytes_numeral upt_conv_Cons flip: div_mult2_eq)
  then show ?thesis using b by simp
qed

lemma update_pad16: "lc_poly_pad16 (length m) (lc_poly_update m (poly_state key xs)) = poly_state key (xs @ pad16 m)"
  by (simp add: lc_poly_pad16_def update_state pad16_def)

lemma aead_mac_tag: "aead_mac key nonce aad ct = aead_tag key nonce aad ct"
proof -
  let ?k = "lc_chacha_block key 0 nonce"
  have a: "(if aad \<noteq> [] then lc_poly_pad16 (length aad) (lc_poly_update aad (lc_poly_init ?k)) else lc_poly_init ?k) =
      poly_state ?k (pad16 aad)"
    using update_pad16 [of aad ?k "[]"] by (auto simp: poly_state_Nil pad16_def)
  show ?thesis
    unfolding aead_mac_def aead_tag_def Let_def a update_pad16 unfolding update_state aead_lens_def le_bytes_u64
    by (simp add: poly_finish_state)
qed

lemma open_exact:
  "length tag = 16 \<Longrightarrow> lc_aead_open key nonce aad ct tag =
    (if tag = aead_tag key nonce aad ct then Some (lc_chacha20 key 1 nonce ct) else None)"
  using ct_eq16_iff [of "aead_tag key nonce aad ct" tag] by (auto simp: lc_aead_open_def aead_mac_tag)

text \<open>Opening decides exactly on the reference tag of RFC 8439: with the one-time key of the nonce over the
  padded associated data, the padded ciphertext and their lengths. A right tag yields the decrypted
  bytes, any other tag yields an error and no plaintext.\<close>

lemma aead_open_exact:
  assumes "length tag = 16"
  shows "lc_aead_open key nonce aad ct tag =
    (if tag = aead_tag key nonce aad ct then Some (lc_chacha20 key 1 nonce ct) else None)"
  using assms by (rule open_exact)

lemma aead_open_exact_witness:
  "lc_aead_open [] [] [] [] (replicate 16 1) =
    (if replicate 16 1 = aead_tag [] [] [] [] then Some (lc_chacha20 [] 1 [] []) else None)"
  by (rule aead_open_exact) simp

lemma seal_open:
  "lc_aead_seal key nonce aad pt = (ct, tag) \<Longrightarrow>
    length ct = length pt \<and> length tag = 16 \<and> lc_aead_open key nonce aad ct tag = Some pt"
  using ct_eq16_iff [of "aead_tag key nonce aad ct" tag]
  by (auto simp: lc_aead_seal_def lc_aead_open_def aead_mac_tag Let_def chacha20_involution)

text \<open>What \<open>lc_aead_seal\<close> produces, \<open>lc_aead_open\<close> opens to the same bytes: the ciphertext has the length of the
  plaintext, and every other tag of sixteen bytes is refused for it.\<close>

lemma aead_roundtrip:
  "case lc_aead_seal key nonce aad pt of (ct, tag) \<Rightarrow>
     length ct = length pt \<and> {t. length t = 16 \<and> lc_aead_open key nonce aad ct t = Some pt} = {tag} \<and>
     {t. length t = 16 \<and> lc_aead_open key nonce aad ct t \<noteq> None} = {tag}"
proof -
  obtain ct tag where s: "lc_aead_seal key nonce aad pt = (ct, tag)" by fastforce
  then have "tag = aead_tag key nonce aad ct" by (auto simp: lc_aead_seal_def Let_def aead_mac_tag)
  then show ?thesis using seal_open [OF s] by (auto simp: s open_exact split: if_splits)
qed

end
