(* ===== verification/Frames.thy ===== *)
theory Frames
  imports Wire
begin

text \<open>
  The frames of \<^verbatim>\<open>lumabri_proto.h\<close>: whole-buffer reading and writing over sockets that deliver bytes in
  pieces, the receive budget shared by all connections, \<^verbatim>\<open>lmb_send\<close> and \<^verbatim>\<open>lmb_recv\<close> with their bounded
  variants, the life of a received message, and the connection gate.

  A socket is the list of bytes the peer has sent and the list of what the successive system calls
  do: pass on some bytes, be interrupted by a signal, fail. An exhausted list is the receive timeout
  of the socket. The allocator, the environment and the encryption hooks are parameters.
\<close>

section \<open>Whole buffers\<close>

datatype io_error = E_TimedOut | E_ConnReset | E_Proto | E_MsgSize | E_NoBufs | E_NoMem | E_BadMsg | E_Inval | E_Socket

datatype io_turn = IO_Bytes nat | IO_Interrupted | IO_Failed

datatype io_wait = W_Ready | W_Idle | W_Interrupted | W_Failed

record read_turn =
  rt_now :: u64
  rt_wait :: io_wait
  rt_recv :: io_turn

text \<open>Writing: whether all of it went out, what did go out, and what is left of the turns.\<close>

primrec write_turns :: "io_turn list \<Rightarrow> bytes \<Rightarrow> bool \<times> bytes \<times> io_turn list" where
  "write_turns [] buf = (buf = [], [], [])"
| "write_turns (t # ts) buf =
     (if buf = [] then (True, [], t # ts)
      else case t of
        IO_Interrupted \<Rightarrow> write_turns ts buf
      | IO_Failed \<Rightarrow> (False, [], ts)
      | IO_Bytes k \<Rightarrow>
          let w = min k (length buf)
          in if w = 0 then (False, [], ts)
             else let (ok, sent, left) = write_turns ts (drop w buf) in (ok, take w buf @ sent, left))"

record tx =
  tx_turns :: "io_turn list"
  tx_out :: bytes

definition lmb_write_full :: "bytes \<Rightarrow> tx \<Rightarrow> bool \<times> tx" where
  "lmb_write_full buf w =
     (let (ok, sent, left) = write_turns (tx_turns w) buf
      in (ok, w\<lparr>tx_turns := left, tx_out := tx_out w @ sent\<rparr>))"

text \<open>Reading: the receiving side of a connection, with the thread's deadline and frame limit and the
  counter of the bytes reserved by all threads.\<close>

record rx =
  rx_stream :: bytes
  rx_turns :: "read_turn list"
  rx_deadline :: u64
  rx_frame_limit :: u32
  rx_inflight :: u64

primrec read_turns :: "u64 \<Rightarrow> read_turn list \<Rightarrow> bytes \<Rightarrow> nat \<Rightarrow> (io_error + bytes) \<times> bytes \<times> read_turn list" where
  "read_turns deadline [] stream n = (if n = 0 then (Inr [], stream, []) else (Inl E_TimedOut, stream, []))"
| "read_turns deadline (t # ts) stream n =
     (if n = 0 then (Inr [], stream, t # ts)
      else if deadline \<noteq> 0 \<and> (rt_now t = 0 \<or> rt_now t \<ge> deadline) then (Inl E_TimedOut, stream, ts)
      else if deadline \<noteq> 0 \<and> rt_wait t = W_Failed then (Inl E_Socket, stream, ts)
      else if deadline \<noteq> 0 \<and> rt_wait t \<noteq> W_Ready then read_turns deadline ts stream n
      else case rt_recv t of
        IO_Interrupted \<Rightarrow> read_turns deadline ts stream n
      | IO_Failed \<Rightarrow> (Inl E_Socket, stream, ts)
      | IO_Bytes k \<Rightarrow>
          let got = take (min k n) stream
          in if got = [] then (Inl E_ConnReset, stream, ts)
             else let (res, stream, left) = read_turns deadline ts (drop (length got) stream) (n - length got)
                  in (map_sum id ((@) got) res, stream, left))"

definition lmb_socket_read_full :: "nat \<Rightarrow> rx \<Rightarrow> (io_error + bytes) \<times> rx" where
  "lmb_socket_read_full n w =
     (let (res, stream, left) = read_turns (rx_deadline w) (rx_turns w) (rx_stream w) n
      in (res, w\<lparr>rx_stream := stream, rx_turns := left\<rparr>))"

section \<open>The receive budget\<close>

record LmbMsg =
  m_op :: u32
  m_body :: "bytes option"
  m_body_len :: u32
  m_pay :: "bytes option"
  m_pay_len :: u32
  m_storage :: "bytes option"
  m_rx_reserved :: u32

definition msg_zero :: LmbMsg where
  "msg_zero = \<lparr>m_op = 0, m_body = None, m_body_len = 0, m_pay = None, m_pay_len = 0, m_storage = None, m_rx_reserved = 0\<rparr>"

text \<open>\<open>cap\<close> is the budget read from the environment, in bytes. The compare-and-swap loop leaves with the
  counter it compared, so that the reservation is one atomic step.\<close>

definition lmb_rx_reserve :: "u64 \<Rightarrow> u32 \<Rightarrow> LmbMsg \<Rightarrow> rx \<Rightarrow> (io_error + unit) \<times> LmbMsg \<times> rx" where
  "lmb_rx_reserve cap n m w =
     (if n > rx_frame_limit w then (Inl E_MsgSize, m, w)
      else if n = 0 then (Inr (), m, w)
      else if ucast n > cap \<or> rx_inflight w > cap - ucast n then (Inl E_NoBufs, m, w)
      else (Inr (), m\<lparr>m_rx_reserved := n\<rparr>, w\<lparr>rx_inflight := rx_inflight w + ucast n\<rparr>))"

definition lmb_rx_release :: "LmbMsg \<Rightarrow> rx \<Rightarrow> LmbMsg \<times> rx" where
  "lmb_rx_release m w =
     (if m_rx_reserved m \<noteq> 0
      then (m\<lparr>m_rx_reserved := 0\<rparr>, w\<lparr>rx_inflight := rx_inflight w - ucast (m_rx_reserved m)\<rparr>)
      else (m, w))"

section \<open>Sending and receiving\<close>

text \<open>An encryption hook answers for the connections it has handshaked and leaves the others alone.\<close>

definition lmb_send :: "(tx \<Rightarrow> ((io_error + unit) \<times> tx) option) \<Rightarrow> u32 \<Rightarrow> bytes \<Rightarrow> u32 \<Rightarrow> bytes \<Rightarrow> u32 \<Rightarrow> tx \<Rightarrow>
    (io_error + unit) \<times> tx" where
  "lmb_send enc op body body_len pay pay_len w =
     (case enc w of
        Some r \<Rightarrow> r
      | None \<Rightarrow>
          if \<not> lmb_frame_shape_ok op body_len pay_len then (Inl E_MsgSize, w)
          else let pre = lmb_put32 LMB_MAGIC @ lmb_put32 op @ lmb_put32 body_len @ lmb_put32 pay_len;
                   (ok, w) = lmb_write_full pre w
               in if \<not> ok then (Inl E_Socket, w)
                  else let (ok, w) = (if body_len \<noteq> 0 then lmb_write_full (take (unat body_len) body) w else (True, w))
                       in if \<not> ok then (Inl E_Socket, w)
                          else let (ok, w) = (if pay_len \<noteq> 0 then lmb_write_full (take (unat pay_len) pay) w else (True, w))
                               in if \<not> ok then (Inl E_Socket, w) else (Inr (), w))"

text \<open>The body and the payload, after the reservation; a failure gives back what was taken.\<close>

definition recv_fail :: "io_error \<Rightarrow> LmbMsg \<Rightarrow> rx \<Rightarrow> (io_error + unit) \<times> LmbMsg \<times> rx" where
  "recv_fail e m w = (let (m, w) = lmb_rx_release (m\<lparr>m_body := None, m_pay := None\<rparr>) w in (Inl e, m, w))"

definition recv_body :: "alloc \<Rightarrow> LmbMsg \<Rightarrow> rx \<Rightarrow> (io_error + unit) \<times> LmbMsg \<times> rx" where
  "recv_body mem m w =
     (if m_body_len m = 0 then (Inr (), m, w)
      else if \<not> mem (unat (m_body_len m)) then recv_fail E_NoMem m w
      else case lmb_socket_read_full (unat (m_body_len m)) w of
             (Inl e, w) \<Rightarrow> recv_fail e m w
           | (Inr b, w) \<Rightarrow> (Inr (), m\<lparr>m_body := Some b\<rparr>, w))"

definition recv_pay :: "alloc \<Rightarrow> LmbMsg \<Rightarrow> rx \<Rightarrow> (io_error + unit) \<times> LmbMsg \<times> rx" where
  "recv_pay mem m w =
     (if m_pay_len m = 0 then (Inr (), m, w)
      else if \<not> mem (unat (m_pay_len m)) then recv_fail E_NoMem m w
      else case lmb_socket_read_full (unat (m_pay_len m)) w of
             (Inl e, w) \<Rightarrow> recv_fail e m w
           | (Inr b, w) \<Rightarrow> (Inr (), m\<lparr>m_pay := Some b\<rparr>, w))"

definition lmb_recv :: "(rx \<Rightarrow> ((io_error + unit) \<times> LmbMsg \<times> rx) option) \<Rightarrow> alloc \<Rightarrow> u64 \<Rightarrow> rx \<Rightarrow>
    (io_error + unit) \<times> LmbMsg \<times> rx" where
  "lmb_recv enc mem cap w =
     (case enc w of
        Some r \<Rightarrow> r
      | None \<Rightarrow>
          case lmb_socket_read_full 16 w of
            (Inl e, w) \<Rightarrow> (Inl e, msg_zero, w)
          | (Inr pre, w) \<Rightarrow>
              if lmb_get32 pre \<noteq> LMB_MAGIC then (Inl E_Proto, msg_zero, w)
              else let m = msg_zero\<lparr>m_op := lmb_get32 (drop 4 pre), m_body_len := lmb_get32 (drop 8 pre),
                                    m_pay_len := lmb_get32 (drop 12 pre)\<rparr>
                   in if \<not> lmb_frame_shape_ok (m_op m) (m_body_len m) (m_pay_len m) then (Inl E_MsgSize, m, w)
                      else let total64 = ucast (m_body_len m) + ucast (m_pay_len m) :: u64
                           in if total64 > ucast UINT32_MAX then (Inl E_Socket, m, w)
                              else case lmb_rx_reserve cap (ucast total64) m w of
                                     (Inl e, m, w) \<Rightarrow> (Inl e, m, w)
                                   | (Inr _, m, w) \<Rightarrow>
                                       (case recv_body mem m w of
                                          (Inl e, m, w) \<Rightarrow> (Inl e, m, w)
                                        | (Inr _, m, w) \<Rightarrow> recv_pay mem m w))"

definition lmb_recv_limited :: "(rx \<Rightarrow> ((io_error + unit) \<times> LmbMsg \<times> rx) option) \<Rightarrow> alloc \<Rightarrow> u64 \<Rightarrow> u32 \<Rightarrow> rx \<Rightarrow>
    (io_error + unit) \<times> LmbMsg \<times> rx" where
  "lmb_recv_limited enc mem cap limit w =
     (let previous = rx_frame_limit w;
          (res, m, w) = lmb_recv enc mem cap (w\<lparr>rx_frame_limit := (if limit < previous then limit else previous)\<rparr>)
      in (res, m, w\<lparr>rx_frame_limit := previous\<rparr>))"

definition lmb_recv_bounded :: "(rx \<Rightarrow> ((io_error + unit) \<times> LmbMsg \<times> rx) option) \<Rightarrow> alloc \<Rightarrow> u64 \<Rightarrow> u32 \<Rightarrow> u32 \<Rightarrow> u64 \<Rightarrow>
    rx \<Rightarrow> (io_error + unit) \<times> LmbMsg \<times> rx" where
  "lmb_recv_bounded enc mem cap limit timeout_ms now w =
     (let previous = rx_deadline w
      in if now = 0 \<or> timeout_ms = 0 then (Inl E_Inval, msg_zero, w)
         else let until = now + ucast timeout_ms;
                  (res, m, w) = lmb_recv_limited enc mem cap limit
                    (w\<lparr>rx_deadline := (if previous \<noteq> 0 \<and> previous < until then previous else until)\<rparr>)
              in (res, m, w\<lparr>rx_deadline := previous\<rparr>))"

definition lmb_msg_free :: "LmbMsg \<Rightarrow> rx \<Rightarrow> LmbMsg \<times> rx" where
  "lmb_msg_free m w = lmb_rx_release (m\<lparr>m_body := None, m_pay := None, m_storage := None\<rparr>) w"

text \<open>The caller gets the payload and with it the allocation; a combined frame is compacted first.\<close>

definition lmb_msg_take_pay :: "LmbMsg \<Rightarrow> rx \<Rightarrow> bytes option \<times> LmbMsg \<times> rx" where
  "lmb_msg_take_pay m w =
     (case m_pay m of
        None \<Rightarrow> (None, m, w)
      | Some p \<Rightarrow>
          let (m, w) = lmb_rx_release (m\<lparr>m_body := None, m_pay := None, m_storage := None\<rparr>) w
          in (Some p, m, w))"

section \<open>The connection gate\<close>

record LmbConnGate =
  cg_active :: u32
  cg_limit :: u32

definition lmb_conn_gate_enter :: "LmbConnGate \<Rightarrow> bool \<times> LmbConnGate" where
  "lmb_conn_gate_enter g =
     (if cg_active g < cg_limit g then (True, g\<lparr>cg_active := cg_active g + 1\<rparr>) else (False, g))"

definition lmb_conn_gate_leave :: "LmbConnGate \<Rightarrow> LmbConnGate" where
  "lmb_conn_gate_leave g = g\<lparr>cg_active := cg_active g - 1\<rparr>"

end
