(* ===== verification/Byte_Buffer.thy ===== *)
theory Byte_Buffer
  imports Wire
begin

text \<open>
  The growable byte buffers that encoders write (\<open>SegBuf\<close> in \<^verbatim>\<open>lumabri_segment.c\<close>, \<open>LmbBuf\<close>
  in \<^verbatim>\<open>lumabri_proto.h\<close>) and the cursors that decoders read (\<open>SegCur\<close>, \<open>LmbCur\<close>).

  Both buffer structs are \<open>byte_buf\<close>: the bytes written so far (their number is \<open>len\<close>) and
  the capacity. A cursor \<open>{data, len, off}\<close> is the list of its unread bytes
  \<open>data[off .. len)\<close>; the test \<open>cur.off != cur.len\<close> is \<open>c \<noteq> []\<close>, and \<open>off > len\<close> cannot be
  written down.

  A chain \<open>f(..) || g(..) || ..\<close> of calls that return nonzero on failure is a chain of
  option binds. \<open>writes\<close> states what such a chain does: it appends given bytes if it
  succeeds, and it succeeds when memory suffices. The locale \<open>codec\<close> is the contract
  between the writer and the reader of one kind of field.
\<close>

record byte_buf =
  buf_data :: bytes
  buf_cap :: nat

definition buf_empty :: byte_buf where
  "buf_empty = \<lparr>buf_data = [], buf_cap = 0\<rparr>"

section \<open>Growth\<close>

text \<open>The doubling loop; the callers start it with a positive capacity.\<close>

function buf_grow :: "nat \<Rightarrow> nat \<Rightarrow> nat" where
  "buf_grow cap need =
     (if cap < need \<and> 0 < cap
      then if cap > SIZE_MAX div 2 then need else buf_grow (cap * 2) need
      else cap)"
  by pat_completeness auto
termination by (relation "measure (\<lambda>(cap, need). need - cap)") auto

declare buf_grow.simps [simp del]

lemma buf_grow_ge: "0 < cap \<Longrightarrow> need \<le> buf_grow cap need"
proof (induction cap need rule: buf_grow.induct)
  case (1 cap need)
  then show ?case by (subst buf_grow.simps) auto
qed

lemma buf_grow_bound: "0 < cap \<Longrightarrow> cap < need \<Longrightarrow> buf_grow cap need < 2 * need"
proof (induction cap need rule: buf_grow.induct)
  case (1 cap need)
  then show ?case
    by (subst buf_grow.simps) (cases "cap * 2 < need"; auto simp: buf_grow.simps [of "cap * 2"])
qed

definition seg_buf_reserve :: "alloc \<Rightarrow> byte_buf \<Rightarrow> nat \<Rightarrow> byte_buf option" where
  "seg_buf_reserve mem buf extra =
     (let len = length (buf_data buf) in
      if extra > SIZE_MAX - len then None
      else let need = len + extra in
        if need \<le> buf_cap buf then Some buf
        else let cap = buf_grow (if buf_cap buf \<noteq> 0 then buf_cap buf else 256) need in
          if mem cap then Some (buf\<lparr>buf_cap := cap\<rparr>) else None)"

definition lmb_buf_reserve :: "alloc \<Rightarrow> byte_buf \<Rightarrow> nat \<Rightarrow> byte_buf option" where
  "lmb_buf_reserve mem b extra =
     (let len = length (buf_data b) in
      if extra > SIZE_MAX - len then None
      else let need = len + extra in
        if need \<le> buf_cap b then Some b
        else let cap = buf_grow (if buf_cap b \<noteq> 0 then buf_cap b else 256) need in
          if mem cap then Some (b\<lparr>buf_cap := cap\<rparr>) else None)"

text \<open>A capacity is enough for the data and every later write stays inside it.\<close>

definition buf_ok :: "byte_buf \<Rightarrow> bool" where
  "buf_ok b \<longleftrightarrow> length (buf_data b) \<le> buf_cap b"

lemma lmb_buf_reserve_eq: "lmb_buf_reserve = seg_buf_reserve"
  by (intro ext) (simp add: lmb_buf_reserve_def seg_buf_reserve_def)

lemma seg_buf_reserve_SomeD:
  assumes "seg_buf_reserve mem b n = Some b'"
  shows "buf_data b' = buf_data b" "length (buf_data b) + n \<le> buf_cap b'"
  using assms buf_grow_ge [of "if buf_cap b \<noteq> 0 then buf_cap b else 256" "length (buf_data b) + n"]
  by (auto simp: seg_buf_reserve_def Let_def split: if_splits)

lemma seg_buf_reserve_total:
  "\<forall>n. mem n \<Longrightarrow> length (buf_data b) + n \<le> SIZE_MAX \<Longrightarrow> seg_buf_reserve mem b n \<noteq> None"
  by (auto simp: seg_buf_reserve_def Let_def)

section \<open>Writing\<close>

definition writes :: "alloc \<Rightarrow> (byte_buf \<Rightarrow> byte_buf option) \<Rightarrow> bytes \<Rightarrow> bool" where
  "writes mem w bs \<longleftrightarrow>
     (\<forall>b b'. w b = Some b' \<longrightarrow> buf_data b' = buf_data b @ bs \<and> (buf_ok b \<longrightarrow> buf_ok b')) \<and>
     ((\<forall>n. mem n) \<longrightarrow> (\<forall>b. length (buf_data b) + length bs \<le> SIZE_MAX \<longrightarrow> w b \<noteq> None))"

named_theorems writes_intros "rules that compute what a chain of writes appends"

lemma writesD:
  assumes "writes mem w bs" "w b = Some b'"
  shows "buf_data b' = buf_data b @ bs" "buf_ok b \<Longrightarrow> buf_ok b'"
  using assms by (auto simp: writes_def)

lemma writes_total:
  assumes "writes mem w bs" "\<forall>n. mem n" "length (buf_data b) + length bs \<le> SIZE_MAX"
  obtains b' where "w b = Some b'" "buf_data b' = buf_data b @ bs"
  using assms unfolding writes_def by (metis option.exhaust)

lemma writes_bind [writes_intros]:
  assumes "writes mem w1 x" "writes mem w2 y"
  shows "writes mem (\<lambda>b. w1 b \<bind> w2) (x @ y)"
  unfolding writes_def
proof (intro conjI allI impI)
  fix b b'
  assume "w1 b \<bind> w2 = Some b'"
  then obtain b1 where b1: "w1 b = Some b1" "w2 b1 = Some b'" by (rule bind_SomeE)
  then show "buf_data b' = buf_data b @ x @ y"
    using writesD (1) [OF assms(1)] writesD (1) [OF assms(2)] by simp
  assume "buf_ok b"
  with b1 show "buf_ok b'"
    using writesD (2) [OF assms(1)] writesD (2) [OF assms(2)] by simp
next
  fix b :: byte_buf
  assume mem: "\<forall>n. mem n" and len: "length (buf_data b) + length (x @ y) \<le> SIZE_MAX"
  from len have "length (buf_data b) + length x \<le> SIZE_MAX" by simp
  with assms(1) mem obtain b1 where b1: "w1 b = Some b1" "buf_data b1 = buf_data b @ x"
    by (rule writes_total)
  from len have "length (buf_data b1) + length y \<le> SIZE_MAX" by (simp add: b1)
  with assms(2) mem obtain b2 where "w2 b1 = Some b2" by (rule writes_total)
  with b1 show "w1 b \<bind> w2 \<noteq> None" by simp
qed

lemma writes_None: "writes mem w bs \<Longrightarrow> \<forall>n. mem n \<Longrightarrow> length bs \<le> SIZE_MAX \<Longrightarrow>
    \<exists>b. w buf_empty = Some b \<and> buf_data b = bs"
  by (metis (no_types, lifting) add_0 append_Nil buf_empty_def byte_buf.select_convs(1) list.size(3)
      writes_total)

definition seg_buf_bytes :: "alloc \<Rightarrow> bytes \<Rightarrow> byte_buf \<Rightarrow> byte_buf option" where
  "seg_buf_bytes mem data buf =
     (case seg_buf_reserve mem buf (length data) of
        None \<Rightarrow> None
      | Some buf \<Rightarrow> Some (buf\<lparr>buf_data := buf_data buf @ data\<rparr>))"

definition seg_buf_u16 :: "alloc \<Rightarrow> u16 \<Rightarrow> byte_buf \<Rightarrow> byte_buf option" where
  "seg_buf_u16 mem v buf = seg_buf_bytes mem [ucast v, ucast (drop_bit 8 v)] buf"

definition seg_buf_u32 :: "alloc \<Rightarrow> u32 \<Rightarrow> byte_buf \<Rightarrow> byte_buf option" where
  "seg_buf_u32 mem v buf = seg_buf_bytes mem (lmb_put32 v) buf"

definition seg_buf_u64 :: "alloc \<Rightarrow> u64 \<Rightarrow> byte_buf \<Rightarrow> byte_buf option" where
  "seg_buf_u64 mem v buf =
     seg_buf_u32 mem (ucast v) buf \<bind> seg_buf_u32 mem (ucast (drop_bit 32 v))"

text \<open>A string is written only when its buffer is terminated and not empty.\<close>

definition seg_buf_str :: "alloc \<Rightarrow> bytes \<Rightarrow> byte_buf \<Rightarrow> byte_buf option" where
  "seg_buf_str mem value buf =
     (if \<not> c_term value \<or> c_str value = [] then None
      else let len = length (c_str value) in
        if len > 2 ^ 16 - 1 then None
        else seg_buf_u16 mem (of_nat len) buf \<bind> seg_buf_bytes mem (c_str value))"

definition lmb_buf_u16 :: "alloc \<Rightarrow> u16 \<Rightarrow> byte_buf \<Rightarrow> byte_buf option" where
  "lmb_buf_u16 mem v b =
     (case lmb_buf_reserve mem b 2 of
        None \<Rightarrow> None
      | Some b \<Rightarrow> Some (b\<lparr>buf_data := buf_data b @ [ucast v, ucast (drop_bit 8 v)]\<rparr>))"

definition lmb_buf_u32 :: "alloc \<Rightarrow> u32 \<Rightarrow> byte_buf \<Rightarrow> byte_buf option" where
  "lmb_buf_u32 mem v b =
     (case lmb_buf_reserve mem b 4 of
        None \<Rightarrow> None
      | Some b \<Rightarrow> Some (b\<lparr>buf_data := buf_data b @ lmb_put32 v\<rparr>))"

definition lmb_buf_u64 :: "alloc \<Rightarrow> u64 \<Rightarrow> byte_buf \<Rightarrow> byte_buf option" where
  "lmb_buf_u64 mem v b = lmb_buf_u32 mem (ucast v) b \<bind> lmb_buf_u32 mem (ucast (drop_bit 32 v))"

definition lmb_buf_bytes :: "alloc \<Rightarrow> bytes \<Rightarrow> byte_buf \<Rightarrow> byte_buf option" where
  "lmb_buf_bytes mem p b =
     (case lmb_buf_reserve mem b (length p) of
        None \<Rightarrow> None
      | Some b \<Rightarrow> Some (b\<lparr>buf_data := buf_data b @ p\<rparr>))"

text \<open>\<open>strlen\<close> of a terminated buffer is the length of its C string.\<close>

definition lmb_buf_str :: "alloc \<Rightarrow> bytes \<Rightarrow> byte_buf \<Rightarrow> byte_buf option" where
  "lmb_buf_str mem s b =
     (let n = length (c_str s) in
      if n > 0xFFFF then None
      else lmb_buf_u16 mem (of_nat n) b \<bind> lmb_buf_bytes mem (c_str s))"

subsection \<open>What each of them writes\<close>

definition enc_u16 :: "u16 \<Rightarrow> bytes" where "enc_u16 v = [ucast v, ucast (drop_bit 8 v)]"

definition enc_u64 :: "u64 \<Rightarrow> bytes" where
  "enc_u64 v = lmb_put32 (ucast v) @ lmb_put32 (ucast (drop_bit 32 v))"

definition enc_str :: "bytes \<Rightarrow> bytes" where
  "enc_str s = enc_u16 (of_nat (length (c_str s))) @ c_str s"

lemma length_enc [simp]: "length (enc_u16 v) = 2" "length (enc_u64 w) = 8"
  "length (enc_str s) = 2 + length (c_str s)"
  by (simp_all add: enc_u16_def enc_u64_def enc_str_def)

lemma writes_seg_bytes [writes_intros]: "writes mem (seg_buf_bytes mem data) data"
  unfolding writes_def seg_buf_bytes_def
  using seg_buf_reserve_SomeD seg_buf_reserve_total
  by (fastforce simp: buf_ok_def split: option.splits)

lemma lmb_buf_bytes_eq: "lmb_buf_bytes = seg_buf_bytes"
  by (intro ext) (simp add: lmb_buf_bytes_def seg_buf_bytes_def lmb_buf_reserve_eq)

lemma lmb_buf_u16_eq: "lmb_buf_u16 = seg_buf_u16"
  by (intro ext) (simp add: lmb_buf_u16_def seg_buf_u16_def seg_buf_bytes_def lmb_buf_reserve_eq numeral_2_eq_2)

lemma lmb_buf_u32_eq: "lmb_buf_u32 = seg_buf_u32"
  by (intro ext) (simp add: lmb_buf_u32_def seg_buf_u32_def seg_buf_bytes_def lmb_buf_reserve_eq)

lemma lmb_buf_u64_eq: "lmb_buf_u64 = seg_buf_u64"
  by (intro ext) (simp add: lmb_buf_u64_def seg_buf_u64_def lmb_buf_u32_eq)

lemma writes_seg_u16 [writes_intros]: "writes mem (seg_buf_u16 mem v) (enc_u16 v)"
  unfolding seg_buf_u16_def enc_u16_def by (rule writes_seg_bytes)

lemma writes_seg_u32 [writes_intros]: "writes mem (seg_buf_u32 mem v) (lmb_put32 v)"
  unfolding seg_buf_u32_def by (rule writes_seg_bytes)

lemma writes_seg_u64 [writes_intros]: "writes mem (seg_buf_u64 mem v) (enc_u64 v)"
  unfolding seg_buf_u64_def enc_u64_def by (intro writes_intros)

definition str_ok :: "bytes \<Rightarrow> bool" where
  "str_ok s \<longleftrightarrow> c_term s \<and> c_str s \<noteq> [] \<and> length (c_str s) < 2 ^ 16"

lemma writes_seg_str [writes_intros]: "str_ok s \<Longrightarrow> writes mem (seg_buf_str mem s) (enc_str s)"
  unfolding seg_buf_str_def enc_str_def by (simp add: str_ok_def Let_def, intro writes_intros)

lemma writes_lmb_u32 [writes_intros]: "writes mem (lmb_buf_u32 mem v) (lmb_put32 v)"
  unfolding lmb_buf_u32_eq by (rule writes_intros)

lemma writes_lmb_u64 [writes_intros]: "writes mem (lmb_buf_u64 mem v) (enc_u64 v)"
  unfolding lmb_buf_u64_eq by (rule writes_intros)

lemma writes_lmb_bytes [writes_intros]: "writes mem (lmb_buf_bytes mem v) v"
  unfolding lmb_buf_bytes_eq by (rule writes_intros)

lemma writes_lmb_str [writes_intros]:
  "length (c_str s) < 2 ^ 16 \<Longrightarrow> writes mem (lmb_buf_str mem s) (enc_str s)"
  unfolding lmb_buf_str_def enc_str_def
  by (simp add: Let_def lmb_buf_u16_eq lmb_buf_bytes_eq, intro writes_intros)

section \<open>Reading\<close>

type_synonym cursor = bytes

definition seg_cur_bytes :: "nat \<Rightarrow> cursor \<Rightarrow> (bytes \<times> cursor) option" where
  "seg_cur_bytes len c = (if len > length c then None else Some (take len c, drop len c))"

definition seg_cur_u16 :: "cursor \<Rightarrow> (u16 \<times> cursor) option" where
  "seg_cur_u16 c =
     (case seg_cur_bytes 2 c of
        None \<Rightarrow> None
      | Some (p, c) \<Rightarrow> Some (ucast (p ! 0) OR push_bit 8 (ucast (p ! 1)), c))"

definition seg_cur_u32 :: "cursor \<Rightarrow> (u32 \<times> cursor) option" where
  "seg_cur_u32 c =
     (case seg_cur_bytes 4 c of None \<Rightarrow> None | Some (p, c) \<Rightarrow> Some (lmb_get32 p, c))"

definition seg_cur_u64 :: "cursor \<Rightarrow> (u64 \<times> cursor) option" where
  "seg_cur_u64 c = do {
     (lo, c) \<leftarrow> seg_cur_u32 c;
     (hi, c) \<leftarrow> seg_cur_u32 c;
     Some (ucast lo OR push_bit 32 (ucast hi), c)
   }"

text \<open>The output buffer has been zeroed before, so it ends as the string and zeros.\<close>

definition seg_cur_str :: "nat \<Rightarrow> cursor \<Rightarrow> (bytes \<times> cursor) option" where
  "seg_cur_str capacity c =
     (if capacity = 0 then None
      else case seg_cur_u16 c of
        None \<Rightarrow> None
      | Some (l, c) \<Rightarrow>
          let len = unat l in
          if len = 0 \<or> len > length c \<or> len \<ge> capacity \<or> 0 \<in> set (take len c) then None
          else Some (c_buf capacity (take len c), drop len c))"

lemma seg_cur_bytes_enc [wire_simps]: "length x = n \<Longrightarrow> seg_cur_bytes n (x @ r) = Some (x, r)"
  by (simp add: seg_cur_bytes_def)

lemma seg_cur_u16_enc [wire_simps]: "seg_cur_u16 (enc_u16 v @ r) = Some (v, r)"
  using u16_split [of v] by (simp add: seg_cur_u16_def seg_cur_bytes_def enc_u16_def)

lemma seg_cur_u32_enc [wire_simps]: "seg_cur_u32 (lmb_put32 v @ r) = Some (v, r)"
  by (simp add: seg_cur_u32_def seg_cur_bytes_enc)

lemma seg_cur_u64_enc [wire_simps]: "seg_cur_u64 (enc_u64 v @ r) = Some (v, r)"
  by (simp add: seg_cur_u64_def enc_u64_def seg_cur_u32_enc u64_split)

lemma seg_cur_str_enc [wire_simps]:
  "str_ok s \<Longrightarrow> length (c_str s) < cap \<Longrightarrow>
   seg_cur_str cap (enc_str s @ r) = Some (c_buf cap (c_str s), r)"
  using c_str_no_zero [of s]
  by (simp add: seg_cur_str_def enc_str_def seg_cur_u16_enc str_ok_def unat_of_nat_u16)

text \<open>A reader takes exactly the bytes that writing its result would produce.\<close>

named_theorems reads_dests "what a successful read says about the input"

lemma seg_cur_bytes_SomeD [reads_dests]:
  "seg_cur_bytes n c = Some (x, c') \<Longrightarrow> c = x @ c' \<and> length x = n"
  by (auto simp: seg_cur_bytes_def split: if_splits)

lemma length_4E:
  assumes "length xs = 4"
  obtains a b c d where "xs = [a, b, c, d]"
  using assms by (auto simp: numeral_eq_Suc length_Suc_conv)

lemma length_2E:
  assumes "length xs = 2"
  obtains a b where "xs = [a, b]"
  using assms by (auto simp: numeral_eq_Suc length_Suc_conv)

lemma lmb_put32_get32: "length p = 4 \<Longrightarrow> lmb_put32 (lmb_get32 p) = p"
  by (erule length_4E, simp add: lmb_put32_def lmb_get32_def) (intro conjI bit_word_eqI; auto simp: bit_simps dest: bit_imp_le_length)

lemma enc_u16_get: "length p = 2 \<Longrightarrow> enc_u16 (ucast (p ! 0) OR push_bit 8 (ucast (p ! 1))) = p"
  by (erule length_2E, simp add: enc_u16_def) (intro conjI bit_word_eqI; auto simp: bit_simps dest: bit_imp_le_length)

lemma u64_join:
  fixes lo hi :: u32
  shows "(ucast (ucast lo OR push_bit 32 (ucast hi) :: u64) :: u32) = lo"
    and "(ucast (drop_bit 32 (ucast lo OR push_bit 32 (ucast hi) :: u64)) :: u32) = hi"
  by (rule bit_word_eqI, auto simp: bit_simps dest: bit_imp_le_length)+

lemma seg_cur_u16_SomeD [reads_dests]: "seg_cur_u16 c = Some (v, c') \<Longrightarrow> c = enc_u16 v @ c'"
  by (auto simp: seg_cur_u16_def dest!: seg_cur_bytes_SomeD split: option.splits)
    (metis One_nat_def enc_u16_get)

lemma seg_cur_u32_SomeD [reads_dests]: "seg_cur_u32 c = Some (v, c') \<Longrightarrow> c = lmb_put32 v @ c'"
  by (auto simp: seg_cur_u32_def lmb_put32_get32 dest: seg_cur_bytes_SomeD split: option.splits)

lemma seg_cur_u64_SomeD [reads_dests]: "seg_cur_u64 c = Some (v, c') \<Longrightarrow> c = enc_u64 v @ c'"
  by (auto simp: seg_cur_u64_def enc_u64_def u64_join bind_eq_Some_conv simp del: drop_bit_or
      dest!: seg_cur_u32_SomeD)

lemma seg_cur_str_SomeD [reads_dests]:
  assumes "seg_cur_str cap c = Some (s, c')"
  shows "c = enc_str s @ c' \<and> c_term s \<and> c_str s \<noteq> [] \<and> length (c_str s) < cap \<and>
         length s = cap \<and> s = c_buf cap (c_str s) \<and> length (c_str s) < 2 ^ 16"
proof -
  from assms obtain l c1 where l: "seg_cur_u16 c = Some (l, c1)"
    and ok: "unat l \<noteq> 0" "unat l \<le> length c1" "unat l < cap" "0 \<notin> set (take (unat l) c1)"
    and s: "s = c_buf cap (take (unat l) c1)" and c': "c' = drop (unat l) c1"
    by (auto simp: seg_cur_str_def Let_def not_le split: if_splits option.splits)
  from ok have t: "c_str s = take (unat l) c1" by (simp add: s)
  moreover from l have "c = enc_u16 l @ c1" by (rule seg_cur_u16_SomeD)
  moreover have "unat l < 2 ^ 16" using unsigned_less [of l] by simp
  ultimately show ?thesis
    using ok by (auto simp: enc_str_def s c' min_absorb2)
qed

lemma seg_cur_str_ok: "seg_cur_str cap c = Some (s, c') \<Longrightarrow> str_ok s"
  by (drule seg_cur_str_SomeD) (simp add: str_ok_def)

section \<open>Field codecs\<close>

text \<open>
  The contract of one kind of field: the writer appends \<open>enc x\<close>, the reader takes exactly
  these bytes and returns the value (\<open>canon x\<close>, which for a string is the buffer with the bytes
  after the terminator zeroed).
\<close>

fun put_seq :: "('a \<Rightarrow> byte_buf \<Rightarrow> byte_buf option) \<Rightarrow> 'a list \<Rightarrow> byte_buf \<Rightarrow> byte_buf option" where
  "put_seq put [] b = Some b"
| "put_seq put (x # xs) b = put x b \<bind> put_seq put xs"

fun get_seq :: "(cursor \<Rightarrow> ('a \<times> cursor) option) \<Rightarrow> nat \<Rightarrow> cursor \<Rightarrow> ('a list \<times> cursor) option" where
  "get_seq get 0 c = Some ([], c)"
| "get_seq get (Suc n) c = do {
     (x, c) \<leftarrow> get c;
     (xs, c) \<leftarrow> get_seq get n c;
     Some (x # xs, c)
   }"

locale codec =
  fixes put :: "alloc \<Rightarrow> 'a \<Rightarrow> byte_buf \<Rightarrow> byte_buf option"
    and get :: "cursor \<Rightarrow> ('a \<times> cursor) option"
    and enc :: "'a \<Rightarrow> bytes"
    and ok :: "'a \<Rightarrow> bool"
    and canon :: "'a \<Rightarrow> 'a"
  assumes put_writes: "ok x \<Longrightarrow> writes mem (put mem x) (enc x)"
    and get_enc: "ok x \<Longrightarrow> get (enc x @ r) = Some (canon x, r)"
    and get_dec: "get c = Some (x, r) \<Longrightarrow> c = enc x @ r \<and> ok x \<and> canon x = x"
begin

text \<open>Reading is injective: two inputs that read as the same value and rest are equal.\<close>

lemma get_inject: "get c = Some (x, r) \<Longrightarrow> get c' = Some (x, r) \<Longrightarrow> c = c'"
  by (drule get_dec)+ simp

lemma get_seq_dec:
  "get_seq get n c = Some (xs, r) \<Longrightarrow>
   c = concat (map enc xs) @ r \<and> length xs = n \<and> (\<forall>x \<in> set xs. ok x \<and> canon x = x)"
proof (induction n arbitrary: c xs)
  case 0
  then show ?case by simp
next
  case (Suc n)
  then obtain x c1 ys where x: "get c = Some (x, c1)" and ys: "get_seq get n c1 = Some (ys, r)"
    and xs: "xs = x # ys"
    by (auto simp: bind_eq_Some_conv)
  from get_dec [OF x] Suc.IH [OF ys] show ?case by (auto simp: xs)
qed

lemma put_seq_writes:
  "\<forall>x \<in> set xs. ok x \<Longrightarrow> writes mem (put_seq (put mem) xs) (concat (map enc xs))"
proof (induction xs)
  case Nil
  then show ?case by (simp add: writes_def)
next
  case (Cons x xs)
  then have "writes mem (\<lambda>b. put mem x b \<bind> put_seq (put mem) xs) (enc x @ concat (map enc xs))"
    by (intro writes_bind put_writes) auto
  then show ?case by (simp add: writes_def)
qed

lemma get_seq_enc:
  "\<forall>x \<in> set xs. ok x \<Longrightarrow> get_seq get (length xs) (concat (map enc xs) @ r) = Some (map canon xs, r)"
  by (induction xs arbitrary: r) (simp_all add: get_enc)

lemma put_get:
  assumes "ok x" "put mem x b = Some b'"
  shows "get (drop (length (buf_data b)) (buf_data b') @ r) = Some (canon x, r)"
  using writesD(1) [OF put_writes [OF assms(1)] assms(2)] assms(1) by (simp add: get_enc)

lemma put_seq_get_seq:
  assumes "\<forall>x \<in> set xs. ok x" "put_seq (put mem) xs b = Some b'"
  shows "get_seq get (length xs) (drop (length (buf_data b)) (buf_data b') @ r) = Some (map canon xs, r)"
  using writesD(1) [OF put_seq_writes [OF assms(1)] assms(2)] assms(1) by (simp add: get_seq_enc)

end

interpretation u32_codec: codec seg_buf_u32 seg_cur_u32 lmb_put32 "\<lambda>_. True" id
  by unfold_locales (simp_all add: writes_intros wire_simps seg_cur_u32_SomeD)

interpretation u64_codec: codec seg_buf_u64 seg_cur_u64 enc_u64 "\<lambda>_. True" id
  by unfold_locales (simp_all add: writes_intros wire_simps seg_cur_u64_SomeD)

interpretation str64_codec: codec seg_buf_str "seg_cur_str 64" enc_str
  "\<lambda>s. str_ok s \<and> length s = 64" "\<lambda>s. c_buf 64 (c_str s)"
proof (unfold_locales, goal_cases)
  case (1 s mem)
  then show ?case by (simp add: writes_intros)
next
  case (2 s r)
  then have "length (c_str s) < 64" using c_str_length [of s] by (simp add: str_ok_def)
  with 2 show ?case by (simp add: wire_simps)
next
  case (3 c s r)
  then show ?case using seg_cur_str_SomeD [OF 3] seg_cur_str_ok [OF 3] by simp
qed

section \<open>The contract of a message\<close>

text \<open>
  An encoder checks validity, writes the fields and bounds the body by \<open>limit\<close>; a decoder tests
  the body's length (\<open>fits\<close>), reads the fields, refuses trailing bytes and checks validity. From the
  field codec it follows once that decoding inverts encoding, that a decoded body is the only body
  with its value, and that encoding succeeds.
\<close>

definition buf_finish :: "nat \<Rightarrow> byte_buf \<Rightarrow> bytes option" where
  "buf_finish limit b = (if length (buf_data b) > limit then None else Some (buf_data b))"

locale message = codec put get enc ok canon
  for put :: "alloc \<Rightarrow> 'm \<Rightarrow> byte_buf \<Rightarrow> byte_buf option" and get enc ok canon +
  fixes limit :: nat
    and fits :: "nat \<Rightarrow> bool"
    and valid :: "'m \<Rightarrow> bool"
    and sized :: "'m \<Rightarrow> bool"
    and encode :: "alloc \<Rightarrow> 'm \<Rightarrow> bytes option"
    and decode :: "bytes \<Rightarrow> 'm option"
  assumes encode_eq: "encode mem x = (if \<not> valid x then None else put mem x buf_empty \<bind> buf_finish limit)"
    and decode_eq: "decode body =
      (if \<not> fits (length body) then None
       else case get body of
         None \<Rightarrow> None | Some (x, c) \<Rightarrow> if c \<noteq> [] \<or> \<not> valid x then None else Some x)"
    and limit_fits: "n \<le> limit \<Longrightarrow> fits n"
    and limit_size: "limit \<le> SIZE_MAX"
    and valid_ok: "valid x \<Longrightarrow> sized x \<Longrightarrow> ok x"
    and ok_sized: "ok x \<Longrightarrow> sized x"
    and valid_canon: "valid x \<Longrightarrow> sized x \<Longrightarrow> valid (canon x)"
begin

lemma encode_SomeD:
  assumes "sized x" "encode mem x = Some body"
  shows "valid x" "body = enc x" "length body \<le> limit"
proof -
  from assms(2) obtain b where v: "valid x" and b: "put mem x buf_empty = Some b"
    and f: "buf_finish limit b = Some body"
    by (auto simp: encode_eq bind_eq_Some_conv split: if_splits)
  from writesD(1) [OF put_writes [OF valid_ok [OF v assms(1)]] b] f
  show "valid x" "body = enc x" "length body \<le> limit"
    using v by (auto simp: buf_finish_def buf_empty_def split: if_splits)
qed

lemma roundtrip:
  assumes "sized x" "encode mem x = Some body"
  shows "decode body = Some (canon x)"
proof -
  note e = encode_SomeD [OF assms]
  have "get (enc x @ []) = Some (canon x, [])"
    using valid_ok [OF e(1) assms(1)] by (rule get_enc)
  with e valid_canon [OF e(1) assms(1)] show ?thesis by (simp add: decode_eq limit_fits)
qed

lemma decode_SomeD:
  assumes "decode body = Some x"
  shows "valid x" "sized x" "canon x = x" "body = enc x" "fits (length body)"
proof -
  from assms have v: "valid x" and g: "get body = Some (x, [])" and l: "fits (length body)"
    by (auto simp: decode_eq split: if_splits option.splits prod.splits)
  from get_dec [OF g] ok_sized v l
  show "valid x" "sized x" "canon x = x" "body = enc x" "fits (length body)"
    by auto
qed

lemma encode_total:
  assumes "valid x" "sized x" "length (enc x) \<le> limit" "\<forall>n. mem n"
  shows "encode mem x = Some (enc x)"
proof -
  from assms(3) limit_size have "length (enc x) \<le> SIZE_MAX" by (rule le_trans)
  with put_writes [OF valid_ok [OF assms(1,2)]] assms(4)
  obtain b where "put mem x buf_empty = Some b" "buf_data b = enc x" using writes_None by blast
  with assms show ?thesis by (simp add: encode_eq buf_finish_def)
qed

lemma canonical:
  assumes "decode body = Some x" "length body \<le> limit" "\<forall>n. mem n"
  shows "encode mem x = Some body"
  using encode_total [of x mem] decode_SomeD [OF assms(1)] assms(2,3) by simp

text \<open>Two different bodies never decode to the same message.\<close>

lemma decode_inject: "decode body = Some x \<Longrightarrow> decode body' = Some x \<Longrightarrow> body = body'"
  using decode_SomeD(4) by blast

end

end
