(* ===== verification/Frame_Guarantees.thy ===== *)
theory Frame_Guarantees
  imports Frames Byte_Buffer
begin

text \<open>
  What the frames guarantee: a frame that was sent is received whatever the pieces the socket delivers
  it in, a received frame is exactly its bytes on the wire, a failure holds nothing back, and the
  reservations of all threads add up to the shared counter.
\<close>

section \<open>Whole reads\<close>

lemma take_drop_length: "take k xs @ drop (length (take k xs)) xs = xs"
  by (cases "k \<le> length xs") simp_all

lemma read_turns_exact:
  "read_turns d ts stream n = (Inr b, stream', left) \<Longrightarrow> length b = n \<and> stream = b @ stream'"
proof (induction ts arbitrary: stream n b stream' left)
  case (Cons t ts)
  let ?late = "d \<noteq> 0 \<and> (rt_now t = 0 \<or> rt_now t \<ge> d)" and ?bad = "d \<noteq> 0 \<and> rt_wait t = W_Failed"
  let ?idle = "d \<noteq> 0 \<and> rt_wait t \<noteq> W_Ready"
  consider "n = 0" | "n \<noteq> 0" "?idle" "\<not> ?late" "\<not> ?bad" | k where "n \<noteq> 0" "\<not> ?idle" "\<not> ?late" "\<not> ?bad" "rt_recv t = IO_Bytes k"
    | "n \<noteq> 0" "\<not> ?idle" "\<not> ?late" "\<not> ?bad" "rt_recv t = IO_Interrupted"
    using Cons.prems by (cases "rt_recv t") (auto split: if_splits)
  then show ?case
  proof cases
    case (3 k)
    let ?got = "take (min k n) stream"
    obtain res s l where r: "read_turns d ts (drop (length ?got) stream) (n - length ?got) = (res, s, l)"
      by (cases "read_turns d ts (drop (length ?got) stream) (n - length ?got)") auto
    have "(if ?got = [] then (Inl E_ConnReset, stream, ts) else (map_sum id ((@) ?got) res, s, l)) = (Inr b, stream', left)"
      using Cons.prems unfolding read_turns.simps Let_def r prod.case 3(5) io_turn.case
      by (simp only: 3(1-4) if_False)
    then obtain c where c: "res = Inr c" "b = ?got @ c" "s = stream'" by (cases res) (auto split: if_splits)
    from Cons.IH [of "drop (length ?got) stream" "n - length ?got" c s l] r c
    have c': "length c = n - length ?got" "drop (length ?got) stream = c @ stream'" by auto
    have "length ?got \<le> n" by simp
    then have "length b = n" using c'(1) unfolding c(2) length_append by linarith
    moreover have "stream = b @ stream'"
      using take_drop_length [of "min k n" stream] unfolding c(2) c'(2) by (simp only: append_assoc)
    ultimately show ?thesis by simp
  qed (use Cons.prems Cons.IH [of stream n b stream' left] in auto)
qed (auto split: if_splits)

definition turn_ok :: "read_turn \<Rightarrow> bool" where
  "turn_ok t \<longleftrightarrow> rt_recv t \<noteq> IO_Failed \<and> rt_recv t \<noteq> IO_Bytes 0"

definition deliveries :: "read_turn list \<Rightarrow> nat" where
  "deliveries ts = length (filter (\<lambda>t. rt_recv t \<noteq> IO_Interrupted) ts)"

text \<open>Turns that deliver: none fails, and at least \<open>n\<close> of them pass bytes on.\<close>

definition delivers :: "nat \<Rightarrow> read_turn list \<Rightarrow> bool" where
  "delivers n ts \<longleftrightarrow> list_all turn_ok ts \<and> n \<le> deliveries ts"

lemma delivers_mono: "delivers n ts \<Longrightarrow> m \<le> n \<Longrightarrow> delivers m ts"
  by (simp add: delivers_def)

lemma read_turns_delivers:
  assumes "delivers (n + k) ts" "n \<le> length stream"
  shows "\<exists>left. read_turns 0 ts stream n = (Inr (take n stream), drop n stream, left) \<and> delivers k left"
  using assms
proof (induction ts arbitrary: stream n)
  case Nil
  then show ?case by (simp add: delivers_def deliveries_def)
next
  case (Cons t ts)
  show ?case
  proof (cases "n = 0")
    case False
    have ok: "turn_ok t" using Cons.prems by (simp add: delivers_def)
    show ?thesis
    proof (cases "rt_recv t")
      case (IO_Bytes c)
      with ok have c: "0 < c" by (simp add: turn_ok_def)
      let ?got = "take (min c n) stream"
      have l: "length ?got = min c n" using Cons.prems(2) by simp
      have ne: "?got \<noteq> []" using l c False by auto
      have "delivers (n - min c n + k) ts"
        using Cons.prems(1) IO_Bytes c False by (auto simp: delivers_def deliveries_def)
      moreover have "n - min c n \<le> length (drop (min c n) stream)" using Cons.prems(2) by (simp add: diff_le_mono)
      ultimately obtain left
        where r: "read_turns 0 ts (drop (min c n) stream) (n - min c n) =
          (Inr (take (n - min c n) (drop (min c n) stream)), drop (n - min c n) (drop (min c n) stream), left)"
          and d: "delivers k left" using Cons.IH by blast
      have e: "?got @ take (n - min c n) (drop (min c n) stream) = take n stream"
        by (metis le_add_diff_inverse min.cobounded2 take_add)
      show ?thesis using r d ne l False IO_Bytes e by (simp add: Let_def)
    next
      case IO_Interrupted
      then have "delivers (n + k) ts" using Cons.prems(1) by (simp add: delivers_def deliveries_def)
      from Cons.IH [OF this Cons.prems(2)] show ?thesis using IO_Interrupted False by simp
    qed (use ok in \<open>simp add: turn_ok_def\<close>)
  qed (use Cons.prems in simp)
qed

lemma read_full_delivers:
  assumes "rx_deadline w = 0" "delivers (length b + k) (rx_turns w)" "rx_stream w = b @ rest" "n = length b"
  obtains left where "lmb_socket_read_full n w = (Inr b, w\<lparr>rx_stream := rest, rx_turns := left\<rparr>)" "delivers k left"
  using read_turns_delivers [of "length b" k "rx_turns w" "b @ rest"] assms
  by (auto simp: lmb_socket_read_full_def)

lemma read_full_exact:
  assumes "lmb_socket_read_full n w = (Inr b, w')"
  shows "length b = n \<and> rx_stream w = b @ rx_stream w' \<and> rx_inflight w' = rx_inflight w \<and> rx_frame_limit w' = rx_frame_limit w"
  using assms read_turns_exact [of "rx_deadline w" "rx_turns w" "rx_stream w" n b]
  by (auto simp: lmb_socket_read_full_def split: prod.splits)

lemma read_full_keeps:
  "lmb_socket_read_full n w = (r, w') \<Longrightarrow> rx_inflight w' = rx_inflight w \<and> rx_frame_limit w' = rx_frame_limit w"
  by (auto simp: lmb_socket_read_full_def split: prod.splits)

section \<open>Whole writes\<close>

lemma write_turns_exact: "write_turns ts buf = (True, sent, left) \<Longrightarrow> sent = buf"
proof (induction ts arbitrary: buf sent left)
  case (Cons t ts)
  then show ?case
    by (auto simp: Let_def split: if_splits io_turn.splits prod.splits) (metis append_take_drop_id)
qed simp

lemma write_full_exact: "lmb_write_full buf w = (True, w') \<Longrightarrow> tx_out w' = tx_out w @ buf"
  by (auto simp: lmb_write_full_def dest: write_turns_exact split: prod.splits)

text \<open>The bytes of a frame.\<close>

definition frame_bytes :: "u32 \<Rightarrow> bytes \<Rightarrow> bytes \<Rightarrow> bytes" where
  "frame_bytes op body pay =
     lmb_put32 LMB_MAGIC @ lmb_put32 op @ lmb_put32 (of_nat (length body)) @ lmb_put32 (of_nat (length pay)) @ body @ pay"

lemma send_bytes:
  assumes "lmb_send (\<lambda>_. None) op body bl pay pl w = (Inr (), w')" "length body = unat bl" "length pay = unat pl"
  shows "tx_out w' = tx_out w @ frame_bytes op body pay \<and> lmb_frame_shape_ok op bl pl"
proof -
  have l: "of_nat (length body) = bl" "of_nat (length pay) = pl" using assms(2,3) by simp_all
  have z: "bl = 0 \<longleftrightarrow> body = []" "pl = 0 \<longleftrightarrow> pay = []" using assms(2,3) l by (auto simp: unat_eq_zero)
  show ?thesis using assms(1)
    by (auto simp: z lmb_send_def frame_bytes_def l Let_def assms(2) [symmetric] assms(3) [symmetric]
        dest!: write_full_exact split: if_splits prod.splits)
qed


section \<open>The budget\<close>

text \<open>What a reservation promises: the counter grows by the bytes, stays within the budget and does not wrap.\<close>

lemma reserve_ok:
  assumes "lmb_rx_reserve cap n m w = (Inr u, m', w')" "m_rx_reserved m = 0" "unat (rx_inflight w) \<le> unat cap"
  shows "m' = m\<lparr>m_rx_reserved := n\<rparr> \<and> n \<le> rx_frame_limit w \<and> w' = w\<lparr>rx_inflight := rx_inflight w'\<rparr> \<and>
    unat (rx_inflight w') = unat (rx_inflight w) + unat n \<and> unat (rx_inflight w') \<le> unat cap"
proof (cases "n = 0")
  case True
  with assms show ?thesis by (auto simp: lmb_rx_reserve_def split: if_splits)
next
  case False
  have u: "unat (ucast n :: u64) = unat n" by simp
  from False assms have n: "n \<le> rx_frame_limit w" "ucast n \<le> cap" "rx_inflight w \<le> cap - ucast n"
    and e: "m' = m\<lparr>m_rx_reserved := n\<rparr>" "w' = w\<lparr>rx_inflight := rx_inflight w + ucast n\<rparr>"
    by (auto simp: lmb_rx_reserve_def not_less split: if_splits)
  have "unat (cap - ucast n) = unat cap - unat n" using n(2) u by (simp add: unat_sub)
  then have le: "unat (rx_inflight w) + unat n \<le> unat cap"
    using n(2,3) u by (simp add: word_le_nat_alt)
  moreover have "unat cap < 18446744073709551616" using unsigned_less [of cap, where ?'a = nat] by simp
  ultimately have "unat (rx_inflight w + ucast n) = unat (rx_inflight w) + unat n" by (simp add: unat_word_ariths)
  then show ?thesis using n(1) e le by simp
qed

lemma reserve_word: "lmb_rx_reserve cap n m w = (Inr u, m', w') \<Longrightarrow> rx_inflight w' = rx_inflight w + ucast n"
  by (auto simp: lmb_rx_reserve_def split: if_splits)

lemma reserve_fail: "lmb_rx_reserve cap n m w = (Inl e, m', w') \<Longrightarrow> m' = m \<and> w' = w"
  by (auto simp: lmb_rx_reserve_def split: if_splits)

lemma release_reserved:
  assumes "lmb_rx_release m w = (m', w')"
  shows "m_rx_reserved m' = 0 \<and> rx_inflight w' = rx_inflight w - ucast (m_rx_reserved m) \<and> rx_stream w' = rx_stream w"
  using assms by (auto simp: lmb_rx_release_def split: if_splits)

section \<open>Receiving\<close>

lemma recv_fail_released:
  assumes "recv_fail e m w = (r, m', w')"
  shows "r = Inl e \<and> m_rx_reserved m' = 0 \<and> rx_inflight w' = rx_inflight w - ucast (m_rx_reserved m) \<and>
    m_body m' = None \<and> m_pay m' = None"
  using assms by (auto simp: recv_fail_def lmb_rx_release_def split: if_splits)

text \<open>A part: the bytes come off the stream and land in the message.\<close>

lemma recv_body_ok:
  assumes "recv_body mem m w = (Inr u, m', w')" "m_body m = None"
  shows "\<exists>b. length b = unat (m_body_len m) \<and> m' = m\<lparr>m_body := (if b = [] then None else Some b)\<rparr> \<and>
    rx_stream w = b @ rx_stream w' \<and> rx_inflight w' = rx_inflight w"
proof (cases "m_body_len m = 0")
  case True
  then show ?thesis using assms by (auto simp: recv_body_def)
next
  case False
  then obtain b where b: "lmb_socket_read_full (unat (m_body_len m)) w = (Inr b, w')" "m' = m\<lparr>m_body := Some b\<rparr>"
    using assms by (auto simp: recv_body_def recv_fail_def Let_def split: if_splits prod.splits sum.splits)
  have "b \<noteq> []" using read_full_exact [OF b(1)] False by (auto simp: unat_eq_zero)
  then show ?thesis using read_full_exact [OF b(1)] b(2) by auto
qed

lemma recv_pay_ok:
  assumes "recv_pay mem m w = (Inr u, m', w')" "m_pay m = None"
  shows "\<exists>b. length b = unat (m_pay_len m) \<and> m' = m\<lparr>m_pay := (if b = [] then None else Some b)\<rparr> \<and>
    rx_stream w = b @ rx_stream w' \<and> rx_inflight w' = rx_inflight w"
proof (cases "m_pay_len m = 0")
  case True
  then show ?thesis using assms by (auto simp: recv_pay_def)
next
  case False
  then obtain b where b: "lmb_socket_read_full (unat (m_pay_len m)) w = (Inr b, w')" "m' = m\<lparr>m_pay := Some b\<rparr>"
    using assms by (auto simp: recv_pay_def recv_fail_def Let_def split: if_splits prod.splits sum.splits)
  have "b \<noteq> []" using read_full_exact [OF b(1)] False by (auto simp: unat_eq_zero)
  then show ?thesis using read_full_exact [OF b(1)] b(2) by auto
qed

lemma recv_part_fail:
  assumes "recv_body mem m w = (Inl e, m', w') \<or> recv_pay mem m w = (Inl e, m', w')"
  shows "m_rx_reserved m' = 0 \<and> m_body m' = None \<and> m_pay m' = None \<and>
    rx_inflight w' = rx_inflight w - ucast (m_rx_reserved m)"
  using assms
  by (auto simp: recv_body_def recv_pay_def split: if_splits prod.splits sum.splits
      dest!: recv_fail_released read_full_keeps)

text \<open>The bytes a message holds.\<close>

definition msg_body :: "LmbMsg \<Rightarrow> bytes" where "msg_body m = (case m_body m of None \<Rightarrow> [] | Some b \<Rightarrow> b)"
definition msg_pay :: "LmbMsg \<Rightarrow> bytes" where "msg_pay m = (case m_pay m of None \<Rightarrow> [] | Some b \<Rightarrow> b)"

lemma get32_take: "4 \<le> length p \<Longrightarrow> lmb_get32 p = lmb_get32 (take 4 p)"
  by (simp add: lmb_get32_def)

lemma put32_get32_take: "4 \<le> length p \<Longrightarrow> lmb_put32 (lmb_get32 p) = take 4 p"
  by (subst get32_take) (simp_all add: lmb_put32_get32)

lemma preamble_split:
  assumes "length pre = 16"
  shows "pre = lmb_put32 (lmb_get32 pre) @ lmb_put32 (lmb_get32 (drop 4 pre)) @ lmb_put32 (lmb_get32 (drop 8 pre)) @
    lmb_put32 (lmb_get32 (drop 12 pre))"
proof -
  have "pre = take 4 pre @ take 4 (drop 4 pre) @ take 4 (drop 8 pre) @ take 4 (drop 12 pre)"
    using take_add [of 4 12 pre] take_add [of 4 8 "drop 4 pre"] take_add [of 4 4 "drop 8 pre"] assms by simp
  then show ?thesis using assms by (simp add: put32_get32_take)
qed

text \<open>The header of a frame, before anything is reserved for it.\<close>

definition recv_message :: "bytes \<Rightarrow> LmbMsg" where
  "recv_message pre = msg_zero\<lparr>m_op := lmb_get32 (drop 4 pre), m_body_len := lmb_get32 (drop 8 pre),
     m_pay_len := lmb_get32 (drop 12 pre)\<rparr>"

lemma recv_cases:
  assumes "lmb_recv (\<lambda>_. None) mem cap w = (r, m, w')"
  obtains (early) e where "r = Inl e" "m_rx_reserved m = 0" "m_body m = None" "m_pay m = None" "rx_inflight w' = rx_inflight w"
  | (reserved) pre w1 m2 w2 where "lmb_socket_read_full 16 w = (Inr pre, w1)" "lmb_get32 pre = LMB_MAGIC"
      "lmb_frame_shape_ok (m_op (recv_message pre)) (m_body_len (recv_message pre)) (m_pay_len (recv_message pre))"
      "lmb_rx_reserve cap (m_body_len (recv_message pre) + m_pay_len (recv_message pre)) (recv_message pre) w1 = (Inr (), m2, w2)"
      "(case recv_body mem m2 w2 of (Inl e, m, w) \<Rightarrow> (Inl e, m, w) | (Inr _, m, w) \<Rightarrow> recv_pay mem m w) = (r, m, w')"
proof (cases "lmb_socket_read_full 16 w")
  case (Pair res w1)
  have keep: "rx_inflight w1 = rx_inflight w" using read_full_keeps [OF Pair] by simp
  show thesis
  proof (cases res)
    case (Inl e)
    then show thesis using assms Pair keep by (intro early [of e]) (auto simp: lmb_recv_def msg_zero_def)
  next
    case (Inr pre)
    let ?m = "recv_message pre"
    have z: "m_rx_reserved ?m = 0" "m_body ?m = None" "m_pay ?m = None" by (simp_all add: recv_message_def msg_zero_def)
    have c: "ucast (ucast (m_body_len ?m) + ucast (m_pay_len ?m) :: u64) = m_body_len ?m + m_pay_len ?m"
      by (simp add: word_unat_eq_iff unsigned_ucast_eq unat_word_ariths take_bit_eq_mod mod_mod_cancel)
    have u: "lmb_recv (\<lambda>_. None) mem cap w =
        (if lmb_get32 pre \<noteq> LMB_MAGIC then (Inl E_Proto, msg_zero, w1)
         else if \<not> lmb_frame_shape_ok (m_op ?m) (m_body_len ?m) (m_pay_len ?m) then (Inl E_MsgSize, ?m, w1)
         else if ucast (m_body_len ?m) + ucast (m_pay_len ?m) > (ucast UINT32_MAX :: u64) then (Inl E_Socket, ?m, w1)
         else case lmb_rx_reserve cap (m_body_len ?m + m_pay_len ?m) ?m w1 of
                (Inl e, m, w) \<Rightarrow> (Inl e, m, w)
              | (Inr _, m, w) \<Rightarrow> (case recv_body mem m w of (Inl e, m, w) \<Rightarrow> (Inl e, m, w) | (Inr _, m, w) \<Rightarrow> recv_pay mem m w))"
      unfolding lmb_recv_def option.case Pair Inr prod.case sum.case Let_def recv_message_def [symmetric] c ..
    obtain res2 m2 w2 where r2: "lmb_rx_reserve cap (m_body_len ?m + m_pay_len ?m) ?m w1 = (res2, m2, w2)"
      by (cases "lmb_rx_reserve cap (m_body_len ?m + m_pay_len ?m) ?m w1") auto
    have rf: "m2 = ?m \<and> w2 = w1" if "res2 = Inl e" for e using reserve_fail r2 that by blast
    consider e where "r = Inl e" "m_rx_reserved m = 0" "m_body m = None" "m_pay m = None" "rx_inflight w' = rx_inflight w"
      | "lmb_get32 pre = LMB_MAGIC" "lmb_frame_shape_ok (m_op ?m) (m_body_len ?m) (m_pay_len ?m)" "res2 = Inr ()"
        "(case recv_body mem m2 w2 of (Inl e, m, w) \<Rightarrow> (Inl e, m, w) | (Inr _, m, w) \<Rightarrow> recv_pay mem m w) = (r, m, w')"
      using assms rf keep unfolding u r2 by (cases res2) (auto simp: z msg_zero_def split: if_splits)
    then show thesis
    proof cases
      case (1 e)
      then show thesis by (rule early)
    next
      case 2
      then show thesis using r2 Pair Inr by (intro reserved [of pre w1 m2 w2]) simp_all
    qed
  qed
qed


lemma shape_sum:
  assumes "lmb_frame_shape_ok op bl pl"
  shows "unat (bl + pl) = unat bl + unat pl"
  using lmb_frame_shape_okD [OF assms] by (simp add: unat_word_ariths)

text \<open>C19: A frame that \<open>lmb_recv\<close> accepts is exactly the bytes it took off the stream, has a legal shape, respects the
  limit of the thread and holds a reservation of its size within the budget; a refused or broken one
  leaves no buffer and no reservation behind.\<close>

theorem recv_exact:
  assumes "lmb_recv (\<lambda>_. None) mem cap w = (r, m, w')" "unat (rx_inflight w) \<le> unat cap"
  shows "case r of
      Inl e \<Rightarrow> m_rx_reserved m = 0 \<and> m_body m = None \<and> m_pay m = None \<and> rx_inflight w' = rx_inflight w
    | Inr _ \<Rightarrow> rx_stream w = frame_bytes (m_op m) (msg_body m) (msg_pay m) @ rx_stream w' \<and>
        lmb_frame_shape_ok (m_op m) (m_body_len m) (m_pay_len m) \<and> m_rx_reserved m \<le> rx_frame_limit w \<and>
        unat (m_rx_reserved m) = length (msg_body m) + length (msg_pay m) \<and>
        unat (rx_inflight w') = unat (rx_inflight w) + unat (m_rx_reserved m) \<and> unat (rx_inflight w') \<le> unat cap"
  using assms(1)
proof (cases rule: recv_cases)
  case (early e)
  then show ?thesis by simp
next
  case (reserved pre w1 m2 w2)
  let ?m = "recv_message pre"
  have z: "m_rx_reserved ?m = 0" "m_body ?m = None" "m_pay ?m = None" by (simp_all add: recv_message_def msg_zero_def)
  note R = read_full_exact [OF reserved(1)]
  have "unat (rx_inflight w1) \<le> unat cap" using R assms(2) by simp
  note B = reserve_ok [OF reserved(4) z(1) this]
  show ?thesis
  proof (cases "recv_body mem m2 w2")
    case (fields rb m3 w3)
    show ?thesis
    proof (cases rb)
      case (Inl e)
      have "rx_inflight w3 = rx_inflight w1" using recv_part_fail [of mem m2 w2 e m3 w3] fields Inl B reserve_word [OF reserved(4)] by simp
      then show ?thesis using reserved(5) fields Inl recv_part_fail [of mem m2 w2 e m3 w3] R by auto
    next
      case (Inr u)
      then have p: "recv_pay mem m3 w3 = (r, m, w')" using reserved(5) fields by simp
      from recv_body_ok [of mem m2 w2 u m3 w3] fields Inr B z obtain b where
        b: "length b = unat (m_body_len m2)" "m3 = m2\<lparr>m_body := (if b = [] then None else Some b)\<rparr>"
          "rx_stream w2 = b @ rx_stream w3" "rx_inflight w3 = rx_inflight w2" by auto
      show ?thesis
      proof (cases r)
        case (Inl e)
        have "rx_inflight w' = rx_inflight w1" using recv_part_fail [of mem m3 w3 e m w'] p Inl b B reserve_word [OF reserved(4)] by simp
        then show ?thesis using Inl p recv_part_fail [of mem m3 w3 e m w'] R by auto
      next
        case (Inr v)
        from recv_pay_ok [of mem m3 w3 v m w'] p Inr B z b obtain q where
          q: "length q = unat (m_pay_len m3)" "m = m3\<lparr>m_pay := (if q = [] then None else Some q)\<rparr>"
            "rx_stream w3 = q @ rx_stream w'" "rx_inflight w' = rx_inflight w3" by auto
        have m: "m_op m = m_op ?m" "m_body_len m = m_body_len ?m" "m_pay_len m = m_pay_len ?m"
          "m_rx_reserved m = m_body_len ?m + m_pay_len ?m" "msg_body m = b" "msg_pay m = q"
          using q(2) b(2) B z by (auto simp: msg_body_def msg_pay_def)
        have l: "length b = unat (m_body_len ?m)" "length q = unat (m_pay_len ?m)" using b q(1) B by auto
        have "rx_stream w2 = rx_stream w1" using B by (metis rx.select_convs(1) rx.surjective rx.update_convs(5))
        then have "rx_stream w = pre @ b @ q @ rx_stream w'" using R b(3) q(3) by simp
        moreover have "pre @ b @ q = frame_bytes (m_op m) b q"
          using preamble_split [of pre] R reserved(2) l
          by (simp add: frame_bytes_def m recv_message_def)
        ultimately show ?thesis using reserved(3) B R l q(4) b(4) shape_sum [OF reserved(3)] Inr
          by (simp add: m)
      qed
    qed
  qed
qed


section \<open>Delivery\<close>

lemma reserve_room:
  assumes "n \<le> rx_frame_limit w" "unat (rx_inflight w) + unat n \<le> unat cap" "m_rx_reserved m = 0"
  shows "lmb_rx_reserve cap n m w = (Inr (), m\<lparr>m_rx_reserved := n\<rparr>, w\<lparr>rx_inflight := rx_inflight w + ucast n\<rparr>)"
proof -
  have u: "unat (ucast n :: u64) = unat n" by simp
  have "ucast n \<le> cap" using assms(2) u by (simp add: word_le_nat_alt)
  moreover from this have "rx_inflight w \<le> cap - ucast n" using assms(2) u by (simp add: word_le_nat_alt unat_sub)
  ultimately show ?thesis using assms(1,3) by (auto simp: lmb_rx_reserve_def not_less leD)
qed

lemma recv_body_delivers:
  assumes "rx_deadline w = 0" "delivers (length b + k) (rx_turns w)" "rx_stream w = b @ rest"
    "unat (m_body_len m) = length b" "mem (length b)" "m_body m = None"
  obtains left where "recv_body mem m w =
    (Inr (), m\<lparr>m_body := (if b = [] then None else Some b)\<rparr>, w\<lparr>rx_stream := rest, rx_turns := left\<rparr>)" "delivers k left"
proof (cases "b = []")
  case True
  then have "recv_body mem m w = (Inr (), m\<lparr>m_body := None\<rparr>, w\<lparr>rx_stream := rest, rx_turns := rx_turns w\<rparr>)"
    using assms by (simp add: recv_body_def unat_eq_zero)
  then show ?thesis using True assms(2) by (intro that [of "rx_turns w"]) simp_all
next
  case False
  from read_full_delivers [OF assms(1,2,3), of "unat (m_body_len m)"] assms(4) obtain left
    where "lmb_socket_read_full (unat (m_body_len m)) w = (Inr b, w\<lparr>rx_stream := rest, rx_turns := left\<rparr>)" "delivers k left" by auto
  then show ?thesis using False assms(4,5) by (intro that [of left]) (auto simp: recv_body_def)
qed

lemma recv_pay_delivers:
  assumes "rx_deadline w = 0" "delivers (length b + k) (rx_turns w)" "rx_stream w = b @ rest"
    "unat (m_pay_len m) = length b" "mem (length b)" "m_pay m = None"
  obtains left where "recv_pay mem m w =
    (Inr (), m\<lparr>m_pay := (if b = [] then None else Some b)\<rparr>, w\<lparr>rx_stream := rest, rx_turns := left\<rparr>)" "delivers k left"
proof (cases "b = []")
  case True
  then have "recv_pay mem m w = (Inr (), m\<lparr>m_pay := None\<rparr>, w\<lparr>rx_stream := rest, rx_turns := rx_turns w\<rparr>)"
    using assms by (simp add: recv_pay_def unat_eq_zero)
  then show ?thesis using True assms(2) by (intro that [of "rx_turns w"]) simp_all
next
  case False
  from read_full_delivers [OF assms(1,2,3), of "unat (m_pay_len m)"] assms(4) obtain left
    where "lmb_socket_read_full (unat (m_pay_len m)) w = (Inr b, w\<lparr>rx_stream := rest, rx_turns := left\<rparr>)" "delivers k left" by auto
  then show ?thesis using False assms(4,5) by (intro that [of left]) (auto simp: recv_pay_def)
qed

lemma preamble_fields:
  "lmb_get32 (lmb_put32 a @ lmb_put32 b @ lmb_put32 c @ lmb_put32 d) = a"
  "lmb_get32 (drop 4 (lmb_put32 a @ lmb_put32 b @ lmb_put32 c @ lmb_put32 d)) = b"
  "lmb_get32 (drop 8 (lmb_put32 a @ lmb_put32 b @ lmb_put32 c @ lmb_put32 d)) = c"
  "lmb_get32 (drop 12 (lmb_put32 a @ lmb_put32 b @ lmb_put32 c @ lmb_put32 d)) = d"
  by simp_all

lemma frame_delivers:
  assumes "lmb_frame_shape_ok op bl pl" "length body = unat bl" "length pay = unat pl"
    "rx_deadline w = 0" "delivers (length (frame_bytes op body pay) + k) (rx_turns w)"
    "rx_stream w = frame_bytes op body pay @ rest" "bl + pl \<le> rx_frame_limit w"
    "unat (rx_inflight w) + unat (bl + pl) \<le> unat cap" "mem (length body)" "mem (length pay)"
  obtains left where "lmb_recv (\<lambda>_. None) mem cap w =
    (Inr (), \<lparr>m_op = op, m_body = (if body = [] then None else Some body), m_body_len = bl,
       m_pay = (if pay = [] then None else Some pay), m_pay_len = pl, m_storage = None, m_rx_reserved = bl + pl\<rparr>,
     w\<lparr>rx_stream := rest, rx_turns := left, rx_inflight := rx_inflight w + ucast (bl + pl)\<rparr>)" "delivers k left"
proof -
  let ?pre = "lmb_put32 LMB_MAGIC @ lmb_put32 op @ lmb_put32 bl @ lmb_put32 pl"
  have f: "frame_bytes op body pay = ?pre @ body @ pay" using assms(2,3) by (simp add: frame_bytes_def)
  have lp: "length ?pre = 16" by simp
  have d: "delivers (length ?pre + (length body + (length pay + k))) (rx_turns w)"
    using assms(5) by (simp add: f add.assoc)
  have s: "rx_stream w = ?pre @ (body @ pay @ rest)" using assms(6) f by simp
  from read_full_delivers [OF assms(4) d s, of 16] obtain l1 where
    r1: "lmb_socket_read_full 16 w = (Inr ?pre, w\<lparr>rx_stream := body @ pay @ rest, rx_turns := l1\<rparr>)"
    and d1: "delivers (length body + (length pay + k)) l1" by auto
  let ?w1 = "w\<lparr>rx_stream := body @ pay @ rest, rx_turns := l1\<rparr>"
  let ?m = "msg_zero\<lparr>m_op := op, m_body_len := bl, m_pay_len := pl\<rparr>"
  have u: "ucast (ucast bl + ucast pl :: u64) = bl + pl"
    by (simp add: word_unat_eq_iff unsigned_ucast_eq unat_word_ariths take_bit_eq_mod mod_mod_cancel)
  have small: "\<not> ucast bl + ucast pl > (ucast UINT32_MAX :: u64)"
    using lmb_frame_shape_okD [OF assms(1)] by (simp add: word_less_nat_alt unat_word_ariths)
  have res: "lmb_rx_reserve cap (bl + pl) ?m ?w1 =
      (Inr (), ?m\<lparr>m_rx_reserved := bl + pl\<rparr>, ?w1\<lparr>rx_inflight := rx_inflight w + ucast (bl + pl)\<rparr>)"
    using reserve_room [of "bl + pl" ?w1 cap ?m] assms(7,8) by (simp add: msg_zero_def)
  let ?m2 = "?m\<lparr>m_rx_reserved := bl + pl\<rparr>" and ?w2 = "?w1\<lparr>rx_inflight := rx_inflight w + ucast (bl + pl)\<rparr>"
  from recv_body_delivers [of ?w2 body "length pay + k" "pay @ rest" ?m2 mem] assms d1 obtain l2 where
    r2: "recv_body mem ?m2 ?w2 = (Inr (), ?m2\<lparr>m_body := (if body = [] then None else Some body)\<rparr>,
      ?w2\<lparr>rx_stream := pay @ rest, rx_turns := l2\<rparr>)" and d2: "delivers (length pay + k) l2"
    by (auto simp: msg_zero_def)
  let ?m3 = "?m2\<lparr>m_body := (if body = [] then None else Some body)\<rparr>" and ?w3 = "?w2\<lparr>rx_stream := pay @ rest, rx_turns := l2\<rparr>"
  from recv_pay_delivers [of ?w3 pay k rest ?m3 mem] assms d2 obtain l3 where
    r3: "recv_pay mem ?m3 ?w3 = (Inr (), ?m3\<lparr>m_pay := (if pay = [] then None else Some pay)\<rparr>,
      ?w3\<lparr>rx_stream := rest, rx_turns := l3\<rparr>)" and d3: "delivers k l3"
    by (auto simp: msg_zero_def)
  have sel: "m_op ?m = op" "m_body_len ?m = bl" "m_pay_len ?m = pl" by simp_all
  have "lmb_recv (\<lambda>_. None) mem cap w = recv_pay mem ?m3 ?w3"
    unfolding lmb_recv_def option.case r1 prod.case sum.case preamble_fields Let_def
    using assms(1) small by (simp only: sel res r2 u prod.case sum.case if_False if_True simp_thms)
  then show ?thesis using r3 d3 by (intro that [of l3]) (simp_all add: msg_zero_def)
qed

text \<open>What \<open>lmb_send\<close> wrote, \<open>lmb_recv\<close> receives: whatever pieces the socket delivers the bytes in and wherever
  signals interrupt it, the opcode, the body and the payload arrive intact and the bytes after the
  frame stay on the stream, given room in the receive budget.\<close>

lemma frame_roundtrip:
  assumes "lmb_send (\<lambda>_. None) op body bl pay pl t = (Inr (), t')" "length body = unat bl" "length pay = unat pl"
    "tx_out t' = tx_out t @ sent" "rx_stream w = sent @ rest"
    "rx_deadline w = 0" "delivers (length sent) (rx_turns w)" "bl + pl \<le> rx_frame_limit w"
    "unat (rx_inflight w) + unat (bl + pl) \<le> unat cap" "mem (length body)" "mem (length pay)"
  shows "\<exists>m w'. lmb_recv (\<lambda>_. None) mem cap w = (Inr (), m, w') \<and>
    m_op m = op \<and> msg_body m = body \<and> msg_pay m = pay \<and> rx_stream w' = rest"
proof -
  from send_bytes [OF assms(1-3)] assms(4) have s: "sent = frame_bytes op body pay" "lmb_frame_shape_ok op bl pl" by auto
  from assms have r: "rx_stream w = frame_bytes op body pay @ rest" "delivers (length (frame_bytes op body pay) + 0) (rx_turns w)"
    by (simp_all add: s(1))
  obtain left where "lmb_recv (\<lambda>_. None) mem cap w =
    (Inr (), \<lparr>m_op = op, m_body = (if body = [] then None else Some body), m_body_len = bl,
       m_pay = (if pay = [] then None else Some pay), m_pay_len = pl, m_storage = None, m_rx_reserved = bl + pl\<rparr>,
     w\<lparr>rx_stream := rest, rx_turns := left, rx_inflight := rx_inflight w + ucast (bl + pl)\<rparr>)"
    by (rule frame_delivers [OF s(2) assms(2,3,6) r(2,1) assms(8-11)])
  then show ?thesis by (auto simp: msg_body_def msg_pay_def)
qed


lemma frame_roundtrip_witness:
  "\<exists>m w'. lmb_recv (\<lambda>_. None) (\<lambda>_. True) 100 \<lparr>rx_stream = frame_bytes 7 [1] [2, 3] @ [9],
      rx_turns = replicate 30 \<lparr>rt_now = 0, rt_wait = W_Idle, rt_recv = IO_Bytes 7\<rparr>, rx_deadline = 0,
      rx_frame_limit = 50, rx_inflight = 90\<rparr> = (Inr (), m, w') \<and>
    m_op m = 7 \<and> msg_body m = [1] \<and> msg_pay m = [2, 3] \<and> rx_stream w' = [9]"
proof -
  let ?t = "\<lparr>tx_turns = [IO_Bytes 5, IO_Interrupted, IO_Bytes 20, IO_Bytes 20, IO_Bytes 20], tx_out = []\<rparr>"
  have s: "lmb_send (\<lambda>_. None) 7 [1] 1 [2, 3] 2 ?t =
      (Inr (), \<lparr>tx_turns = [], tx_out = frame_bytes 7 [1] [2, 3]\<rparr>)"
    by code_simp
  show ?thesis
    by (rule frame_roundtrip [OF s, where sent = "frame_bytes 7 [1] [2, 3]" and rest = "[9]"])
       (simp_all add: frame_bytes_def delivers_def deliveries_def turn_ok_def list_all_iff)
qed

lemma recv_exact_witness:
  "let w = \<lparr>rx_stream = frame_bytes 7 [1] [2, 3] @ [9],
      rx_turns = replicate 5 \<lparr>rt_now = 0, rt_wait = W_Idle, rt_recv = IO_Bytes 16\<rparr>, rx_deadline = 0,
      rx_frame_limit = 50, rx_inflight = 90\<rparr>;
      (r, m, w') = lmb_recv (\<lambda>_. None) (\<lambda>_. True) 100 w
    in r = Inr () \<and> unat (rx_inflight w') = 93"
proof -
  define w where "w = \<lparr>rx_stream = frame_bytes 7 [1] [2, 3] @ [9],
      rx_turns = replicate 5 \<lparr>rt_now = 0, rt_wait = W_Idle, rt_recv = IO_Bytes 16\<rparr>, rx_deadline = 0,
      rx_frame_limit = 50, rx_inflight = 90\<rparr>"
  have ok: "fst (lmb_recv (\<lambda>_. None) (\<lambda>_. True) 100 w) = Inr () \<and>
      m_rx_reserved (fst (snd (lmb_recv (\<lambda>_. None) (\<lambda>_. True) 100 w))) = 3"
    unfolding w_def by code_simp
  obtain r m w' where r: "lmb_recv (\<lambda>_. None) (\<lambda>_. True) 100 w = (r, m, w')"
    by (cases "lmb_recv (\<lambda>_. None) (\<lambda>_. True) 100 w") auto
  have "unat (rx_inflight w) \<le> unat (100 :: u64)" by (simp add: w_def)
  from recv_exact [OF r this] ok r show ?thesis by (simp add: w_def [symmetric] Let_def) (simp add: w_def)
qed

section \<open>All connections\<close>

text \<open>The reservations of all threads together: a thread reserves for a message, gives it back when the
  reading fails, or hands the message out, and frees it or takes its payload later. Each of these is
  one atomic step on the shared counter, so that this covers every interleaving.\<close>

inductive rx_budget :: "u64 \<Rightarrow> u64 \<Rightarrow> LmbMsg list \<Rightarrow> bool" for cap where
  start: "rx_budget cap 0 []"
| reserve: "rx_budget cap (rx_inflight w) ms \<Longrightarrow> m_rx_reserved m = 0 \<Longrightarrow> lmb_rx_reserve cap n m w = (Inr u, m', w') \<Longrightarrow>
    rx_budget cap (rx_inflight w') (m' # ms)"
| refuse: "rx_budget cap (rx_inflight w) ms \<Longrightarrow> lmb_rx_reserve cap n m w = (Inl e, m', w') \<Longrightarrow>
    rx_budget cap (rx_inflight w') ms"
| release: "rx_budget cap (rx_inflight w) (xs @ m # ys) \<Longrightarrow> lmb_rx_release m w = (m', w') \<Longrightarrow>
    rx_budget cap (rx_inflight w') (xs @ ys)"
| freed: "rx_budget cap (rx_inflight w) (xs @ m # ys) \<Longrightarrow> lmb_msg_free m w = (m', w') \<Longrightarrow>
    rx_budget cap (rx_inflight w') (xs @ ys)"
| taken: "rx_budget cap (rx_inflight w) (xs @ m # ys) \<Longrightarrow> lmb_msg_take_pay m w = (Some p, m', w') \<Longrightarrow>
    rx_budget cap (rx_inflight w') (xs @ ys)"

definition reserved_total :: "LmbMsg list \<Rightarrow> nat" where
  "reserved_total ms = sum_list (map (\<lambda>m. unat (m_rx_reserved m)) ms)"

lemma reserved_total_simps [simp]:
  "reserved_total [] = 0" "reserved_total (m # ms) = unat (m_rx_reserved m) + reserved_total ms"
  "reserved_total (xs @ ys) = reserved_total xs + reserved_total ys"
  by (simp_all add: reserved_total_def)

lemma release_total:
  fixes f f' :: u64
  assumes "unat f = reserved_total (xs @ m # ys)" "f' = f - ucast (m_rx_reserved m)"
  shows "unat f' = reserved_total (xs @ ys)"
proof -
  have u: "unat (ucast (m_rx_reserved m) :: u64) = unat (m_rx_reserved m)" by simp
  have "ucast (m_rx_reserved m) \<le> f" using assms(1) u by (simp add: word_le_nat_alt)
  then show ?thesis using assms u by (simp add: unat_sub)
qed

lemma free_inflight: "lmb_msg_free m w = (m', w') \<Longrightarrow> rx_inflight w' = rx_inflight w - ucast (m_rx_reserved m)"
  by (auto simp: lmb_msg_free_def lmb_rx_release_def split: if_splits)

lemma take_inflight: "lmb_msg_take_pay m w = (Some p, m', w') \<Longrightarrow> rx_inflight w' = rx_inflight w - ucast (m_rx_reserved m)"
  by (auto simp: lmb_msg_take_pay_def lmb_rx_release_def Let_def split: if_splits option.splits)

text \<open>C20: Whatever the threads do and in whatever order, the shared counter is the sum of the reservations of
  the frames in flight and never exceeds the budget.\<close>

theorem rx_budget_exact:
  assumes "rx_budget cap f ms"
  shows "unat f = reserved_total ms \<and> unat f \<le> unat cap"
  using assms
proof induction
  case (reserve w ms m n u m' w')
  with reserve_ok [of cap n m w u m' w'] show ?case by auto
next
  case (refuse w ms n m e m' w')
  then show ?case using reserve_fail by blast
next
  case (release w xs m ys m' w')
  then have "rx_inflight w' = rx_inflight w - ucast (m_rx_reserved m)" using release_reserved by blast
  then show ?case using release_total [of "rx_inflight w" xs m ys] release.IH by simp
next
  case (freed w xs m ys m' w')
  then show ?case using release_total [of "rx_inflight w" xs m ys, OF _ free_inflight [OF freed.hyps(2)]] by simp
next
  case (taken w xs m ys p m' w')
  then show ?case using release_total [of "rx_inflight w" xs m ys, OF _ take_inflight [OF taken.hyps(2)]] by simp
qed simp

lemma rx_budget_exact_witness:
  "unat (10 :: u64) = reserved_total [msg_zero\<lparr>m_rx_reserved := 10\<rparr>] \<and> unat (10 :: u64) \<le> unat (16 :: u64)"
proof -
  let ?w = "\<lparr>rx_stream = [], rx_turns = [], rx_deadline = 0, rx_frame_limit = 50, rx_inflight = 0\<rparr>"
  have "rx_budget 16 (rx_inflight (?w\<lparr>rx_inflight := 10\<rparr>)) [msg_zero\<lparr>m_rx_reserved := 10\<rparr>]"
    by (rule rx_budget.reserve [where w = ?w and m = msg_zero and n = 10 and u = "()"])
       (simp_all add: rx_budget.start lmb_rx_reserve_def msg_zero_def)
  from rx_budget_exact [OF this] show ?thesis by simp
qed

text \<open>The bounded variants only lower the limit, and put it back.\<close>

lemma recv_limited_ok:
  assumes "lmb_recv_limited (\<lambda>_. None) mem cap limit w = (Inr u, m, w')" "unat (rx_inflight w) \<le> unat cap"
  shows "m_rx_reserved m \<le> limit \<and> m_rx_reserved m \<le> rx_frame_limit w \<and> rx_frame_limit w' = rx_frame_limit w"
proof -
  let ?w = "w\<lparr>rx_frame_limit := (if limit < rx_frame_limit w then limit else rx_frame_limit w)\<rparr>"
  obtain w1 where w1: "lmb_recv (\<lambda>_. None) mem cap ?w = (Inr u, m, w1)" "w' = w1\<lparr>rx_frame_limit := rx_frame_limit w\<rparr>"
    using assms(1) by (auto simp: lmb_recv_limited_def Let_def split: prod.splits)
  have "m_rx_reserved m \<le> rx_frame_limit ?w" using recv_exact [OF w1(1)] assms(2) by simp
  then show ?thesis using w1(2) by (auto split: if_splits)
qed

section \<open>The connection gate\<close>

text \<open>Entering and leaving by holders keeps the count of the holders, never above the limit.\<close>

lemma conn_gate_run:
  assumes "unat (cg_active g) = length held" "cg_active g \<le> cg_limit g"
  shows "lmb_conn_gate_enter g = (True, g') \<Longrightarrow> unat (cg_active g') = Suc (length held) \<and> cg_active g' \<le> cg_limit g' \<and> cg_limit g' = cg_limit g"
    "lmb_conn_gate_enter g = (False, g') \<Longrightarrow> g' = g \<and> cg_active g = cg_limit g"
    "held \<noteq> [] \<Longrightarrow> unat (cg_active (lmb_conn_gate_leave g)) = length (tl held)"
proof -
  show "unat (cg_active g') = Suc (length held) \<and> cg_active g' \<le> cg_limit g' \<and> cg_limit g' = cg_limit g"
    if "lmb_conn_gate_enter g = (True, g')"
  proof -
    from that have l: "cg_active g < cg_limit g" and g': "g' = g\<lparr>cg_active := cg_active g + 1\<rparr>"
      by (auto simp: lmb_conn_gate_enter_def split: if_splits)
    have "unat (cg_active g + 1) = unat (cg_active g) + 1"
      using l unat_u32_less [of "cg_limit g"] by (simp add: word_less_nat_alt unat_word_ariths)
    then show ?thesis using l g' assms(1) by (simp add: word_le_nat_alt word_less_nat_alt)
  qed
  show "lmb_conn_gate_enter g = (False, g') \<Longrightarrow> g' = g \<and> cg_active g = cg_limit g"
    using assms(2) by (auto simp: lmb_conn_gate_enter_def split: if_splits)
  show "unat (cg_active (lmb_conn_gate_leave g)) = length (tl held)" if "held \<noteq> []"
  proof -
    have "1 \<le> cg_active g" using assms(1) that by (cases held) (auto simp: word_le_nat_alt)
    then show ?thesis using assms(1) by (simp add: lmb_conn_gate_leave_def unat_sub)
  qed
qed

end
