(* ===== verification/Secure_Channel.thy ===== *)
theory Secure_Channel
  imports Aead Frame_Guarantees
begin

text \<open>
  The encrypted frames of \<^verbatim>\<open>src/protocol/lumabri_secure_channel.h\<close>, between the handshake that leaves the keys
  in \<open>LmbSecure\<close> and the plain frames of Frames: each frame is a sixteen-byte header in the clear,
  authenticated with the ciphertext of body and payload, under the next number of its direction.
\<close>

section \<open>The code\<close>

record LmbSecure =
  s_active :: bool
  s_tx_key :: bytes
  s_rx_key :: bytes
  s_tx_ctr :: u64
  s_rx_ctr :: u64
  s_peer_id :: bytes
  s_have_peer_id :: bool

definition lmb_sec_nonce :: "u64 \<Rightarrow> bytes" where
  "lmb_sec_nonce ctr = replicate 4 0 @ map (\<lambda>i. ucast (drop_bit (8 * i) ctr)) [0..<8]"

definition secure_header :: "u32 \<Rightarrow> u32 \<Rightarrow> u32 \<Rightarrow> bytes" where
  "secure_header op body_len pay_len = lc_st32 LMB_MAGIC @ lc_st32 op @ lc_st32 body_len @ lc_st32 pay_len"

definition lmb_secure_send :: "(tx \<Rightarrow> ((io_error + unit) \<times> tx) option) \<Rightarrow> alloc \<Rightarrow> LmbSecure \<Rightarrow> u32 \<Rightarrow>
    bytes \<Rightarrow> u32 \<Rightarrow> bytes \<Rightarrow> u32 \<Rightarrow> tx \<Rightarrow> (io_error + unit) \<times> LmbSecure \<times> tx" where
  "lmb_secure_send enc mem s op body body_len pay pay_len w =
     (if \<not> s_active s then (let (r, w) = lmb_send enc op body body_len pay pay_len w in (r, s, w))
      else if \<not> lmb_frame_shape_ok op body_len pay_len then (Inl E_MsgSize, s, w)
      else let tot = body_len + pay_len;
               hdr = secure_header op body_len pay_len
           in if \<not> mem (if tot \<noteq> 0 then unat tot else 1) then (Inl E_NoMem, s, w)
              else let pt = take (unat body_len) body @ take (unat pay_len) pay;
                       nonce = lmb_sec_nonce (s_tx_ctr s);
                       s = s\<lparr>s_tx_ctr := s_tx_ctr s + 1\<rparr>;
                       (ct, tag) = lc_aead_seal (s_tx_key s) nonce hdr pt;
                       (ok, w) = lmb_write_full hdr w;
                       (ok, w) = (if ok then lmb_write_full ct w else (ok, w));
                       (ok, w) = (if ok then lmb_write_full tag w else (ok, w))
                   in (if ok then Inr () else Inl E_Socket, s, w))"

text \<open>A failure after the reservation gives it back.\<close>

definition secure_fail :: "io_error \<Rightarrow> LmbMsg \<Rightarrow> LmbSecure \<Rightarrow> rx \<Rightarrow> (io_error + unit) \<times> LmbMsg \<times> LmbSecure \<times> rx" where
  "secure_fail e m s w = (let (m, w) = lmb_rx_release m w in (Inl e, m, s, w))"

text \<open>The part after the reservation: ciphertext, tag, decryption in place, and the two pointers into it.\<close>

definition secure_recv_rest :: "alloc \<Rightarrow> LmbSecure \<Rightarrow> bytes \<Rightarrow> u32 \<Rightarrow> LmbMsg \<Rightarrow> rx \<Rightarrow>
    (io_error + unit) \<times> LmbMsg \<times> LmbSecure \<times> rx" where
  "secure_recv_rest mem s hdr tot m w =
     (if \<not> mem (if tot \<noteq> 0 then unat tot else 1) then secure_fail E_NoMem m s w
      else case lmb_socket_read_full (unat tot) w of
             (Inl e, w) \<Rightarrow> secure_fail e m s w
           | (Inr wire, w) \<Rightarrow>
               (case lmb_socket_read_full 16 w of
                  (Inl e, w) \<Rightarrow> secure_fail e m s w
                | (Inr tag, w) \<Rightarrow>
                    let nonce = lmb_sec_nonce (s_rx_ctr s);
                        s = s\<lparr>s_rx_ctr := s_rx_ctr s + 1\<rparr>
                    in case lc_aead_open (s_rx_key s) nonce hdr wire tag of
                         None \<Rightarrow> secure_fail E_BadMsg m s w
                       | Some pt \<Rightarrow>
                           (Inr (),
                            m\<lparr>m_storage := Some pt,
                              m_body := (if m_body_len m \<noteq> 0 then Some (take (unat (m_body_len m)) pt) else None),
                              m_pay := (if m_pay_len m \<noteq> 0 then Some (drop (unat (m_body_len m)) pt) else None)\<rparr>,
                            s, w)))"

definition lmb_secure_recv :: "(rx \<Rightarrow> ((io_error + unit) \<times> LmbMsg \<times> rx) option) \<Rightarrow> alloc \<Rightarrow> u64 \<Rightarrow> LmbSecure \<Rightarrow> rx \<Rightarrow>
    (io_error + unit) \<times> LmbMsg \<times> LmbSecure \<times> rx" where
  "lmb_secure_recv enc mem cap s w =
     (if \<not> s_active s then (let (r, m, w) = lmb_recv enc mem cap w in (r, m, s, w))
      else case lmb_socket_read_full 16 w of
             (Inl e, w) \<Rightarrow> (Inl e, msg_zero, s, w)
           | (Inr hdr, w) \<Rightarrow>
               if lc_ld32 hdr \<noteq> LMB_MAGIC then (Inl E_Proto, msg_zero, s, w)
               else let m = msg_zero\<lparr>m_op := lc_ld32 (drop 4 hdr), m_body_len := lc_ld32 (drop 8 hdr),
                                     m_pay_len := lc_ld32 (drop 12 hdr)\<rparr>
                    in if \<not> lmb_frame_shape_ok (m_op m) (m_body_len m) (m_pay_len m) then (Inl E_MsgSize, m, s, w)
                       else let total64 = ucast (m_body_len m) + ucast (m_pay_len m) :: u64
                            in if total64 > ucast UINT32_MAX then (Inl E_MsgSize, m, s, w)
                               else let tot = ucast total64 :: u32
                                    in case lmb_rx_reserve cap tot m w of
                                         (Inl e, m, w) \<Rightarrow> (Inl e, m, s, w)
                                       | (Inr _, m, w) \<Rightarrow> secure_recv_rest mem s hdr tot m w)"

end
