(* ===== verification/Secure_Guarantees.thy ===== *)
theory Secure_Guarantees
  imports Secure_Channel
begin

text \<open>
  What the channel guarantees: numbers give distinct nonces, an accepted frame is the authenticated one
  of its number, and a session of frames is delivered as it was sent.
\<close>

section \<open>Nonces\<close>

lemma sec_nonce_bytes: "lmb_sec_nonce ctr = replicate 4 0 @ le_bytes 8 (unat ctr)"
  using le_bytes_u64 [of "unat ctr"] by (simp add: lmb_sec_nonce_def)

lemma le_num_le_bytes: "le_num (le_bytes k n) = n mod 256 ^ k"
proof (induction k arbitrary: n)
  case (Suc k)
  have "n mod (256 * 256 ^ k) = 256 * (n div 256 mod 256 ^ k) + n mod 256" by (simp only: mod_mult2_eq)
  then show ?case by (simp add: Suc.IH unsigned_of_nat take_bit_eq_mod)
qed simp

lemma sec_nonce_inject: "lmb_sec_nonce a = lmb_sec_nonce b \<longleftrightarrow> a = b"
proof
  assume "lmb_sec_nonce a = lmb_sec_nonce b"
  then have "le_num (le_bytes 8 (unat a)) = le_num (le_bytes 8 (unat b))" by (simp add: sec_nonce_bytes)
  then have "unat a mod 18446744073709551616 = unat b mod 18446744073709551616" by (simp add: le_num_le_bytes)
  then show "a = b" using unsigned_less [of a, where ?'a = nat] unsigned_less [of b, where ?'a = nat]
    by (simp add: word_unat_eq_iff)
qed simp

section \<open>One frame\<close>

definition secure_frame :: "bytes \<Rightarrow> u64 \<Rightarrow> u32 \<Rightarrow> u32 \<Rightarrow> u32 \<Rightarrow> bytes \<Rightarrow> bytes" where
  "secure_frame key ctr op bl pl pt =
     (let hdr = secure_header op bl pl; (ct, tag) = lc_aead_seal key (lmb_sec_nonce ctr) hdr pt in hdr @ ct @ tag)"

lemma secure_send_bytes:
  assumes "lmb_secure_send enc mem s op body bl pay pl w = (Inr (), s', w')" "s_active s"
    "length body = unat bl" "length pay = unat pl"
  shows "lmb_frame_shape_ok op bl pl \<and> s' = s\<lparr>s_tx_ctr := s_tx_ctr s + 1\<rparr> \<and>
    tx_out w' = tx_out w @ secure_frame (s_tx_key s) (s_tx_ctr s) op bl pl (body @ pay)"
  using assms
  by (auto simp: lmb_secure_send_def secure_frame_def Let_def dest!: write_full_exact split: if_splits prod.splits)

lemma header_fields:
  "lc_ld32 (secure_header op bl pl) = LMB_MAGIC" "lc_ld32 (drop 4 (secure_header op bl pl)) = op"
  "lc_ld32 (drop 8 (secure_header op bl pl)) = bl" "lc_ld32 (drop 12 (secure_header op bl pl)) = pl"
  "length (secure_header op bl pl) = 16"
  by (simp_all add: secure_header_def lc_ld32_eq lc_st32_eq)

text \<open>The receiving end takes the frame of its next number.\<close>

lemma secure_rest_delivers:
  assumes "unat tot = length pt" "rx_deadline w = 0" "mem (if tot \<noteq> 0 then unat tot else 1)"
    "lc_aead_seal (s_rx_key s) (lmb_sec_nonce (s_rx_ctr s)) hdr pt = (ct, tag)"
    "delivers (length pt + (16 + k)) (rx_turns w)" "rx_stream w = ct @ tag @ rest"
  obtains left where "secure_recv_rest mem s hdr tot m w =
    (Inr (), m\<lparr>m_storage := Some pt,
       m_body := (if m_body_len m \<noteq> 0 then Some (take (unat (m_body_len m)) pt) else None),
       m_pay := (if m_pay_len m \<noteq> 0 then Some (drop (unat (m_body_len m)) pt) else None)\<rparr>,
     s\<lparr>s_rx_ctr := s_rx_ctr s + 1\<rparr>, w\<lparr>rx_stream := rest, rx_turns := left\<rparr>)" "delivers k left"
proof -
  note A = seal_open [OF assms(4)]
  have d: "delivers (length ct + (16 + k)) (rx_turns w)" and n: "unat tot = length ct" using assms(1,5) A by simp_all
  obtain l1 where r1: "lmb_socket_read_full (unat tot) w = (Inr ct, w\<lparr>rx_stream := tag @ rest, rx_turns := l1\<rparr>)"
    and d1: "delivers (16 + k) l1"
    by (rule read_full_delivers [OF assms(2) d assms(6) n])
  let ?w1 = "w\<lparr>rx_stream := tag @ rest, rx_turns := l1\<rparr>"
  have w1: "rx_deadline ?w1 = 0" "delivers (length tag + k) (rx_turns ?w1)" "rx_stream ?w1 = tag @ rest" "16 = length tag"
    using assms(2) A d1 by simp_all
  obtain l2 where r2: "lmb_socket_read_full 16 ?w1 = (Inr tag, ?w1\<lparr>rx_stream := rest, rx_turns := l2\<rparr>)"
    and d2: "delivers k l2"
    by (rule read_full_delivers [OF w1])
  have "secure_recv_rest mem s hdr tot m w =
    (Inr (), m\<lparr>m_storage := Some pt,
       m_body := (if m_body_len m \<noteq> 0 then Some (take (unat (m_body_len m)) pt) else None),
       m_pay := (if m_pay_len m \<noteq> 0 then Some (drop (unat (m_body_len m)) pt) else None)\<rparr>,
     s\<lparr>s_rx_ctr := s_rx_ctr s + 1\<rparr>, w\<lparr>rx_stream := rest, rx_turns := l2\<rparr>)"
    unfolding secure_recv_rest_def r1 using assms(3) A r2 by (simp add: Let_def)
  then show ?thesis using d2 by (rule that)
qed

lemma secure_delivers:
  assumes "s_active s" "lmb_frame_shape_ok op bl pl" "length body = unat bl" "length pay = unat pl"
    "rx_deadline w = 0" "delivers (32 + length body + length pay + k) (rx_turns w)"
    "rx_stream w = secure_frame (s_rx_key s) (s_rx_ctr s) op bl pl (body @ pay) @ rest"
    "bl + pl \<le> rx_frame_limit w" "unat (rx_inflight w) + unat (bl + pl) \<le> unat cap"
    "mem (if bl + pl \<noteq> 0 then unat (bl + pl) else 1)"
  obtains left m where "lmb_secure_recv enc mem cap s w =
    (Inr (), m, s\<lparr>s_rx_ctr := s_rx_ctr s + 1\<rparr>,
     w\<lparr>rx_stream := rest, rx_turns := left, rx_inflight := rx_inflight w + ucast (bl + pl)\<rparr>)" "delivers k left"
    "m_op m = op" "msg_body m = body" "msg_pay m = pay" "m_rx_reserved m = bl + pl"
proof -
  let ?hdr = "secure_header op bl pl"
  obtain ct tag where seal: "lc_aead_seal (s_rx_key s) (lmb_sec_nonce (s_rx_ctr s)) ?hdr (body @ pay) = (ct, tag)"
    by fastforce
  have st: "rx_stream w = ?hdr @ (ct @ tag @ rest)" using assms(7) seal by (simp add: secure_frame_def Let_def)
  have d: "delivers (length ?hdr + (length (body @ pay) + (16 + k))) (rx_turns w)"
    using assms(6) by (simp add: header_fields(5) ac_simps)
  from read_full_delivers [OF assms(5) d st, of 16] obtain l1 where
    r1: "lmb_socket_read_full 16 w = (Inr ?hdr, w\<lparr>rx_stream := ct @ tag @ rest, rx_turns := l1\<rparr>)"
    and d1: "delivers (length (body @ pay) + (16 + k)) l1" by (auto simp: header_fields(5))
  let ?w1 = "w\<lparr>rx_stream := ct @ tag @ rest, rx_turns := l1\<rparr>"
  let ?m = "msg_zero\<lparr>m_op := op, m_body_len := bl, m_pay_len := pl\<rparr>"
  have u: "ucast (ucast bl + ucast pl :: u64) = bl + pl"
    by (simp add: word_unat_eq_iff unsigned_ucast_eq unat_word_ariths take_bit_eq_mod mod_mod_cancel)
  have small: "\<not> ucast bl + ucast pl > (ucast UINT32_MAX :: u64)"
    using lmb_frame_shape_okD [OF assms(2)] by (simp add: word_less_nat_alt unat_word_ariths)
  have res: "lmb_rx_reserve cap (bl + pl) ?m ?w1 =
      (Inr (), ?m\<lparr>m_rx_reserved := bl + pl\<rparr>, ?w1\<lparr>rx_inflight := rx_inflight w + ucast (bl + pl)\<rparr>)"
    using reserve_room [of "bl + pl" ?w1 cap ?m] assms(8,9) by (simp add: msg_zero_def)
  let ?m2 = "?m\<lparr>m_rx_reserved := bl + pl\<rparr>" and ?w2 = "?w1\<lparr>rx_inflight := rx_inflight w + ucast (bl + pl)\<rparr>"
  have tot: "unat (bl + pl) = length (body @ pay)" using shape_sum [OF assms(2)] assms(3,4) by simp
  have w2: "rx_deadline ?w2 = 0" "delivers (length (body @ pay) + (16 + k)) (rx_turns ?w2)" "rx_stream ?w2 = ct @ tag @ rest"
    using assms(5) d1 by simp_all
  obtain l2 where r2': "secure_recv_rest mem s ?hdr (bl + pl) ?m2 ?w2 =
      (Inr (), ?m2\<lparr>m_storage := Some (body @ pay),
         m_body := (if m_body_len ?m2 \<noteq> 0 then Some (take (unat (m_body_len ?m2)) (body @ pay)) else None),
         m_pay := (if m_pay_len ?m2 \<noteq> 0 then Some (drop (unat (m_body_len ?m2)) (body @ pay)) else None)\<rparr>,
       s\<lparr>s_rx_ctr := s_rx_ctr s + 1\<rparr>, ?w2\<lparr>rx_stream := rest, rx_turns := l2\<rparr>)" and d2: "delivers k l2"
    by (rule secure_rest_delivers [where mem = mem and w = ?w2 and s = s, OF tot w2(1) assms(10) seal w2(2,3)])
  have sel2: "m_body_len ?m2 = bl" "m_pay_len ?m2 = pl" by simp_all
  have td: "take (unat bl) (body @ pay) = body" "drop (unat bl) (body @ pay) = pay"
    unfolding assms(3) [symmetric] by simp_all
  note r2 = r2' [unfolded sel2 td]
  have sel: "m_op ?m = op" "m_body_len ?m = bl" "m_pay_len ?m = pl" by simp_all
  have e: "lmb_secure_recv enc mem cap s w = secure_recv_rest mem s ?hdr (bl + pl) ?m2 ?w2"
    unfolding lmb_secure_recv_def r1 prod.case sum.case header_fields Let_def
    using assms(1,2) small by (simp only: sel res u prod.case sum.case if_False if_True simp_thms)
  show ?thesis
  proof (rule that [OF _ d2])
    show "lmb_secure_recv enc mem cap s w =
      (Inr (), ?m2\<lparr>m_storage := Some (body @ pay), m_body := (if bl \<noteq> 0 then Some body else None),
         m_pay := (if pl \<noteq> 0 then Some pay else None)\<rparr>, s\<lparr>s_rx_ctr := s_rx_ctr s + 1\<rparr>,
       w\<lparr>rx_stream := rest, rx_turns := l2, rx_inflight := rx_inflight w + ucast (bl + pl)\<rparr>)"
      unfolding e r2 by simp
  qed (use assms(3,4) in \<open>auto simp: msg_body_def msg_pay_def unat_eq_zero\<close>)
qed

section \<open>Acceptance\<close>

lemma header_split:
  assumes "length hdr = 16" "lc_ld32 hdr = LMB_MAGIC"
  shows "hdr = secure_header (lc_ld32 (drop 4 hdr)) (lc_ld32 (drop 8 hdr)) (lc_ld32 (drop 12 hdr))"
  using preamble_split [OF assms(1)] assms(2) unfolding secure_header_def lc_ld32_eq lc_st32_eq by simp

lemma secure_rest_exact:
  assumes "secure_recv_rest mem s hdr tot m w = (r, m', s', w')" "m_body m = None" "m_pay m = None" "m_storage m = None"
  shows "case r of
      Inl e \<Rightarrow> m_rx_reserved m' = 0 \<and> m_body m' = None \<and> m_pay m' = None \<and> m_storage m' = None \<and>
        rx_inflight w' = rx_inflight w - ucast (m_rx_reserved m)
    | Inr _ \<Rightarrow> \<exists>ct tag. rx_stream w = ct @ tag @ rx_stream w' \<and> length ct = unat tot \<and> length tag = 16 \<and>
        tag = aead_tag (s_rx_key s) (lmb_sec_nonce (s_rx_ctr s)) hdr ct \<and>
        m_storage m' = Some (lc_chacha20 (s_rx_key s) 1 (lmb_sec_nonce (s_rx_ctr s)) ct) \<and>
        m' = m\<lparr>m_storage := m_storage m', m_body := (if m_body_len m \<noteq> 0 then Some (take (unat (m_body_len m)) (the (m_storage m'))) else None),
          m_pay := (if m_pay_len m \<noteq> 0 then Some (drop (unat (m_body_len m)) (the (m_storage m'))) else None)\<rparr> \<and>
        s' = s\<lparr>s_rx_ctr := s_rx_ctr s + 1\<rparr> \<and> rx_inflight w' = rx_inflight w"
proof -
  have fail: ?thesis if "secure_fail e m s1 w1 = (r, m', s', w')" "rx_inflight w1 = rx_inflight w" for e s1 w1
    using that assms(2-4) by (auto simp: secure_fail_def lmb_rx_release_def split: if_splits)
  show ?thesis
  proof (cases "mem (if tot \<noteq> 0 then unat tot else 1)")
    case False
    then show ?thesis using assms(1) by (intro fail [of E_NoMem s w]) (simp_all add: secure_recv_rest_def)
  next
    case True
    obtain x w1 where x: "lmb_socket_read_full (unat tot) w = (x, w1)" by fastforce
    obtain y w2 where y: "lmb_socket_read_full 16 w1 = (y, w2)" by fastforce
    note k = read_full_keeps [OF x] read_full_keeps [OF y]
    show ?thesis
    proof (cases x)
      case (Inl e)
      then show ?thesis using assms(1) True x k by (intro fail [of e s w1]) (simp_all add: secure_recv_rest_def)
    next
      case ct: (Inr ct)
      show ?thesis
      proof (cases y)
        case (Inl e)
        then show ?thesis using assms(1) True x y ct k by (intro fail [of e s w2]) (simp_all add: secure_recv_rest_def)
      next
        case (Inr tag)
        note X = read_full_exact [OF x [unfolded ct]] and Y = read_full_exact [OF y [unfolded Inr]]
        have tag: "length tag = 16" using Y by simp
        let ?s = "s\<lparr>s_rx_ctr := s_rx_ctr s + 1\<rparr>"
        show ?thesis
        proof (cases "tag = aead_tag (s_rx_key s) (lmb_sec_nonce (s_rx_ctr s)) hdr ct")
          case True
          then show ?thesis
            using assms(1) \<open>mem _\<close> x y ct Inr open_exact [OF tag] X Y
            by (auto simp: secure_recv_rest_def Let_def)
        next
          case False
          then show ?thesis
            using assms(1) \<open>mem _\<close> x y ct Inr open_exact [OF tag] k
            by (intro fail [of E_BadMsg ?s w2]) (simp_all add: secure_recv_rest_def Let_def)
        qed
      qed
    qed
  qed
qed

text \<open>The bytes an accepted frame stands for.\<close>

definition secure_accepted :: "LmbSecure \<Rightarrow> LmbMsg \<Rightarrow> bytes \<Rightarrow> bytes \<Rightarrow> bytes \<Rightarrow> bool" where
  "secure_accepted s m hdr ct tag \<longleftrightarrow>
     hdr = secure_header (m_op m) (m_body_len m) (m_pay_len m) \<and>
     lmb_frame_shape_ok (m_op m) (m_body_len m) (m_pay_len m) \<and>
     length ct = unat (m_body_len m) + unat (m_pay_len m) \<and>
     tag = aead_tag (s_rx_key s) (lmb_sec_nonce (s_rx_ctr s)) hdr ct \<and>
     msg_body m @ msg_pay m = lc_chacha20 (s_rx_key s) 1 (lmb_sec_nonce (s_rx_ctr s)) ct \<and>
     length (msg_body m) = unat (m_body_len m)"

lemma secure_accept:
  assumes "length hdr = 16" "lc_ld32 hdr = LMB_MAGIC"
    "m_op m2 = lc_ld32 (drop 4 hdr)" "m_body_len m2 = lc_ld32 (drop 8 hdr)" "m_pay_len m2 = lc_ld32 (drop 12 hdr)"
    "lmb_frame_shape_ok (m_op m2) (m_body_len m2) (m_pay_len m2)" "length ct = unat (m_body_len m2 + m_pay_len m2)"
    "tag = aead_tag (s_rx_key s) (lmb_sec_nonce (s_rx_ctr s)) hdr ct"
    "m_storage m = Some (lc_chacha20 (s_rx_key s) 1 (lmb_sec_nonce (s_rx_ctr s)) ct)"
    "m = m2\<lparr>m_storage := m_storage m,
       m_body := (if m_body_len m2 \<noteq> 0 then Some (take (unat (m_body_len m2)) (the (m_storage m))) else None),
       m_pay := (if m_pay_len m2 \<noteq> 0 then Some (drop (unat (m_body_len m2)) (the (m_storage m))) else None)\<rparr>"
  shows "secure_accepted s m hdr ct tag"
proof -
  let ?pt = "lc_chacha20 (s_rx_key s) 1 (lmb_sec_nonce (s_rx_ctr s)) ct"
  have m: "m_op m = m_op m2" "m_body_len m = m_body_len m2" "m_pay_len m = m_pay_len m2"
    using assms(10) by (metis (no_types, lifting) LmbMsg.select_convs LmbMsg.surjective LmbMsg.update_convs)+
  have l: "length ct = unat (m_body_len m2) + unat (m_pay_len m2)" using assms(7) shape_sum [OF assms(6)] by simp
  have "msg_body m = take (unat (m_body_len m2)) ?pt"
    using arg_cong [OF assms(10), of m_body] by (auto simp: msg_body_def assms(9))
  moreover have "msg_pay m = drop (unat (m_body_len m2)) ?pt"
    using arg_cong [OF assms(10), of m_pay] l by (auto simp: msg_pay_def assms(9))
  moreover have "hdr = secure_header (m_op m2) (m_body_len m2) (m_pay_len m2)"
    unfolding assms(3-5) using assms(1,2) by (rule header_split)
  ultimately show ?thesis using l assms(6,8) by (simp add: secure_accepted_def m)
qed

text \<open>C18: A frame accepted on an active channel carries the RFC 8439 tag of its header and ciphertext under the
  receiving key and the next receiving number, so a frame replayed, reordered, tampered with or sealed
  under another key needs a tag collision; its plaintext is the decryption of what was on the wire. A
  refused frame leaves no plaintext, no buffer and no reservation.\<close>

theorem secure_recv_exact:
  assumes "lmb_secure_recv enc mem cap s w = (r, m, s', w')" "s_active s" "unat (rx_inflight w) \<le> unat cap"
  shows "case r of
      Inl e \<Rightarrow> m_rx_reserved m = 0 \<and> m_body m = None \<and> m_pay m = None \<and> m_storage m = None \<and> rx_inflight w' = rx_inflight w
    | Inr _ \<Rightarrow> s' = s\<lparr>s_rx_ctr := s_rx_ctr s + 1\<rparr> \<and>
        (\<exists>hdr ct tag. rx_stream w = hdr @ ct @ tag @ rx_stream w' \<and> secure_accepted s m hdr ct tag)"
proof -
  obtain x w1 where x: "lmb_socket_read_full 16 w = (x, w1)" by fastforce
  have k: "rx_inflight w1 = rx_inflight w" using read_full_keeps [OF x] by simp
  show ?thesis
  proof (cases x)
    case (Inl e)
    then show ?thesis using assms x k by (auto simp: lmb_secure_recv_def msg_zero_def)
  next
    case (Inr hdr)
    note X = read_full_exact [OF x [unfolded Inr]]
    let ?m = "msg_zero\<lparr>m_op := lc_ld32 (drop 4 hdr), m_body_len := lc_ld32 (drop 8 hdr), m_pay_len := lc_ld32 (drop 12 hdr)\<rparr>"
    have z: "m_rx_reserved ?m = 0" "m_body ?m = None" "m_pay ?m = None" "m_storage ?m = None" by (simp_all add: msg_zero_def)
    let ?n = "m_body_len ?m + m_pay_len ?m"
    have c: "ucast (ucast (m_body_len ?m) + ucast (m_pay_len ?m) :: u64) = ?n"
      by (simp add: word_unat_eq_iff unsigned_ucast_eq unat_word_ariths take_bit_eq_mod mod_mod_cancel)
    obtain y m2 w2 where y: "lmb_rx_reserve cap ?n ?m w1 = (y, m2, w2)"
      by (cases "lmb_rx_reserve cap ?n ?m w1") auto
    have u: "lmb_secure_recv enc mem cap s w =
        (if lc_ld32 hdr \<noteq> LMB_MAGIC then (Inl E_Proto, msg_zero, s, w1)
         else if \<not> lmb_frame_shape_ok (m_op ?m) (m_body_len ?m) (m_pay_len ?m) then (Inl E_MsgSize, ?m, s, w1)
         else if ucast (m_body_len ?m) + ucast (m_pay_len ?m) > (ucast UINT32_MAX :: u64) then (Inl E_MsgSize, ?m, s, w1)
         else case y of Inl e \<Rightarrow> (Inl e, m2, s, w2) | Inr _ \<Rightarrow> secure_recv_rest mem s hdr ?n m2 w2)"
      unfolding lmb_secure_recv_def x Inr prod.case sum.case Let_def c y using assms(2) by (simp only: not_True_eq_False if_False)
    show ?thesis
    proof (cases "lc_ld32 hdr = LMB_MAGIC \<and> lmb_frame_shape_ok (m_op ?m) (m_body_len ?m) (m_pay_len ?m) \<and>
        \<not> ucast (m_body_len ?m) + ucast (m_pay_len ?m) > (ucast UINT32_MAX :: u64) \<and> y = Inr ()")
      case False
      have "m2 = ?m \<and> w2 = w1" if "y = Inl e" for e using reserve_fail y that by blast
      then show ?thesis using False assms(1) z k unfolding u
        by (cases y) (auto simp: msg_zero_def split: if_splits)
    next
      case True
      have y': "lmb_rx_reserve cap ?n ?m w1 = (Inr (), m2, w2)" using y True by simp
      have "unat (rx_inflight w1) \<le> unat cap" using k assms(3) by simp
      note B = reserve_ok [OF y' z(1) this]
      have r: "secure_recv_rest mem s hdr ?n m2 w2 = (r, m, s', w')" using assms(1) True unfolding u by simp
      have "m_body m2 = None" "m_pay m2 = None" "m_storage m2 = None" using B z by simp_all
      note R = secure_rest_exact [OF r this]
      show ?thesis
      proof (cases r)
        case (Inl e)
        then show ?thesis using R B k reserve_word [OF y'] by simp
      next
        case (Inr v)
        then obtain ct tag where R': "rx_stream w2 = ct @ tag @ rx_stream w'" "length ct = unat ?n"
          "tag = aead_tag (s_rx_key s) (lmb_sec_nonce (s_rx_ctr s)) hdr ct"
          "m_storage m = Some (lc_chacha20 (s_rx_key s) 1 (lmb_sec_nonce (s_rx_ctr s)) ct)"
          "m = m2\<lparr>m_storage := m_storage m,
             m_body := (if m_body_len m2 \<noteq> 0 then Some (take (unat (m_body_len m2)) (the (m_storage m))) else None),
             m_pay := (if m_pay_len m2 \<noteq> 0 then Some (drop (unat (m_body_len m2)) (the (m_storage m))) else None)\<rparr>"
          "s' = s\<lparr>s_rx_ctr := s_rx_ctr s + 1\<rparr>" using R by auto
        have m2: "m_op m2 = lc_ld32 (drop 4 hdr)" "m_body_len m2 = lc_ld32 (drop 8 hdr)" "m_pay_len m2 = lc_ld32 (drop 12 hdr)"
          using B by simp_all
        have "secure_accepted s m hdr ct tag"
          by (rule secure_accept [OF _ _ m2 _ _ R'(3-5)]) (use X True R'(2) m2 in simp_all)
        moreover have "rx_stream w2 = rx_stream w1" using B by (metis rx.select_convs(1) rx.surjective rx.update_convs(5))
        ultimately have "rx_stream w = hdr @ ct @ tag @ rx_stream w' \<and> secure_accepted s m hdr ct tag"
          using X R'(1) by simp
        then show ?thesis using Inr R'(6) by auto
      qed
    qed
  qed
qed

section \<open>A session\<close>

type_synonym sec_msg = "u32 \<times> bytes \<times> bytes"

fun secure_send_all :: "alloc \<Rightarrow> sec_msg list \<Rightarrow> LmbSecure \<Rightarrow> tx \<Rightarrow> (LmbSecure \<times> tx) option" where
  "secure_send_all mem [] s w = Some (s, w)"
| "secure_send_all mem ((op, body, pay) # ms) s w =
     (case lmb_secure_send (\<lambda>_. None) mem s op body (of_nat (length body)) pay (of_nat (length pay)) w of
        (Inl e, s, w) \<Rightarrow> None | (Inr _, s, w) \<Rightarrow> secure_send_all mem ms s w)"

text \<open>The receiver reads a frame, uses it and frees it.\<close>

fun secure_recv_all :: "alloc \<Rightarrow> u64 \<Rightarrow> nat \<Rightarrow> LmbSecure \<Rightarrow> rx \<Rightarrow> (sec_msg list \<times> LmbSecure \<times> rx) option" where
  "secure_recv_all mem cap 0 s w = Some ([], s, w)"
| "secure_recv_all mem cap (Suc n) s w =
     (case lmb_secure_recv (\<lambda>_. None) mem cap s w of
        (Inl e, m, s, w) \<Rightarrow> None
      | (Inr _, m, s, w) \<Rightarrow>
          (case secure_recv_all mem cap n s (snd (lmb_msg_free m w)) of
             None \<Rightarrow> None
           | Some (ms, s, w) \<Rightarrow> Some ((m_op m, msg_body m, msg_pay m) # ms, s, w)))"

definition msg_fits :: "u64 \<Rightarrow> rx \<Rightarrow> sec_msg \<Rightarrow> bool" where
  "msg_fits cap w x = (case x of (op, body, pay) \<Rightarrow>
     length body < 2 ^ 32 \<and> length pay < 2 ^ 32 \<and> length body + length pay \<le> unat (rx_frame_limit w) \<and>
     unat (rx_inflight w) + length body + length pay \<le> unat cap)"

lemma free_restores:
  assumes "m_rx_reserved m = n"
  shows "snd (lmb_msg_free m (w\<lparr>rx_stream := r, rx_turns := l, rx_inflight := rx_inflight w + ucast n\<rparr>)) =
    w\<lparr>rx_stream := r, rx_turns := l\<rparr>"
  using assms by (cases "n = 0") (simp_all add: lmb_msg_free_def lmb_rx_release_def)

text \<open>One more frame of the sending side.\<close>

lemma send_all_step:
  assumes "secure_send_all mem ((op, body, pay) # ms) s t = Some (s', t')" "s_active s" "length body < 2 ^ 32" "length pay < 2 ^ 32"
  obtains s1 t1 where "s1 = s\<lparr>s_tx_ctr := s_tx_ctr s + 1\<rparr>" "secure_send_all mem ms s1 t1 = Some (s', t')"
    "lmb_frame_shape_ok op (of_nat (length body)) (of_nat (length pay))"
    "tx_out t1 = tx_out t @ secure_frame (s_tx_key s) (s_tx_ctr s) op (of_nat (length body)) (of_nat (length pay)) (body @ pay)"
proof -
  have l: "length body = unat (of_nat (length body) :: u32)" "length pay = unat (of_nat (length pay) :: u32)"
    using assms(3,4) by (simp_all add: unsigned_of_nat take_bit_nat_eq_self)
  obtain s1 t1 where s1: "lmb_secure_send (\<lambda>_. None) mem s op body (of_nat (length body)) pay (of_nat (length pay)) t = (Inr (), s1, t1)"
    and rest: "secure_send_all mem ms s1 t1 = Some (s', t')"
    using assms(1) by (auto split: prod.splits sum.splits)
  from secure_send_bytes [OF s1 assms(2) l] rest show ?thesis by (intro that [of s1 t1]) simp_all
qed

lemma send_all_appends:
  assumes "secure_send_all mem ms s t = Some (s', t')" "s_active s" "list_all (msg_fits cap w) ms"
  shows "\<exists>sent. tx_out t' = tx_out t @ sent"
  using assms
proof (induction ms arbitrary: s t)
  case (Cons x ms)
  obtain op body pay where x: "x = (op, body, pay)" by (cases x)
  have f: "length body < 2 ^ 32" "length pay < 2 ^ 32" using Cons.prems(3) by (simp_all add: x msg_fits_def)
  from Cons.prems(1) [unfolded x] Cons.prems(2) f obtain s1 t1 where "s1 = s\<lparr>s_tx_ctr := s_tx_ctr s + 1\<rparr>"
    "secure_send_all mem ms s1 t1 = Some (s', t')"
    "tx_out t1 = tx_out t @ secure_frame (s_tx_key s) (s_tx_ctr s) op (of_nat (length body)) (of_nat (length pay)) (body @ pay)"
    by (rule send_all_step)
  then show ?case using Cons.IH [of s1 t1] Cons.prems by auto
qed simp

lemma length_secure_frame: "length (secure_frame key ctr op bl pl pt) = 32 + length pt"
proof -
  obtain ct tag where seal: "lc_aead_seal key (lmb_sec_nonce ctr) (secure_header op bl pl) pt = (ct, tag)" by fastforce
  from seal_open [OF seal] show ?thesis by (simp add: secure_frame_def seal header_fields(5))
qed

text \<open>C17: A sequence of encrypted frames arrives in order and intact over any delivery of its bytes: with equal
  keys and numbers the receiver reads back exactly the opcodes, bodies and payloads that were sent, the
  numbers of both ends stay equal and the receive budget is back where it was.\<close>

theorem secure_session_roundtrip:
  assumes "secure_send_all mem ms s t = Some (s', t')" "tx_out t' = tx_out t @ sent"
    "s_active s" "s_active r" "s_rx_key r = s_tx_key s" "s_rx_ctr r = s_tx_ctr s"
    "rx_stream w = sent @ rest" "rx_deadline w = 0" "delivers (length sent) (rx_turns w)" "list_all (msg_fits cap w) ms"
  shows "\<exists>r' w'. secure_recv_all (\<lambda>_. True) cap (length ms) r w = Some (ms, r', w') \<and>
    rx_stream w' = rest \<and> rx_inflight w' = rx_inflight w \<and> s_rx_ctr r' = s_tx_ctr s'"
  using assms
proof (induction ms arbitrary: s t sent r w)
  case Nil
  then show ?case by simp
next
  case (Cons x ms)
  obtain op body pay where x: "x = (op, body, pay)" by (cases x)
  let ?bl = "of_nat (length body) :: u32" and ?pl = "of_nat (length pay) :: u32"
  have fits: "length body < 2 ^ 32" "length pay < 2 ^ 32" "length body + length pay \<le> unat (rx_frame_limit w)"
    "unat (rx_inflight w) + length body + length pay \<le> unat cap"
    using Cons.prems(10) by (simp_all add: x msg_fits_def)
  have l: "length body = unat ?bl" "length pay = unat ?pl"
    using fits(1,2) by (simp_all add: unsigned_of_nat take_bit_nat_eq_self)
  let ?f = "secure_frame (s_tx_key s) (s_tx_ctr s) op ?bl ?pl (body @ pay)"
  from Cons.prems(1) [unfolded x] Cons.prems(3) fits(1,2) obtain s1 t1 where s1: "s1 = s\<lparr>s_tx_ctr := s_tx_ctr s + 1\<rparr>"
    and more: "secure_send_all mem ms s1 t1 = Some (s', t')" and shape: "lmb_frame_shape_ok op ?bl ?pl" and t1: "tx_out t1 = tx_out t @ ?f"
    by (rule send_all_step)
  from send_all_appends [OF more, of cap w] Cons.prems(3,10) s1 obtain sent1 where sent1: "tx_out t' = tx_out t1 @ sent1" by auto
  with Cons.prems(2) t1 have sent: "sent = ?f @ sent1" by simp
  have d: "delivers (32 + length body + length pay + length sent1) (rx_turns w)"
    using Cons.prems(9) by (simp add: sent length_secure_frame add.assoc)
  have st: "rx_stream w = secure_frame (s_rx_key r) (s_rx_ctr r) op ?bl ?pl (body @ pay) @ (sent1 @ rest)"
    using Cons.prems(5-7) by (simp add: sent)
  have sum: "unat (?bl + ?pl) = length body + length pay" using shape_sum [OF shape] l by simp
  have lim: "?bl + ?pl \<le> rx_frame_limit w" "unat (rx_inflight w) + unat (?bl + ?pl) \<le> unat cap"
    using fits(3,4) sum by (simp_all add: word_le_nat_alt)
  obtain left m where r1: "lmb_secure_recv (\<lambda>_. None) (\<lambda>_. True) cap r w = (Inr (), m, r\<lparr>s_rx_ctr := s_rx_ctr r + 1\<rparr>,
      w\<lparr>rx_stream := sent1 @ rest, rx_turns := left, rx_inflight := rx_inflight w + ucast (?bl + ?pl)\<rparr>)"
    and left: "delivers (length sent1) left" and m: "m_op m = op" "msg_body m = body" "msg_pay m = pay" "m_rx_reserved m = ?bl + ?pl"
    by (rule secure_delivers [OF Cons.prems(4) shape l Cons.prems(8) d st lim TrueI])
  let ?r = "r\<lparr>s_rx_ctr := s_rx_ctr r + 1\<rparr>" and ?w = "w\<lparr>rx_stream := sent1 @ rest, rx_turns := left\<rparr>"
  have "list_all (msg_fits cap ?w) ms" using Cons.prems(10) by (auto simp: list_all_iff msg_fits_def)
  then obtain r' w' where "secure_recv_all (\<lambda>_. True) cap (length ms) ?r ?w = Some (ms, r', w')"
    "rx_stream w' = rest" "rx_inflight w' = rx_inflight w" "s_rx_ctr r' = s_tx_ctr s'"
    using Cons.IH [OF more sent1, of ?r ?w] Cons.prems(3-6,8) left s1 by auto
  then show ?case using r1 m free_restores [OF m(4)] by (simp add: x)
qed

section \<open>Examples\<close>

definition sample_channel :: LmbSecure where
  "sample_channel = \<lparr>s_active = True, s_tx_key = replicate 32 1, s_rx_key = replicate 32 1, s_tx_ctr = 5, s_rx_ctr = 5,
     s_peer_id = [], s_have_peer_id = False\<rparr>"

definition sample_rx :: "bytes \<Rightarrow> rx" where
  "sample_rx sent = \<lparr>rx_stream = sent, rx_turns = replicate 35 \<lparr>rt_now = 0, rt_wait = W_Idle, rt_recv = IO_Bytes 9\<rparr>,
     rx_deadline = 0, rx_frame_limit = 50, rx_inflight = 90\<rparr>"

lemma sample_delivers: "n \<le> 35 \<Longrightarrow> delivers n (rx_turns (sample_rx sent))"
  by (simp add: sample_rx_def delivers_def deliveries_def turn_ok_def list_all_iff)

lemma sample_send:
  "secure_send_all (\<lambda>_. True) [(7, [1], [2, 3])] sample_channel \<lparr>tx_turns = replicate 3 (IO_Bytes 50), tx_out = []\<rparr> =
   Some (sample_channel\<lparr>s_tx_ctr := 6\<rparr>, \<lparr>tx_turns = [], tx_out = secure_frame (replicate 32 1) 5 7 1 2 [1, 2, 3]\<rparr>)"
proof -
  obtain ct tag where seal: "lc_aead_seal (replicate 32 1) (lmb_sec_nonce 5) (secure_header 7 1 2) [1, 2, 3] = (ct, tag)"
    by fastforce
  have l: "length ct = 3" "length tag = 16" using seal_open [OF seal] by simp_all
  then have ne: "ct \<noteq> []" "tag \<noteq> []" by auto
  have h: "secure_header 7 1 2 \<noteq> []" using header_fields(5) [of 7 1 2] by auto
  have shape: "lmb_frame_shape_ok 7 1 2" by code_simp
  show ?thesis
    using l ne h seal shape
    by (simp add: lmb_secure_send_def sample_channel_def secure_frame_def Let_def lmb_write_full_def header_fields(5)
        numeral_3_eq_3)
qed

lemma secure_session_roundtrip_witness:
  "\<exists>r' w'. secure_recv_all (\<lambda>_. True) 100 1 sample_channel (sample_rx (secure_frame (replicate 32 1) 5 7 1 2 [1, 2, 3] @ [9])) =
      Some ([(7, [1], [2, 3])], r', w') \<and> rx_stream w' = [9]"
  using secure_session_roundtrip [OF sample_send, where sent = "secure_frame (replicate 32 1) 5 7 1 2 [1, 2, 3]" and
      r = sample_channel and rest = "[9]" and w = "sample_rx (secure_frame (replicate 32 1) 5 7 1 2 [1, 2, 3] @ [9])" and cap = 100]
    sample_delivers [of 35]
  by (auto simp: sample_channel_def length_secure_frame msg_fits_def sample_rx_def)

lemma secure_recv_exact_witness:
  "\<exists>m s' w' hdr ct tag. lmb_secure_recv (\<lambda>_. None) (\<lambda>_. True) 100 sample_channel
      (sample_rx (secure_frame (replicate 32 1) 5 7 1 2 [1, 2, 3] @ [9])) = (Inr (), m, s', w') \<and>
    secure_accepted sample_channel m hdr ct tag"
proof -
  let ?w = "sample_rx (secure_frame (replicate 32 1) 5 7 1 2 [1, 2, 3] @ [9])"
  have shape: "lmb_frame_shape_ok 7 1 2" by code_simp
  have "\<exists>m s' w'. lmb_secure_recv (\<lambda>_. None) (\<lambda>_. True) 100 sample_channel ?w = (Inr (), m, s', w')"
    by (rule secure_delivers [of sample_channel 7 1 2 "[1]" "[2, 3]" ?w 0 "[9]" 100 "\<lambda>_. True" "\<lambda>_. None"])
       (use shape sample_delivers [of 35] in \<open>auto simp: sample_channel_def sample_rx_def\<close>)
  then obtain m s' w' where r: "lmb_secure_recv (\<lambda>_. None) (\<lambda>_. True) 100 sample_channel ?w = (Inr (), m, s', w')" by blast
  have "s_active sample_channel" "unat (rx_inflight ?w) \<le> unat (100 :: u64)" by (simp_all add: sample_channel_def sample_rx_def)
  from secure_recv_exact [OF r this] r show ?thesis by auto
qed

end
