(* ===== verification/Segment_Codec.thy ===== *)
theory Segment_Codec
  imports Byte_Buffer
begin

text \<open>
  The Segment v2 messages of \<^verbatim>\<open>lumabri_segment.h\<close> and their wire format
  (\<^verbatim>\<open>lumabri_segment.c\<close>): the structs as records, the validity checks, one encoder and one
  decoder per message. Ids and roots are byte arrays, strings are whole \<open>char\<close> buffers;
  the predicates \<open>*_sized\<close> state the array lengths that the C types fix. \<open>token_ids\<close> is a
  pointer: \<open>None\<close> is the null pointer.
\<close>

abbreviation LMB_SEG_ID_BYTES :: nat where "LMB_SEG_ID_BYTES \<equiv> 16"
abbreviation LMB_SEG_ROOT_BYTES :: nat where "LMB_SEG_ROOT_BYTES \<equiv> 32"
abbreviation LMB_SEG_ENGINE_MAX :: nat where "LMB_SEG_ENGINE_MAX \<equiv> 64"
abbreviation LMB_SEG_SCHEMA_MAX :: nat where "LMB_SEG_SCHEMA_MAX \<equiv> 128"
abbreviation LMB_SEG_NUMERIC_CLASS_MAX :: nat where "LMB_SEG_NUMERIC_CLASS_MAX \<equiv> 96"
abbreviation LMB_SEG_MAX_ROWS :: u32 where "LMB_SEG_MAX_ROWS \<equiv> 4096"
abbreviation LMB_SEG_MAX_STATE_WIDTH :: u32 where "LMB_SEG_MAX_STATE_WIDTH \<equiv> 0x100000"
abbreviation LMB_SEG_MAX_CONTEXT :: u32 where "LMB_SEG_MAX_CONTEXT \<equiv> 0x1000000"
abbreviation LMB_SEG_MIN_TTL_MS :: u32 where "LMB_SEG_MIN_TTL_MS \<equiv> 1000"
abbreviation LMB_SEG_MAX_TTL_MS :: u32 where "LMB_SEG_MAX_TTL_MS \<equiv> 3600000"
abbreviation LMB_SEG_V2_MAGIC :: u32 where "LMB_SEG_V2_MAGIC \<equiv> 0x32474553"
abbreviation LMB_SEG_V2_VERSION :: u32 where "LMB_SEG_V2_VERSION \<equiv> 2"

abbreviation LMB_SEG_CAP_TOKEN_IDS :: u64 where "LMB_SEG_CAP_TOKEN_IDS \<equiv> 1"
abbreviation LMB_SEG_CAP_SNAPSHOT :: u64 where "LMB_SEG_CAP_SNAPSHOT \<equiv> 2"
abbreviation LMB_SEG_CAP_RANGE_NATIVE :: u64 where "LMB_SEG_CAP_RANGE_NATIVE \<equiv> 4"
abbreviation LMB_SEG_CAP_MULTI_SESSION :: u64 where "LMB_SEG_CAP_MULTI_SESSION \<equiv> 8"
abbreviation LMB_SEG_CAP_CPU :: u64 where "LMB_SEG_CAP_CPU \<equiv> 0x100"
abbreviation LMB_SEG_CAP_CUDA :: u64 where "LMB_SEG_CAP_CUDA \<equiv> 0x200"
abbreviation LMB_SEG_CAP_HIP :: u64 where "LMB_SEG_CAP_HIP \<equiv> 0x400"
abbreviation LMB_SEG_CAP_METAL :: u64 where "LMB_SEG_CAP_METAL \<equiv> 0x800"
abbreviation LMB_SEG_CAP_VULKAN :: u64 where "LMB_SEG_CAP_VULKAN \<equiv> 0x1000"
abbreviation LMB_SEG_CAP_KNOWN_MASK :: u64 where "LMB_SEG_CAP_KNOWN_MASK \<equiv> 0x1F0F"
abbreviation seg_cap_backends :: u64 where "seg_cap_backends \<equiv> 0x1F00"
abbreviation LMB_SEG_XFER_BEGIN :: u32 where "LMB_SEG_XFER_BEGIN \<equiv> 1"
abbreviation LMB_SEG_XFER_END :: u32 where "LMB_SEG_XFER_END \<equiv> 2"

lemma seg_cap_masks:
  "seg_cap_backends = LMB_SEG_CAP_CPU OR LMB_SEG_CAP_CUDA OR LMB_SEG_CAP_HIP OR LMB_SEG_CAP_METAL
     OR LMB_SEG_CAP_VULKAN"
  "LMB_SEG_CAP_KNOWN_MASK = LMB_SEG_CAP_TOKEN_IDS OR LMB_SEG_CAP_SNAPSHOT OR LMB_SEG_CAP_RANGE_NATIVE
     OR LMB_SEG_CAP_MULTI_SESSION OR LMB_SEG_CAP_CPU OR LMB_SEG_CAP_CUDA OR LMB_SEG_CAP_HIP
     OR LMB_SEG_CAP_METAL OR LMB_SEG_CAP_VULKAN"
  by simp_all

datatype lmb_seg_status =
    SegOk | SegDuplicate | SegBadRequest | SegNotFound | SegStaleOwner | SegOutOfOrder
  | SegConflict | SegExpired | SegBusy | SegUnsupported | SegQuota | SegNeedsRestore | SegInternal

fun seg_status_code :: "lmb_seg_status \<Rightarrow> u32" where
  "seg_status_code SegOk = 0"
| "seg_status_code SegDuplicate = 1"
| "seg_status_code SegBadRequest = 2"
| "seg_status_code SegNotFound = 3"
| "seg_status_code SegStaleOwner = 4"
| "seg_status_code SegOutOfOrder = 5"
| "seg_status_code SegConflict = 6"
| "seg_status_code SegExpired = 7"
| "seg_status_code SegBusy = 8"
| "seg_status_code SegUnsupported = 9"
| "seg_status_code SegQuota = 10"
| "seg_status_code SegNeedsRestore = 11"
| "seg_status_code SegInternal = 12"

section \<open>The structs\<close>

type_synonym seg_id = bytes

record lmb_seg_owner =
  lease_id :: seg_id
  fencing_epoch :: u64
  route_generation :: u64

record lmb_seg_open =
  op_session_id :: seg_id
  op_request_id :: seg_id
  op_owner :: lmb_seg_owner
  op_model_root :: bytes
  op_tokenizer_root :: bytes
  op_layer_begin :: u32
  op_layer_end :: u32
  op_context_tokens :: u32
  op_max_rows :: u32
  op_state_dtype :: u32
  op_state_width :: u32
  op_ttl_ms :: u32
  op_capabilities :: u64
  op_engine_id :: bytes
  op_state_schema :: bytes
  op_numeric_class :: bytes

record lmb_seg_run =
  run_session_id :: seg_id
  run_request_id :: seg_id
  run_owner :: lmb_seg_owner
  run_sequence :: u64
  run_position :: u64
  run_rows :: u32
  run_token_count :: u32
  run_token_ids :: "u32 list option"

record lmb_seg_transfer =
  tr_session_id :: seg_id
  tr_request_id :: seg_id
  tr_owner :: lmb_seg_owner
  tr_sequence :: u64
  tr_position :: u64
  tr_snapshot_size :: u64
  tr_offset :: u64
  tr_chunk_len :: u32
  tr_flags :: u32

record lmb_seg_control =
  ct_session_id :: seg_id
  ct_request_id :: seg_id
  ct_owner :: lmb_seg_owner
  ct_sequence :: u64

record lmb_seg_reply =
  rp_session_id :: seg_id
  rp_request_id :: seg_id
  rp_status :: u32
  rp_flags :: u32
  rp_next_sequence :: u64
  rp_next_position :: u64
  rp_fencing_epoch :: u64
  rp_route_generation :: u64

record lmb_seg_transfer_reply =
  xr_reply :: lmb_seg_reply
  xr_snapshot_size :: u64
  xr_offset :: u64
  xr_chunk_len :: u32
  xr_transfer_flags :: u32

section \<open>Validity\<close>

definition lmb_seg_id_is_zero :: "seg_id \<Rightarrow> bool" where
  "lmb_seg_id_is_zero i \<longleftrightarrow> fold (\<lambda>b any. any OR ucast b) i (0 :: u32) = 0"

definition lmb_seg_id_equal :: "seg_id \<Rightarrow> seg_id \<Rightarrow> bool" where
  "lmb_seg_id_equal a b \<longleftrightarrow> a = b"

definition lmb_seg_dtype_size :: "u32 \<Rightarrow> nat" where
  "lmb_seg_dtype_size dtype =
     (if dtype = 1 then 4 else if dtype = 2 \<or> dtype = 3 then 2 else 0)"

definition seg_root_is_zero :: "bytes \<Rightarrow> bool" where
  "seg_root_is_zero root \<longleftrightarrow> fold (\<lambda>b any. any OR ucast b) root (0 :: u32) = 0"

definition seg_string_valid :: "bytes \<Rightarrow> bool" where
  "seg_string_valid value \<longleftrightarrow> c_term value \<and> c_str value \<noteq> []"

definition seg_owner_valid :: "lmb_seg_owner \<Rightarrow> bool" where
  "seg_owner_valid owner \<longleftrightarrow> \<not> lmb_seg_id_is_zero (lease_id owner) \<and>
     fencing_epoch owner \<noteq> 0 \<and> route_generation owner \<noteq> 0"

definition lmb_seg_open_valid :: "lmb_seg_open \<Rightarrow> bool" where
  "lmb_seg_open_valid open \<longleftrightarrow>
     \<not> (lmb_seg_id_is_zero (op_session_id open) \<or>
        lmb_seg_id_is_zero (op_request_id open) \<or> \<not> seg_owner_valid (op_owner open) \<or>
        seg_root_is_zero (op_model_root open) \<or>
        seg_root_is_zero (op_tokenizer_root open) \<or>
        op_layer_begin open \<ge> op_layer_end open \<or>
        op_context_tokens open = 0 \<or> op_context_tokens open > LMB_SEG_MAX_CONTEXT \<or>
        op_max_rows open = 0 \<or> op_max_rows open > LMB_SEG_MAX_ROWS \<or>
        lmb_seg_dtype_size (op_state_dtype open) = 0 \<or>
        op_state_width open = 0 \<or> op_state_width open > LMB_SEG_MAX_STATE_WIDTH \<or>
        op_ttl_ms open < LMB_SEG_MIN_TTL_MS \<or> op_ttl_ms open > LMB_SEG_MAX_TTL_MS \<or>
        op_capabilities open AND NOT LMB_SEG_CAP_KNOWN_MASK \<noteq> 0 \<or>
        op_capabilities open AND seg_cap_backends = 0 \<or>
        op_capabilities open AND LMB_SEG_CAP_MULTI_SESSION = 0 \<or>
        \<not> seg_string_valid (op_engine_id open) \<or>
        \<not> seg_string_valid (op_state_schema open) \<or>
        \<not> seg_string_valid (op_numeric_class open))"

definition lmb_seg_run_payload_bytes :: "lmb_seg_open \<Rightarrow> lmb_seg_run \<Rightarrow> nat option" where
  "lmb_seg_run_payload_bytes open run =
     (if \<not> lmb_seg_open_valid open \<or>
         lmb_seg_id_is_zero (run_session_id run) \<or>
         lmb_seg_id_is_zero (run_request_id run) \<or> \<not> seg_owner_valid (run_owner run) \<or>
         run_rows run = 0 \<or> run_rows run > op_max_rows open \<or>
         (run_token_count run \<noteq> 0 \<and> run_token_count run \<noteq> run_rows run) \<or>
         (run_token_count run \<noteq> 0) \<noteq> (run_token_ids run \<noteq> None) \<or>
         (op_capabilities open AND LMB_SEG_CAP_TOKEN_IDS \<noteq> 0 \<and> run_token_count run \<noteq> run_rows run) \<or>
         run_position run > ucast (op_context_tokens open) \<or>
         ucast (run_rows run) > ucast (op_context_tokens open) - run_position run
      then None
      else
        let element = lmb_seg_dtype_size (op_state_dtype open);
            width = unat (op_state_width open); rows = unat (run_rows run) in
        if width > SIZE_MAX div rows \<or> width * rows > SIZE_MAX div element then None
        else let n = width * rows * element in
          if n \<le> unat LMB_MAX_PAY then Some n else None)"

definition seg_run_basic_valid :: "lmb_seg_run \<Rightarrow> bool" where
  "seg_run_basic_valid run \<longleftrightarrow>
     \<not> lmb_seg_id_is_zero (run_session_id run) \<and>
     \<not> lmb_seg_id_is_zero (run_request_id run) \<and> seg_owner_valid (run_owner run) \<and>
     run_sequence run \<noteq> UINT64_MAX \<and>
     run_rows run \<noteq> 0 \<and> run_rows run \<le> LMB_SEG_MAX_ROWS \<and>
     (run_token_count run = 0 \<or> run_token_count run = run_rows run) \<and>
     ((run_token_count run \<noteq> 0) = (run_token_ids run \<noteq> None))"

definition seg_chunk_valid :: "u64 \<Rightarrow> u64 \<Rightarrow> u32 \<Rightarrow> u32 \<Rightarrow> bool" where
  "seg_chunk_valid snapshot_size offset chunk_len flags \<longleftrightarrow>
     \<not> (flags AND NOT (LMB_SEG_XFER_BEGIN OR LMB_SEG_XFER_END) \<noteq> 0 \<or>
        chunk_len > LMB_MAX_PAY \<or> offset > snapshot_size \<or>
        ucast chunk_len > snapshot_size - offset \<or>
        (flags AND LMB_SEG_XFER_BEGIN \<noteq> 0 \<and> offset \<noteq> 0) \<or>
        (flags AND LMB_SEG_XFER_END \<noteq> 0 \<and> ucast chunk_len \<noteq> snapshot_size - offset))"

definition seg_transfer_valid :: "lmb_seg_transfer \<Rightarrow> bool" where
  "seg_transfer_valid transfer \<longleftrightarrow>
     \<not> lmb_seg_id_is_zero (tr_session_id transfer) \<and>
     \<not> lmb_seg_id_is_zero (tr_request_id transfer) \<and>
     seg_owner_valid (tr_owner transfer) \<and>
     seg_chunk_valid (tr_snapshot_size transfer) (tr_offset transfer)
       (tr_chunk_len transfer) (tr_flags transfer)"

definition seg_control_valid :: "lmb_seg_control \<Rightarrow> bool" where
  "seg_control_valid control \<longleftrightarrow>
     \<not> lmb_seg_id_is_zero (ct_session_id control) \<and>
     \<not> lmb_seg_id_is_zero (ct_request_id control) \<and>
     seg_owner_valid (ct_owner control)"

definition seg_reply_valid :: "lmb_seg_reply \<Rightarrow> bool" where
  "seg_reply_valid reply \<longleftrightarrow>
     \<not> lmb_seg_id_is_zero (rp_session_id reply) \<and>
     \<not> lmb_seg_id_is_zero (rp_request_id reply) \<and>
     rp_status reply \<le> seg_status_code SegInternal"

definition seg_transfer_reply_valid :: "lmb_seg_transfer_reply \<Rightarrow> bool" where
  "seg_transfer_reply_valid reply \<longleftrightarrow>
     seg_reply_valid (xr_reply reply) \<and>
     (if rp_status (xr_reply reply) \<noteq> seg_status_code SegOk
      then xr_snapshot_size reply = 0 \<and> xr_offset reply = 0 \<and> xr_chunk_len reply = 0 \<and>
           xr_transfer_flags reply = 0
      else seg_chunk_valid (xr_snapshot_size reply) (xr_offset reply)
             (xr_chunk_len reply) (xr_transfer_flags reply))"

section \<open>Encoding and decoding\<close>

definition seg_buf_prefix :: "alloc \<Rightarrow> byte_buf \<Rightarrow> byte_buf option" where
  "seg_buf_prefix mem buf =
     seg_buf_u32 mem LMB_SEG_V2_MAGIC buf \<bind> seg_buf_u32 mem LMB_SEG_V2_VERSION"

definition seg_cur_prefix :: "cursor \<Rightarrow> cursor option" where
  "seg_cur_prefix c = do {
     (magic, c) \<leftarrow> seg_cur_u32 c;
     (version, c) \<leftarrow> seg_cur_u32 c;
     if magic \<noteq> LMB_SEG_V2_MAGIC \<or> version \<noteq> LMB_SEG_V2_VERSION then None else Some c
   }"

definition seg_buf_id :: "alloc \<Rightarrow> seg_id \<Rightarrow> byte_buf \<Rightarrow> byte_buf option" where
  "seg_buf_id mem i buf = seg_buf_bytes mem i buf"

definition seg_cur_id :: "cursor \<Rightarrow> (seg_id \<times> cursor) option" where
  "seg_cur_id c = seg_cur_bytes LMB_SEG_ID_BYTES c"

definition seg_buf_owner :: "alloc \<Rightarrow> lmb_seg_owner \<Rightarrow> byte_buf \<Rightarrow> byte_buf option" where
  "seg_buf_owner mem owner buf = do {
     buf \<leftarrow> seg_buf_id mem (lease_id owner) buf;
     buf \<leftarrow> seg_buf_u64 mem (fencing_epoch owner) buf;
     seg_buf_u64 mem (route_generation owner) buf
   }"

definition seg_cur_owner :: "cursor \<Rightarrow> (lmb_seg_owner \<times> cursor) option" where
  "seg_cur_owner c = do {
     (lease, c) \<leftarrow> seg_cur_id c;
     (epoch, c) \<leftarrow> seg_cur_u64 c;
     (route, c) \<leftarrow> seg_cur_u64 c;
     Some (\<lparr>lease_id = lease, fencing_epoch = epoch, route_generation = route\<rparr>, c)
   }"

definition seg_finish :: "byte_buf \<Rightarrow> bytes option" where
  "seg_finish buf =
     (if length (buf_data buf) > unat UINT32_MAX \<or> length (buf_data buf) > unat LMB_MAX_SMALL_BODY
      then None else Some (buf_data buf))"

definition seg_put_open :: "alloc \<Rightarrow> lmb_seg_open \<Rightarrow> byte_buf \<Rightarrow> byte_buf option" where
  "seg_put_open mem open buf = do {
     buf \<leftarrow> seg_buf_prefix mem buf;
     buf \<leftarrow> seg_buf_id mem (op_session_id open) buf;
     buf \<leftarrow> seg_buf_id mem (op_request_id open) buf;
     buf \<leftarrow> seg_buf_owner mem (op_owner open) buf;
     buf \<leftarrow> seg_buf_bytes mem (op_model_root open) buf;
     buf \<leftarrow> seg_buf_bytes mem (op_tokenizer_root open) buf;
     buf \<leftarrow> seg_buf_u32 mem (op_layer_begin open) buf;
     buf \<leftarrow> seg_buf_u32 mem (op_layer_end open) buf;
     buf \<leftarrow> seg_buf_u32 mem (op_context_tokens open) buf;
     buf \<leftarrow> seg_buf_u32 mem (op_max_rows open) buf;
     buf \<leftarrow> seg_buf_u32 mem (op_state_dtype open) buf;
     buf \<leftarrow> seg_buf_u32 mem (op_state_width open) buf;
     buf \<leftarrow> seg_buf_u32 mem (op_ttl_ms open) buf;
     buf \<leftarrow> seg_buf_u64 mem (op_capabilities open) buf;
     buf \<leftarrow> seg_buf_str mem (op_engine_id open) buf;
     buf \<leftarrow> seg_buf_str mem (op_state_schema open) buf;
     seg_buf_str mem (op_numeric_class open) buf
   }"

definition lmb_seg_open_encode :: "alloc \<Rightarrow> lmb_seg_open \<Rightarrow> bytes option" where
  "lmb_seg_open_encode mem open =
     (if \<not> lmb_seg_open_valid open then None
      else seg_put_open mem open buf_empty \<bind> seg_finish)"

definition seg_get_open :: "cursor \<Rightarrow> (lmb_seg_open \<times> cursor) option" where
  "seg_get_open c = do {
     c \<leftarrow> seg_cur_prefix c;
     (session, c) \<leftarrow> seg_cur_id c;
     (request, c) \<leftarrow> seg_cur_id c;
     (owner, c) \<leftarrow> seg_cur_owner c;
     (model, c) \<leftarrow> seg_cur_bytes LMB_SEG_ROOT_BYTES c;
     (tokenizer, c) \<leftarrow> seg_cur_bytes LMB_SEG_ROOT_BYTES c;
     (lbegin, c) \<leftarrow> seg_cur_u32 c;
     (lend, c) \<leftarrow> seg_cur_u32 c;
     (context, c) \<leftarrow> seg_cur_u32 c;
     (rows, c) \<leftarrow> seg_cur_u32 c;
     (dtype, c) \<leftarrow> seg_cur_u32 c;
     (width, c) \<leftarrow> seg_cur_u32 c;
     (ttl, c) \<leftarrow> seg_cur_u32 c;
     (caps, c) \<leftarrow> seg_cur_u64 c;
     (engine, c) \<leftarrow> seg_cur_str LMB_SEG_ENGINE_MAX c;
     (schema, c) \<leftarrow> seg_cur_str LMB_SEG_SCHEMA_MAX c;
     (numeric, c) \<leftarrow> seg_cur_str LMB_SEG_NUMERIC_CLASS_MAX c;
     Some (\<lparr>op_session_id = session, op_request_id = request, op_owner = owner,
            op_model_root = model, op_tokenizer_root = tokenizer,
            op_layer_begin = lbegin, op_layer_end = lend, op_context_tokens = context,
            op_max_rows = rows, op_state_dtype = dtype, op_state_width = width, op_ttl_ms = ttl,
            op_capabilities = caps, op_engine_id = engine, op_state_schema = schema,
            op_numeric_class = numeric\<rparr>, c)
   }"

definition lmb_seg_open_decode :: "bytes \<Rightarrow> lmb_seg_open option" where
  "lmb_seg_open_decode body =
     (if length body > unat LMB_MAX_SMALL_BODY then None
      else case seg_get_open body of
        None \<Rightarrow> None
      | Some (open, c) \<Rightarrow> if c \<noteq> [] \<or> \<not> lmb_seg_open_valid open then None else Some open)"

text \<open>The token ids an encoder reads from the array behind the pointer.\<close>

definition run_tokens :: "lmb_seg_run \<Rightarrow> u32 list" where
  "run_tokens run =
     take (unat (run_token_count run)) (case run_token_ids run of Some ids \<Rightarrow> ids | None \<Rightarrow> [])"

definition seg_put_run :: "alloc \<Rightarrow> lmb_seg_run \<Rightarrow> byte_buf \<Rightarrow> byte_buf option" where
  "seg_put_run mem run buf = do {
     buf \<leftarrow> seg_buf_prefix mem buf;
     buf \<leftarrow> seg_buf_id mem (run_session_id run) buf;
     buf \<leftarrow> seg_buf_id mem (run_request_id run) buf;
     buf \<leftarrow> seg_buf_owner mem (run_owner run) buf;
     buf \<leftarrow> seg_buf_u64 mem (run_sequence run) buf;
     buf \<leftarrow> seg_buf_u64 mem (run_position run) buf;
     buf \<leftarrow> seg_buf_u32 mem (run_rows run) buf;
     buf \<leftarrow> seg_buf_u32 mem (run_token_count run) buf;
     put_seq (seg_buf_u32 mem) (run_tokens run) buf
   }"

definition lmb_seg_run_encode :: "alloc \<Rightarrow> lmb_seg_run \<Rightarrow> bytes option" where
  "lmb_seg_run_encode mem run =
     (if \<not> seg_run_basic_valid run then None
      else seg_put_run mem run buf_empty \<bind> seg_finish)"

text \<open>\<open>token_buf\<close> says whether the caller passed a buffer for the ids, of \<open>token_capacity\<close>.\<close>

definition seg_get_run :: "bool \<Rightarrow> nat \<Rightarrow> cursor \<Rightarrow> (lmb_seg_run \<times> cursor) option" where
  "seg_get_run token_buf token_capacity c = do {
     c \<leftarrow> seg_cur_prefix c;
     (session, c) \<leftarrow> seg_cur_id c;
     (request, c) \<leftarrow> seg_cur_id c;
     (owner, c) \<leftarrow> seg_cur_owner c;
     (sequence, c) \<leftarrow> seg_cur_u64 c;
     (position, c) \<leftarrow> seg_cur_u64 c;
     (rows, c) \<leftarrow> seg_cur_u32 c;
     (count, c) \<leftarrow> seg_cur_u32 c;
     if unat count > token_capacity \<or> (count \<noteq> 0 \<and> \<not> token_buf) then None
     else do {
       (ids, c) \<leftarrow> get_seq seg_cur_u32 (unat count) c;
       let run = \<lparr>run_session_id = session, run_request_id = request, run_owner = owner,
                  run_sequence = sequence, run_position = position, run_rows = rows,
                  run_token_count = count,
                  run_token_ids = (if count \<noteq> 0 then Some ids else None)\<rparr>;
       Some (run, c)
     }
   }"

definition lmb_seg_run_decode :: "bytes \<Rightarrow> bool \<Rightarrow> nat \<Rightarrow> lmb_seg_run option" where
  "lmb_seg_run_decode body token_buf token_capacity =
     (if length body > unat LMB_MAX_SMALL_BODY then None
      else case seg_get_run token_buf token_capacity body of
        None \<Rightarrow> None
      | Some (run, c) \<Rightarrow> if c \<noteq> [] \<or> \<not> seg_run_basic_valid run then None else Some run)"

definition seg_put_transfer :: "alloc \<Rightarrow> lmb_seg_transfer \<Rightarrow> byte_buf \<Rightarrow> byte_buf option" where
  "seg_put_transfer mem transfer buf = do {
     buf \<leftarrow> seg_buf_prefix mem buf;
     buf \<leftarrow> seg_buf_id mem (tr_session_id transfer) buf;
     buf \<leftarrow> seg_buf_id mem (tr_request_id transfer) buf;
     buf \<leftarrow> seg_buf_owner mem (tr_owner transfer) buf;
     buf \<leftarrow> seg_buf_u64 mem (tr_sequence transfer) buf;
     buf \<leftarrow> seg_buf_u64 mem (tr_position transfer) buf;
     buf \<leftarrow> seg_buf_u64 mem (tr_snapshot_size transfer) buf;
     buf \<leftarrow> seg_buf_u64 mem (tr_offset transfer) buf;
     buf \<leftarrow> seg_buf_u32 mem (tr_chunk_len transfer) buf;
     seg_buf_u32 mem (tr_flags transfer) buf
   }"

definition lmb_seg_transfer_encode :: "alloc \<Rightarrow> lmb_seg_transfer \<Rightarrow> bytes option" where
  "lmb_seg_transfer_encode mem transfer =
     (if \<not> seg_transfer_valid transfer then None
      else seg_put_transfer mem transfer buf_empty \<bind> seg_finish)"

definition seg_get_transfer :: "cursor \<Rightarrow> (lmb_seg_transfer \<times> cursor) option" where
  "seg_get_transfer c = do {
     c \<leftarrow> seg_cur_prefix c;
     (session, c) \<leftarrow> seg_cur_id c;
     (request, c) \<leftarrow> seg_cur_id c;
     (owner, c) \<leftarrow> seg_cur_owner c;
     (sequence, c) \<leftarrow> seg_cur_u64 c;
     (position, c) \<leftarrow> seg_cur_u64 c;
     (size, c) \<leftarrow> seg_cur_u64 c;
     (offset, c) \<leftarrow> seg_cur_u64 c;
     (chunk, c) \<leftarrow> seg_cur_u32 c;
     (flags, c) \<leftarrow> seg_cur_u32 c;
     let transfer = \<lparr>tr_session_id = session, tr_request_id = request, tr_owner = owner,
                     tr_sequence = sequence, tr_position = position, tr_snapshot_size = size,
                     tr_offset = offset, tr_chunk_len = chunk, tr_flags = flags\<rparr>;
     Some (transfer, c)
   }"

definition lmb_seg_transfer_decode :: "bytes \<Rightarrow> lmb_seg_transfer option" where
  "lmb_seg_transfer_decode body =
     (if length body > unat LMB_MAX_SMALL_BODY then None
      else case seg_get_transfer body of
        None \<Rightarrow> None
      | Some (transfer, c) \<Rightarrow> if c \<noteq> [] \<or> \<not> seg_transfer_valid transfer then None else Some transfer)"

definition seg_put_control :: "alloc \<Rightarrow> lmb_seg_control \<Rightarrow> byte_buf \<Rightarrow> byte_buf option" where
  "seg_put_control mem control buf = do {
     buf \<leftarrow> seg_buf_prefix mem buf;
     buf \<leftarrow> seg_buf_id mem (ct_session_id control) buf;
     buf \<leftarrow> seg_buf_id mem (ct_request_id control) buf;
     buf \<leftarrow> seg_buf_owner mem (ct_owner control) buf;
     seg_buf_u64 mem (ct_sequence control) buf
   }"

definition lmb_seg_control_encode :: "alloc \<Rightarrow> lmb_seg_control \<Rightarrow> bytes option" where
  "lmb_seg_control_encode mem control =
     (if \<not> seg_control_valid control then None
      else seg_put_control mem control buf_empty \<bind> seg_finish)"

definition seg_get_control :: "cursor \<Rightarrow> (lmb_seg_control \<times> cursor) option" where
  "seg_get_control c = do {
     c \<leftarrow> seg_cur_prefix c;
     (session, c) \<leftarrow> seg_cur_id c;
     (request, c) \<leftarrow> seg_cur_id c;
     (owner, c) \<leftarrow> seg_cur_owner c;
     (sequence, c) \<leftarrow> seg_cur_u64 c;
     let control = \<lparr>ct_session_id = session, ct_request_id = request, ct_owner = owner,
                    ct_sequence = sequence\<rparr>;
     Some (control, c)
   }"

definition lmb_seg_control_decode :: "bytes \<Rightarrow> lmb_seg_control option" where
  "lmb_seg_control_decode body =
     (if length body > unat LMB_MAX_SMALL_BODY then None
      else case seg_get_control body of
        None \<Rightarrow> None
      | Some (control, c) \<Rightarrow> if c \<noteq> [] \<or> \<not> seg_control_valid control then None else Some control)"

definition seg_buf_reply_fields :: "alloc \<Rightarrow> lmb_seg_reply \<Rightarrow> byte_buf \<Rightarrow> byte_buf option" where
  "seg_buf_reply_fields mem reply buf = do {
     buf \<leftarrow> seg_buf_id mem (rp_session_id reply) buf;
     buf \<leftarrow> seg_buf_id mem (rp_request_id reply) buf;
     buf \<leftarrow> seg_buf_u32 mem (rp_status reply) buf;
     buf \<leftarrow> seg_buf_u32 mem (rp_flags reply) buf;
     buf \<leftarrow> seg_buf_u64 mem (rp_next_sequence reply) buf;
     buf \<leftarrow> seg_buf_u64 mem (rp_next_position reply) buf;
     buf \<leftarrow> seg_buf_u64 mem (rp_fencing_epoch reply) buf;
     seg_buf_u64 mem (rp_route_generation reply) buf
   }"

definition seg_cur_reply_fields :: "cursor \<Rightarrow> (lmb_seg_reply \<times> cursor) option" where
  "seg_cur_reply_fields c = do {
     (session, c) \<leftarrow> seg_cur_id c;
     (request, c) \<leftarrow> seg_cur_id c;
     (status, c) \<leftarrow> seg_cur_u32 c;
     (flags, c) \<leftarrow> seg_cur_u32 c;
     (sequence, c) \<leftarrow> seg_cur_u64 c;
     (position, c) \<leftarrow> seg_cur_u64 c;
     (epoch, c) \<leftarrow> seg_cur_u64 c;
     (route, c) \<leftarrow> seg_cur_u64 c;
     Some (\<lparr>rp_session_id = session, rp_request_id = request, rp_status = status,
            rp_flags = flags, rp_next_sequence = sequence, rp_next_position = position,
            rp_fencing_epoch = epoch, rp_route_generation = route\<rparr>, c)
   }"

definition seg_put_reply :: "alloc \<Rightarrow> lmb_seg_reply \<Rightarrow> byte_buf \<Rightarrow> byte_buf option" where
  "seg_put_reply mem reply buf = do {
     buf \<leftarrow> seg_buf_prefix mem buf;
     seg_buf_reply_fields mem reply buf
   }"

definition lmb_seg_reply_encode :: "alloc \<Rightarrow> lmb_seg_reply \<Rightarrow> bytes option" where
  "lmb_seg_reply_encode mem reply =
     (if \<not> seg_reply_valid reply then None
      else seg_put_reply mem reply buf_empty \<bind> seg_finish)"

definition seg_get_reply :: "cursor \<Rightarrow> (lmb_seg_reply \<times> cursor) option" where
  "seg_get_reply c = do {
     c \<leftarrow> seg_cur_prefix c;
     (reply, c) \<leftarrow> seg_cur_reply_fields c;
     Some (reply, c)
   }"

definition lmb_seg_reply_decode :: "bytes \<Rightarrow> lmb_seg_reply option" where
  "lmb_seg_reply_decode body =
     (if length body > unat LMB_MAX_SMALL_BODY then None
      else case seg_get_reply body of
        None \<Rightarrow> None
      | Some (reply, c) \<Rightarrow> if c \<noteq> [] \<or> \<not> seg_reply_valid reply then None else Some reply)"

definition seg_put_transfer_reply :: "alloc \<Rightarrow> lmb_seg_transfer_reply \<Rightarrow> byte_buf \<Rightarrow> byte_buf option" where
  "seg_put_transfer_reply mem reply buf = do {
     buf \<leftarrow> seg_buf_prefix mem buf;
     buf \<leftarrow> seg_buf_reply_fields mem (xr_reply reply) buf;
     buf \<leftarrow> seg_buf_u64 mem (xr_snapshot_size reply) buf;
     buf \<leftarrow> seg_buf_u64 mem (xr_offset reply) buf;
     buf \<leftarrow> seg_buf_u32 mem (xr_chunk_len reply) buf;
     seg_buf_u32 mem (xr_transfer_flags reply) buf
   }"

definition lmb_seg_transfer_reply_encode :: "alloc \<Rightarrow> lmb_seg_transfer_reply \<Rightarrow> bytes option" where
  "lmb_seg_transfer_reply_encode mem reply =
     (if \<not> seg_transfer_reply_valid reply then None
      else seg_put_transfer_reply mem reply buf_empty \<bind> seg_finish)"

definition seg_get_transfer_reply :: "cursor \<Rightarrow> (lmb_seg_transfer_reply \<times> cursor) option" where
  "seg_get_transfer_reply c = do {
     c \<leftarrow> seg_cur_prefix c;
     (fields, c) \<leftarrow> seg_cur_reply_fields c;
     (size, c) \<leftarrow> seg_cur_u64 c;
     (offset, c) \<leftarrow> seg_cur_u64 c;
     (chunk, c) \<leftarrow> seg_cur_u32 c;
     (flags, c) \<leftarrow> seg_cur_u32 c;
     let reply = \<lparr>xr_reply = fields, xr_snapshot_size = size, xr_offset = offset,
                  xr_chunk_len = chunk, xr_transfer_flags = flags\<rparr>;
     Some (reply, c)
   }"

definition lmb_seg_transfer_reply_decode :: "bytes \<Rightarrow> lmb_seg_transfer_reply option" where
  "lmb_seg_transfer_reply_decode body =
     (if length body > unat LMB_MAX_SMALL_BODY then None
      else case seg_get_transfer_reply body of
        None \<Rightarrow> None
      | Some (reply, c) \<Rightarrow> if c \<noteq> [] \<or> \<not> seg_transfer_reply_valid reply then None else Some reply)"

end
