(* ===== verification/Segment_Messages.thy ===== *)
theory Segment_Messages
  imports Segment_Codec
begin

text \<open>
  The wire format laws of the Segment v2 messages: the bytes of each struct, the array lengths
  that the C types fix, and the interpretation of the \<open>message\<close> contract of \<open>Byte_Buffer\<close> for
  every message, which gives round trip, totality and uniqueness of the encoding.
\<close>

section \<open>The bytes of each struct\<close>

definition enc_prefix :: bytes where
  "enc_prefix = lmb_put32 LMB_SEG_V2_MAGIC @ lmb_put32 LMB_SEG_V2_VERSION"

definition enc_owner :: "lmb_seg_owner \<Rightarrow> bytes" where
  "enc_owner w = lease_id w @ enc_u64 (fencing_epoch w) @ enc_u64 (route_generation w)"

definition enc_open :: "lmb_seg_open \<Rightarrow> bytes" where
  "enc_open x = enc_prefix @ op_session_id x @ op_request_id x @ enc_owner (op_owner x) @
     op_model_root x @ op_tokenizer_root x @ lmb_put32 (op_layer_begin x) @
     lmb_put32 (op_layer_end x) @ lmb_put32 (op_context_tokens x) @ lmb_put32 (op_max_rows x) @
     lmb_put32 (op_state_dtype x) @ lmb_put32 (op_state_width x) @ lmb_put32 (op_ttl_ms x) @
     enc_u64 (op_capabilities x) @ enc_str (op_engine_id x) @ enc_str (op_state_schema x) @
     enc_str (op_numeric_class x)"

definition enc_run :: "lmb_seg_run \<Rightarrow> bytes" where
  "enc_run x = enc_prefix @ run_session_id x @ run_request_id x @ enc_owner (run_owner x) @
     enc_u64 (run_sequence x) @ enc_u64 (run_position x) @ lmb_put32 (run_rows x) @
     lmb_put32 (run_token_count x) @ concat (map lmb_put32 (run_tokens x))"

definition enc_transfer :: "lmb_seg_transfer \<Rightarrow> bytes" where
  "enc_transfer x = enc_prefix @ tr_session_id x @ tr_request_id x @ enc_owner (tr_owner x) @
     enc_u64 (tr_sequence x) @ enc_u64 (tr_position x) @ enc_u64 (tr_snapshot_size x) @
     enc_u64 (tr_offset x) @ lmb_put32 (tr_chunk_len x) @ lmb_put32 (tr_flags x)"

definition enc_control :: "lmb_seg_control \<Rightarrow> bytes" where
  "enc_control x = enc_prefix @ ct_session_id x @ ct_request_id x @ enc_owner (ct_owner x) @
     enc_u64 (ct_sequence x)"

definition enc_reply_fields :: "lmb_seg_reply \<Rightarrow> bytes" where
  "enc_reply_fields x = rp_session_id x @ rp_request_id x @ lmb_put32 (rp_status x) @
     lmb_put32 (rp_flags x) @ enc_u64 (rp_next_sequence x) @ enc_u64 (rp_next_position x) @
     enc_u64 (rp_fencing_epoch x) @ enc_u64 (rp_route_generation x)"

definition enc_reply :: "lmb_seg_reply \<Rightarrow> bytes" where
  "enc_reply x = enc_prefix @ enc_reply_fields x"

definition enc_transfer_reply :: "lmb_seg_transfer_reply \<Rightarrow> bytes" where
  "enc_transfer_reply x = enc_prefix @ enc_reply_fields (xr_reply x) @
     enc_u64 (xr_snapshot_size x) @ enc_u64 (xr_offset x) @ lmb_put32 (xr_chunk_len x) @
     lmb_put32 (xr_transfer_flags x)"

section \<open>Array lengths and canonical buffers\<close>

definition owner_sized :: "lmb_seg_owner \<Rightarrow> bool" where
  "owner_sized w \<longleftrightarrow> length (lease_id w) = LMB_SEG_ID_BYTES"

definition open_sized :: "lmb_seg_open \<Rightarrow> bool" where
  "open_sized x \<longleftrightarrow> length (op_session_id x) = LMB_SEG_ID_BYTES \<and>
     length (op_request_id x) = LMB_SEG_ID_BYTES \<and> owner_sized (op_owner x) \<and>
     length (op_model_root x) = LMB_SEG_ROOT_BYTES \<and>
     length (op_tokenizer_root x) = LMB_SEG_ROOT_BYTES \<and>
     length (op_engine_id x) = LMB_SEG_ENGINE_MAX \<and>
     length (op_state_schema x) = LMB_SEG_SCHEMA_MAX \<and>
     length (op_numeric_class x) = LMB_SEG_NUMERIC_CLASS_MAX"

text \<open>A string field after decoding: the same C string, the rest of the buffer zeroed.\<close>

definition canon_open :: "lmb_seg_open \<Rightarrow> lmb_seg_open" where
  "canon_open x = x
     \<lparr>op_engine_id := c_buf LMB_SEG_ENGINE_MAX (c_str (op_engine_id x)),
      op_state_schema := c_buf LMB_SEG_SCHEMA_MAX (c_str (op_state_schema x)),
      op_numeric_class := c_buf LMB_SEG_NUMERIC_CLASS_MAX (c_str (op_numeric_class x))\<rparr>"

definition run_sized :: "lmb_seg_run \<Rightarrow> bool" where
  "run_sized x \<longleftrightarrow> length (run_session_id x) = LMB_SEG_ID_BYTES \<and>
     length (run_request_id x) = LMB_SEG_ID_BYTES \<and> owner_sized (run_owner x) \<and>
     (case run_token_ids x of None \<Rightarrow> True | Some ids \<Rightarrow> length ids = unat (run_token_count x))"

definition transfer_sized :: "lmb_seg_transfer \<Rightarrow> bool" where
  "transfer_sized x \<longleftrightarrow> length (tr_session_id x) = LMB_SEG_ID_BYTES \<and>
     length (tr_request_id x) = LMB_SEG_ID_BYTES \<and> owner_sized (tr_owner x)"

definition control_sized :: "lmb_seg_control \<Rightarrow> bool" where
  "control_sized x \<longleftrightarrow> length (ct_session_id x) = LMB_SEG_ID_BYTES \<and>
     length (ct_request_id x) = LMB_SEG_ID_BYTES \<and> owner_sized (ct_owner x)"

definition reply_sized :: "lmb_seg_reply \<Rightarrow> bool" where
  "reply_sized x \<longleftrightarrow> length (rp_session_id x) = LMB_SEG_ID_BYTES \<and>
     length (rp_request_id x) = LMB_SEG_ID_BYTES"

definition transfer_reply_sized :: "lmb_seg_transfer_reply \<Rightarrow> bool" where
  "transfer_reply_sized x \<longleftrightarrow> reply_sized (xr_reply x)"

definition open_ok :: "lmb_seg_open \<Rightarrow> bool" where
  "open_ok x \<longleftrightarrow> open_sized x \<and> str_ok (op_engine_id x) \<and> str_ok (op_state_schema x) \<and>
     str_ok (op_numeric_class x)"

definition run_ok :: "lmb_seg_run \<Rightarrow> bool" where
  "run_ok x \<longleftrightarrow> run_sized x \<and> unat (run_token_count x) \<le> unat LMB_SEG_MAX_ROWS \<and>
     ((run_token_count x \<noteq> 0) = (run_token_ids x \<noteq> None))"

lemma open_sized_canon [simp]: "open_ok x \<Longrightarrow> open_sized (canon_open x)"
  using c_str_length [of "op_engine_id x"] c_str_length [of "op_state_schema x"]
    c_str_length [of "op_numeric_class x"]
  by (simp add: open_ok_def open_sized_def canon_open_def str_ok_def)

lemma str_okI: "seg_string_valid s \<Longrightarrow> length s \<le> 2 ^ 16 \<Longrightarrow> str_ok s"
  using c_str_length [of s] by (simp add: seg_string_valid_def str_ok_def)

lemma seg_string_valid_c_buf:
  assumes "seg_string_valid s" "length s = cap"
  shows "seg_string_valid (c_buf cap (c_str s))"
  using assms c_str_length [of s] c_str_no_zero [of s] by (simp add: seg_string_valid_def)

section \<open>Field codecs of the structs\<close>

lemma seg_cur_prefix_enc [wire_simps]: "seg_cur_prefix (enc_prefix @ r) = Some r"
  by (simp add: seg_cur_prefix_def enc_prefix_def wire_simps)

lemma seg_cur_prefix_SomeD [reads_dests]: "seg_cur_prefix c = Some r \<Longrightarrow> c = enc_prefix @ r"
  by (auto simp: seg_cur_prefix_def enc_prefix_def bind_eq_Some_conv split: if_splits dest!: seg_cur_u32_SomeD)

lemma seg_cur_id_enc [wire_simps]: "length x = LMB_SEG_ID_BYTES \<Longrightarrow> seg_cur_id (x @ r) = Some (x, r)"
  by (simp add: seg_cur_id_def wire_simps)

lemma seg_cur_id_SomeD [reads_dests]:
  "seg_cur_id c = Some (x, r) \<Longrightarrow> c = x @ r \<and> length x = LMB_SEG_ID_BYTES"
  unfolding seg_cur_id_def by (rule seg_cur_bytes_SomeD)

lemma writes_prefix [writes_intros]: "writes mem (seg_buf_prefix mem) enc_prefix"
  unfolding seg_buf_prefix_def enc_prefix_def by (intro writes_intros)

lemma writes_id [writes_intros]: "writes mem (seg_buf_id mem i) i"
  unfolding seg_buf_id_def by (rule writes_seg_bytes)

lemma writes_owner [writes_intros]: "writes mem (seg_buf_owner mem w) (enc_owner w)"
  unfolding seg_buf_owner_def enc_owner_def by (intro writes_intros)

lemma seg_cur_owner_enc [wire_simps]: "owner_sized w \<Longrightarrow> seg_cur_owner (enc_owner w @ r) = Some (w, r)"
  by (simp add: seg_cur_owner_def enc_owner_def owner_sized_def wire_simps)

lemma seg_cur_owner_SomeD [reads_dests]:
  "seg_cur_owner c = Some (w, r) \<Longrightarrow> c = enc_owner w @ r \<and> owner_sized w"
  by (auto simp: seg_cur_owner_def enc_owner_def owner_sized_def bind_eq_Some_conv dest!: reads_dests)

interpretation owner_codec: codec seg_buf_owner seg_cur_owner enc_owner owner_sized id
  by unfold_locales (auto simp: writes_intros wire_simps dest: seg_cur_owner_SomeD)

lemma writes_reply_fields [writes_intros]: "writes mem (seg_buf_reply_fields mem x) (enc_reply_fields x)"
  unfolding seg_buf_reply_fields_def enc_reply_fields_def by (intro writes_intros)

lemma seg_cur_reply_fields_enc [wire_simps]:
  "reply_sized x \<Longrightarrow> seg_cur_reply_fields (enc_reply_fields x @ r) = Some (x, r)"
  by (simp add: seg_cur_reply_fields_def enc_reply_fields_def reply_sized_def wire_simps)

lemma seg_cur_reply_fields_SomeD [reads_dests]:
  "seg_cur_reply_fields c = Some (x, r) \<Longrightarrow> c = enc_reply_fields x @ r \<and> reply_sized x"
  by (auto simp: seg_cur_reply_fields_def enc_reply_fields_def reply_sized_def bind_eq_Some_conv
      dest!: reads_dests)

section \<open>Segment messages\<close>

text \<open>Their bodies are at most \<open>LMB_MAX_SMALL_BODY\<close> long, on both sides.\<close>

abbreviation seg_limit :: nat where "seg_limit \<equiv> unat LMB_MAX_SMALL_BODY"
abbreviation seg_fits :: "nat \<Rightarrow> bool" where "seg_fits n \<equiv> n \<le> seg_limit"

lemma seg_finish_eq: "seg_finish = buf_finish seg_limit"
  by (intro ext) (auto simp: seg_finish_def buf_finish_def)

lemma seg_decode_fits: "(if length body > seg_limit then None else x) = (if \<not> seg_fits (length body) then None else x)"
  by simp

lemmas seg_message_simps = seg_finish_eq seg_decode_fits

section \<open>The messages\<close>

interpretation open_msg: message seg_put_open seg_get_open enc_open open_ok canon_open
  seg_limit seg_fits lmb_seg_open_valid open_sized lmb_seg_open_encode lmb_seg_open_decode
proof (unfold_locales, goal_cases)
  case (1 x mem)
  then show ?case
    unfolding seg_put_open_def enc_open_def open_ok_def by (intro writes_intros) simp_all
next
  case (2 x r)
  then show ?case
    using c_str_length [of "op_engine_id x"] c_str_length [of "op_state_schema x"]
      c_str_length [of "op_numeric_class x"]
    by (simp add: seg_get_open_def enc_open_def open_ok_def open_sized_def str_ok_def canon_open_def
        wire_simps)
next
  case (3 c x r)
  then show ?case
    by (auto simp: seg_get_open_def enc_open_def open_ok_def open_sized_def canon_open_def str_ok_def
        bind_eq_Some_conv dest!: reads_dests)
next
  case (8 x)
  then show ?case
    by (simp add: open_ok_def lmb_seg_open_valid_def open_sized_def str_okI)
next
  case (9 x)
  then show ?case by (simp add: open_ok_def)
next
  case (10 x)
  then show ?case
    by (simp add: lmb_seg_open_valid_def canon_open_def open_sized_def seg_string_valid_c_buf)
qed (simp_all add: lmb_seg_open_encode_def lmb_seg_open_decode_def seg_message_simps)

interpretation transfer_msg: message seg_put_transfer seg_get_transfer enc_transfer
  transfer_sized id seg_limit seg_fits seg_transfer_valid transfer_sized lmb_seg_transfer_encode lmb_seg_transfer_decode
proof (unfold_locales, goal_cases)
  case (1 x mem)
  show ?case unfolding seg_put_transfer_def enc_transfer_def by (intro writes_intros)
next
  case (2 x r)
  then show ?case by (simp add: seg_get_transfer_def enc_transfer_def transfer_sized_def wire_simps)
next
  case (3 c x r)
  then show ?case
    by (auto simp: seg_get_transfer_def enc_transfer_def transfer_sized_def bind_eq_Some_conv Let_def
        dest!: reads_dests)
qed (simp_all add: lmb_seg_transfer_encode_def lmb_seg_transfer_decode_def seg_message_simps)

interpretation control_msg: message seg_put_control seg_get_control enc_control
  control_sized id seg_limit seg_fits seg_control_valid control_sized lmb_seg_control_encode lmb_seg_control_decode
proof (unfold_locales, goal_cases)
  case (1 x mem)
  show ?case unfolding seg_put_control_def enc_control_def by (intro writes_intros)
next
  case (2 x r)
  then show ?case by (simp add: seg_get_control_def enc_control_def control_sized_def wire_simps)
next
  case (3 c x r)
  then show ?case
    by (auto simp: seg_get_control_def enc_control_def control_sized_def bind_eq_Some_conv Let_def
        dest!: reads_dests)
qed (simp_all add: lmb_seg_control_encode_def lmb_seg_control_decode_def seg_message_simps)

interpretation reply_msg: message seg_put_reply seg_get_reply enc_reply
  reply_sized id seg_limit seg_fits seg_reply_valid reply_sized lmb_seg_reply_encode lmb_seg_reply_decode
proof (unfold_locales, goal_cases)
  case (1 x mem)
  show ?case unfolding seg_put_reply_def enc_reply_def by (intro writes_intros)
next
  case (2 x r)
  then show ?case by (simp add: seg_get_reply_def enc_reply_def wire_simps)
next
  case (3 c x r)
  then show ?case
    by (auto simp: seg_get_reply_def enc_reply_def bind_eq_Some_conv dest!: reads_dests)
qed (simp_all add: lmb_seg_reply_encode_def lmb_seg_reply_decode_def seg_message_simps)

interpretation transfer_reply_msg: message seg_put_transfer_reply seg_get_transfer_reply
  enc_transfer_reply transfer_reply_sized id seg_limit seg_fits seg_transfer_reply_valid transfer_reply_sized
  lmb_seg_transfer_reply_encode lmb_seg_transfer_reply_decode
proof (unfold_locales, goal_cases)
  case (1 x mem)
  show ?case unfolding seg_put_transfer_reply_def enc_transfer_reply_def by (intro writes_intros)
next
  case (2 x r)
  then show ?case
    by (simp add: seg_get_transfer_reply_def enc_transfer_reply_def transfer_reply_sized_def wire_simps)
next
  case (3 c x r)
  then show ?case
    by (auto simp: seg_get_transfer_reply_def enc_transfer_reply_def transfer_reply_sized_def
        bind_eq_Some_conv Let_def dest!: reads_dests)
qed (simp_all add: lmb_seg_transfer_reply_encode_def lmb_seg_transfer_reply_decode_def seg_message_simps)

text \<open>The run message is decoded into a buffer of \<open>LMB_SEG_MAX_ROWS\<close> token ids.\<close>

lemma run_tokens_length: "run_ok x \<Longrightarrow> length (run_tokens x) = unat (run_token_count x)"
  by (auto simp: run_ok_def run_sized_def run_tokens_def split: option.splits)

lemma get_seq_u32_run:
  "run_ok x \<Longrightarrow> get_seq seg_cur_u32 (unat (run_token_count x)) (concat (map lmb_put32 (run_tokens x)) @ r)
     = Some (run_tokens x, r)"
  using u32_codec.get_seq_enc [of "run_tokens x" r] by (simp add: run_tokens_length)

interpretation run_msg: message seg_put_run "seg_get_run True (unat LMB_SEG_MAX_ROWS)" enc_run
  run_ok id seg_limit seg_fits seg_run_basic_valid run_sized lmb_seg_run_encode
  "\<lambda>body. lmb_seg_run_decode body True (unat LMB_SEG_MAX_ROWS)"
proof (unfold_locales, goal_cases)
  case (1 x mem)
  show ?case unfolding seg_put_run_def enc_run_def
    by (intro writes_intros u32_codec.put_seq_writes) simp
next
  case (2 x r)
  then have s: "run_sized x" and t: "unat (run_token_count x) \<le> 4096"
    and p: "(if run_token_count x \<noteq> 0 then Some (run_tokens x) else None) = run_token_ids x"
    by (auto simp: run_ok_def run_tokens_def run_sized_def)
  from s t p show ?case
    by (simp add: seg_get_run_def enc_run_def run_sized_def wire_simps get_seq_u32_run [OF 2])
next
  case (3 c x r)
  then show ?case
    by (auto simp: seg_get_run_def enc_run_def run_ok_def run_sized_def run_tokens_def
        bind_eq_Some_conv Let_def split: if_splits dest!: reads_dests u32_codec.get_seq_dec)
next
  case (8 x)
  then show ?case by (auto simp: run_ok_def seg_run_basic_valid_def word_le_nat_alt)
next
  case (9 x)
  then show ?case by (simp add: run_ok_def)
qed (simp_all add: lmb_seg_run_encode_def lmb_seg_run_decode_def seg_message_simps)

end
