(* ===== verification/Sha256.thy ===== *)
theory Sha256
  imports Lumabri_Prelude "HOL-Library.List_Lexorder" "HOL-Library.Multiset"
begin

text \<open>
  \<^verbatim>\<open>lumabri_sha.h\<close>: the streaming SHA-256 and the canonical identity of a model.

  \<open>lmb_sha\<close> is \<open>LmbSha\<close>. Its field \<open>sha_buf\<close> holds the valid prefix \<open>buf[0 .. off)\<close> of the C
  buffer, so \<open>off\<close> is its length; the bytes of \<open>buf\<close> from \<open>off\<close> on are never read by the
  code. The two loops of the C code that terminate only because \<open>off < 64\<close> are given the
  guard \<open>length (sha_buf s) < 64\<close>; \<open>sha_ok\<close> is the invariant that makes it redundant.
\<close>

record lmb_sha =
  sha_h :: "u32 list"
  sha_len :: u64
  sha_buf :: bytes

definition lmb_sha_k :: "u32 list" where
  "lmb_sha_k =
    [0x428a2f98, 0x71374491, 0xb5c0fbcf, 0xe9b5dba5, 0x3956c25b, 0x59f111f1, 0x923f82a4, 0xab1c5ed5] @
    [0xd807aa98, 0x12835b01, 0x243185be, 0x550c7dc3, 0x72be5d74, 0x80deb1fe, 0x9bdc06a7, 0xc19bf174] @
    [0xe49b69c1, 0xefbe4786, 0x0fc19dc6, 0x240ca1cc, 0x2de92c6f, 0x4a7484aa, 0x5cb0a9dc, 0x76f988da] @
    [0x983e5152, 0xa831c66d, 0xb00327c8, 0xbf597fc7, 0xc6e00bf3, 0xd5a79147, 0x06ca6351, 0x14292967] @
    [0x27b70a85, 0x2e1b2138, 0x4d2c6dfc, 0x53380d13, 0x650a7354, 0x766a0abb, 0x81c2c92e, 0x92722c85] @
    [0xa2bfe8a1, 0xa81a664b, 0xc24b8b70, 0xc76c51a3, 0xd192e819, 0xd6990624, 0xf40e3585, 0x106aa070] @
    [0x19a4c116, 0x1e376c08, 0x2748774c, 0x34b0bcb5, 0x391c0cb3, 0x4ed8aa4a, 0x5b9cca4f, 0x682e6ff3] @
    [0x748f82ee, 0x78a5636f, 0x84c87814, 0x8cc70208, 0x90befffa, 0xa4506ceb, 0xbef9a3f7, 0xc67178f2]"

definition lmb_sha_init :: lmb_sha where
  "lmb_sha_init =
     \<lparr>sha_h = [0x6a09e667,0xbb67ae85,0x3c6ef372,0xa54ff53a,
               0x510e527f,0x9b05688c,0x1f83d9ab,0x5be0cd19],
      sha_len = 0, sha_buf = []\<rparr>"

definition sha_R :: "u32 \<Rightarrow> nat \<Rightarrow> u32" where
  "sha_R x n = drop_bit n x OR push_bit (32 - n) x"

text \<open>The first sixteen schedule words, and one turn of the loop that computes the others.\<close>

definition sha_load :: "bytes \<Rightarrow> u32 list" where
  "sha_load p = map (\<lambda>i. push_bit 24 (ucast (p ! (4*i))) OR push_bit 16 (ucast (p ! (4*i+1))) OR
                         push_bit 8 (ucast (p ! (4*i+2))) OR ucast (p ! (4*i+3))) [0..<16]"

definition sha_extend :: "u32 list \<Rightarrow> u32 list" where
  "sha_extend w =
     (let i = length w;
          s0 = sha_R (w ! (i-15)) 7 XOR sha_R (w ! (i-15)) 18 XOR drop_bit 3 (w ! (i-15));
          s1 = sha_R (w ! (i-2)) 17 XOR sha_R (w ! (i-2)) 19 XOR drop_bit 10 (w ! (i-2))
      in w @ [w ! (i-16) + s0 + w ! (i-7) + s1])"

type_synonym sha_regs = "u32 \<times> u32 \<times> u32 \<times> u32 \<times> u32 \<times> u32 \<times> u32 \<times> u32"

definition sha_round :: "u32 list \<Rightarrow> nat \<Rightarrow> sha_regs \<Rightarrow> sha_regs" where
  "sha_round w i r =
     (case r of (a, b, c, d, e, f, g, h) \<Rightarrow>
      let s1 = sha_R e 6 XOR sha_R e 11 XOR sha_R e 25;
          ch = (e AND f) XOR (NOT e AND g);
          t1 = h + s1 + ch + lmb_sha_k ! i + w ! i;
          s0 = sha_R a 2 XOR sha_R a 13 XOR sha_R a 22;
          mj = (a AND b) XOR (a AND c) XOR (b AND c);
          t2 = s0 + mj
      in (t1 + t2, a, b, c, d + t1, e, f, g))"

definition sha_compress :: "u32 list \<Rightarrow> bytes \<Rightarrow> u32 list" where
  "sha_compress hs p =
     (let w = (sha_extend ^^ 48) (sha_load p) in
      case fold (sha_round w) [0..<64]
             (hs ! 0, hs ! 1, hs ! 2, hs ! 3, hs ! 4, hs ! 5, hs ! 6, hs ! 7)
      of (a, b, c, d, e, f, g, h) \<Rightarrow>
        [hs ! 0 + a, hs ! 1 + b, hs ! 2 + c, hs ! 3 + d,
         hs ! 4 + e, hs ! 5 + f, hs ! 6 + g, hs ! 7 + h])"

definition lmb_sha_block :: "lmb_sha \<Rightarrow> bytes \<Rightarrow> lmb_sha" where
  "lmb_sha_block s p = s\<lparr>sha_h := sha_compress (sha_h s) p\<rparr>"

text \<open>The copying loop of \<open>lmb_sha_update\<close>.\<close>

function sha_absorb :: "lmb_sha \<Rightarrow> bytes \<Rightarrow> lmb_sha" where
  "sha_absorb s data =
     (if data \<noteq> [] \<and> length (sha_buf s) < 64 then
        let k = min (64 - length (sha_buf s)) (length data);
            s1 = s\<lparr>sha_buf := sha_buf s @ take k data\<rparr>;
            s2 = (if length (sha_buf s1) = 64
                  then (lmb_sha_block s1 (sha_buf s1))\<lparr>sha_buf := []\<rparr> else s1)
        in sha_absorb s2 (drop k data)
      else s)"
  by pat_completeness auto
termination by (relation "measure (\<lambda>(s, data). length data)") (auto simp: Let_def)

declare sha_absorb.simps [simp del]

definition lmb_sha_update :: "lmb_sha \<Rightarrow> bytes \<Rightarrow> lmb_sha" where
  "lmb_sha_update s data = sha_absorb (s\<lparr>sha_len := sha_len s + of_nat (length data)\<rparr>) data"

section \<open>Absorbing byte by byte\<close>

definition sha_byte :: "u8 \<Rightarrow> lmb_sha \<Rightarrow> lmb_sha" where
  "sha_byte x s =
     (if length (sha_buf s) = 63
      then s\<lparr>sha_h := sha_compress (sha_h s) (sha_buf s @ [x]), sha_buf := []\<rparr>
      else s\<lparr>sha_buf := sha_buf s @ [x]\<rparr>)"

definition sha_ok :: "lmb_sha \<Rightarrow> bool" where
  "sha_ok s \<longleftrightarrow> length (sha_h s) = 8 \<and> length (sha_buf s) < 64"

lemma sha_compress_length: "length (sha_compress hs p) = 8"
  by (simp add: sha_compress_def Let_def split: prod.splits)

lemma sha_byte_ok [simp]: "sha_ok s \<Longrightarrow> sha_ok (sha_byte x s)"
  by (auto simp: sha_ok_def sha_byte_def sha_compress_length)

lemma sha_fold_ok [simp]: "sha_ok s \<Longrightarrow> sha_ok (fold sha_byte xs s)"
  by (induction xs arbitrary: s) auto

lemma sha_byte_len [simp]: "sha_len (sha_byte x s) = sha_len s"
  by (simp add: sha_byte_def)

lemma sha_fold_len [simp]: "sha_len (fold sha_byte xs s) = sha_len s"
  by (induction xs arbitrary: s) auto

lemma sha_byte_set_len: "sha_byte x (s\<lparr>sha_len := n\<rparr>) = (sha_byte x s)\<lparr>sha_len := n\<rparr>"
  by (simp add: sha_byte_def)

lemma sha_fold_set_len: "fold sha_byte xs (s\<lparr>sha_len := n\<rparr>) = (fold sha_byte xs s)\<lparr>sha_len := n\<rparr>"
  by (induction xs arbitrary: s) (auto simp: sha_byte_set_len)

lemma sha_fold_short:
  "length (sha_buf s) + length xs < 64 \<Longrightarrow> fold sha_byte xs s = s\<lparr>sha_buf := sha_buf s @ xs\<rparr>"
  by (induction xs arbitrary: s) (auto simp: sha_byte_def)

lemma sha_fold_full:
  assumes "length (sha_buf s) + length xs = 64" and "xs \<noteq> []"
  shows "fold sha_byte xs s =
         s\<lparr>sha_h := sha_compress (sha_h s) (sha_buf s @ xs), sha_buf := []\<rparr>"
proof -
  have split: "fold sha_byte (butlast xs) s = s\<lparr>sha_buf := sha_buf s @ butlast xs\<rparr>"
    using assms by (intro sha_fold_short) (cases xs, auto)
  have n: "length (sha_buf s) + (length xs - Suc 0) = 63"
    using assms by (cases xs) auto
  have "fold sha_byte xs s = sha_byte (last xs) (fold sha_byte (butlast xs) s)"
    by (subst append_butlast_last_id [OF assms(2), symmetric]) (simp only: fold_append fold.simps comp_apply id_apply)
  also have "\<dots> = s\<lparr>sha_h := sha_compress (sha_h s) (sha_buf s @ xs), sha_buf := []\<rparr>"
    using assms by (simp add: split sha_byte_def n)
  finally show ?thesis .
qed

lemma sha_absorb_fold: "length (sha_buf s) < 64 \<Longrightarrow> sha_absorb s data = fold sha_byte data s"
proof (induction s data rule: sha_absorb.induct)
  case (1 s data)
  show ?case
  proof (cases "data = []")
    case True
    then show ?thesis by (simp add: sha_absorb.simps)
  next
    case False
    let ?k = "min (64 - length (sha_buf s)) (length data)"
    let ?s1 = "s\<lparr>sha_buf := sha_buf s @ take ?k data\<rparr>"
    let ?s2 = "if length (sha_buf ?s1) = 64
               then (lmb_sha_block ?s1 (sha_buf ?s1))\<lparr>sha_buf := []\<rparr> else ?s1"
    from False 1(2) have k: "0 < ?k" "length (sha_buf ?s1) \<le> 64" by auto
    have chunk: "fold sha_byte (take ?k data) s = ?s2"
    proof (cases "length (sha_buf ?s1) = 64")
      case full: True
      then show ?thesis using False 1(2) k
        by (subst sha_fold_full) (auto simp: lmb_sha_block_def)
    next
      case short: False
      with k have "length (sha_buf s) + length (take ?k data) < 64" by auto
      with short show ?thesis by (simp add: sha_fold_short)
    qed
    have "sha_absorb s data = sha_absorb ?s2 (drop ?k data)"
      using False 1(2) by (subst sha_absorb.simps) (simp add: Let_def)
    also have "\<dots> = fold sha_byte (drop ?k data) ?s2"
      using False 1(2) k by (intro 1(1) [OF _ refl refl refl]) (auto split: if_splits)
    also have "\<dots> = fold sha_byte (take ?k data @ drop ?k data) s"
      by (simp only: fold_append comp_apply chunk)
    finally show ?thesis by simp
  qed
qed

lemma sha_update_fold:
  "sha_ok s \<Longrightarrow> lmb_sha_update s data =
     (fold sha_byte data s)\<lparr>sha_len := sha_len s + of_nat (length data)\<rparr>"
  by (simp add: lmb_sha_update_def sha_absorb_fold sha_ok_def sha_fold_set_len)

lemma sha_ok_set_len [simp]: "sha_ok (s\<lparr>sha_len := n\<rparr>) = sha_ok s"
  by (simp add: sha_ok_def)

lemma sha_update_ok [simp]: "sha_ok s \<Longrightarrow> sha_ok (lmb_sha_update s data)"
  by (simp add: sha_update_fold)

lemma sha_update_append:
  assumes "sha_ok s"
  shows "lmb_sha_update (lmb_sha_update s a) b = lmb_sha_update s (a @ b)"
proof -
  have "lmb_sha_update (lmb_sha_update s a) b =
        (fold sha_byte b (lmb_sha_update s a))\<lparr>sha_len := sha_len (lmb_sha_update s a) + of_nat (length b)\<rparr>"
    using assms by (intro sha_update_fold) simp
  also have "\<dots> = lmb_sha_update s (a @ b)"
    using assms by (simp add: sha_update_fold sha_fold_set_len add.assoc)
  finally show ?thesis .
qed

lemma sha_init_ok [simp]: "sha_ok lmb_sha_init"
  by (simp add: sha_ok_def lmb_sha_init_def)

section \<open>Finishing\<close>

lemma sha_update1_buf:
  "length (sha_buf s) < 64 \<Longrightarrow>
   length (sha_buf (lmb_sha_update s [x])) = (if length (sha_buf s) = 63 then 0 else length (sha_buf s) + 1)"
  unfolding lmb_sha_update_def
  by (subst sha_absorb_fold) (simp_all add: sha_byte_def)

function sha_pad_zeros :: "lmb_sha \<Rightarrow> lmb_sha" where
  "sha_pad_zeros s =
     (if length (sha_buf s) \<noteq> 56 \<and> length (sha_buf s) < 64
      then sha_pad_zeros (lmb_sha_update s [0]) else s)"
  by pat_completeness auto
termination
proof (relation "measure (\<lambda>s. if length (sha_buf s) \<le> 56 then 56 - length (sha_buf s) else 120 - length (sha_buf s))", goal_cases)
  case (2 s)
  then show ?case by (cases "length (sha_buf s) = 63") (auto simp: sha_update1_buf)
qed simp

declare sha_pad_zeros.simps [simp del]

definition sha_be64 :: "u64 \<Rightarrow> bytes" where
  "sha_be64 bits = map (\<lambda>i. ucast (drop_bit (56 - 8 * i) bits)) [0..<8]"

definition sha_digest :: "u32 list \<Rightarrow> bytes" where
  "sha_digest h = concat (map (\<lambda>i. [ucast (drop_bit 24 (h ! i)), ucast (drop_bit 16 (h ! i)),
                                   ucast (drop_bit 8 (h ! i)), ucast (h ! i)]) [0..<8])"

definition lmb_sha_final :: "lmb_sha \<Rightarrow> bytes" where
  "lmb_sha_final s =
     (let bits = sha_len s * 8;
          s1 = lmb_sha_update s [0x80];
          s2 = sha_pad_zeros s1;
          s3 = lmb_sha_update s2 (sha_be64 bits)
      in sha_digest (sha_h s3))"

definition lmb_sha256 :: "bytes \<Rightarrow> bytes" where
  "lmb_sha256 data = lmb_sha_final (lmb_sha_update lmb_sha_init data)"

definition le32_bytes :: "u32 \<Rightarrow> bytes" where
  "le32_bytes v = map (\<lambda>i. ucast (drop_bit (8 * i) v)) [0..<4]"

definition le64_bytes :: "u64 \<Rightarrow> bytes" where
  "le64_bytes v = map (\<lambda>i. ucast (drop_bit (8 * i) v)) [0..<8]"

definition lmb_sha_le32 :: "lmb_sha \<Rightarrow> u32 \<Rightarrow> lmb_sha" where
  "lmb_sha_le32 s v = lmb_sha_update s (le32_bytes v)"

definition lmb_sha_le64 :: "lmb_sha \<Rightarrow> u64 \<Rightarrow> lmb_sha" where
  "lmb_sha_le64 s v = lmb_sha_update s (le64_bytes v)"

lemma length_le_bytes [simp]: "length (le32_bytes v) = 4" "length (le64_bytes w) = 8"
  by (simp_all add: le32_bytes_def le64_bytes_def)

lemma length_lmb_sha256 [simp]: "length (lmb_sha256 data) = 32"
  by (simp add: lmb_sha256_def lmb_sha_final_def sha_digest_def Let_def length_concat comp_def
      sum_list_triv)

section \<open>The one-shot reference\<close>

text \<open>The padded message and the iteration over its blocks, as FIPS 180-4 states them.\<close>

definition sha_padded :: "bytes \<Rightarrow> bytes" where
  "sha_padded data = data @ 0x80 # replicate ((119 - length data mod 64) mod 64) 0
                     @ sha_be64 (of_nat (length data) * 8)"

function sha_blocks :: "u32 list \<Rightarrow> bytes \<Rightarrow> u32 list" where
  "sha_blocks hs p = (if length p < 64 then hs
                      else sha_blocks (sha_compress hs (take 64 p)) (drop 64 p))"
  by pat_completeness auto
termination by (relation "measure (\<lambda>(hs, p). length p)") auto

declare sha_blocks.simps [simp del]

lemma sha_fold_blocks:
  "sha_buf s = [] \<Longrightarrow> fold sha_byte p s =
     s\<lparr>sha_h := sha_blocks (sha_h s) p, sha_buf := drop (64 * (length p div 64)) p\<rparr>"
proof (induction "sha_h s" p arbitrary: s rule: sha_blocks.induct)
  case (1 p)
  show ?case
  proof (cases "length p < 64")
    case True
    with 1(2) show ?thesis by (simp add: sha_fold_short sha_blocks.simps)
  next
    case False
    let ?s = "s\<lparr>sha_h := sha_compress (sha_h s) (take 64 p), sha_buf := []\<rparr>"
    from False have full: "fold sha_byte (take 64 p) s = ?s"
      using 1(2) by (subst sha_fold_full) auto
    have "fold sha_byte p s = fold sha_byte (drop 64 p) (fold sha_byte (take 64 p) s)"
      by (metis append_take_drop_id comp_apply fold_append)
    also have "\<dots> = ?s\<lparr>sha_h := sha_blocks (sha_h ?s) (drop 64 p),
                       sha_buf := drop (64 * (length (drop 64 p) div 64)) (drop 64 p)\<rparr>"
      unfolding full by (rule 1(1)) (use False in simp_all)
    also have "\<dots> = s\<lparr>sha_h := sha_blocks (sha_h s) p, sha_buf := drop (64 * (length p div 64)) p\<rparr>"
      using False by (subst (2) sha_blocks.simps) (simp add: div_if [of "length p"] add.commute)
    finally show ?thesis .
  qed
qed

lemma sha_fold_buf_length:
  "sha_ok s \<Longrightarrow> length (sha_buf (fold sha_byte xs s)) = (length (sha_buf s) + length xs) mod 64"
proof (induction xs arbitrary: s)
  case Nil
  then show ?case by (simp add: sha_ok_def)
next
  case (Cons x xs)
  have "length (sha_buf (fold sha_byte (x # xs) s)) = (length (sha_buf (sha_byte x s)) + length xs) mod 64"
    using Cons by simp
  also have "\<dots> = (length (sha_buf s) + length (x # xs)) mod 64"
    using Cons.prems by (auto simp: sha_byte_def sha_ok_def)
  finally show ?case .
qed

lemma sha_pad_zeros_eq:
  "sha_ok s \<Longrightarrow> sha_pad_zeros s =
     lmb_sha_update s (replicate (if length (sha_buf s) \<le> 56 then 56 - length (sha_buf s)
                                  else 120 - length (sha_buf s)) 0)"
proof (induction s rule: sha_pad_zeros.induct)
  case (1 s)
  let ?n = "\<lambda>l :: nat. if l \<le> 56 then 56 - l else 120 - l"
  let ?l = "length (sha_buf s)"
  show ?case
  proof (cases "?l = 56")
    case True
    then show ?thesis
      by (simp add: sha_pad_zeros.simps [of s] lmb_sha_update_def sha_absorb.simps)
  next
    case False
    from 1(2) have lt: "?l < 64" by (simp add: sha_ok_def)
    then have n: "?n ?l = Suc (?n (length (sha_buf (lmb_sha_update s [0]))))"
      using False by (auto simp: sha_update1_buf)
    have "sha_pad_zeros s = sha_pad_zeros (lmb_sha_update s [0])"
      using False lt by (subst sha_pad_zeros.simps) simp
    also have "\<dots> = lmb_sha_update (lmb_sha_update s [0])
                      (replicate (?n (length (sha_buf (lmb_sha_update s [0])))) 0)"
      using False lt 1(2) by (intro 1(1)) simp_all
    also have "\<dots> = lmb_sha_update s (replicate (?n ?l) 0)"
      unfolding n using 1(2) by (simp add: sha_update_append)
    finally show ?thesis by simp
  qed
qed

lemma sha_final_eq:
  assumes ok: "sha_ok s"
  shows "lmb_sha_final s =
    sha_digest (sha_h (fold sha_byte (0x80 # replicate ((119 - length (sha_buf s)) mod 64) 0 @
                                      sha_be64 (sha_len s * 8)) s))"
proof -
  let ?s1 = "lmb_sha_update s [0x80]"
  let ?l = "length (sha_buf s)"
  from ok have lt: "?l < 64" by (simp add: sha_ok_def)
  have z: "(if length (sha_buf ?s1) \<le> 56 then 56 - length (sha_buf ?s1)
            else 120 - length (sha_buf ?s1)) = (119 - ?l) mod 64"
    using lt by (auto simp: sha_update1_buf mod_if)
  have "lmb_sha_final s = sha_digest (sha_h (lmb_sha_update s
          ([0x80] @ replicate ((119 - ?l) mod 64) 0 @ sha_be64 (sha_len s * 8))))"
    unfolding lmb_sha_final_def Let_def
    by (subst sha_pad_zeros_eq) (simp_all add: ok z sha_update_append del: append_Cons)
  then show ?thesis by (simp add: sha_update_fold ok)
qed

lemma sha256_blocks:
  "lmb_sha256 data = sha_digest (sha_blocks (sha_h lmb_sha_init) (sha_padded data))"
proof -
  let ?s = "lmb_sha_update lmb_sha_init data"
  have l: "length (sha_buf ?s) = length data mod 64"
    by (simp add: sha_update_fold sha_fold_buf_length) (simp add: lmb_sha_init_def)
  have n: "sha_len ?s = of_nat (length data)"
    by (simp add: lmb_sha_update_def sha_absorb_fold lmb_sha_init_def)
  have f: "sha_h (fold sha_byte xs ?s) = sha_h (fold sha_byte (data @ xs) lmb_sha_init)" for xs
    by (simp add: sha_update_fold sha_fold_set_len)
  have "lmb_sha256 data = sha_digest (sha_h (fold sha_byte (sha_padded data) lmb_sha_init))"
    unfolding lmb_sha256_def sha_padded_def by (subst sha_final_eq) (simp_all only: f l n sha_update_ok sha_init_ok)
  then show ?thesis
    by (subst (asm) sha_fold_blocks) (simp_all add: lmb_sha_init_def)
qed

end
