(* ===== verification/Segment_Slot.thy ===== *)
theory Segment_Slot
  imports Segment_Codec Sha256
begin

text \<open>
  One session of the Segment v2 table (\<open>SegSlot\<close> in \<^verbatim>\<open>lumabri_segment.c\<close>): its fields and,
  for every \<open>lmb_seg_table_*\<close> operation, what the operation does to the slot \<open>seg_find\<close> has
  returned, as a function from the slot to a status and the new slot. Finding the slot, the
  argument checks before it and the count of active slots are in \<open>Segment_Table\<close>.
  A C \<open>int\<close> flag is a \<open>bool\<close>; \<open>memset (x, 0, ..)\<close> assigns the zero record of the type.
\<close>

abbreviation LMB_SEG_HISTORY_SLOTS :: nat where "LMB_SEG_HISTORY_SLOTS \<equiv> 16"

datatype seg_slot_state = SlotEmpty | SlotActive | SlotTombstone

record seg_history =
  h_used :: bool
  h_request_id :: seg_id
  h_sequence :: u64
  h_position :: u64
  h_rows :: u32
  h_digest :: bytes

record seg_slot =
  sl_state :: seg_slot_state
  sl_busy :: bool
  sl_needs_restore :: bool
  sl_open :: lmb_seg_open
  sl_next_sequence :: u64
  sl_next_position :: u64
  sl_expires_at_ms :: u64
  sl_pending :: lmb_seg_run
  sl_pending_restore :: lmb_seg_transfer
  sl_pending_digest :: bytes
  sl_history :: "seg_history list"
  sl_history_next :: nat

section \<open>Zeroed structs\<close>

definition zero_bytes :: "nat \<Rightarrow> bytes" where "zero_bytes n = replicate n 0"

definition seg_owner_zero :: lmb_seg_owner where
  "seg_owner_zero =
     \<lparr>lease_id = zero_bytes LMB_SEG_ID_BYTES, fencing_epoch = 0, route_generation = 0\<rparr>"

definition seg_open_zero :: lmb_seg_open where
  "seg_open_zero =
     \<lparr>op_session_id = zero_bytes LMB_SEG_ID_BYTES, op_request_id = zero_bytes LMB_SEG_ID_BYTES,
      op_owner = seg_owner_zero, op_model_root = zero_bytes LMB_SEG_ROOT_BYTES,
      op_tokenizer_root = zero_bytes LMB_SEG_ROOT_BYTES, op_layer_begin = 0, op_layer_end = 0,
      op_context_tokens = 0, op_max_rows = 0, op_state_dtype = 0, op_state_width = 0,
      op_ttl_ms = 0, op_capabilities = 0, op_engine_id = zero_bytes LMB_SEG_ENGINE_MAX,
      op_state_schema = zero_bytes LMB_SEG_SCHEMA_MAX,
      op_numeric_class = zero_bytes LMB_SEG_NUMERIC_CLASS_MAX\<rparr>"

definition seg_run_zero :: lmb_seg_run where
  "seg_run_zero =
     \<lparr>run_session_id = zero_bytes LMB_SEG_ID_BYTES, run_request_id = zero_bytes LMB_SEG_ID_BYTES,
      run_owner = seg_owner_zero, run_sequence = 0, run_position = 0, run_rows = 0,
      run_token_count = 0, run_token_ids = None\<rparr>"

definition seg_transfer_zero :: lmb_seg_transfer where
  "seg_transfer_zero =
     \<lparr>tr_session_id = zero_bytes LMB_SEG_ID_BYTES, tr_request_id = zero_bytes LMB_SEG_ID_BYTES,
      tr_owner = seg_owner_zero, tr_sequence = 0, tr_position = 0, tr_snapshot_size = 0,
      tr_offset = 0, tr_chunk_len = 0, tr_flags = 0\<rparr>"

definition seg_history_zero :: seg_history where
  "seg_history_zero =
     \<lparr>h_used = False, h_request_id = zero_bytes LMB_SEG_ID_BYTES, h_sequence = 0, h_position = 0,
      h_rows = 0, h_digest = zero_bytes 32\<rparr>"

definition seg_history_clear :: "seg_history list" where
  "seg_history_clear = replicate LMB_SEG_HISTORY_SLOTS seg_history_zero"

definition seg_slot_zero :: seg_slot where
  "seg_slot_zero =
     \<lparr>sl_state = SlotEmpty, sl_busy = False, sl_needs_restore = False, sl_open = seg_open_zero,
      sl_next_sequence = 0, sl_next_position = 0, sl_expires_at_ms = 0, sl_pending = seg_run_zero,
      sl_pending_restore = seg_transfer_zero, sl_pending_digest = zero_bytes 32,
      sl_history = seg_history_clear, sl_history_next = 0\<rparr>"

section \<open>Time, ownership, identity\<close>

definition seg_deadline :: "u64 \<Rightarrow> u32 \<Rightarrow> u64" where
  "seg_deadline now_ms ttl_ms =
     (if now_ms > UINT64_MAX - ucast ttl_ms then UINT64_MAX else now_ms + ucast ttl_ms)"

definition seg_expired :: "seg_slot \<Rightarrow> u64 \<Rightarrow> bool" where
  "seg_expired slot now_ms \<longleftrightarrow> now_ms \<ge> sl_expires_at_ms slot"

definition seg_touch :: "seg_slot \<Rightarrow> u64 \<Rightarrow> seg_slot" where
  "seg_touch slot now_ms = slot\<lparr>sl_expires_at_ms := seg_deadline now_ms (op_ttl_ms (sl_open slot))\<rparr>"

definition seg_owner_relation :: "lmb_seg_owner \<Rightarrow> lmb_seg_owner \<Rightarrow> int" where
  "seg_owner_relation candidate current =
     (let epoch = (if fencing_epoch candidate < fencing_epoch current then - 1
                   else if fencing_epoch candidate > fencing_epoch current then 1 else 0 :: int);
          route = (if route_generation candidate < route_generation current then - 1
                   else if route_generation candidate > route_generation current then 1 else 0 :: int)
      in if epoch < 0 \<and> route > 0 \<or> epoch > 0 \<and> route < 0 then 2
         else if epoch < 0 \<or> route < 0 then - 1
         else if epoch > 0 \<or> route > 0 then 1
         else if lmb_seg_id_equal (lease_id candidate) (lease_id current) then 0 else 2)"

definition seg_owner_status :: "lmb_seg_owner \<Rightarrow> lmb_seg_owner \<Rightarrow> lmb_seg_status" where
  "seg_owner_status candidate current =
     (let relation = seg_owner_relation candidate current in
      if relation < 0 then SegStaleOwner
      else if relation = 0 then SegOk else SegConflict)"

definition seg_open_equal :: "lmb_seg_open \<Rightarrow> lmb_seg_open \<Rightarrow> bool" where
  "seg_open_equal a b \<longleftrightarrow>
     lmb_seg_id_equal (op_session_id a) (op_session_id b) \<and>
     seg_owner_relation (op_owner a) (op_owner b) = 0 \<and>
     op_model_root a = op_model_root b \<and>
     op_tokenizer_root a = op_tokenizer_root b \<and>
     op_layer_begin a = op_layer_begin b \<and> op_layer_end a = op_layer_end b \<and>
     op_context_tokens a = op_context_tokens b \<and> op_max_rows a = op_max_rows b \<and>
     op_state_dtype a = op_state_dtype b \<and> op_state_width a = op_state_width b \<and>
     op_ttl_ms a = op_ttl_ms b \<and> op_capabilities a = op_capabilities b \<and>
     c_str (op_engine_id a) = c_str (op_engine_id b) \<and>
     c_str (op_state_schema a) = c_str (op_state_schema b) \<and>
     c_str (op_numeric_class a) = c_str (op_numeric_class b)"

definition seg_run_digest :: "lmb_seg_run \<Rightarrow> bytes \<Rightarrow> bytes" where
  "seg_run_digest run payload =
     (let sha = lmb_sha_init;
          sha = lmb_sha_update sha (run_session_id run);
          sha = lmb_sha_update sha (lease_id (run_owner run));
          sha = lmb_sha_le64 sha (fencing_epoch (run_owner run));
          sha = lmb_sha_le64 sha (route_generation (run_owner run));
          sha = lmb_sha_le64 sha (run_sequence run);
          sha = lmb_sha_le64 sha (run_position run);
          sha = lmb_sha_le32 sha (run_rows run);
          sha = lmb_sha_le32 sha (run_token_count run);
          sha = fold (\<lambda>token sha. lmb_sha_le32 sha token) (run_tokens run) sha;
          sha = lmb_sha_update sha payload
      in lmb_sha_final sha)"

definition seg_run_same :: "lmb_seg_run \<Rightarrow> lmb_seg_run \<Rightarrow> bool" where
  "seg_run_same a b \<longleftrightarrow>
     lmb_seg_id_equal (run_session_id a) (run_session_id b) \<and>
     lmb_seg_id_equal (run_request_id a) (run_request_id b) \<and>
     seg_owner_relation (run_owner a) (run_owner b) = 0 \<and>
     run_sequence a = run_sequence b \<and> run_position a = run_position b \<and>
     run_rows a = run_rows b \<and> run_token_count a = run_token_count b"

section \<open>The operations on a found slot\<close>

definition slot_open :: "lmb_seg_open \<Rightarrow> u64 \<Rightarrow> seg_slot" where
  "slot_open open now_ms =
     seg_touch (seg_slot_zero\<lparr>sl_state := SlotActive, sl_open := open\<rparr>) now_ms"

definition slot_reopen :: "lmb_seg_open \<Rightarrow> u64 \<Rightarrow> seg_slot \<Rightarrow> lmb_seg_status \<times> seg_slot" where
  "slot_reopen open now_ms slot =
     (if seg_expired slot now_ms then (SegExpired, slot)
      else if lmb_seg_id_equal (op_request_id (sl_open slot)) (op_request_id open) \<and>
              seg_open_equal (sl_open slot) open
      then (SegDuplicate, seg_touch slot now_ms)
      else let owner = seg_owner_status (op_owner open) (op_owner (sl_open slot)) in
        (if owner = SegOk then SegConflict else owner, slot))"

definition seg_history_find :: "seg_history list \<Rightarrow> seg_id \<Rightarrow> seg_history option" where
  "seg_history_find hs request =
     List.find (\<lambda>h. h_used h \<and> lmb_seg_id_equal (h_request_id h) request) hs"

definition slot_run_begin ::
  "lmb_seg_run \<Rightarrow> bytes \<Rightarrow> u64 \<Rightarrow> seg_slot \<Rightarrow> lmb_seg_status \<times> seg_slot" where
  "slot_run_begin run payload now_ms slot =
     (if seg_expired slot now_ms then (SegExpired, slot)
      else let owner = seg_owner_status (run_owner run) (op_owner (sl_open slot)) in
      if owner \<noteq> SegOk then (owner, slot)
      else if lmb_seg_run_payload_bytes (sl_open slot) run \<noteq> Some (length payload)
      then (SegBadRequest, slot)
      else let digest = seg_run_digest run payload in
      case seg_history_find (sl_history slot) (run_request_id run) of
        Some history \<Rightarrow>
          if h_sequence history = run_sequence run \<and> h_position history = run_position run \<and>
             h_rows history = run_rows run \<and> h_digest history = digest
          then (SegDuplicate, seg_touch slot now_ms) else (SegConflict, slot)
      | None \<Rightarrow>
          if sl_busy slot then (SegBusy, slot)
          else if sl_needs_restore slot then (SegNeedsRestore, slot)
          else if run_sequence run \<noteq> sl_next_sequence slot \<or>
                  run_position run \<noteq> sl_next_position slot
          then (SegOutOfOrder, slot)
          else (SegOk, slot\<lparr>sl_busy := True, sl_pending := run\<lparr>run_token_ids := None\<rparr>,
                            sl_pending_digest := digest\<rparr>))"

definition slot_run_commit :: "lmb_seg_run \<Rightarrow> u64 \<Rightarrow> seg_slot \<Rightarrow> lmb_seg_status \<times> seg_slot" where
  "slot_run_commit run now_ms slot =
     (if \<not> sl_busy slot \<or> \<not> seg_run_same (sl_pending slot) run then (SegConflict, slot)
      else let history = \<lparr>h_used = True, h_request_id = run_request_id run,
                          h_sequence = run_sequence run, h_position = run_position run,
                          h_rows = run_rows run, h_digest = sl_pending_digest slot\<rparr> in
        (SegOk,
         seg_touch
           (slot\<lparr>sl_history := (sl_history slot)[sl_history_next slot := history],
                 sl_history_next := (sl_history_next slot + 1) mod LMB_SEG_HISTORY_SLOTS,
                 sl_next_sequence := sl_next_sequence slot + 1,
                 sl_next_position := sl_next_position slot + ucast (run_rows run),
                 sl_busy := False, sl_pending := seg_run_zero,
                 sl_pending_digest := zero_bytes 32\<rparr>) now_ms))"

definition slot_run_abort :: "lmb_seg_run \<Rightarrow> seg_slot \<Rightarrow> lmb_seg_status \<times> seg_slot" where
  "slot_run_abort run slot =
     (if \<not> sl_busy slot \<or> \<not> seg_run_same (sl_pending slot) run then (SegConflict, slot)
      else (SegOk, slot\<lparr>sl_busy := False, sl_pending := seg_run_zero,
                        sl_pending_digest := zero_bytes 32\<rparr>))"

definition slot_snapshot_check ::
  "lmb_seg_transfer \<Rightarrow> u64 \<Rightarrow> seg_slot \<Rightarrow> lmb_seg_status \<times> seg_slot" where
  "slot_snapshot_check transfer now_ms slot =
     (if seg_expired slot now_ms then (SegExpired, slot)
      else if op_capabilities (sl_open slot) AND LMB_SEG_CAP_SNAPSHOT = 0 then (SegUnsupported, slot)
      else let status = seg_owner_status (tr_owner transfer) (op_owner (sl_open slot)) in
      if status \<noteq> SegOk then (status, slot)
      else if sl_busy slot then (SegBusy, slot)
      else if sl_needs_restore slot then (SegNeedsRestore, slot)
      else if tr_sequence transfer \<noteq> sl_next_sequence slot \<or>
              tr_position transfer \<noteq> sl_next_position slot
      then (SegOutOfOrder, slot)
      else (SegOk, seg_touch slot now_ms))"

definition slot_restore_commit ::
  "lmb_seg_transfer \<Rightarrow> u64 \<Rightarrow> seg_slot \<Rightarrow> lmb_seg_status \<times> seg_slot" where
  "slot_restore_commit transfer now_ms slot =
     (if seg_expired slot now_ms then (SegExpired, slot)
      else if op_capabilities (sl_open slot) AND LMB_SEG_CAP_SNAPSHOT = 0 then (SegUnsupported, slot)
      else if sl_busy slot then (SegBusy, slot)
      else if tr_position transfer > ucast (op_context_tokens (sl_open slot)) \<or>
              tr_sequence transfer = UINT64_MAX
      then (SegBadRequest, slot)
      else let relation = seg_owner_relation (tr_owner transfer) (op_owner (sl_open slot)) in
      if relation < 0 then (SegStaleOwner, slot)
      else if relation = 2 then (SegConflict, slot)
      else if relation = 0 \<and> (tr_sequence transfer < sl_next_sequence slot \<or>
                               tr_position transfer < sl_next_position slot)
      then (SegOutOfOrder, slot)
      else (SegOk,
            seg_touch
              (slot\<lparr>sl_open := (sl_open slot)\<lparr>op_owner := tr_owner transfer\<rparr>,
                    sl_next_sequence := tr_sequence transfer,
                    sl_next_position := tr_position transfer,
                    sl_needs_restore := False,
                    sl_history := seg_history_clear, sl_history_next := 0\<rparr>) now_ms))"

definition slot_restore_begin ::
  "lmb_seg_transfer \<Rightarrow> u64 \<Rightarrow> seg_slot \<Rightarrow> lmb_seg_status \<times> seg_slot" where
  "slot_restore_begin transfer now_ms slot =
     (if seg_expired slot now_ms then (SegExpired, slot)
      else if op_capabilities (sl_open slot) AND LMB_SEG_CAP_SNAPSHOT = 0 then (SegUnsupported, slot)
      else if sl_busy slot then (SegBusy, slot)
      else if tr_position transfer > ucast (op_context_tokens (sl_open slot)) \<or>
              tr_sequence transfer = UINT64_MAX
      then (SegBadRequest, slot)
      else let relation = seg_owner_relation (tr_owner transfer) (op_owner (sl_open slot)) in
      if relation < 0 then (SegStaleOwner, slot)
      else if relation = 2 then (SegConflict, slot)
      else if relation = 0 \<and> (tr_sequence transfer < sl_next_sequence slot \<or>
                               tr_position transfer < sl_next_position slot)
      then (SegOutOfOrder, slot)
      else (SegOk, seg_touch (slot\<lparr>sl_busy := True, sl_pending_restore := transfer\<rparr>) now_ms))"

definition slot_restore_finish ::
  "lmb_seg_transfer \<Rightarrow> bool \<Rightarrow> u64 \<Rightarrow> seg_slot \<Rightarrow> lmb_seg_status \<times> seg_slot" where
  "slot_restore_finish transfer commit now_ms slot =
     (if \<not> sl_busy slot \<or>
         \<not> lmb_seg_id_equal (tr_request_id (sl_pending_restore slot)) (tr_request_id transfer) \<or>
         tr_sequence (sl_pending_restore slot) \<noteq> tr_sequence transfer \<or>
         tr_position (sl_pending_restore slot) \<noteq> tr_position transfer \<or>
         tr_snapshot_size (sl_pending_restore slot) \<noteq> tr_snapshot_size transfer \<or>
         seg_owner_relation (tr_owner transfer) (tr_owner (sl_pending_restore slot)) \<noteq> 0
      then (SegConflict, slot)
      else let slot = slot\<lparr>sl_busy := False, sl_pending_restore := seg_transfer_zero\<rparr> in
        (SegOk,
         seg_touch
           (if commit
            then slot\<lparr>sl_open := (sl_open slot)\<lparr>op_owner := tr_owner transfer\<rparr>,
                      sl_next_sequence := tr_sequence transfer,
                      sl_next_position := tr_position transfer,
                      sl_needs_restore := False,
                      sl_history := seg_history_clear, sl_history_next := 0\<rparr>
            else slot) now_ms))"

definition slot_fence :: "lmb_seg_owner \<Rightarrow> u64 \<Rightarrow> seg_slot \<Rightarrow> lmb_seg_status \<times> seg_slot" where
  "slot_fence new_owner now_ms slot =
     (if seg_expired slot now_ms then (SegExpired, slot)
      else if sl_busy slot then (SegBusy, slot)
      else let relation = seg_owner_relation new_owner (op_owner (sl_open slot)) in
      if relation < 0 then (SegStaleOwner, slot)
      else if relation = 0 then (SegDuplicate, slot)
      else if relation = 2 then (SegConflict, slot)
      else (SegOk,
            seg_touch
              (slot\<lparr>sl_open := (sl_open slot)\<lparr>op_owner := new_owner\<rparr>,
                    sl_needs_restore := True,
                    sl_history := seg_history_clear, sl_history_next := 0\<rparr>) now_ms))"

text \<open>The status of a close; the slot is released by the table when it is \<open>SegOk\<close>.\<close>

definition slot_close :: "lmb_seg_control \<Rightarrow> seg_slot \<Rightarrow> lmb_seg_status" where
  "slot_close control slot =
     (let status = seg_owner_status (ct_owner control) (op_owner (sl_open slot)) in
      if status \<noteq> SegOk then status
      else if sl_busy slot then SegBusy
      else if ct_sequence control \<noteq> sl_next_sequence slot then SegOutOfOrder
      else SegOk)"

definition slot_tombstone :: seg_slot where
  "slot_tombstone = seg_slot_zero\<lparr>sl_state := SlotTombstone\<rparr>"

end
