(* ===== verification/Segment_Lifecycle.thy ===== *)
theory Segment_Lifecycle
  imports Segment_Slot
begin

text \<open>
  What the slot operations do to a session. \<open>slot_phase\<close> reads the busy flag and the two
  pending fields as one state; \<open>slot_inv\<close> is the invariant of a session, preserved by every
  operation; \<open>spec_step\<close> is the abstract life of a session (owner, next sequence and position,
  phase) and every operation is one of its steps or leaves the abstract session alone.
\<close>

section \<open>Ownership\<close>

definition owner_le :: "lmb_seg_owner \<Rightarrow> lmb_seg_owner \<Rightarrow> bool" where
  "owner_le a b \<longleftrightarrow> fencing_epoch a \<le> fencing_epoch b \<and> route_generation a \<le> route_generation b"

definition owner_newer :: "lmb_seg_owner \<Rightarrow> lmb_seg_owner \<Rightarrow> bool" where
  "owner_newer a b \<longleftrightarrow> owner_le b a \<and>
     (fencing_epoch b < fencing_epoch a \<or> route_generation b < route_generation a)"

lemma owner_relation_0: "seg_owner_relation a b = 0 \<longleftrightarrow> a = b"
  by (cases a; cases b) (auto simp: seg_owner_relation_def Let_def lmb_seg_id_equal_def)

lemma owner_relation_1: "seg_owner_relation a b = 1 \<longleftrightarrow> owner_newer a b"
  by (auto simp: seg_owner_relation_def Let_def owner_newer_def owner_le_def lmb_seg_id_equal_def)

lemma owner_relation_neg: "seg_owner_relation a b < 0 \<longleftrightarrow> owner_newer b a"
  by (auto simp: seg_owner_relation_def Let_def owner_newer_def owner_le_def lmb_seg_id_equal_def)

lemma owner_relation_cases:
  "seg_owner_relation a b \<in> {- 1, 0, 1, 2}"
  by (simp add: seg_owner_relation_def Let_def)

lemma owner_newer_irrefl [simp]: "\<not> owner_newer a a"
  by (simp add: owner_newer_def)

lemma owner_newer_trans: "owner_newer a b \<Longrightarrow> owner_newer b c \<Longrightarrow> owner_newer a c"
  by (auto simp: owner_newer_def owner_le_def)

lemma owner_newer_le_trans: "owner_newer a b \<Longrightarrow> owner_le c b \<Longrightarrow> owner_newer a c"
  by (auto simp: owner_newer_def owner_le_def)

lemma owner_le_refl [simp]: "owner_le a a"
  by (simp add: owner_le_def)

lemma owner_le_trans: "owner_le a b \<Longrightarrow> owner_le b c \<Longrightarrow> owner_le a c"
  by (auto simp: owner_le_def)

lemma owner_newer_le: "owner_newer a b \<Longrightarrow> owner_le b a"
  by (simp add: owner_newer_def)

lemma owner_status_ok: "seg_owner_status a b = SegOk \<longleftrightarrow> a = b"
  using owner_relation_0 [of a b] owner_relation_cases [of a b]
  by (auto simp: seg_owner_status_def Let_def)

lemma owner_status_stale: "seg_owner_status a b = SegStaleOwner \<longleftrightarrow> owner_newer b a"
  using owner_relation_neg [of a b] owner_relation_cases [of a b]
  by (auto simp: seg_owner_status_def Let_def)

lemma owner_status_cases: "seg_owner_status a b \<in> {SegOk, SegStaleOwner, SegConflict}"
  by (simp add: seg_owner_status_def Let_def)

lemmas owner_facts = owner_relation_0 owner_relation_1 owner_relation_neg owner_status_ok

section \<open>Zero structs and touching\<close>

lemma id_is_zero_zero [simp]: "lmb_seg_id_is_zero (zero_bytes n)"
  unfolding lmb_seg_id_is_zero_def zero_bytes_def by (induction n) simp_all

lemma zero_fields [simp]:
  "run_session_id seg_run_zero = zero_bytes LMB_SEG_ID_BYTES"
  "tr_request_id seg_transfer_zero = zero_bytes LMB_SEG_ID_BYTES"
  "length seg_history_clear = LMB_SEG_HISTORY_SLOTS"
  by (simp_all add: seg_run_zero_def seg_transfer_zero_def seg_history_clear_def)

lemma touch_fields [simp]:
  "sl_state (seg_touch s n) = sl_state s"
  "sl_busy (seg_touch s n) = sl_busy s"
  "sl_needs_restore (seg_touch s n) = sl_needs_restore s"
  "sl_open (seg_touch s n) = sl_open s"
  "sl_next_sequence (seg_touch s n) = sl_next_sequence s"
  "sl_next_position (seg_touch s n) = sl_next_position s"
  "sl_pending (seg_touch s n) = sl_pending s"
  "sl_pending_restore (seg_touch s n) = sl_pending_restore s"
  "sl_pending_digest (seg_touch s n) = sl_pending_digest s"
  "sl_history (seg_touch s n) = sl_history s"
  "sl_history_next (seg_touch s n) = sl_history_next s"
  by (simp_all add: seg_touch_def)

lemma touch_expires:
  "sl_expires_at_ms (seg_touch s n) = seg_deadline n (op_ttl_ms (sl_open s))"
  by (simp add: seg_touch_def)

text \<open>The deadline saturates: it never lies before the current time.\<close>

lemma seg_deadline_ge: "now \<le> seg_deadline now ttl"
proof (cases "now > UINT64_MAX - ucast ttl")
  case False
  then have "unat now \<le> unat (UINT64_MAX - ucast ttl :: u64)"
    by (simp only: not_less word_le_nat_alt)
  also have "\<dots> = 2 ^ 64 - 1 - unat ttl"
    using unat_u32_less [of ttl] by (subst unat_sub) (simp_all add: word_le_nat_alt)
  finally have "unat now + unat ttl < 2 ^ 64"
    using unat_u32_less [of ttl] by simp
  then have "unat (now + ucast ttl) = unat now + unat ttl"
    by (simp add: unat_word_ariths)
  with False show ?thesis by (simp add: seg_deadline_def word_le_nat_alt)
qed (simp add: seg_deadline_def)

section \<open>Phase and invariant\<close>

datatype seg_phase = Idle | Running lmb_seg_run | Restoring lmb_seg_transfer

definition slot_phase :: "seg_slot \<Rightarrow> seg_phase" where
  "slot_phase s =
     (if \<not> sl_busy s then Idle
      else if sl_pending_restore s \<noteq> seg_transfer_zero then Restoring (sl_pending_restore s)
      else Running (sl_pending s))"

abbreviation slot_owner :: "seg_slot \<Rightarrow> lmb_seg_owner" where
  "slot_owner s \<equiv> op_owner (sl_open s)"

abbreviation slot_context :: "seg_slot \<Rightarrow> nat" where
  "slot_context s \<equiv> unat (op_context_tokens (sl_open s))"

fun phase_ok :: "seg_phase \<Rightarrow> seg_slot \<Rightarrow> bool" where
  "phase_ok Idle s \<longleftrightarrow>
     \<not> sl_busy s \<and> sl_pending s = seg_run_zero \<and> sl_pending_restore s = seg_transfer_zero"
| "phase_ok (Running r) s \<longleftrightarrow>
     sl_busy s \<and> sl_pending s = r \<and> sl_pending_restore s = seg_transfer_zero \<and>
     \<not> sl_needs_restore s \<and>
     run_session_id r = op_session_id (sl_open s) \<and> run_owner r = slot_owner s \<and>
     run_sequence r = sl_next_sequence s \<and> run_position r = sl_next_position s \<and>
     run_rows r \<noteq> 0 \<and> unat (sl_next_position s) + unat (run_rows r) \<le> slot_context s"
| "phase_ok (Restoring t) s \<longleftrightarrow>
     sl_busy s \<and> sl_pending s = seg_run_zero \<and> sl_pending_restore s = t \<and>
     \<not> lmb_seg_id_is_zero (tr_request_id t) \<and> seg_owner_valid (tr_owner t) \<and>
     tr_sequence t \<noteq> UINT64_MAX \<and> unat (tr_position t) \<le> slot_context s \<and>
     (tr_owner t = slot_owner s \<and> sl_next_sequence s \<le> tr_sequence t \<and>
        sl_next_position s \<le> tr_position t \<or>
      owner_newer (tr_owner t) (slot_owner s))"

definition slot_inv :: "seg_id \<Rightarrow> seg_slot \<Rightarrow> bool" where
  "slot_inv k s \<longleftrightarrow>
     sl_state s = SlotActive \<and> op_session_id (sl_open s) = k \<and> lmb_seg_open_valid (sl_open s) \<and>
     length (sl_history s) = LMB_SEG_HISTORY_SLOTS \<and> sl_history_next s < LMB_SEG_HISTORY_SLOTS \<and>
     unat (sl_next_position s) \<le> slot_context s \<and> phase_ok (slot_phase s) s"

lemma slot_inv_id: "slot_inv k s \<Longrightarrow> \<not> lmb_seg_id_is_zero k"
  by (auto simp: slot_inv_def lmb_seg_open_valid_def)

lemma slot_phase_touch [simp]: "slot_phase (seg_touch s n) = slot_phase s"
  by (simp add: slot_phase_def)

lemma phase_ok_touch [simp]: "phase_ok p (seg_touch s n) = phase_ok p s"
  by (cases p) simp_all

lemma slot_inv_touch [simp]: "slot_inv k (seg_touch s n) = slot_inv k s"
  by (simp add: slot_inv_def)

lemma open_valid_owner:
  "lmb_seg_open_valid o' \<Longrightarrow> seg_owner_valid w \<Longrightarrow> lmb_seg_open_valid (o'\<lparr>op_owner := w\<rparr>)"
  by (simp add: lmb_seg_open_valid_def)

lemma open_valid_ownerD: "lmb_seg_open_valid o' \<Longrightarrow> seg_owner_valid (op_owner o')"
  by (simp add: lmb_seg_open_valid_def)

text \<open>The position arithmetic of a run stays inside the context, so it does not wrap.\<close>

lemma payload_bytes_position:
  assumes "lmb_seg_run_payload_bytes op run = Some n"
  shows "run_rows run \<noteq> 0"
    "unat (run_position run) + unat (run_rows run) \<le> unat (op_context_tokens op)"
proof -
  from assms have p: "run_position run \<le> ucast (op_context_tokens op)"
    and r: "ucast (run_rows run) \<le> (ucast (op_context_tokens op) :: u64) - run_position run"
    and z: "run_rows run \<noteq> 0"
    by (simp_all add: lmb_seg_run_payload_bytes_def not_less split: if_splits)
  show "run_rows run \<noteq> 0" by (rule z)
  from p r have "unat (run_rows run) \<le> unat (op_context_tokens op) - unat (run_position run)"
    by (simp add: word_le_nat_alt unat_sub)
  moreover from p have "unat (run_position run) \<le> unat (op_context_tokens op)"
    by (simp add: word_le_nat_alt)
  ultimately show "unat (run_position run) + unat (run_rows run) \<le> unat (op_context_tokens op)"
    by linarith
qed

lemma position_advance:
  fixes p :: u64 and r c :: u32
  assumes "unat p + unat r \<le> unat c"
  shows "unat (p + ucast r) = unat p + unat r"
proof -
  have "unat p + unat r < 2 ^ 64"
    using assms unat_u32_less [of c] by simp
  then show ?thesis by (simp add: unat_word_ariths)
qed

lemma position_le_context:
  fixes p :: u64 and c :: u32
  shows "\<not> p > ucast c \<Longrightarrow> unat p \<le> unat c"
  by (simp add: not_less word_le_nat_alt)

section \<open>The abstract session\<close>

record spec_session =
  ss_owner :: lmb_seg_owner
  ss_context :: nat
  ss_sequence :: u64
  ss_position :: nat
  ss_fenced :: bool
  ss_phase :: seg_phase

definition abs_slot :: "seg_slot \<Rightarrow> spec_session" where
  "abs_slot s =
     \<lparr>ss_owner = slot_owner s, ss_context = slot_context s, ss_sequence = sl_next_sequence s,
      ss_position = unat (sl_next_position s), ss_fenced = sl_needs_restore s,
      ss_phase = slot_phase s\<rparr>"

text \<open>May a snapshot taken under owner \<open>w\<close> at \<open>(seq, pos)\<close> replace the state of the session?\<close>

definition spec_installs :: "spec_session \<Rightarrow> lmb_seg_owner \<Rightarrow> u64 \<Rightarrow> nat \<Rightarrow> bool" where
  "spec_installs a w seq pos \<longleftrightarrow>
     pos \<le> ss_context a \<and>
     (owner_newer w (ss_owner a) \<or>
      w = ss_owner a \<and> ss_sequence a \<le> seq \<and> ss_position a \<le> pos)"

inductive spec_step :: "spec_session \<Rightarrow> spec_session \<Rightarrow> bool" where
  spec_begin: "ss_phase a = Idle \<Longrightarrow> \<not> ss_fenced a \<Longrightarrow> run_owner r = ss_owner a \<Longrightarrow>
    run_sequence r = ss_sequence a \<Longrightarrow> unat (run_position r) = ss_position a \<Longrightarrow>
    ss_position a + unat (run_rows r) \<le> ss_context a \<Longrightarrow> run_rows r \<noteq> 0 \<Longrightarrow>
    spec_step a (a\<lparr>ss_phase := Running r\<rparr>)"
| spec_commit: "ss_phase a = Running r \<Longrightarrow> ss_position a + unat (run_rows r) \<le> ss_context a \<Longrightarrow>
    run_rows r \<noteq> 0 \<Longrightarrow>
    spec_step a (a\<lparr>ss_phase := Idle, ss_sequence := ss_sequence a + 1,
                    ss_position := ss_position a + unat (run_rows r)\<rparr>)"
| spec_abort: "ss_phase a = Running r \<Longrightarrow> spec_step a (a\<lparr>ss_phase := Idle\<rparr>)"
| spec_restore_begin: "ss_phase a = Idle \<Longrightarrow>
    spec_installs a (tr_owner t) (tr_sequence t) (unat (tr_position t)) \<Longrightarrow>
    spec_step a (a\<lparr>ss_phase := Restoring t\<rparr>)"
| spec_restore_cancel: "ss_phase a = Restoring t \<Longrightarrow> spec_step a (a\<lparr>ss_phase := Idle\<rparr>)"
| spec_restore_finish: "ss_phase a = Restoring t \<Longrightarrow>
    spec_installs a (tr_owner t) (tr_sequence t) (unat (tr_position t)) \<Longrightarrow>
    spec_step a (a\<lparr>ss_phase := Idle, ss_owner := tr_owner t, ss_sequence := tr_sequence t,
                    ss_position := unat (tr_position t), ss_fenced := False\<rparr>)"
| spec_restore_commit: "ss_phase a = Idle \<Longrightarrow>
    spec_installs a (tr_owner (t :: lmb_seg_transfer)) (tr_sequence t) (unat (tr_position t)) \<Longrightarrow>
    spec_step a (a\<lparr>ss_owner := tr_owner t, ss_sequence := tr_sequence t,
                    ss_position := unat (tr_position t), ss_fenced := False\<rparr>)"
| spec_fence: "ss_phase a = Idle \<Longrightarrow> owner_newer w (ss_owner a) \<Longrightarrow>
    spec_step a (a\<lparr>ss_owner := w, ss_fenced := True\<rparr>)"

inductive_cases spec_stepE: "spec_step a b"


text \<open>The abstract life of a session: the owner only moves forward, the context is fixed, the
  position never leaves it, and under one owner sequence and position only grow.\<close>

lemma spec_step_owner: "spec_step a b \<Longrightarrow> owner_le (ss_owner a) (ss_owner b)"
  by (erule spec_stepE) (auto simp: spec_installs_def owner_newer_le)

lemma spec_step_context: "spec_step a b \<Longrightarrow> ss_context b = ss_context a"
  by (erule spec_stepE) auto

lemma spec_step_position:
  "spec_step a b \<Longrightarrow> ss_position a \<le> ss_context a \<Longrightarrow> ss_position b \<le> ss_context b"
  by (erule spec_stepE) (auto simp: spec_installs_def)

lemma spec_step_forward:
  "spec_step a b \<Longrightarrow> ss_owner b = ss_owner a \<Longrightarrow> ss_position a \<le> ss_position b"
  by (erule spec_stepE) (auto simp: spec_installs_def)

text \<open>A fenced session accepts no run until a snapshot has been installed.\<close>

lemma spec_step_fenced:
  "spec_step a b \<Longrightarrow> ss_fenced a \<Longrightarrow> ss_phase a = Idle \<Longrightarrow> ss_phase b \<noteq> Running r"
  by (erule spec_stepE) auto

section \<open>Every operation is a step of the abstract session\<close>

definition slot_sim :: "seg_id \<Rightarrow> seg_slot \<Rightarrow> lmb_seg_status \<times> seg_slot \<Rightarrow> bool" where
  "slot_sim k s r \<longleftrightarrow>
     slot_inv k (snd r) \<and>
     (abs_slot (snd r) = abs_slot s \<or> fst r = SegOk \<and> spec_step (abs_slot s) (abs_slot (snd r)))"

lemma slot_sim_same [simp]: "slot_inv k s \<Longrightarrow> slot_sim k s (st, s)"
  by (simp add: slot_sim_def)

lemma abs_slot_touch [simp]: "abs_slot (seg_touch s n) = abs_slot s"
  by (simp add: abs_slot_def)

lemma slot_sim_touch [simp]: "slot_inv k s \<Longrightarrow> slot_sim k s (st, seg_touch s n)"
  by (simp add: slot_sim_def)

lemma slot_sim_step:
  "slot_inv k s' \<Longrightarrow> spec_step (abs_slot s) (abs_slot s') \<Longrightarrow> slot_sim k s (SegOk, s')"
  by (simp add: slot_sim_def)

lemma slot_inv_idle: "slot_inv k s \<Longrightarrow> \<not> sl_busy s \<Longrightarrow> slot_phase s = Idle \<and> phase_ok Idle s"
  by (auto simp: slot_inv_def slot_phase_def)

lemma slot_reopen_sim: "slot_inv k s \<Longrightarrow> slot_sim k s (slot_reopen op now s)"
  by (simp add: slot_reopen_def Let_def)

lemma slot_open_inv:
  "lmb_seg_open_valid op \<Longrightarrow> slot_inv (op_session_id op) (slot_open op now)"
  by (simp add: slot_open_def slot_inv_def slot_phase_def seg_slot_zero_def)

lemma slot_run_begin_sim:
  assumes "slot_inv k s" "run_session_id run = k"
  shows "slot_sim k s (slot_run_begin run p now s)"
proof -
  let ?s = "s\<lparr>sl_busy := True, sl_pending := run\<lparr>run_token_ids := None\<rparr>,
              sl_pending_digest := seg_run_digest run p\<rparr>"
  have "slot_sim k s (SegOk, ?s)"
    if pb: "lmb_seg_run_payload_bytes (sl_open s) run = Some (length p)"
      and ow: "run_owner run = slot_owner s" and nb: "\<not> sl_busy s" "\<not> sl_needs_restore s"
      and sq: "run_sequence run = sl_next_sequence s" "run_position run = sl_next_position s"
  proof (rule slot_sim_step)
    note i = slot_inv_idle [OF assms(1) nb(1)] and pos = payload_bytes_position [OF pb]
    have ph: "slot_phase ?s = Running (run\<lparr>run_token_ids := None\<rparr>)"
      using i by (simp add: slot_phase_def)
    show "slot_inv k ?s"
      using assms i pos ow sq nb by (simp add: slot_inv_def ph)
    have "abs_slot ?s = (abs_slot s)\<lparr>ss_phase := Running (run\<lparr>run_token_ids := None\<rparr>)\<rparr>"
      using ph by (simp add: abs_slot_def)
    moreover have "spec_step (abs_slot s) \<dots>"
      using i pos ow sq nb by (intro spec_begin) (simp_all add: abs_slot_def)
    ultimately show "spec_step (abs_slot s) (abs_slot ?s)" by simp
  qed
  then show ?thesis
    using assms(1) by (auto simp: slot_run_begin_def Let_def owner_status_ok split: option.split)
qed

text \<open>A run that matches the pending one finds the session running it.\<close>

lemma seg_run_same_phase:
  assumes "slot_inv k s" "run_session_id run = k" "sl_busy s" "seg_run_same (sl_pending s) run"
  shows "slot_phase s = Running (sl_pending s)" "phase_ok (Running (sl_pending s)) s"
    "run_rows run = run_rows (sl_pending s)"
proof -
  have "run_session_id (sl_pending s) = k"
    using assms by (simp add: seg_run_same_def lmb_seg_id_equal_def)
  then have "sl_pending s \<noteq> seg_run_zero"
    using slot_inv_id [OF assms(1)] by auto
  with assms(1,3) show "slot_phase s = Running (sl_pending s)" "phase_ok (Running (sl_pending s)) s"
    by (auto simp: slot_inv_def slot_phase_def split: if_splits)
  show "run_rows run = run_rows (sl_pending s)"
    using assms(4) by (simp add: seg_run_same_def)
qed

lemma slot_run_commit_sim:
  assumes "slot_inv k s" "run_session_id run = k"
  shows "slot_sim k s (slot_run_commit run now s)"
proof (cases "sl_busy s \<and> seg_run_same (sl_pending s) run")
  case True
  note ph = seg_run_same_phase [OF assms True [THEN conjunct1] True [THEN conjunct2]]
  obtain s' where s': "slot_run_commit run now s = (SegOk, seg_touch s' now)"
    and f: "sl_next_position s' = sl_next_position s + ucast (run_rows run)"
      "sl_next_sequence s' = sl_next_sequence s + 1" "sl_open s' = sl_open s" "\<not> sl_busy s'"
      "sl_needs_restore s' = sl_needs_restore s" "sl_state s' = sl_state s"
      "length (sl_history s') = length (sl_history s)" "sl_history_next s' < LMB_SEG_HISTORY_SLOTS"
      "sl_pending s' = seg_run_zero" "sl_pending_restore s' = sl_pending_restore s"
    using True by (simp add: slot_run_commit_def Let_def)
  have adv: "unat (sl_next_position s') = unat (sl_next_position s) + unat (run_rows run)"
    unfolding f(1) using ph by (intro position_advance [where c = "op_context_tokens (sl_open s)"]) simp
  have idle: "slot_phase s' = Idle" using f by (simp add: slot_phase_def)
  have "slot_inv k s'"
    using assms(1) ph f adv idle by (simp add: slot_inv_def)
  moreover have "abs_slot s' = (abs_slot s)\<lparr>ss_phase := Idle, ss_sequence := ss_sequence (abs_slot s) + 1,
      ss_position := ss_position (abs_slot s) + unat (run_rows (sl_pending s))\<rparr>"
    using f adv idle ph(3) by (simp add: abs_slot_def)
  moreover have "spec_step (abs_slot s) \<dots>"
    using ph by (intro spec_commit) (simp_all add: abs_slot_def)
  ultimately show ?thesis by (simp add: s' slot_sim_def)
qed (use assms(1) in \<open>auto simp: slot_run_commit_def\<close>)

lemma slot_run_abort_sim:
  assumes "slot_inv k s" "run_session_id run = k"
  shows "slot_sim k s (slot_run_abort run s)"
proof (cases "sl_busy s \<and> seg_run_same (sl_pending s) run")
  case True
  note ph = seg_run_same_phase [OF assms True [THEN conjunct1] True [THEN conjunct2]]
  obtain s' where s': "slot_run_abort run s = (SegOk, s')"
    and f: "s' = s\<lparr>sl_busy := False, sl_pending := seg_run_zero, sl_pending_digest := zero_bytes 32\<rparr>"
    using True by (simp add: slot_run_abort_def)
  have idle: "slot_phase s' = Idle" using f by (simp add: slot_phase_def)
  have "slot_inv k s'"
    using assms(1) ph f idle by (simp add: slot_inv_def)
  moreover have "abs_slot s' = (abs_slot s)\<lparr>ss_phase := Idle\<rparr>"
    using f idle by (simp add: abs_slot_def)
  moreover have "spec_step (abs_slot s) \<dots>"
    using ph by (intro spec_abort) (simp_all add: abs_slot_def)
  ultimately show ?thesis by (simp add: s' slot_sim_def)
qed (use assms(1) in \<open>auto simp: slot_run_abort_def\<close>)

lemma slot_snapshot_check_sim: "slot_inv k s \<Longrightarrow> slot_sim k s (slot_snapshot_check tr now s)"
  by (simp add: slot_snapshot_check_def Let_def)


text \<open>The guard shared by \<open>restore_begin\<close> and \<open>restore_commit\<close>.\<close>

lemma restore_guard:
  assumes "slot_inv k s" "seg_transfer_valid t" "\<not> sl_busy s"
    "\<not> (tr_position t > ucast (op_context_tokens (sl_open s)) \<or> tr_sequence t = UINT64_MAX)"
    "\<not> seg_owner_relation (tr_owner t) (slot_owner s) < 0"
    "seg_owner_relation (tr_owner t) (slot_owner s) \<noteq> 2"
    "\<not> (seg_owner_relation (tr_owner t) (slot_owner s) = 0 \<and>
        (tr_sequence t < sl_next_sequence s \<or> tr_position t < sl_next_position s))"
  shows "spec_installs (abs_slot s) (tr_owner t) (tr_sequence t) (unat (tr_position t))"
    "phase_ok (Restoring t) (s\<lparr>sl_busy := True, sl_pending_restore := t\<rparr>)"
proof -
  have r: "tr_owner t = slot_owner s \<and> sl_next_sequence s \<le> tr_sequence t \<and>
        sl_next_position s \<le> tr_position t \<or> owner_newer (tr_owner t) (slot_owner s)"
    using assms(5-7) owner_relation_cases [of "tr_owner t" "slot_owner s"]
    by (auto simp: owner_facts [symmetric] not_less)
  have p: "unat (tr_position t) \<le> slot_context s"
    using assms(4) by (intro position_le_context) simp
  show "spec_installs (abs_slot s) (tr_owner t) (tr_sequence t) (unat (tr_position t))"
    using r p by (auto simp: spec_installs_def abs_slot_def word_le_nat_alt)
  show "phase_ok (Restoring t) (s\<lparr>sl_busy := True, sl_pending_restore := t\<rparr>)"
    using r p assms(1-4) slot_inv_idle [OF assms(1,3)] by (auto simp: seg_transfer_valid_def)
qed

lemma slot_restore_commit_sim:
  assumes "slot_inv k s" "seg_transfer_valid t"
  shows "slot_sim k s (slot_restore_commit t now s)"
proof (cases "fst (slot_restore_commit t now s) = SegOk")
  case False
  with assms(1) show ?thesis by (auto simp: slot_restore_commit_def Let_def)
next
  case True
  let ?s = "s\<lparr>sl_open := (sl_open s)\<lparr>op_owner := tr_owner t\<rparr>, sl_next_sequence := tr_sequence t,
              sl_next_position := tr_position t, sl_needs_restore := False,
              sl_history := seg_history_clear, sl_history_next := 0\<rparr>"
  from True have nb: "\<not> sl_busy s" and r: "slot_restore_commit t now s = (SegOk, seg_touch ?s now)"
    and g: "\<not> (tr_position t > ucast (op_context_tokens (sl_open s)) \<or> tr_sequence t = UINT64_MAX)"
    "\<not> seg_owner_relation (tr_owner t) (slot_owner s) < 0"
    "seg_owner_relation (tr_owner t) (slot_owner s) \<noteq> 2"
    "\<not> (seg_owner_relation (tr_owner t) (slot_owner s) = 0 \<and>
        (tr_sequence t < sl_next_sequence s \<or> tr_position t < sl_next_position s))"
    by (auto simp: slot_restore_commit_def Let_def split: if_splits)
  note g = restore_guard [OF assms nb g]
  have idle: "slot_phase ?s = Idle" using nb by (simp add: slot_phase_def)
  have "slot_inv k ?s"
    using assms g slot_inv_idle [OF assms(1) nb] idle
    by (simp add: slot_inv_def open_valid_owner seg_transfer_valid_def)
  moreover have "abs_slot ?s = (abs_slot s)\<lparr>ss_owner := tr_owner t, ss_sequence := tr_sequence t,
      ss_position := unat (tr_position t), ss_fenced := False\<rparr>"
    using idle slot_inv_idle [OF assms(1) nb] by (simp add: abs_slot_def)
  moreover have "spec_step (abs_slot s) \<dots>"
    using g slot_inv_idle [OF assms(1) nb] by (intro spec_restore_commit) (simp_all add: abs_slot_def)
  ultimately show ?thesis by (simp add: r slot_sim_def)
qed

lemma slot_restore_begin_sim:
  assumes "slot_inv k s" "seg_transfer_valid t"
  shows "slot_sim k s (slot_restore_begin t now s)"
proof (cases "fst (slot_restore_begin t now s) = SegOk")
  case False
  with assms(1) show ?thesis by (auto simp: slot_restore_begin_def Let_def)
next
  case True
  let ?s = "s\<lparr>sl_busy := True, sl_pending_restore := t\<rparr>"
  from True have nb: "\<not> sl_busy s" and r: "slot_restore_begin t now s = (SegOk, seg_touch ?s now)"
    and g: "\<not> (tr_position t > ucast (op_context_tokens (sl_open s)) \<or> tr_sequence t = UINT64_MAX)"
    "\<not> seg_owner_relation (tr_owner t) (slot_owner s) < 0"
    "seg_owner_relation (tr_owner t) (slot_owner s) \<noteq> 2"
    "\<not> (seg_owner_relation (tr_owner t) (slot_owner s) = 0 \<and>
        (tr_sequence t < sl_next_sequence s \<or> tr_position t < sl_next_position s))"
    by (auto simp: slot_restore_begin_def Let_def split: if_splits)
  note g = restore_guard [OF assms nb g]
  have "t \<noteq> seg_transfer_zero" using assms(2) by (auto simp: seg_transfer_valid_def)
  then have ph: "slot_phase ?s = Restoring t" by (simp add: slot_phase_def)
  have "slot_inv k ?s"
    using assms g ph unfolding slot_inv_def by (simp del: phase_ok.simps)
  moreover have "abs_slot ?s = (abs_slot s)\<lparr>ss_phase := Restoring t\<rparr>"
    using ph by (simp add: abs_slot_def)
  moreover have "spec_step (abs_slot s) \<dots>"
    using g slot_inv_idle [OF assms(1) nb] by (intro spec_restore_begin) (simp_all add: abs_slot_def)
  ultimately show ?thesis by (simp add: r slot_sim_def)
qed

lemma slot_restore_finish_sim:
  assumes "slot_inv k s" "\<not> lmb_seg_id_is_zero (tr_request_id t)"
  shows "slot_sim k s (slot_restore_finish t commit now s)"
proof (cases "fst (slot_restore_finish t commit now s) = SegOk")
  case False
  with assms(1) show ?thesis by (auto simp: slot_restore_finish_def Let_def split: if_splits)
next
  case True
  let ?p = "sl_pending_restore s"
  let ?a = "s\<lparr>sl_busy := False, sl_pending_restore := seg_transfer_zero\<rparr>"
  let ?c = "?a\<lparr>sl_open := (sl_open s)\<lparr>op_owner := tr_owner t\<rparr>, sl_next_sequence := tr_sequence t,
              sl_next_position := tr_position t, sl_needs_restore := False,
              sl_history := seg_history_clear, sl_history_next := 0\<rparr>"
  from True have b: "sl_busy s" and same: "tr_request_id ?p = tr_request_id t"
    "tr_sequence ?p = tr_sequence t" "tr_position ?p = tr_position t" "tr_owner t = tr_owner ?p"
    and r: "slot_restore_finish t commit now s = (SegOk, seg_touch (if commit then ?c else ?a) now)"
    by (auto simp: slot_restore_finish_def Let_def lmb_seg_id_equal_def owner_relation_0 split: if_splits)
  have "?p \<noteq> seg_transfer_zero" using same(1) assms(2) by (metis id_is_zero_zero zero_fields(2))
  with b have ph: "slot_phase s = Restoring ?p" by (simp add: slot_phase_def)
  with assms(1) have ok: "phase_ok (Restoring ?p) s" by (simp add: slot_inv_def)
  have inst: "spec_installs (abs_slot s) (tr_owner ?p) (tr_sequence ?p) (unat (tr_position ?p))"
    using ok by (auto simp: spec_installs_def abs_slot_def word_le_nat_alt)
  have idle: "slot_phase ?a = Idle" "slot_phase ?c = Idle" by (simp_all add: slot_phase_def)
  show ?thesis
  proof (cases commit)
    case False
    have "slot_inv k ?a" using assms(1) ok idle by (simp add: slot_inv_def)
    moreover have "abs_slot ?a = (abs_slot s)\<lparr>ss_phase := Idle\<rparr>" using idle by (simp add: abs_slot_def)
    moreover have "spec_step (abs_slot s) \<dots>"
      using ph by (intro spec_restore_cancel) (simp add: abs_slot_def)
    ultimately show ?thesis unfolding r slot_sim_def using False by simp
  next
    case True
    have "slot_inv k ?c"
      using assms(1) ok idle same by (auto simp: slot_inv_def open_valid_owner)
    moreover have "abs_slot ?c = (abs_slot s)\<lparr>ss_phase := Idle, ss_owner := tr_owner ?p,
        ss_sequence := tr_sequence ?p, ss_position := unat (tr_position ?p), ss_fenced := False\<rparr>"
      using idle same by (simp add: abs_slot_def)
    moreover have "spec_step (abs_slot s) \<dots>"
      using ph inst by (intro spec_restore_finish) (simp_all add: abs_slot_def)
    ultimately show ?thesis unfolding r slot_sim_def using True by simp
  qed
qed

lemma slot_fence_sim:
  assumes "slot_inv k s" "seg_owner_valid w"
  shows "slot_sim k s (slot_fence w now s)"
proof (cases "fst (slot_fence w now s) = SegOk")
  case False
  with assms(1) show ?thesis by (auto simp: slot_fence_def Let_def)
next
  case True
  let ?s = "s\<lparr>sl_open := (sl_open s)\<lparr>op_owner := w\<rparr>, sl_needs_restore := True,
              sl_history := seg_history_clear, sl_history_next := 0\<rparr>"
  from True have nb: "\<not> sl_busy s" and r: "slot_fence w now s = (SegOk, seg_touch ?s now)"
    and "seg_owner_relation w (slot_owner s) = 1"
    using owner_relation_cases [of w "slot_owner s"]
    by (auto simp: slot_fence_def Let_def split: if_splits)
  then have n: "owner_newer w (slot_owner s)" by (simp add: owner_relation_1)
  have idle: "slot_phase ?s = Idle" using nb by (simp add: slot_phase_def)
  have "slot_inv k ?s"
    using assms slot_inv_idle [OF assms(1) nb] idle by (simp add: slot_inv_def open_valid_owner)
  moreover have "abs_slot ?s = (abs_slot s)\<lparr>ss_owner := w, ss_fenced := True\<rparr>"
    using idle slot_inv_idle [OF assms(1) nb] by (simp add: abs_slot_def)
  moreover have "spec_step (abs_slot s) \<dots>"
    using n slot_inv_idle [OF assms(1) nb] by (intro spec_fence) (simp_all add: abs_slot_def)
  ultimately show ?thesis by (simp add: r slot_sim_def)
qed

lemmas slot_sims = slot_reopen_sim slot_run_begin_sim slot_run_commit_sim slot_run_abort_sim
  slot_snapshot_check_sim slot_restore_commit_sim slot_restore_begin_sim slot_restore_finish_sim
  slot_fence_sim

end
