(* ===== verification/Segment_Examples.thy ===== *)
theory Segment_Examples
  imports Segment_Lifecycle
begin

text \<open>
  Concrete messages on which the properties of the segment components are applied: a session of
  context 16 with two float32 values per row, a first run of two rows, a run with token ids, a
  newer owner.
\<close>

section \<open>A concrete session\<close>

definition ex_open :: lmb_seg_open where
  "ex_open =
     \<lparr>op_session_id = replicate 16 1, op_request_id = replicate 16 2,
      op_owner = \<lparr>lease_id = replicate 16 3, fencing_epoch = 1, route_generation = 1\<rparr>,
      op_model_root = replicate 32 4, op_tokenizer_root = replicate 32 5, op_layer_begin = 0,
      op_layer_end = 8, op_context_tokens = 16, op_max_rows = 4, op_state_dtype = 1,
      op_state_width = 2, op_ttl_ms = 1000,
      op_capabilities = LMB_SEG_CAP_SNAPSHOT OR LMB_SEG_CAP_MULTI_SESSION OR LMB_SEG_CAP_CPU,
      op_engine_id = c_buf LMB_SEG_ENGINE_MAX [97],
      op_state_schema = c_buf LMB_SEG_SCHEMA_MAX [98],
      op_numeric_class = c_buf LMB_SEG_NUMERIC_CLASS_MAX [99]\<rparr>"

definition ex_run :: lmb_seg_run where
  "ex_run =
     \<lparr>run_session_id = replicate 16 1, run_request_id = replicate 16 6,
      run_owner = op_owner ex_open, run_sequence = 0, run_position = 0, run_rows = 2,
      run_token_count = 0, run_token_ids = None\<rparr>"

definition ex_payload :: bytes where "ex_payload = replicate 16 7"

definition ex_owner :: lmb_seg_owner where
  "ex_owner = \<lparr>lease_id = replicate 16 9, fencing_epoch = 2, route_generation = 1\<rparr>"

abbreviation ex_id :: seg_id where "ex_id \<equiv> op_session_id ex_open"

definition ex_token_run :: lmb_seg_run where
  "ex_token_run = ex_run\<lparr>run_token_count := 2, run_token_ids := Some [11, 22]\<rparr>"

lemma ex_open_valid: "lmb_seg_open_valid ex_open"
  by code_simp

lemma ex_open_context [simp]: "op_context_tokens ex_open = 16"
  unfolding ex_open_def by (simp only: lmb_seg_open.select_convs)

lemma ex_open_ttl [simp]: "op_ttl_ms ex_open = 1000"
  unfolding ex_open_def by (simp only: lmb_seg_open.select_convs)

lemma ex_open_owner: "op_owner ex_open = \<lparr>lease_id = replicate 16 3, fencing_epoch = 1, route_generation = 1\<rparr>"
  unfolding ex_open_def by (simp only: lmb_seg_open.select_convs)

lemma ex_open_snapshot [simp]: "op_capabilities ex_open AND LMB_SEG_CAP_SNAPSHOT = LMB_SEG_CAP_SNAPSHOT"
  unfolding ex_open_def lmb_seg_open.select_convs by simp

lemma ex_run_fields [simp]:
  "run_owner ex_run = op_owner ex_open" "run_sequence ex_run = 0" "run_position ex_run = 0"
  "run_rows ex_run = 2" "run_token_count ex_run = 0" "run_token_ids ex_run = None"
  by (simp_all only: ex_run_def lmb_seg_run.select_convs)

lemma ex_run_ids: "\<not> lmb_seg_id_is_zero (run_session_id ex_run)" "\<not> lmb_seg_id_is_zero (run_request_id ex_run)"
  by code_simp+

lemma ex_open_shape [simp]: "op_max_rows ex_open = 4" "op_state_dtype ex_open = 1" "op_state_width ex_open = 2"
  by (simp_all only: ex_open_def lmb_seg_open.select_convs)

lemma ex_open_tokens [simp]: "op_capabilities ex_open AND LMB_SEG_CAP_TOKEN_IDS = 0"
  unfolding ex_open_def lmb_seg_open.select_convs by simp

lemma ex_payload_bytes: "lmb_seg_run_payload_bytes ex_open ex_run = Some 16"
proof -
  have "(ucast (16 :: u32) :: u64) = 16" "(ucast (2 :: u32) :: u64) = 2" by simp_all
  then show ?thesis
    using ex_open_valid open_valid_ownerD [OF ex_open_valid] ex_run_ids
    by (simp add: lmb_seg_run_payload_bytes_def lmb_seg_dtype_size_def Let_def word_less_nat_alt)
qed

end
