(* ===== verification/Model_Root.thy ===== *)
theory Model_Root
  imports Sha256
begin

text \<open>
  The canonical identity of a complete model (\<open>lmb_model_root\<close> of \<^verbatim>\<open>lumabri_sha.h\<close>).

  A C string is the list of its bytes before the terminator; \<open>None\<close> is a null pointer.
  \<open>qsort\<close> with \<open>strcmp\<close> is the library's stable sort by path, lists of bytes being ordered
  lexicographically as unsigned characters; for items with distinct paths the sorted
  permutation is unique, so any \<open>qsort\<close> returns it. \<open>mem n\<close> says whether \<open>malloc (n)\<close>
  succeeds.
\<close>

record lmb_model_item =
  item_path :: "bytes option"
  item_size :: u64
  item_nh :: u32
  item_hashes :: "bytes option"

definition lmb_model_item_key :: "lmb_model_item \<Rightarrow> bytes" where
  "lmb_model_item_key it = (case item_path it of Some p \<Rightarrow> p | None \<Rightarrow> [])"

definition root_tag :: bytes where
  "root_tag = [0x6c, 0x75, 0x6d, 0x61, 0x62, 0x72, 0x69, 0x2d, 0x6d, 0x6f, 0x64, 0x65, 0x6c, 0x2d,
               0x72, 0x6f, 0x6f, 0x74, 0x2d, 0x76, 0x31, 0]"

definition item_hash_bytes :: "lmb_model_item \<Rightarrow> bytes" where
  "item_hash_bytes it =
     take (unat (item_nh it) * 32) (case item_hashes it of Some h \<Rightarrow> h | None \<Rightarrow> [])"

text \<open>The second loop: it stops at the first path whose length does not fit 32 bits.\<close>

fun root_items :: "lmb_model_item list \<Rightarrow> lmb_sha \<Rightarrow> lmb_sha option" where
  "root_items [] s = Some s"
| "root_items (it # ord) s =
     (let p = lmb_model_item_key it; pl = length p in
      if pl > 2 ^ 32 - 1 then None
      else let s = lmb_sha_le32 s (of_nat pl);
               s = lmb_sha_update s p;
               s = lmb_sha_le64 s (item_size it);
               s = lmb_sha_le32 s (item_nh it);
               s = lmb_sha_update s (item_hash_bytes it)
           in root_items ord s)"

definition lmb_model_root :: "alloc \<Rightarrow> bytes \<Rightarrow> lmb_model_item list \<Rightarrow> bytes option" where
  "lmb_model_root mem model items =
     (let n = length items; ml = length model in
      if n > 2 ^ 32 - 1 then None
      else if \<not> mem ((if n \<noteq> 0 then n else 1) * 8) then None
      else if list_ex (\<lambda>it. item_path it = None \<or> item_nh it \<noteq> 0 \<and> item_hashes it = None) items
        then None
      else let ord = sort_key lmb_model_item_key items;
               s = lmb_sha_update lmb_sha_init root_tag
           in if ml > 2 ^ 32 - 1 then None
              else let s = lmb_sha_le32 s (of_nat ml);
                       s = lmb_sha_update s model;
                       s = lmb_sha_le32 s (of_nat n)
                   in map_option lmb_sha_final (root_items ord s))"

section \<open>The message that is hashed\<close>

definition item_message :: "lmb_model_item \<Rightarrow> bytes" where
  "item_message it =
     le32_bytes (of_nat (length (lmb_model_item_key it))) @ lmb_model_item_key it @
     le64_bytes (item_size it) @ le32_bytes (item_nh it) @ item_hash_bytes it"

definition root_message :: "bytes \<Rightarrow> lmb_model_item list \<Rightarrow> bytes" where
  "root_message model ord =
     root_tag @ le32_bytes (of_nat (length model)) @ model @
     le32_bytes (of_nat (length ord)) @ concat (map item_message ord)"

text \<open>
  A well-formed item: a path short enough to be encoded, and as many hash bytes as announced.
\<close>

definition item_ok :: "lmb_model_item \<Rightarrow> bool" where
  "item_ok it \<longleftrightarrow> item_path it \<noteq> None \<and> length (lmb_model_item_key it) < 2 ^ 32 \<and>
     (case item_hashes it of None \<Rightarrow> item_nh it = 0 | Some h \<Rightarrow> length h = unat (item_nh it) * 32)"

lemma word_bytes_inject:
  fixes v w :: "'a :: len word"
  assumes "LENGTH('a) \<le> 8 * k"
    and "map (\<lambda>i. ucast (drop_bit (8 * i) v) :: u8) [0..<k] =
         map (\<lambda>i. ucast (drop_bit (8 * i) w)) [0..<k]"
  shows "v = w"
proof (rule bit_word_eqI)
  fix n
  assume n: "n < LENGTH('a)"
  with assms(1) have "n div 8 < k" by (simp add: div_less_iff_less_mult mult.commute)
  with assms(2) have "(ucast (drop_bit (8 * (n div 8)) v) :: u8) = ucast (drop_bit (8 * (n div 8)) w)"
    by simp
  then have "bit (ucast (drop_bit (8 * (n div 8)) v) :: u8) (n mod 8) =
             bit (ucast (drop_bit (8 * (n div 8)) w) :: u8) (n mod 8)" by simp
  then show "bit v n = bit w n"
    by (simp add: bit_simps mult.commute)
qed

lemma le32_bytes_inject [simp]: "le32_bytes v = le32_bytes w \<longleftrightarrow> v = w"
  using word_bytes_inject [of 4 v w] by (auto simp: le32_bytes_def)

lemma le64_bytes_inject [simp]: "le64_bytes v = le64_bytes w \<longleftrightarrow> v = w"
  using word_bytes_inject [of 8 v w] by (auto simp: le64_bytes_def)

lemma root_items_eq:
  assumes "sha_ok s" and "\<forall>it \<in> set ord. length (lmb_model_item_key it) < 2 ^ 32"
  shows "root_items ord s = Some (lmb_sha_update s (concat (map item_message ord)))"
  using assms
proof (induction ord arbitrary: s)
  case Nil
  then show ?case by (simp add: lmb_sha_update_def sha_absorb.simps)
next
  case (Cons it ord)
  have "\<not> 2 ^ 32 - 1 < length (lmb_model_item_key it)" using Cons.prems by simp
  then have "root_items (it # ord) s = root_items ord (lmb_sha_update s (item_message it))"
    using Cons.prems(1)
    by (simp add: Let_def lmb_sha_le32_def lmb_sha_le64_def sha_update_append item_message_def)
  then show ?case
    using Cons by (simp add: sha_update_append)
qed

lemma model_root_eq:
  assumes "\<forall>n. mem n" and "\<forall>it \<in> set items. item_ok it"
    and "length items < 2 ^ 32" and "length model < 2 ^ 32"
  shows "lmb_model_root mem model items =
         Some (lmb_sha256 (root_message model (sort_key lmb_model_item_key items)))"
proof -
  have "\<not> list_ex (\<lambda>it. item_path it = None \<or> item_nh it \<noteq> 0 \<and> item_hashes it = None) items"
    using assms(2) by (auto simp: list_ex_iff item_ok_def split: option.splits)
  moreover have "root_items (sort_key lmb_model_item_key items) s =
      Some (lmb_sha_update s (concat (map item_message (sort_key lmb_model_item_key items))))"
    if "sha_ok s" for s
    using assms(2) that by (intro root_items_eq) (auto simp: item_ok_def)
  ultimately show ?thesis
    using assms
    by (simp add: lmb_model_root_def Let_def lmb_sha_le32_def sha_update_append root_message_def
        lmb_sha256_def)
qed

lemma append_eq_by_length:
  "a @ x = b @ y \<Longrightarrow> length a = length b \<Longrightarrow> a = b \<and> x = y"
  by simp

lemma item_message_prefix:
  assumes "item_ok it" "item_ok it'" "item_message it @ r = item_message it' @ r'"
  shows "item_path it = item_path it' \<and> item_size it = item_size it' \<and> item_nh it = item_nh it' \<and>
         item_hash_bytes it = item_hash_bytes it' \<and> r = r'"
proof -
  have h: "length (item_hash_bytes x) = unat (item_nh x) * 32" if "item_ok x" for x
    using that by (auto simp: item_ok_def item_hash_bytes_def split: option.splits)
  from assms(3) have "of_nat (length (lmb_model_item_key it)) =
      (of_nat (length (lmb_model_item_key it')) :: u32)"
    and 1: "lmb_model_item_key it @ le64_bytes (item_size it) @ le32_bytes (item_nh it) @
         item_hash_bytes it @ r =
       lmb_model_item_key it' @ le64_bytes (item_size it') @ le32_bytes (item_nh it') @
         item_hash_bytes it' @ r'"
    unfolding item_message_def append_assoc
    by (auto dest!: append_eq_by_length)
  then have "length (lmb_model_item_key it) = length (lmb_model_item_key it')"
    using assms(1,2) unat_of_nat_u32 by (metis item_ok_def)
  with 1 have key: "lmb_model_item_key it = lmb_model_item_key it'"
    and 2: "le64_bytes (item_size it) @ le32_bytes (item_nh it) @ item_hash_bytes it @ r =
       le64_bytes (item_size it') @ le32_bytes (item_nh it') @ item_hash_bytes it' @ r'"
    by simp_all
  from append_eq_by_length [OF 2] have sz: "item_size it = item_size it'"
    and 3: "le32_bytes (item_nh it) @ item_hash_bytes it @ r = le32_bytes (item_nh it') @ item_hash_bytes it' @ r'"
    by simp_all
  from append_eq_by_length [OF 3] have nh: "item_nh it = item_nh it'"
    and 4: "item_hash_bytes it @ r = item_hash_bytes it' @ r'"
    by simp_all
  from append_eq_by_length [OF 4] have "item_hash_bytes it = item_hash_bytes it'" "r = r'"
    by (simp_all add: h assms(1,2) nh)
  moreover from key assms(1,2) have "item_path it = item_path it'"
    by (auto simp: item_ok_def lmb_model_item_key_def)
  ultimately show ?thesis using sz nh by simp
qed

lemma item_ok_eqI:
  assumes "item_ok it" "item_ok it'"
    and "item_path it = item_path it'" "item_size it = item_size it'" "item_nh it = item_nh it'"
      "item_hash_bytes it = item_hash_bytes it'" "item_hashes it \<noteq> None \<longleftrightarrow> item_hashes it' \<noteq> None"
  shows "it = it'"
  using assms by (cases it, cases it') (auto simp: item_ok_def item_hash_bytes_def split: option.splits)


text \<open>What an item contributes to the identity: every field, the hashes up to their count.\<close>

definition item_content :: "lmb_model_item \<Rightarrow> bytes option \<times> u64 \<times> u32 \<times> bytes" where
  "item_content it = (item_path it, item_size it, item_nh it, item_hash_bytes it)"

lemma concat_item_message_inject:
  assumes "length xs = length ys" "\<forall>it \<in> set xs. item_ok it" "\<forall>it \<in> set ys. item_ok it"
    and "concat (map item_message xs) = concat (map item_message ys)"
  shows "map item_content xs = map item_content ys"
  using assms
proof (induction xs ys rule: list_induct2)
  case Nil
  then show ?case by simp
next
  case (Cons x xs y ys)
  from item_message_prefix [of x y "concat (map item_message xs)" "concat (map item_message ys)"] Cons
  show ?case by (simp add: item_content_def)
qed

lemma root_message_inject:
  assumes m: "length m < 2 ^ 32" "length m' < 2 ^ 32"
    and n: "length xs < 2 ^ 32" "length ys < 2 ^ 32"
    and ok: "\<forall>it \<in> set xs. item_ok it" "\<forall>it \<in> set ys. item_ok it"
    and eq: "root_message m xs = root_message m' ys"
  shows "m = m' \<and> map item_content xs = map item_content ys"
proof -
  from eq have 1: "le32_bytes (of_nat (length m)) @ m @ le32_bytes (of_nat (length xs)) @ concat (map item_message xs)
      = le32_bytes (of_nat (length m')) @ m' @ le32_bytes (of_nat (length ys)) @ concat (map item_message ys)"
    by (simp add: root_message_def)
  from append_eq_by_length [OF 1] have "length m = length m'"
    and 2: "m @ le32_bytes (of_nat (length xs)) @ concat (map item_message xs)
      = m' @ le32_bytes (of_nat (length ys)) @ concat (map item_message ys)"
    using m by (auto dest: arg_cong [of _ _ unat] simp: unat_of_nat_u32)
  from append_eq_by_length [OF 2 this(1)] have mm: "m = m'"
    and 3: "le32_bytes (of_nat (length xs)) @ concat (map item_message xs)
      = le32_bytes (of_nat (length ys)) @ concat (map item_message ys)" by simp_all
  from append_eq_by_length [OF 3] have "length xs = length ys"
    and "concat (map item_message xs) = concat (map item_message ys)"
    using n by (auto dest: arg_cong [of _ _ unat] simp: unat_of_nat_u32)
  with ok mm show ?thesis by (auto intro: concat_item_message_inject)
qed

end
