(* ===== verification/Codec_Guarantees.thy ===== *)
theory Codec_Guarantees
  imports Segment_Messages Segment_Examples Model_Root
begin

text \<open>
  The guarantees of the byte-level components: the Segment v2 messages survive the wire and have
  one encoding each, SHA-256 does not depend on how its input is cut into chunks, the model root
  identifies a set of files.
\<close>

section \<open>Messages\<close>

text \<open>An open request survives the wire: decoding what was encoded gives the request back, its
  three strings as the same C strings in zeroed buffers.\<close>

lemma seg_open_roundtrip:
  assumes "open_sized x" "lmb_seg_open_encode mem x = Some body"
  shows "lmb_seg_open_decode body = Some (canon_open x)"
  using assms by (rule open_msg.roundtrip)

lemma ex_open_sized: "open_sized ex_open"
  by code_simp

lemma ex_open_encode: "lmb_seg_open_encode (\<lambda>_. True) ex_open = Some (enc_open ex_open)"
proof -
  have "length (enc_open ex_open) = 181" by code_simp
  then show ?thesis
    by (intro open_msg.encode_total) (simp_all add: ex_open_valid ex_open_sized)
qed

lemma seg_open_roundtrip_witness:
  "\<exists>body. lmb_seg_open_encode (\<lambda>_. True) ex_open = Some body \<and>
     lmb_seg_open_decode body = Some (canon_open ex_open)"
  using ex_open_encode seg_open_roundtrip [OF ex_open_sized ex_open_encode] by blast

text \<open>C13: a run request survives the wire with its token ids, when the receiver's buffer holds the
  maximal number of rows.\<close>

theorem seg_run_roundtrip:
  assumes "run_sized x" "lmb_seg_run_encode mem x = Some body"
  shows "lmb_seg_run_decode body True (unat LMB_SEG_MAX_ROWS) = Some x"
  using run_msg.roundtrip [OF assms] by simp

lemma ex_token_run_sized: "run_sized ex_token_run"
  by code_simp

lemma ex_token_run_encode: "lmb_seg_run_encode (\<lambda>_. True) ex_token_run = Some (enc_run ex_token_run)"
proof -
  have "length (enc_run ex_token_run) = 104" by code_simp
  moreover have "seg_run_basic_valid ex_token_run" by code_simp
  ultimately show ?thesis
    by (intro run_msg.encode_total) (simp_all add: ex_token_run_sized)
qed

lemma seg_run_roundtrip_witness:
  "\<exists>body. lmb_seg_run_encode (\<lambda>_. True) ex_token_run = Some body \<and>
     lmb_seg_run_decode body True (unat LMB_SEG_MAX_ROWS) = Some ex_token_run"
  using ex_token_run_encode seg_run_roundtrip [OF ex_token_run_sized ex_token_run_encode] by blast

text \<open>C14: no message has two encodings: every body that a decoder accepts (right prefix, right
  length, no trailing byte, valid fields) is the body its encoder produces for the decoded value.\<close>

theorem seg_decode_canonical:
  assumes "\<forall>n. mem n"
  shows "(lmb_seg_open_decode body = Some a \<longrightarrow> lmb_seg_open_encode mem a = Some body) \<and>
    (lmb_seg_run_decode body True (unat LMB_SEG_MAX_ROWS) = Some b \<longrightarrow> lmb_seg_run_encode mem b = Some body) \<and>
    (lmb_seg_transfer_decode body = Some c \<longrightarrow> lmb_seg_transfer_encode mem c = Some body) \<and>
    (lmb_seg_control_decode body = Some d \<longrightarrow> lmb_seg_control_encode mem d = Some body) \<and>
    (lmb_seg_reply_decode body = Some e \<longrightarrow> lmb_seg_reply_encode mem e = Some body) \<and>
    (lmb_seg_transfer_reply_decode body = Some f \<longrightarrow> lmb_seg_transfer_reply_encode mem f = Some body)"
  by (intro conjI impI; rule open_msg.canonical run_msg.canonical transfer_msg.canonical
      control_msg.canonical reply_msg.canonical transfer_reply_msg.canonical;
      (assumption | rule assms)?)
    (drule open_msg.decode_SomeD(5) run_msg.decode_SomeD(5) transfer_msg.decode_SomeD(5)
      control_msg.decode_SomeD(5) reply_msg.decode_SomeD(5) transfer_reply_msg.decode_SomeD(5); assumption)+

lemma seg_decode_canonical_witness:
  "lmb_seg_run_encode (\<lambda>_. True) ex_token_run = Some (enc_run ex_token_run) \<and>
   lmb_seg_run_decode (enc_run ex_token_run) True (unat LMB_SEG_MAX_ROWS) = Some ex_token_run"
proof -
  have "lmb_seg_run_decode (enc_run ex_token_run) True (unat LMB_SEG_MAX_ROWS) = Some ex_token_run"
    using run_msg.roundtrip [OF ex_token_run_sized ex_token_run_encode] by simp
  moreover have "\<forall>n :: nat. (\<lambda>_. True) n" by simp
  ultimately show ?thesis
    using seg_decode_canonical [where mem = "\<lambda>_. True" and body = "enc_run ex_token_run" and b = ex_token_run]
    by blast
qed

section \<open>Hashes\<close>

text \<open>Hashing is streaming: the digest of an input fed in chunks of any sizes, empty ones
  included, is the digest of the whole input fed at once.\<close>

lemma sha_streaming:
  "lmb_sha_final (fold (\<lambda>chunk s. lmb_sha_update s chunk) chunks lmb_sha_init) = lmb_sha256 (concat chunks)"
proof -
  have "fold (\<lambda>chunk s. lmb_sha_update s chunk) chunks (lmb_sha_update lmb_sha_init xs) =
        lmb_sha_update lmb_sha_init (xs @ concat chunks)" for xs
    by (induction chunks arbitrary: xs) (simp_all add: sha_update_append)
  from this [of "[]"] show ?thesis
    by (simp add: lmb_sha256_def lmb_sha_update_def [of lmb_sha_init "[]"] sha_absorb.simps)
qed

text \<open>C15: the buffered implementation computes SHA-256 as the standard states it: pad the message
  with 0x80, zeros and the bit length, then compress one 64-byte block after another.\<close>

theorem sha256_reference:
  "lmb_sha256 data = sha_digest (sha_blocks (sha_h lmb_sha_init) (sha_padded data)) \<and>
   64 dvd length (sha_padded data)"
proof
  show "lmb_sha256 data = sha_digest (sha_blocks (sha_h lmb_sha_init) (sha_padded data))"
    by (rule sha256_blocks)
  define m q where "m = length data mod 64" and "q = length data div 64"
  have n: "length data = 64 * q + m" "m < 64" by (simp_all add: m_def q_def)
  have "length (sha_padded data) = 64 * q + m + 9 + (119 - m) mod 64"
    by (simp add: sha_padded_def sha_be64_def m_def [symmetric]) (simp add: n)
  moreover have "m + 9 + (119 - m) mod 64 = (if m \<le> 55 then 64 else 128)"
  proof (cases "m \<le> 55")
    case True
    then have "119 - m = 64 + (55 - m)" by simp
    then have "(119 - m) mod 64 = 55 - m" by (simp only: mod_add_self1) simp
    with True show ?thesis by simp
  next
    case False
    with n(2) show ?thesis by simp
  qed
  ultimately have "length (sha_padded data) = 64 * q + (if m \<le> 55 then 64 else 128)" by simp
  then show "64 dvd length (sha_padded data)" by (simp add: dvd_add)
qed

section \<open>The model root\<close>

text \<open>The model root does not depend on the order in which the files are listed, success and
  failure included, when no two files have the same path.\<close>

lemma model_root_order:
  assumes "mset items = mset items'" "distinct (map lmb_model_item_key items)"
  shows "lmb_model_root mem model items = lmb_model_root mem model items'"
proof -
  have s: "set items = set items'" "length items = length items'"
    using assms(1) by (auto dest: mset_eq_setD mset_eq_length)
  have "sort_key lmb_model_item_key items = sort_key lmb_model_item_key items'"
    using assms by (intro sort_key_inj_key_eq) (auto simp: distinct_map)
  moreover have "list_ex P items = list_ex P items'" for P
    using s(1) by (simp add: list_ex_iff)
  ultimately show ?thesis by (simp only: lmb_model_root_def s(2))
qed

definition ex_item :: "u8 \<Rightarrow> lmb_model_item" where
  "ex_item b = \<lparr>item_path = Some [b], item_size = 10, item_nh = 1, item_hashes = Some (replicate 32 b)\<rparr>"

lemma model_root_order_witness:
  "lmb_model_root (\<lambda>_. True) [109] [ex_item 1, ex_item 2] = lmb_model_root (\<lambda>_. True) [109] [ex_item 2, ex_item 1]"
  by (rule model_root_order) (simp_all add: ex_item_def lmb_model_item_key_def)

text \<open>C16: the model root commits to the model. It is the SHA-256 of a message made of the name and
  the files in the order of their paths, and two inventories with the same root have the same
  name and the same files (path, size, hashes), unless their two messages are different and
  collide under SHA-256: the message itself loses nothing of the inventory.\<close>

theorem model_root_commits:
  assumes "\<forall>n. mem n" "\<forall>it \<in> set items \<union> set items'. item_ok it"
    "length items < 2 ^ 32" "length items' < 2 ^ 32" "length m < 2 ^ 32" "length m' < 2 ^ 32"
  shows "let msg = root_message m (sort_key lmb_model_item_key items);
      msg' = root_message m' (sort_key lmb_model_item_key items')
    in lmb_model_root mem m items = Some (lmb_sha256 msg) \<and>
    lmb_model_root mem m' items' = Some (lmb_sha256 msg') \<and>
    (lmb_model_root mem m items = lmb_model_root mem m' items' \<longrightarrow>
       m = m' \<and> mset (map item_content items) = mset (map item_content items') \<or>
       msg \<noteq> msg' \<and> lmb_sha256 msg = lmb_sha256 msg')"
proof -
  let ?xs = "sort_key lmb_model_item_key items" and ?ys = "sort_key lmb_model_item_key items'"
  let ?msg = "root_message m ?xs" and ?msg' = "root_message m' ?ys"
  have r: "lmb_model_root mem m items = Some (lmb_sha256 ?msg)"
    "lmb_model_root mem m' items' = Some (lmb_sha256 ?msg')"
    using assms model_root_eq [of mem items m] model_root_eq [of mem items' m'] by simp_all
  have "m = m' \<and> mset (map item_content items) = mset (map item_content items')" if eq: "?msg = ?msg'"
  proof -
    have "m = m' \<and> map item_content ?xs = map item_content ?ys"
      by (rule root_message_inject [OF _ _ _ _ _ _ eq]) (use assms in auto)
    then have "m = m'" "mset (map item_content ?xs) = mset (map item_content ?ys)" by simp_all
    then show ?thesis by simp
  qed
  with r show ?thesis by (auto simp: Let_def)
qed

lemma model_root_commits_witness:
  "lmb_model_root (\<lambda>_. True) [109] [ex_item 1, ex_item 2] = lmb_model_root (\<lambda>_. True) [109] [ex_item 2, ex_item 1] \<and>
   mset (map item_content [ex_item 1, ex_item 2]) = mset (map item_content [ex_item 2, ex_item 1])"
proof -
  have ok: "\<forall>it \<in> set [ex_item 1, ex_item 2] \<union> set [ex_item 2, ex_item 1]. item_ok it"
    by (simp add: item_ok_def ex_item_def lmb_model_item_key_def)
  have s: "sort_key lmb_model_item_key [ex_item 1, ex_item 2] = sort_key lmb_model_item_key [ex_item 2, ex_item 1]"
    by (intro sort_key_inj_key_eq) (auto simp: ex_item_def lmb_model_item_key_def inj_on_def)
  from model_root_commits [of "\<lambda>_. True" "[ex_item 1, ex_item 2]" "[ex_item 2, ex_item 1]" "[109]" "[109]", OF _ ok]
  show ?thesis unfolding s Let_def by simp
qed

end
