(* ===== verification/Segment_Table.thy ===== *)
theory Segment_Table
  imports Segment_Slot
begin

text \<open>
  The session table \<open>LmbSegTable\<close> of \<^verbatim>\<open>lumabri_segment.c\<close>: an open-addressing hash table of
  slots keyed by the session id, and the operations on it. Every operation of the source runs
  under \<open>table->lock\<close>, so an operation is one atomic function of the table; concurrency is any
  sequence of operations (\<open>Segment_Sessions\<close>). \<open>seg_lookup\<close> returns the index of a slot where
  the source returns its address.

  The first half is the code; the second half shows that the hash table implements a partial
  map from session ids to slots: the locale \<open>session_store\<close> is that contract, interpreted on
  the table at the end.
\<close>

record seg_table =
  tb_slots :: "seg_slot list"
  tb_bucket_count :: nat
  tb_max_sessions :: nat
  tb_active_count :: nat

section \<open>Probing\<close>

definition seg_hash_id :: "seg_id \<Rightarrow> nat" where
  "seg_hash_id session_id =
     (let digest = lmb_sha256 session_id in
      unat (fold (\<lambda>i value. value OR push_bit (8 * i) (ucast (digest ! i))) [0..<8] (0 :: u64)))"

fun seg_lookup_loop ::
  "seg_slot list \<Rightarrow> seg_id \<Rightarrow> bool \<Rightarrow> nat list \<Rightarrow> nat option \<Rightarrow> nat option" where
  "seg_lookup_loop slots session_id for_insert [] tombstone =
     (if for_insert then tombstone else None)"
| "seg_lookup_loop slots session_id for_insert (i # probes) tombstone =
     (case sl_state (slots ! i) of
        SlotActive \<Rightarrow>
          if lmb_seg_id_equal (op_session_id (sl_open (slots ! i))) session_id then Some i
          else seg_lookup_loop slots session_id for_insert probes tombstone
      | SlotTombstone \<Rightarrow>
          seg_lookup_loop slots session_id for_insert probes
            (if tombstone = None then Some i else tombstone)
      | SlotEmpty \<Rightarrow>
          if for_insert \<and> tombstone \<noteq> None then tombstone
          else if for_insert then Some i else None)"

definition seg_probes :: "seg_table \<Rightarrow> seg_id \<Rightarrow> nat list" where
  "seg_probes table session_id =
     (let start = seg_hash_id session_id mod tb_bucket_count table in
      map (\<lambda>probe. (start + probe) mod tb_bucket_count table) [0..<tb_bucket_count table])"

definition seg_lookup :: "seg_table \<Rightarrow> seg_id \<Rightarrow> bool \<Rightarrow> nat option" where
  "seg_lookup table session_id for_insert =
     seg_lookup_loop (tb_slots table) session_id for_insert (seg_probes table session_id) None"

definition seg_find :: "seg_table \<Rightarrow> seg_id \<Rightarrow> nat option" where
  "seg_find table session_id =
     (case seg_lookup table session_id False of
        Some i \<Rightarrow> if sl_state (tb_slots table ! i) = SlotActive then Some i else None
      | None \<Rightarrow> None)"

section \<open>The operations\<close>

text \<open>\<open>slot_size\<close> and \<open>table_size\<close> are the two \<open>sizeof\<close> values; \<open>lock_ok\<close> says whether
  \<open>pthread_mutex_init\<close> succeeds.\<close>

definition lmb_seg_table_create :: "alloc \<Rightarrow> nat \<Rightarrow> nat \<Rightarrow> bool \<Rightarrow> nat \<Rightarrow> seg_table option" where
  "lmb_seg_table_create mem slot_size table_size lock_ok capacity =
     (if capacity = 0 \<or> capacity > (SIZE_MAX - 1) div 2 then None
      else let bucket_count = capacity * 2 + 1 in
        if bucket_count > SIZE_MAX div slot_size then None
        else if \<not> mem table_size then None
        else if \<not> mem (bucket_count * slot_size) \<or> \<not> lock_ok then None
        else Some \<lparr>tb_slots = replicate bucket_count seg_slot_zero, tb_bucket_count = bucket_count,
                   tb_max_sessions = capacity, tb_active_count = 0\<rparr>)"

text \<open>Find the slot of a session, run an operation on it and store the result.\<close>

definition with_slot ::
  "(seg_slot \<Rightarrow> lmb_seg_status \<times> seg_slot) \<Rightarrow> seg_id \<Rightarrow> seg_table \<Rightarrow> lmb_seg_status \<times> seg_table" where
  "with_slot f session_id table =
     (case seg_find table session_id of
        None \<Rightarrow> (SegNotFound, table)
      | Some i \<Rightarrow>
          let (status, slot) = f (tb_slots table ! i) in
          (status, table\<lparr>tb_slots := (tb_slots table)[i := slot]\<rparr>))"

definition lmb_seg_table_open ::
  "lmb_seg_open \<Rightarrow> u64 \<Rightarrow> seg_table \<Rightarrow> lmb_seg_status \<times> seg_table" where
  "lmb_seg_table_open open now_ms table =
     (if \<not> lmb_seg_open_valid open then (SegBadRequest, table)
      else case seg_find table (op_session_id open) of
        Some _ \<Rightarrow> with_slot (slot_reopen open now_ms) (op_session_id open) table
      | None \<Rightarrow>
          if tb_active_count table \<ge> tb_max_sessions table then (SegQuota, table)
          else case seg_lookup table (op_session_id open) True of
            None \<Rightarrow> (SegQuota, table)
          | Some i \<Rightarrow>
              (SegOk, table\<lparr>tb_slots := (tb_slots table)[i := slot_open open now_ms],
                            tb_active_count := tb_active_count table + 1\<rparr>))"

definition lmb_seg_table_run_begin ::
  "lmb_seg_run \<Rightarrow> bytes option \<Rightarrow> nat \<Rightarrow> u64 \<Rightarrow> seg_table \<Rightarrow> lmb_seg_status \<times> seg_table" where
  "lmb_seg_table_run_begin run payload payload_bytes now_ms table =
     (if payload = None \<and> payload_bytes \<noteq> 0 then (SegBadRequest, table)
      else let data = (case payload of None \<Rightarrow> [] | Some p \<Rightarrow> p) in
        with_slot (slot_run_begin run (take payload_bytes data) now_ms) (run_session_id run) table)"

definition lmb_seg_table_run_commit ::
  "lmb_seg_run \<Rightarrow> u64 \<Rightarrow> seg_table \<Rightarrow> lmb_seg_status \<times> seg_table" where
  "lmb_seg_table_run_commit run now_ms table =
     with_slot (slot_run_commit run now_ms) (run_session_id run) table"

definition lmb_seg_table_run_abort ::
  "lmb_seg_run \<Rightarrow> seg_table \<Rightarrow> lmb_seg_status \<times> seg_table" where
  "lmb_seg_table_run_abort run table =
     with_slot (slot_run_abort run) (run_session_id run) table"

definition lmb_seg_table_snapshot_check ::
  "lmb_seg_transfer \<Rightarrow> u64 \<Rightarrow> seg_table \<Rightarrow> lmb_seg_status \<times> seg_table" where
  "lmb_seg_table_snapshot_check transfer now_ms table =
     (if \<not> seg_transfer_valid transfer then (SegBadRequest, table)
      else with_slot (slot_snapshot_check transfer now_ms) (tr_session_id transfer) table)"

definition lmb_seg_table_restore_commit ::
  "lmb_seg_transfer \<Rightarrow> u64 \<Rightarrow> seg_table \<Rightarrow> lmb_seg_status \<times> seg_table" where
  "lmb_seg_table_restore_commit transfer now_ms table =
     (if \<not> seg_transfer_valid transfer \<or>
         tr_flags transfer \<noteq> LMB_SEG_XFER_BEGIN OR LMB_SEG_XFER_END \<or>
         tr_offset transfer \<noteq> 0 \<or> tr_snapshot_size transfer \<noteq> ucast (tr_chunk_len transfer)
      then (SegBadRequest, table)
      else with_slot (slot_restore_commit transfer now_ms) (tr_session_id transfer) table)"

definition lmb_seg_table_restore_begin ::
  "lmb_seg_transfer \<Rightarrow> u64 \<Rightarrow> seg_table \<Rightarrow> lmb_seg_status \<times> seg_table" where
  "lmb_seg_table_restore_begin transfer now_ms table =
     (if \<not> seg_transfer_valid transfer \<or> tr_flags transfer AND LMB_SEG_XFER_BEGIN = 0
      then (SegBadRequest, table)
      else with_slot (slot_restore_begin transfer now_ms) (tr_session_id transfer) table)"

definition lmb_seg_table_restore_finish ::
  "lmb_seg_transfer \<Rightarrow> bool \<Rightarrow> u64 \<Rightarrow> seg_table \<Rightarrow> lmb_seg_status \<times> seg_table" where
  "lmb_seg_table_restore_finish transfer commit now_ms table =
     (if lmb_seg_id_is_zero (tr_session_id transfer) \<or> lmb_seg_id_is_zero (tr_request_id transfer)
      then (SegBadRequest, table)
      else with_slot (slot_restore_finish transfer commit now_ms) (tr_session_id transfer) table)"

definition lmb_seg_table_fence ::
  "seg_id \<Rightarrow> lmb_seg_owner \<Rightarrow> u64 \<Rightarrow> seg_table \<Rightarrow> lmb_seg_status \<times> seg_table" where
  "lmb_seg_table_fence session_id new_owner now_ms table =
     (if lmb_seg_id_is_zero session_id \<or> \<not> seg_owner_valid new_owner then (SegBadRequest, table)
      else with_slot (slot_fence new_owner now_ms) session_id table)"

text \<open>Release a slot: zero it, leave a tombstone, count one session less.\<close>

definition release_slot :: "nat \<Rightarrow> seg_table \<Rightarrow> seg_table" where
  "release_slot i table =
     table\<lparr>tb_slots := (tb_slots table)[i := slot_tombstone],
           tb_active_count := tb_active_count table - 1\<rparr>"

definition lmb_seg_table_close ::
  "lmb_seg_control \<Rightarrow> seg_table \<Rightarrow> lmb_seg_status \<times> seg_table" where
  "lmb_seg_table_close control table =
     (if \<not> seg_control_valid control then (SegBadRequest, table)
      else case seg_find table (ct_session_id control) of
        None \<Rightarrow> (SegNotFound, table)
      | Some i \<Rightarrow>
          let status = slot_close control (tb_slots table ! i) in
          if status \<noteq> SegOk then (status, table)
          else (SegOk, release_slot i table))"

definition lmb_seg_table_state ::
  "seg_id \<Rightarrow> seg_table \<Rightarrow> lmb_seg_status \<times> (u64 \<times> u64 \<times> bool) option" where
  "lmb_seg_table_state session_id table =
     (if lmb_seg_id_is_zero session_id then (SegBadRequest, None)
      else case seg_find table session_id of
        None \<Rightarrow> (SegNotFound, None)
      | Some i \<Rightarrow>
          let slot = tb_slots table ! i in
          (SegOk, Some (sl_next_sequence slot, sl_next_position slot, sl_needs_restore slot)))"

text \<open>The id of the reaped session, \<open>None\<close> when the call returns 0.\<close>

definition seg_reapable :: "u64 \<Rightarrow> seg_slot \<Rightarrow> bool" where
  "seg_reapable now_ms slot \<longleftrightarrow>
     sl_state slot = SlotActive \<and> \<not> sl_busy slot \<and> seg_expired slot now_ms"

definition lmb_seg_table_reap_expired :: "u64 \<Rightarrow> seg_table \<Rightarrow> seg_id option \<times> seg_table" where
  "lmb_seg_table_reap_expired now_ms table =
     (case List.find (\<lambda>i. seg_reapable now_ms (tb_slots table ! i)) [0..<tb_bucket_count table] of
        None \<Rightarrow> (None, table)
      | Some i \<Rightarrow> (Some (op_session_id (sl_open (tb_slots table ! i))), release_slot i table))"

section \<open>The hash table as a map\<close>

abbreviation slot_active :: "seg_slot \<Rightarrow> bool" where
  "slot_active s \<equiv> sl_state s = SlotActive"

abbreviation slot_id :: "seg_slot \<Rightarrow> seg_id" where
  "slot_id s \<equiv> op_session_id (sl_open s)"

text \<open>\<open>i\<close> lies on the probe path before any empty slot and before any slot of session \<open>k\<close>.\<close>

definition probe_passes :: "seg_slot \<Rightarrow> seg_id \<Rightarrow> bool" where
  "probe_passes s k \<longleftrightarrow> sl_state s \<noteq> SlotEmpty \<and> \<not> (slot_active s \<and> slot_id s = k)"

fun probe_hit :: "seg_slot list \<Rightarrow> nat list \<Rightarrow> seg_id \<Rightarrow> nat \<Rightarrow> bool" where
  "probe_hit slots [] k i = False"
| "probe_hit slots (j # path) k i = (i = j \<or> probe_passes (slots ! j) k \<and> probe_hit slots path k i)"

definition table_wf :: "seg_table \<Rightarrow> bool" where
  "table_wf t \<longleftrightarrow>
     length (tb_slots t) = tb_bucket_count t \<and> tb_bucket_count t = 2 * tb_max_sessions t + 1 \<and>
     tb_active_count t = length (filter slot_active (tb_slots t)) \<and>
     tb_active_count t \<le> tb_max_sessions t \<and>
     (\<forall>i < tb_bucket_count t. slot_active (tb_slots t ! i) \<longrightarrow>
        probe_hit (tb_slots t) (seg_probes t (slot_id (tb_slots t ! i))) (slot_id (tb_slots t ! i)) i)"

subsection \<open>The lookup loop\<close>

lemma probe_hit_mem: "probe_hit slots path k i \<Longrightarrow> i \<in> set path"
  by (induction path) auto

lemma probe_hit_mono:
  "probe_hit slots path k i \<Longrightarrow>
   (\<And>j. j \<in> set path \<Longrightarrow> j \<noteq> i \<Longrightarrow> probe_passes (slots ! j) k \<Longrightarrow> probe_passes (slots' ! j) k) \<Longrightarrow>
   probe_hit slots' path k i"
  by (induction path) auto

lemma lookup_loop_tombstone:
  "seg_lookup_loop slots k False path a = seg_lookup_loop slots k False path None"
proof (induction path arbitrary: a)
  case Nil
  then show ?case by simp
next
  case (Cons j path)
  show ?case
    using Cons.IH [of a] Cons.IH [of "Some j"] by (simp split: seg_slot_state.split)
qed

lemma lookup_loop_find:
  "seg_lookup_loop slots k False path a = Some i \<longleftrightarrow>
     probe_hit slots path k i \<and> slot_active (slots ! i) \<and> slot_id (slots ! i) = k"
proof (induction path arbitrary: a)
  case Nil
  then show ?case by simp
next
  case (Cons j path)
  show ?case
    by (cases "sl_state (slots ! j)") (auto simp: Cons.IH probe_passes_def lmb_seg_id_equal_def)
qed

lemma lookup_loop_insert_tombstone:
  "seg_lookup_loop slots k False path None = None \<Longrightarrow>
   seg_lookup_loop slots k True path (Some t) = Some t"
  by (induction path) (auto simp: lookup_loop_tombstone [where a = "Some _"]
      split: seg_slot_state.splits if_splits)

lemma lookup_loop_insert:
  "seg_lookup_loop slots k False path None = None \<Longrightarrow>
   seg_lookup_loop slots k True path None = Some i \<Longrightarrow>
   probe_hit slots path k i \<and> \<not> slot_active (slots ! i)"
proof (induction path)
  case Nil
  then show ?case by simp
next
  case (Cons j path)
  show ?case
  proof (cases "sl_state (slots ! j)")
    case SlotActive
    with Cons show ?thesis by (auto simp: probe_passes_def lmb_seg_id_equal_def split: if_splits)
  next
    case SlotEmpty
    with Cons.prems show ?thesis by simp
  next
    case SlotTombstone
    with Cons.prems have "seg_lookup_loop slots k False path None = None"
      by (simp add: lookup_loop_tombstone [where a = "Some _"])
    with SlotTombstone Cons.prems show ?thesis by (simp add: lookup_loop_insert_tombstone)
  qed
qed

lemma lookup_loop_insert_total:
  "seg_lookup_loop slots k False path None = None \<Longrightarrow> \<exists>j \<in> set path. \<not> slot_active (slots ! j) \<Longrightarrow>
   seg_lookup_loop slots k True path None \<noteq> None"
proof (induction path)
  case Nil
  then show ?case by simp
next
  case (Cons j path)
  show ?case
  proof (cases "sl_state (slots ! j)")
    case SlotTombstone
    with Cons.prems show ?thesis
      by (simp add: lookup_loop_tombstone [where a = "Some _"] lookup_loop_insert_tombstone)
  next
    case SlotActive
    with Cons show ?thesis by (auto simp: lmb_seg_id_equal_def split: if_splits)
  qed simp
qed

lemma set_seg_probes: "0 < tb_bucket_count t \<Longrightarrow> set (seg_probes t k) = {..<tb_bucket_count t}"
proof (rule set_eqI)
  fix i
  let ?n = "tb_bucket_count t"
  let ?s = "seg_hash_id k mod ?n"
  assume n: "0 < ?n"
  then have s: "?s < ?n" by simp
  show "i \<in> set (seg_probes t k) \<longleftrightarrow> i \<in> {..<?n}"
  proof
    assume "i \<in> set (seg_probes t k)"
    with n show "i \<in> {..<?n}" by (auto simp: seg_probes_def Let_def)
  next
    assume "i \<in> {..<?n}"
    then have i: "i < ?n" by simp
    define d where "d = (if ?s \<le> i then i - ?s else i + ?n - ?s)"
    from i s have "d < ?n" by (auto simp: d_def)
    moreover have "?s + d = i \<or> ?s + d = i + ?n" using i s by (cases "?s \<le> i") (simp_all add: d_def)
    with i have "(?s + d) mod ?n = i" by auto
    ultimately show "i \<in> set (seg_probes t k)"
      unfolding seg_probes_def Let_def set_map by (intro image_eqI [of _ _ d]) simp_all
  qed
qed

subsection \<open>Finding a session\<close>

lemma seg_find_SomeD:
  assumes "table_wf t" "seg_find t k = Some i"
  shows "i < tb_bucket_count t" "i < length (tb_slots t)" "slot_active (tb_slots t ! i)"
    "slot_id (tb_slots t ! i) = k"
proof -
  from assms(2) have h: "probe_hit (tb_slots t) (seg_probes t k) k i"
    "slot_active (tb_slots t ! i)" "slot_id (tb_slots t ! i) = k"
    by (auto simp: seg_find_def seg_lookup_def lookup_loop_find split: option.splits if_splits)
  moreover from h(1) have "i \<in> set (seg_probes t k)" by (rule probe_hit_mem)
  ultimately show "i < tb_bucket_count t" "i < length (tb_slots t)" "slot_active (tb_slots t ! i)"
    "slot_id (tb_slots t ! i) = k"
    using assms(1) set_seg_probes [of t k] by (auto simp: table_wf_def)
qed

lemma seg_find_iff:
  assumes "table_wf t"
  shows "seg_find t k = Some i \<longleftrightarrow>
    i < length (tb_slots t) \<and> slot_active (tb_slots t ! i) \<and> slot_id (tb_slots t ! i) = k"
proof
  assume "seg_find t k = Some i"
  with assms show "i < length (tb_slots t) \<and> slot_active (tb_slots t ! i) \<and> slot_id (tb_slots t ! i) = k"
    by (auto dest: seg_find_SomeD)
next
  assume i: "i < length (tb_slots t) \<and> slot_active (tb_slots t ! i) \<and> slot_id (tb_slots t ! i) = k"
  with assms have "probe_hit (tb_slots t) (seg_probes t k) k i" by (auto simp: table_wf_def)
  with i have "seg_lookup t k False = Some i" by (simp add: seg_lookup_def lookup_loop_find)
  with i show "seg_find t k = Some i" by (simp add: seg_find_def)
qed

lemma seg_find_None:
  "table_wf t \<Longrightarrow> seg_find t k = None \<longleftrightarrow>
    (\<forall>i < length (tb_slots t). slot_active (tb_slots t ! i) \<longrightarrow> slot_id (tb_slots t ! i) \<noteq> k)"
  using seg_find_iff [of t k] by (metis not_None_eq)

lemma slot_id_inject:
  assumes "table_wf t" "i < length (tb_slots t)" "j < length (tb_slots t)"
    "slot_active (tb_slots t ! i)" "slot_active (tb_slots t ! j)"
    "slot_id (tb_slots t ! i) = slot_id (tb_slots t ! j)"
  shows "i = j"
  using assms seg_find_iff [OF assms(1), of "slot_id (tb_slots t ! i)"] by (metis option.inject)


subsection \<open>Updates\<close>

lemma seg_probes_slots [simp]:
  "seg_probes (t\<lparr>tb_slots := xs\<rparr>) = seg_probes t"
  "seg_probes (t\<lparr>tb_active_count := n\<rparr>) = seg_probes t"
  by (simp_all add: seg_probes_def fun_eq_iff)

text \<open>Writing a slot keeps the other sessions reachable if no probe path is cut.\<close>

lemma probe_hit_update:
  assumes "probe_hit slots path k j" "i \<noteq> j \<Longrightarrow> probe_passes (slots ! i) k \<Longrightarrow> probe_passes s k"
  shows "probe_hit (slots[i := s]) path k j"
  using assms(1)
proof (rule probe_hit_mono)
  fix l
  assume "l \<noteq> j" "probe_passes (slots ! l) k"
  with assms(2) show "probe_passes (slots[i := s] ! l) k"
    by (cases "l = i"; cases "i < length slots") (auto simp: list_update_beyond)
qed

lemma table_wf_modify:
  assumes wf: "table_wf t" and i: "i < length (tb_slots t)"
    and a: "slot_active (tb_slots t ! i)" "slot_active s" "slot_id s = slot_id (tb_slots t ! i)"
  shows "table_wf (t\<lparr>tb_slots := (tb_slots t)[i := s]\<rparr>)"
proof -
  have "length (filter slot_active ((tb_slots t)[i := s])) = length (filter slot_active (tb_slots t))"
    using length_filter_update [OF i, of slot_active s] a by simp
  moreover have "probe_passes (tb_slots t ! i) k = probe_passes s k" for k
    using a by (simp add: probe_passes_def)
  ultimately show ?thesis
    using wf i a by (auto simp: table_wf_def nth_list_update intro!: probe_hit_update)
qed

lemma table_wf_release:
  assumes wf: "table_wf t" and i: "i < length (tb_slots t)" and a: "slot_active (tb_slots t ! i)"
  shows "table_wf (release_slot i t)"
proof -
  have s: "\<not> slot_active slot_tombstone" "probe_passes slot_tombstone k" for k
    by (simp_all add: slot_tombstone_def seg_slot_zero_def probe_passes_def)
  have "length (filter slot_active ((tb_slots t)[i := slot_tombstone])) =
        length (filter slot_active (tb_slots t)) - 1"
    using length_filter_update [OF i, of slot_active slot_tombstone] a s by simp
  then show ?thesis
    using wf i a s
    by (auto simp: table_wf_def release_slot_def nth_list_update intro!: probe_hit_update split: if_splits)
qed

lemma table_wf_insert:
  assumes wf: "table_wf t" and n: "seg_find t k = None" and l: "seg_lookup t k True = Some i"
    and q: "tb_active_count t < tb_max_sessions t" and s: "slot_active s" "slot_id s = k"
  shows "table_wf (t\<lparr>tb_slots := (tb_slots t)[i := s], tb_active_count := tb_active_count t + 1\<rparr>)"
    "i < length (tb_slots t)" "\<not> slot_active (tb_slots t ! i)"
proof -
  have "seg_lookup t k False = None"
    using n by (auto simp: seg_find_def seg_lookup_def lookup_loop_find split: option.splits if_splits)
  with l have h: "probe_hit (tb_slots t) (seg_probes t k) k i" and a: "\<not> slot_active (tb_slots t ! i)"
    by (auto simp: seg_lookup_def dest: lookup_loop_insert)
  show "\<not> slot_active (tb_slots t ! i)" by (rule a)
  from probe_hit_mem [OF h] wf show i: "i < length (tb_slots t)"
    using set_seg_probes [of t k] by (auto simp: table_wf_def)
  have c: "length (filter slot_active ((tb_slots t)[i := s])) = Suc (length (filter slot_active (tb_slots t)))"
    using length_filter_update [OF i, of slot_active s] a s by simp
  have p: "probe_passes s k'" if "k' \<noteq> k" for k'
    using s that by (simp add: probe_passes_def)
  have k': "slot_id (tb_slots t ! j) \<noteq> k" if "j < length (tb_slots t)" "slot_active (tb_slots t ! j)" for j
    using n wf that by (simp add: seg_find_None)
  show "table_wf (t\<lparr>tb_slots := (tb_slots t)[i := s], tb_active_count := tb_active_count t + 1\<rparr>)"
    using wf i q s c k' h
    by (auto simp: table_wf_def nth_list_update intro!: probe_hit_update p)
qed

text \<open>An insertion never fails below the quota: more than half of the slots are free.\<close>

lemma seg_lookup_insert_total:
  assumes wf: "table_wf t" and n: "seg_find t k = None"
  shows "seg_lookup t k True \<noteq> None"
proof -
  from wf have "length (filter slot_active (tb_slots t)) < length (tb_slots t)"
    by (auto simp: table_wf_def)
  then obtain j where "j < length (tb_slots t)" "\<not> slot_active (tb_slots t ! j)"
    using length_filter_less_ex by blast
  moreover have "set (seg_probes t k) = {..<length (tb_slots t)}"
    using wf by (simp add: table_wf_def set_seg_probes)
  moreover have "seg_lookup t k False = None"
    using n by (auto simp: seg_find_def seg_lookup_def lookup_loop_find split: option.splits if_splits)
  ultimately show ?thesis
    unfolding seg_lookup_def by (intro lookup_loop_insert_total) auto
qed

end
