(* ===== verification/Segment_Sessions.thy ===== *)
theory Segment_Sessions
  imports Segment_Table Segment_Lifecycle
begin

text \<open>
  The session table as a map from session ids to sessions. The locale \<open>session_store\<close> is what
  the operations need of a table: running an operation on a session, inserting one below the
  quota, removing one. The interpretation \<open>seg_store\<close> discharges it for the hash table, and the
  table operations refine the abstract sessions of \<open>Segment_Lifecycle\<close>.
\<close>

section \<open>The contract of a session table\<close>

locale session_store =
  fixes wf :: "'t \<Rightarrow> bool"
    and sessions :: "'t \<Rightarrow> 'k \<Rightarrow> 'v option"
    and size_of quota :: "'t \<Rightarrow> nat"
    and fits :: "'k \<Rightarrow> 'v \<Rightarrow> bool"
    and not_found :: 's
    and modify :: "('v \<Rightarrow> 's \<times> 'v) \<Rightarrow> 'k \<Rightarrow> 't \<Rightarrow> 's \<times> 't"
    and insert :: "'k \<Rightarrow> 'v \<Rightarrow> 't \<Rightarrow> 't option"
    and remove :: "'k \<Rightarrow> 't \<Rightarrow> 't"
  assumes modify_None: "sessions t k = None \<Longrightarrow> modify f k t = (not_found, t)"
    and modify_status: "wf t \<Longrightarrow> sessions t k = Some v \<Longrightarrow> fst (modify f k t) = fst (f v)"
    and modify_wf: "wf t \<Longrightarrow> sessions t k = Some v \<Longrightarrow> fits k (snd (f v)) \<Longrightarrow> wf (snd (modify f k t))"
    and modify_sessions: "wf t \<Longrightarrow> sessions t k = Some v \<Longrightarrow> fits k (snd (f v)) \<Longrightarrow>
      sessions (snd (modify f k t)) = (sessions t)(k \<mapsto> snd (f v))"
    and insert_ok: "wf t \<Longrightarrow> sessions t k = None \<Longrightarrow> fits k v \<Longrightarrow> size_of t < quota t \<Longrightarrow>
      \<exists>t'. insert k v t = Some t' \<and> wf t' \<and> sessions t' = (sessions t)(k \<mapsto> v)"
    and remove_wf: "wf t \<Longrightarrow> sessions t k = Some v \<Longrightarrow> wf (remove k t)"
    and remove_sessions: "wf t \<Longrightarrow> sessions t k = Some v \<Longrightarrow> sessions (remove k t) = (sessions t)(k := None)"
    and size_card: "wf t \<Longrightarrow> finite (dom (sessions t)) \<and> card (dom (sessions t)) = size_of t"
    and size_quota: "wf t \<Longrightarrow> size_of t \<le> quota t"
begin

definition all_sessions :: "('k \<Rightarrow> 'v \<Rightarrow> bool) \<Rightarrow> 't \<Rightarrow> bool" where
  "all_sessions P t \<longleftrightarrow> wf t \<and> (\<forall>k v. sessions t k = Some v \<longrightarrow> P k v)"

lemma modify_other:
  assumes "wf t" "\<And>v. sessions t k = Some v \<Longrightarrow> fits k (snd (f v))" "k' \<noteq> k"
  shows "sessions (snd (modify f k t)) k' = sessions t k'"
  using assms modify_None [of t k f] modify_sessions [of t k _ f] by (cases "sessions t k") auto

lemma modify_at:
  assumes "wf t" "\<And>v. sessions t k = Some v \<Longrightarrow> fits k (snd (f v))"
  shows "sessions (snd (modify f k t)) k = map_option (snd \<circ> f) (sessions t k)"
  using assms modify_None [of t k f] modify_sessions [of t k _ f] by (cases "sessions t k") auto

lemma modify_all:
  assumes a: "all_sessions P t" and p: "\<And>v. sessions t k = Some v \<Longrightarrow> P k v \<Longrightarrow> P k (snd (f v))"
    and f: "\<And>v. P k v \<Longrightarrow> fits k v"
  shows "all_sessions P (snd (modify f k t))"
proof (cases "sessions t k")
  case None
  with a show ?thesis by (simp add: modify_None)
next
  case (Some v)
  with a have "wf t" "P k v" by (auto simp: all_sessions_def)
  with Some p f have "P k (snd (f v))" "fits k (snd (f v))" by auto
  with \<open>wf t\<close> Some a modify_wf modify_sessions show ?thesis by (auto simp: all_sessions_def)
qed

lemma remove_all: "all_sessions P t \<Longrightarrow> sessions t k = Some v \<Longrightarrow> all_sessions P (remove k t)"
  using remove_wf remove_sessions by (auto simp: all_sessions_def split: if_splits)

lemma insert_all:
  assumes "all_sessions P t" "sessions t k = None" "P k v" "fits k v" "size_of t < quota t"
  obtains t' where "insert k v t = Some t'" "all_sessions P t'" "sessions t' = (sessions t)(k \<mapsto> v)"
  using assms insert_ok [of t k v] by (auto simp: all_sessions_def split: if_splits)

lemma insert_size:
  assumes "wf t" "sessions t k = None" "fits k v" "size_of t < quota t" "insert k v t = Some t'"
  shows "size_of t' = Suc (size_of t)"
proof -
  from insert_ok [OF assms(1-4)] assms(5) have t': "wf t'" "sessions t' = (sessions t)(k \<mapsto> v)" by auto
  have "card (dom (sessions t')) = Suc (card (dom (sessions t)))"
    using size_card [OF assms(1)] assms(2) by (simp add: t'(2) domIff)
  with size_card [OF assms(1)] size_card [OF t'(1)] show ?thesis by simp
qed

lemma remove_size:
  assumes "wf t" "sessions t k = Some v"
  shows "Suc (size_of (remove k t)) = size_of t"
proof -
  have "dom (sessions (remove k t)) = dom (sessions t) - {k}"
    using remove_sessions [OF assms] by simp
  moreover have "k \<in> dom (sessions t)" using assms(2) by blast
  ultimately show ?thesis
    using size_card [OF assms(1)] size_card [OF remove_wf [OF assms]]
    by (metis card_Suc_Diff1)
qed

end

section \<open>The hash table is a session table\<close>

definition seg_sessions :: "seg_table \<Rightarrow> seg_id \<Rightarrow> seg_slot option" where
  "seg_sessions t k = map_option (\<lambda>i. tb_slots t ! i) (seg_find t k)"

definition seg_insert :: "seg_id \<Rightarrow> seg_slot \<Rightarrow> seg_table \<Rightarrow> seg_table option" where
  "seg_insert k s t =
     map_option (\<lambda>i. t\<lparr>tb_slots := (tb_slots t)[i := s], tb_active_count := tb_active_count t + 1\<rparr>)
       (seg_lookup t k True)"

definition seg_remove :: "seg_id \<Rightarrow> seg_table \<Rightarrow> seg_table" where
  "seg_remove k t = (case seg_find t k of None \<Rightarrow> t | Some i \<Rightarrow> release_slot i t)"

definition slot_fits :: "seg_id \<Rightarrow> seg_slot \<Rightarrow> bool" where
  "slot_fits k s \<longleftrightarrow> slot_active s \<and> slot_id s = k"

lemma seg_sessions_iff:
  assumes "table_wf t"
  shows "seg_sessions t k = Some s \<longleftrightarrow>
    (\<exists>i < length (tb_slots t). tb_slots t ! i = s \<and> slot_active s \<and> slot_id s = k)"
  using seg_find_iff [OF assms, of k] by (auto simp: seg_sessions_def)

lemma seg_sessions_None: "seg_sessions t k = None \<longleftrightarrow> seg_find t k = None"
  by (simp add: seg_sessions_def)

lemma map_eqI:
  assumes "\<And>k v. m k = Some v \<longleftrightarrow> m' k = Some v"
  shows "m = m'"
  using assms by (intro ext) (metis not_None_eq)

lemma sessions_update:
  assumes wf: "table_wf t" "table_wf t'" and i: "i < length (tb_slots t)"
    and t': "tb_slots t' = (tb_slots t)[i := s]" and s: "slot_active s" "slot_id s = k"
    and old: "slot_active (tb_slots t ! i) \<Longrightarrow> slot_id (tb_slots t ! i) = k"
  shows "seg_sessions t' = (seg_sessions t)(k \<mapsto> s)"
proof (rule map_eqI)
  fix k' v
  show "seg_sessions t' k' = Some v \<longleftrightarrow> ((seg_sessions t)(k \<mapsto> s)) k' = Some v"
  proof (cases "k' = k")
    case True
    have "seg_sessions t' k = Some s"
      using i s t' by (auto simp: seg_sessions_iff [OF wf(2)] intro!: exI [of _ i])
    with True show ?thesis by auto
  next
    case False
    have "(j < length (tb_slots t') \<and> tb_slots t' ! j = v \<and> slot_active v \<and> slot_id v = k') \<longleftrightarrow>
          (j < length (tb_slots t) \<and> tb_slots t ! j = v \<and> slot_active v \<and> slot_id v = k')" for j
    proof (cases "j = i")
      case True
      with s old \<open>k' \<noteq> k\<close> i t' show ?thesis by (metis nth_list_update_eq)
    next
      case False
      then show ?thesis by (simp add: t')
    qed
    with False show ?thesis
      by (simp add: seg_sessions_iff [OF wf(1)] seg_sessions_iff [OF wf(2)])
  qed
qed

lemma sessions_release:
  assumes wf: "table_wf t" and i: "i < length (tb_slots t)" "slot_active (tb_slots t ! i)"
    and k: "slot_id (tb_slots t ! i) = k"
  shows "seg_sessions (release_slot i t) = (seg_sessions t)(k := None)"
proof (rule map_eqI)
  fix k' v
  have a: "\<not> slot_active slot_tombstone" by (simp add: slot_tombstone_def)
  have u: "j = i" if "j < length (tb_slots t)" "slot_active (tb_slots t ! j)" "slot_id (tb_slots t ! j) = k" for j
    using slot_id_inject [OF wf that(1) i(1) that(2) i(2)] that(3) k by simp
  have l: "tb_slots (release_slot i t) = (tb_slots t)[i := slot_tombstone]" by (simp add: release_slot_def)
  let ?P = "\<lambda>xs j. j < length xs \<and> xs ! j = v \<and> slot_active v \<and> slot_id v = k'"
  have "?P ((tb_slots t)[i := slot_tombstone]) j \<longleftrightarrow> k' \<noteq> k \<and> ?P (tb_slots t) j" for j
  proof (cases "j = i")
    case True
    with a k i show ?thesis by (metis nth_list_update_eq)
  next
    case False
    with u [of j] show ?thesis by (cases "k' = k") auto
  qed
  then show "seg_sessions (release_slot i t) k' = Some v \<longleftrightarrow> ((seg_sessions t)(k := None)) k' = Some v"
    unfolding seg_sessions_iff [OF table_wf_release [OF wf i]] l by (simp add: seg_sessions_iff [OF wf])
qed

lemma card_sessions:
  assumes wf: "table_wf t"
  shows "finite (dom (seg_sessions t)) \<and> card (dom (seg_sessions t)) = tb_active_count t"
proof -
  let ?I = "{i. i < length (tb_slots t) \<and> slot_active (tb_slots t ! i)}"
  have d: "dom (seg_sessions t) = (\<lambda>i. slot_id (tb_slots t ! i)) ` ?I"
    by (auto simp: dom_def seg_sessions_iff [OF wf])
  have "inj_on (\<lambda>i. slot_id (tb_slots t ! i)) ?I"
    using slot_id_inject [OF wf] by (auto intro!: inj_onI)
  then have "card (dom (seg_sessions t)) = card ?I" by (simp add: d card_image)
  also have "\<dots> = tb_active_count t"
    using wf by (simp add: table_wf_def length_filter_conv_card)
  finally show ?thesis by (simp add: d)
qed

interpretation seg_store: session_store table_wf seg_sessions tb_active_count tb_max_sessions
  slot_fits SegNotFound with_slot seg_insert seg_remove
proof (unfold_locales, goal_cases)
  case (1 t k f)
  then show ?case by (simp add: with_slot_def seg_sessions_None)
next
  case (2 t k v f)
  then show ?case by (auto simp: with_slot_def seg_sessions_def split: prod.split)
next
  case (3 t k v f)
  then obtain i where i: "seg_find t k = Some i" "v = tb_slots t ! i" by (auto simp: seg_sessions_def)
  with 3 seg_find_SomeD [OF 3(1) i(1)] show ?case
    by (auto simp: with_slot_def slot_fits_def split: prod.splits intro!: table_wf_modify)
next
  case (4 t k v f)
  then obtain i where i: "seg_find t k = Some i" "v = tb_slots t ! i" by (auto simp: seg_sessions_def)
  note D = seg_find_SomeD [OF 4(1) i(1)]
  have t': "snd (with_slot f k t) = t\<lparr>tb_slots := (tb_slots t)[i := snd (f v)]\<rparr>"
    by (simp add: with_slot_def i split: prod.split)
  show ?case
    unfolding t'
  proof (rule sessions_update [OF 4(1) _ D(2)])
    show "table_wf (t\<lparr>tb_slots := (tb_slots t)[i := snd (f v)]\<rparr>)"
      using 4(1,3) D i by (intro table_wf_modify) (simp_all add: slot_fits_def)
  qed (use 4(3) D in \<open>simp_all add: slot_fits_def\<close>)
next
  case (5 t k v)
  then have n: "seg_find t k = None" by (simp add: seg_sessions_None)
  then obtain i where l: "seg_lookup t k True = Some i"
    using seg_lookup_insert_total [OF 5(1)] by blast
  have v: "slot_active v" "slot_id v = k" using 5(3) by (simp_all add: slot_fits_def)
  let ?t = "t\<lparr>tb_slots := (tb_slots t)[i := v], tb_active_count := tb_active_count t + 1\<rparr>"
  note I = table_wf_insert [OF 5(1) n l 5(4) v]
  have "seg_sessions ?t = (seg_sessions t)(k \<mapsto> v)"
    using I v by (intro sessions_update [OF 5(1) I(1,2)]) simp_all
  with I(1) show ?case by (simp add: seg_insert_def l)
next
  case (6 t k v)
  then obtain i where i: "seg_find t k = Some i" by (auto simp: seg_sessions_def)
  with seg_find_SomeD [OF 6(1) i] 6(1) show ?case by (simp add: seg_remove_def table_wf_release)
next
  case (7 t k v)
  then obtain i where i: "seg_find t k = Some i" by (auto simp: seg_sessions_def)
  with seg_find_SomeD [OF 7(1) i] 7(1) show ?case by (simp add: seg_remove_def sessions_release)
next
  case (8 t)
  then show ?case by (rule card_sessions)
next
  case (9 t)
  then show ?case by (simp add: table_wf_def)
qed

end
