(* ===== verification/Segment_Service.thy ===== *)
theory Segment_Service
  imports Segment_Sessions
begin

text \<open>
  Sequences of calls on the session table. Each \<open>lmb_seg_table_*\<close> call holds the table lock from
  start to end, so any concurrent use is some sequence of calls: \<open>seg_apply\<close> is the table after
  one call, \<open>seg_reachable\<close> the tables that some sequence produces. The theorems are the
  guarantees \<^verbatim>\<open>lumabri_segment.h\<close> states for the table: one session does not disturb another,
  ownership only moves forward, runs are applied in order and once, a session inside a run or a
  restore is left alone.
\<close>

section \<open>Calls\<close>

datatype seg_call =
    CallOpen lmb_seg_open u64
  | CallRunBegin lmb_seg_run "bytes option" nat u64
  | CallRunCommit lmb_seg_run u64
  | CallRunAbort lmb_seg_run
  | CallSnapshotCheck lmb_seg_transfer u64
  | CallRestoreCommit lmb_seg_transfer u64
  | CallRestoreBegin lmb_seg_transfer u64
  | CallRestoreFinish lmb_seg_transfer bool u64
  | CallFence seg_id lmb_seg_owner u64
  | CallClose lmb_seg_control
  | CallReap u64

fun seg_apply :: "seg_call \<Rightarrow> seg_table \<Rightarrow> seg_table" where
  "seg_apply (CallOpen op now) t = snd (lmb_seg_table_open op now t)"
| "seg_apply (CallRunBegin run p n now) t = snd (lmb_seg_table_run_begin run p n now t)"
| "seg_apply (CallRunCommit run now) t = snd (lmb_seg_table_run_commit run now t)"
| "seg_apply (CallRunAbort run) t = snd (lmb_seg_table_run_abort run t)"
| "seg_apply (CallSnapshotCheck tr now) t = snd (lmb_seg_table_snapshot_check tr now t)"
| "seg_apply (CallRestoreCommit tr now) t = snd (lmb_seg_table_restore_commit tr now t)"
| "seg_apply (CallRestoreBegin tr now) t = snd (lmb_seg_table_restore_begin tr now t)"
| "seg_apply (CallRestoreFinish tr c now) t = snd (lmb_seg_table_restore_finish tr c now t)"
| "seg_apply (CallFence k w now) t = snd (lmb_seg_table_fence k w now t)"
| "seg_apply (CallClose ct) t = snd (lmb_seg_table_close ct t)"
| "seg_apply (CallReap now) t = snd (lmb_seg_table_reap_expired now t)"

text \<open>The session a call names; a reap names none.\<close>

fun call_session :: "seg_call \<Rightarrow> seg_id option" where
  "call_session (CallOpen op now) = Some (op_session_id op)"
| "call_session (CallRunBegin run p n now) = Some (run_session_id run)"
| "call_session (CallRunCommit run now) = Some (run_session_id run)"
| "call_session (CallRunAbort run) = Some (run_session_id run)"
| "call_session (CallSnapshotCheck tr now) = Some (tr_session_id tr)"
| "call_session (CallRestoreCommit tr now) = Some (tr_session_id tr)"
| "call_session (CallRestoreBegin tr now) = Some (tr_session_id tr)"
| "call_session (CallRestoreFinish tr c now) = Some (tr_session_id tr)"
| "call_session (CallFence k w now) = Some k"
| "call_session (CallClose ct) = Some (ct_session_id ct)"
| "call_session (CallReap now) = None"

text \<open>The owner a call is made under, and the status the call returns.\<close>

fun call_under :: "seg_call \<Rightarrow> lmb_seg_owner option" where
  "call_under (CallOpen op now) = Some (op_owner op)"
| "call_under (CallRunBegin run p n now) = Some (run_owner run)"
| "call_under (CallRunCommit run now) = Some (run_owner run)"
| "call_under (CallRunAbort run) = Some (run_owner run)"
| "call_under (CallSnapshotCheck tr now) = Some (tr_owner tr)"
| "call_under (CallRestoreCommit tr now) = Some (tr_owner tr)"
| "call_under (CallRestoreBegin tr now) = Some (tr_owner tr)"
| "call_under (CallRestoreFinish tr c now) = Some (tr_owner tr)"
| "call_under (CallFence k w now) = Some w"
| "call_under (CallClose ct) = Some (ct_owner ct)"
| "call_under (CallReap now) = None"

fun call_status :: "seg_call \<Rightarrow> seg_table \<Rightarrow> lmb_seg_status" where
  "call_status (CallOpen op now) t = fst (lmb_seg_table_open op now t)"
| "call_status (CallRunBegin run p n now) t = fst (lmb_seg_table_run_begin run p n now t)"
| "call_status (CallRunCommit run now) t = fst (lmb_seg_table_run_commit run now t)"
| "call_status (CallRunAbort run) t = fst (lmb_seg_table_run_abort run t)"
| "call_status (CallSnapshotCheck tr now) t = fst (lmb_seg_table_snapshot_check tr now t)"
| "call_status (CallRestoreCommit tr now) t = fst (lmb_seg_table_restore_commit tr now t)"
| "call_status (CallRestoreBegin tr now) t = fst (lmb_seg_table_restore_begin tr now t)"
| "call_status (CallRestoreFinish tr c now) t = fst (lmb_seg_table_restore_finish tr c now t)"
| "call_status (CallFence k w now) t = fst (lmb_seg_table_fence k w now t)"
| "call_status (CallClose ct) t = fst (lmb_seg_table_close ct t)"
| "call_status (CallReap now) t = SegOk"

inductive seg_reachable :: "seg_table \<Rightarrow> bool" where
  reach_create: "lmb_seg_table_create mem slot_size table_size lock_ok capacity = Some t \<Longrightarrow> seg_reachable t"
| reach_call: "seg_reachable t \<Longrightarrow> seg_reachable (seg_apply c t)"

section \<open>The invariant\<close>

abbreviation table_inv :: "seg_table \<Rightarrow> bool" where
  "table_inv \<equiv> seg_store.all_sessions slot_inv"

lemma table_inv_def: "table_inv t \<longleftrightarrow> table_wf t \<and> (\<forall>k s. seg_sessions t k = Some s \<longrightarrow> slot_inv k s)"
  by (rule seg_store.all_sessions_def)

lemma table_inv_wf: "table_inv t \<Longrightarrow> table_wf t"
  by (simp add: table_inv_def)

lemma table_inv_slot: "table_inv t \<Longrightarrow> seg_sessions t k = Some s \<Longrightarrow> slot_inv k s"
  by (simp add: table_inv_def)

lemma slot_inv_fits: "slot_inv k s \<Longrightarrow> slot_fits k s"
  by (simp add: slot_inv_def slot_fits_def)

text \<open>\<open>open\<close> and \<open>close\<close> in terms of the session table contract.\<close>

lemma table_open_eq:
  "lmb_seg_table_open op now t =
     (if \<not> lmb_seg_open_valid op then (SegBadRequest, t)
      else case seg_sessions t (op_session_id op) of
        Some _ \<Rightarrow> with_slot (slot_reopen op now) (op_session_id op) t
      | None \<Rightarrow>
          if tb_active_count t \<ge> tb_max_sessions t then (SegQuota, t)
          else case seg_insert (op_session_id op) (slot_open op now) t of
            None \<Rightarrow> (SegQuota, t)
          | Some t' \<Rightarrow> (SegOk, t'))"
  by (auto simp: lmb_seg_table_open_def seg_sessions_def seg_insert_def split: option.split)

lemma table_close_eq:
  "lmb_seg_table_close ct t =
     (if \<not> seg_control_valid ct then (SegBadRequest, t)
      else case seg_sessions t (ct_session_id ct) of
        None \<Rightarrow> (SegNotFound, t)
      | Some s \<Rightarrow>
          if slot_close ct s \<noteq> SegOk then (slot_close ct s, t)
          else (SegOk, seg_remove (ct_session_id ct) t))"
  by (auto simp: lmb_seg_table_close_def seg_sessions_def seg_remove_def Let_def split: option.split)

lemma table_reap_None:
  assumes wf: "table_wf t" and r: "lmb_seg_table_reap_expired now t = (None, t')"
  shows "t' = t" "\<And>k s. seg_sessions t k = Some s \<Longrightarrow> \<not> seg_reapable now s"
proof -
  have len: "length (tb_slots t) = tb_bucket_count t" using wf by (simp add: table_wf_def)
  from r have n: "\<forall>i < tb_bucket_count t. \<not> seg_reapable now (tb_slots t ! i)" and "t' = t"
    by (auto simp: lmb_seg_table_reap_expired_def find_None_iff split: option.splits)
  then show "t' = t" by simp
  show "\<not> seg_reapable now s" if "seg_sessions t k = Some s" for k s
    using that n len by (auto simp: seg_sessions_iff [OF wf])
qed

lemma table_reap_Some:
  assumes "table_wf t" "lmb_seg_table_reap_expired now t = (Some k, t')"
  obtains s where "seg_sessions t k = Some s" "seg_reapable now s" "t' = seg_remove k t"
proof -
  from assms obtain i where i: "i < tb_bucket_count t" "seg_reapable now (tb_slots t ! i)"
    and k: "k = slot_id (tb_slots t ! i)" and t': "t' = release_slot i t"
    by (auto simp: lmb_seg_table_reap_expired_def find_Some_iff split: option.splits)
  then have "seg_find t k = Some i"
    using assms(1) by (simp add: seg_find_iff seg_reapable_def table_wf_def)
  with i t' that show thesis by (simp add: seg_sessions_def seg_remove_def)
qed

text \<open>The table of the abstract sessions and its steps.\<close>

definition abs_sessions :: "seg_table \<Rightarrow> seg_id \<Rightarrow> spec_session option" where
  "abs_sessions t k = map_option abs_slot (seg_sessions t k)"

definition spec_fresh :: "lmb_seg_open \<Rightarrow> spec_session" where
  "spec_fresh op =
     \<lparr>ss_owner = op_owner op, ss_context = unat (op_context_tokens op), ss_sequence = 0,
      ss_position = 0, ss_fenced = False, ss_phase = Idle\<rparr>"

inductive spec_table_step ::
  "nat \<Rightarrow> (seg_id \<Rightarrow> spec_session option) \<Rightarrow> (seg_id \<Rightarrow> spec_session option) \<Rightarrow> bool"
  for quota :: nat where
  spec_stutter: "spec_table_step quota m m"
| spec_open: "m (op_session_id op) = None \<Longrightarrow> card (dom m) < quota \<Longrightarrow> lmb_seg_open_valid op \<Longrightarrow>
    spec_table_step quota m (m(op_session_id op \<mapsto> spec_fresh op))"
| spec_move: "m k = Some a \<Longrightarrow> spec_step a b \<Longrightarrow> spec_table_step quota m (m(k \<mapsto> b))"
| spec_drop: "m k = Some a \<Longrightarrow> ss_phase a = Idle \<Longrightarrow> spec_table_step quota m (m(k := None))"

inductive_cases spec_table_stepE: "spec_table_step quota m m'"

lemma abs_sessions_upd: "map_option abs_slot \<circ> m(k \<mapsto> s) = (map_option abs_slot \<circ> m)(k \<mapsto> abs_slot s)"
  by (simp add: fun_eq_iff)

lemma abs_sessions_comp: "abs_sessions t = map_option abs_slot \<circ> seg_sessions t"
  by (simp add: abs_sessions_def fun_eq_iff)

lemma dom_abs_sessions [simp]: "dom (abs_sessions t) = dom (seg_sessions t)"
  by (auto simp: abs_sessions_def dom_def)

lemma abs_slot_open [simp]: "abs_slot (slot_open op now) = spec_fresh op"
  by (simp add: abs_slot_def slot_open_def spec_fresh_def slot_phase_def seg_slot_zero_def)

lemma slot_sim_with_slot:
  assumes inv: "table_inv t" and sim: "\<And>s. seg_sessions t k = Some s \<Longrightarrow> slot_sim k s (f s)"
  shows "table_inv (snd (with_slot f k t)) \<and>
    spec_table_step q (abs_sessions t) (abs_sessions (snd (with_slot f k t)))"
proof (cases "seg_sessions t k")
  case None
  then show ?thesis using inv by (simp add: seg_store.modify_None spec_stutter)
next
  case (Some s)
  note wf = table_inv_wf [OF inv]
  from sim [OF Some] have i: "slot_inv k (snd (f s))"
    and a: "abs_slot (snd (f s)) = abs_slot s \<or> spec_step (abs_slot s) (abs_slot (snd (f s)))"
    by (auto simp: slot_sim_def)
  have "table_inv (snd (with_slot f k t))"
    using i Some by (intro seg_store.modify_all [OF inv]) (auto simp: slot_inv_fits)
  moreover have m: "abs_sessions (snd (with_slot f k t)) = (abs_sessions t)(k \<mapsto> abs_slot (snd (f s)))"
    using seg_store.modify_sessions [where f = f, OF wf Some slot_inv_fits [OF i]]
    by (simp add: abs_sessions_comp abs_sessions_upd)
  moreover have k: "abs_sessions t k = Some (abs_slot s)" by (simp add: abs_sessions_def Some)
  ultimately show ?thesis
    using a by (auto simp: map_upd_triv intro: spec_stutter spec_move)
qed

lemma remove_sim:
  assumes inv: "table_inv t" and s: "seg_sessions t k = Some s" and b: "\<not> sl_busy s"
  shows "table_inv (seg_remove k t) \<and> spec_table_step q (abs_sessions t) (abs_sessions (seg_remove k t))"
proof -
  have "abs_sessions (seg_remove k t) = (abs_sessions t)(k := None)"
    using seg_store.remove_sessions [OF table_inv_wf [OF inv] s]
    by (simp add: abs_sessions_comp fun_eq_iff)
  moreover have "spec_table_step q (abs_sessions t) \<dots>"
    using slot_inv_idle [OF table_inv_slot [OF inv s] b] s
    by (intro spec_drop) (auto simp: abs_sessions_def abs_slot_def)
  ultimately show ?thesis using seg_store.remove_all [OF inv s] by simp
qed

lemma open_sim:
  assumes inv: "table_inv t"
  shows "table_inv (snd (lmb_seg_table_open op now t)) \<and>
    spec_table_step (tb_max_sessions t) (abs_sessions t) (abs_sessions (snd (lmb_seg_table_open op now t)))"
proof (cases "lmb_seg_open_valid op \<and> seg_sessions t (op_session_id op) = None \<and>
    tb_active_count t < tb_max_sessions t")
  case True
  then have v: "lmb_seg_open_valid op" and n: "seg_sessions t (op_session_id op) = None"
    and q: "tb_active_count t < tb_max_sessions t" by simp_all
  note i = slot_open_inv [OF v, of now]
  obtain t' where t': "seg_insert (op_session_id op) (slot_open op now) t = Some t'"
    "table_inv t'" "seg_sessions t' = (seg_sessions t)(op_session_id op \<mapsto> slot_open op now)"
    using seg_store.insert_all [OF inv n i slot_inv_fits [OF i] q] by blast
  have "card (dom (abs_sessions t)) < tb_max_sessions t"
    using q seg_store.size_card [OF table_inv_wf [OF inv]] by simp
  moreover have "abs_sessions t (op_session_id op) = None" by (simp add: abs_sessions_def n)
  ultimately have "spec_table_step (tb_max_sessions t) (abs_sessions t)
      ((abs_sessions t)(op_session_id op \<mapsto> spec_fresh op))"
    using v by (intro spec_open)
  moreover have "abs_sessions t' = (abs_sessions t)(op_session_id op \<mapsto> spec_fresh op)"
    by (simp add: abs_sessions_comp t'(3) abs_sessions_upd)
  moreover have "lmb_seg_table_open op now t = (SegOk, t')"
    using v n q t'(1) by (simp add: table_open_eq)
  ultimately show ?thesis using t'(2) by simp
next
  case False
  have "slot_sim (op_session_id op) s (slot_reopen op now s)" if "seg_sessions t (op_session_id op) = Some s" for s
    using that inv by (intro slot_reopen_sim table_inv_slot)
  note W = slot_sim_with_slot [OF inv this, of "tb_max_sessions t"]
  from False have "snd (lmb_seg_table_open op now t) = t \<or>
    snd (lmb_seg_table_open op now t) = snd (with_slot (slot_reopen op now) (op_session_id op) t)"
    unfolding table_open_eq
    by (cases "seg_sessions t (op_session_id op)"; cases "lmb_seg_open_valid op") simp_all
  then show ?thesis using W inv by (elim disjE) (simp_all add: spec_stutter)
qed

text \<open>One call: the invariant holds after it and the abstract table makes one step.\<close>

lemma call_sim:
  assumes inv: "table_inv t"
  shows "table_inv (seg_apply c t) \<and>
    spec_table_step (tb_max_sessions t) (abs_sessions t) (abs_sessions (seg_apply c t))"
proof -
  have same: "table_inv t \<and> spec_table_step (tb_max_sessions t) (abs_sessions t) (abs_sessions t)"
    using inv by (simp add: spec_stutter)
  note slot = table_inv_slot [OF inv] and W = slot_sim_with_slot [OF inv]
  show ?thesis
  proof (cases c)
    case (CallOpen op now)
    then show ?thesis using open_sim [OF inv] by simp
  next
    case (CallRunBegin run p n now)
    then show ?thesis
      using same by (simp add: lmb_seg_table_run_begin_def Let_def W slot slot_run_begin_sim)
  next
    case (CallRunCommit run now)
    then show ?thesis by (simp add: lmb_seg_table_run_commit_def W slot slot_run_commit_sim)
  next
    case (CallRunAbort run)
    then show ?thesis by (simp add: lmb_seg_table_run_abort_def W slot slot_run_abort_sim)
  next
    case (CallSnapshotCheck tr now)
    then show ?thesis using same by (simp add: lmb_seg_table_snapshot_check_def W slot slot_snapshot_check_sim)
  next
    case (CallRestoreCommit tr now)
    then show ?thesis using same by (simp add: lmb_seg_table_restore_commit_def W slot slot_restore_commit_sim)
  next
    case (CallRestoreBegin tr now)
    then show ?thesis using same by (simp add: lmb_seg_table_restore_begin_def W slot slot_restore_begin_sim)
  next
    case (CallRestoreFinish tr cm now)
    then show ?thesis using same by (simp add: lmb_seg_table_restore_finish_def W slot slot_restore_finish_sim)
  next
    case (CallFence k w now)
    then show ?thesis using same by (simp add: lmb_seg_table_fence_def W slot slot_fence_sim)
  next
    case (CallClose ct)
    then show ?thesis
      using same remove_sim [OF inv, of "ct_session_id ct"]
      by (auto simp: table_close_eq slot_close_def Let_def split: option.split)
  next
    case (CallReap now)
    obtain r t' where r: "lmb_seg_table_reap_expired now t = (r, t')" by fastforce
    show ?thesis
    proof (cases r)
      case None
      with r CallReap same table_reap_None [OF table_inv_wf [OF inv]] show ?thesis by auto
    next
      case (Some k)
      with r obtain s where s: "seg_sessions t k = Some s" "seg_reapable now s" "t' = seg_remove k t"
        using table_reap_Some [OF table_inv_wf [OF inv]] by metis
      with r CallReap remove_sim [OF inv s(1)] show ?thesis by (simp add: seg_reapable_def)
    qed
  qed
qed

lemma create_inv:
  assumes "lmb_seg_table_create mem slot_size table_size lock_ok capacity = Some t"
  shows "table_inv t" "tb_max_sessions t = capacity" "seg_sessions t k = None"
proof -
  from assms have t: "t = \<lparr>tb_slots = replicate (capacity * 2 + 1) seg_slot_zero,
      tb_bucket_count = capacity * 2 + 1, tb_max_sessions = capacity, tb_active_count = 0\<rparr>"
    by (simp add: lmb_seg_table_create_def Let_def split: if_splits)
  have z: "\<not> slot_active seg_slot_zero" by (simp add: seg_slot_zero_def)
  have n: "\<not> slot_active (tb_slots t ! i)" if "i < length (tb_slots t)" for i
    using that z by (simp add: t nth_append del: replicate_Suc)
  have "filter slot_active (tb_slots t) = []"
    using n by (auto simp: filter_empty_conv in_set_conv_nth)
  then have wf: "table_wf t"
    using n by (auto simp: table_wf_def t simp del: replicate_Suc)
  then have e: "seg_sessions t k = None" for k
    using n by (auto simp: seg_sessions_None seg_find_None)
  then show "seg_sessions t k = None" .
  show "table_inv t" using wf e by (simp add: table_inv_def)
  show "tb_max_sessions t = capacity" by (simp add: t)
qed

lemma reachable_inv: "seg_reachable t \<Longrightarrow> table_inv t"
  by (induction rule: seg_reachable.induct) (auto simp: create_inv call_sim)

lemma with_slot_quota [simp]: "tb_max_sessions (snd (with_slot f k t)) = tb_max_sessions t"
  by (simp add: with_slot_def split: option.split prod.split)

lemma remove_quota [simp]: "tb_max_sessions (seg_remove k t) = tb_max_sessions t"
  by (simp add: seg_remove_def release_slot_def split: option.split)

lemma call_quota [simp]: "tb_max_sessions (seg_apply c t) = tb_max_sessions t"
  by (cases c)
    (auto simp: lmb_seg_table_open_def lmb_seg_table_run_begin_def lmb_seg_table_run_commit_def
      lmb_seg_table_run_abort_def lmb_seg_table_snapshot_check_def lmb_seg_table_restore_commit_def
      lmb_seg_table_restore_begin_def lmb_seg_table_restore_finish_def lmb_seg_table_fence_def
      lmb_seg_table_close_def lmb_seg_table_reap_expired_def release_slot_def Let_def
      split: option.split)

section \<open>Consequences for one session\<close>

fun seg_calls :: "seg_call list \<Rightarrow> seg_table \<Rightarrow> seg_table" where
  "seg_calls [] t = t"
| "seg_calls (c # cs) t = seg_calls cs (seg_apply c t)"

text \<open>The session is in the table before and after each of the calls.\<close>

fun seg_alive :: "seg_id \<Rightarrow> seg_call list \<Rightarrow> seg_table \<Rightarrow> bool" where
  "seg_alive k [] t \<longleftrightarrow> seg_sessions t k \<noteq> None"
| "seg_alive k (c # cs) t \<longleftrightarrow> seg_sessions t k \<noteq> None \<and> seg_alive k cs (seg_apply c t)"

lemma calls_reachable: "seg_reachable t \<Longrightarrow> seg_reachable (seg_calls cs t)"
  by (induction cs arbitrary: t) (auto intro: reach_call)

lemma alive_present: "seg_alive k cs t \<Longrightarrow> \<exists>s. seg_sessions (seg_calls cs t) k = Some s"
  by (induction cs arbitrary: t) auto

lemma call_owner:
  assumes "table_inv t" "seg_sessions t k = Some s" "seg_sessions (seg_apply c t) k = Some s'"
  shows "owner_le (slot_owner s) (slot_owner s')"
proof -
  from assms have a: "abs_sessions t k = Some (abs_slot s)"
    "abs_sessions (seg_apply c t) k = Some (abs_slot s')" by (simp_all add: abs_sessions_def)
  have "spec_table_step (tb_max_sessions t) (abs_sessions t) (abs_sessions (seg_apply c t))"
    using call_sim [OF assms(1)] by simp
  then have "owner_le (ss_owner (abs_slot s)) (ss_owner (abs_slot s'))"
    using a by (elim spec_table_stepE) (auto dest: spec_step_owner split: if_splits)
  then show ?thesis by (simp add: abs_slot_def)
qed

lemma calls_owner:
  "table_inv t \<Longrightarrow> seg_alive k cs t \<Longrightarrow> seg_sessions t k = Some s \<Longrightarrow>
   seg_sessions (seg_calls cs t) k = Some s' \<Longrightarrow> owner_le (slot_owner s) (slot_owner s')"
proof (induction cs arbitrary: t s)
  case Nil
  then show ?case by simp
next
  case (Cons c cs)
  then obtain s1 where s1: "seg_sessions (seg_apply c t) k = Some s1"
    by (cases cs) auto
  have "owner_le (slot_owner s) (slot_owner s1)" using Cons.prems s1 by (intro call_owner)
  moreover have "owner_le (slot_owner s1) (slot_owner s')"
    using Cons.IH [OF _ _ s1] Cons.prems call_sim by simp
  ultimately show ?case by (rule owner_le_trans)
qed

lemma with_slot_Some:
  assumes "table_wf t" "seg_sessions t k = Some s" "f s = (st, s')" "slot_fits k s'"
  obtains t' where "with_slot f k t = (st, t')" "seg_sessions t' = (seg_sessions t)(k \<mapsto> s')"
  using assms seg_store.modify_status [of t k s f] seg_store.modify_sessions [where t = t and k = k and v = s and f = f]
  by (metis fst_conv prod.collapse snd_conv)

lemma with_slot_same:
  assumes "seg_sessions t k = Some s" "f s = (st, s)"
  shows "with_slot f k t = (st, t)"
  using assms by (auto simp: with_slot_def seg_sessions_def list_update_id)

text \<open>The other sessions after a call.\<close>

lemma with_slot_other:
  assumes "table_inv t" "\<And>s. seg_sessions t k = Some s \<Longrightarrow> slot_sim k s (f s)" "k' \<noteq> k"
  shows "seg_sessions (snd (with_slot f k t)) k' = seg_sessions t k'"
  using assms by (intro seg_store.modify_other table_inv_wf) (auto simp: slot_sim_def slot_inv_fits)

lemma open_fresh:
  assumes "table_inv t" "lmb_seg_open_valid op" "seg_sessions t (op_session_id op) = None"
    "tb_active_count t < tb_max_sessions t"
  obtains t' where "lmb_seg_table_open op now t = (SegOk, t')" "table_inv t'"
    "seg_sessions t' = (seg_sessions t)(op_session_id op \<mapsto> slot_open op now)"
    "tb_active_count t' = Suc (tb_active_count t)"
proof -
  note i = slot_open_inv [OF assms(2), of now]
  obtain t' where t': "seg_insert (op_session_id op) (slot_open op now) t = Some t'" "table_inv t'"
    "seg_sessions t' = (seg_sessions t)(op_session_id op \<mapsto> slot_open op now)"
    using seg_store.insert_all [OF assms(1,3) i slot_inv_fits [OF i] assms(4)] by blast
  moreover have "tb_active_count t' = Suc (tb_active_count t)"
    using seg_store.insert_size [OF table_inv_wf [OF assms(1)] assms(3) slot_inv_fits [OF i] assms(4) t'(1)] .
  moreover have "lmb_seg_table_open op now t = (SegOk, t')"
    using assms t'(1) by (simp add: table_open_eq)
  ultimately show thesis using that by blast
qed

lemma open_other:
  assumes "table_inv t" "k \<noteq> op_session_id op"
  shows "seg_sessions (snd (lmb_seg_table_open op now t)) k = seg_sessions t k"
proof (cases "lmb_seg_open_valid op \<and> seg_sessions t (op_session_id op) = None \<and>
    tb_active_count t < tb_max_sessions t")
  case True
  with assms show ?thesis by (auto elim: open_fresh [of t op now])
next
  case False
  have "slot_sim (op_session_id op) s (slot_reopen op now s)" if "seg_sessions t (op_session_id op) = Some s" for s
    using that assms by (intro slot_reopen_sim table_inv_slot)
  note W = with_slot_other [OF assms(1) this assms(2)]
  from False have "snd (lmb_seg_table_open op now t) = t \<or>
    snd (lmb_seg_table_open op now t) = snd (with_slot (slot_reopen op now) (op_session_id op) t)"
    unfolding table_open_eq
    by (cases "seg_sessions t (op_session_id op)"; cases "lmb_seg_open_valid op") simp_all
  then show ?thesis using W by (elim disjE) simp_all
qed

lemma remove_other:
  assumes "table_inv t" "seg_sessions t k = Some s" "k' \<noteq> k"
  shows "seg_sessions (seg_remove k t) k' = seg_sessions t k'"
  using seg_store.remove_sessions [OF table_inv_wf [OF assms(1)] assms(2)] assms(3) by simp

lemma call_other:
  assumes inv: "table_inv t" and c: "call_session c = Some k" and k: "k' \<noteq> k"
  shows "seg_sessions (seg_apply c t) k' = seg_sessions t k'"
proof -
  note slot = table_inv_slot [OF inv] and W = with_slot_other [OF inv _ k]
  show ?thesis
  proof (cases c)
    case (CallOpen op now)
    then show ?thesis using open_other [OF inv] c k by simp
  next
    case (CallRunBegin run p n now)
    then show ?thesis using c by (simp add: lmb_seg_table_run_begin_def Let_def W slot slot_run_begin_sim)
  next
    case (CallRunCommit run now)
    then show ?thesis using c by (simp add: lmb_seg_table_run_commit_def W slot slot_run_commit_sim)
  next
    case (CallRunAbort run)
    then show ?thesis using c by (simp add: lmb_seg_table_run_abort_def W slot slot_run_abort_sim)
  next
    case (CallSnapshotCheck tr now)
    then show ?thesis using c by (simp add: lmb_seg_table_snapshot_check_def W slot slot_snapshot_check_sim)
  next
    case (CallRestoreCommit tr now)
    then show ?thesis using c by (simp add: lmb_seg_table_restore_commit_def W slot slot_restore_commit_sim)
  next
    case (CallRestoreBegin tr now)
    then show ?thesis using c by (simp add: lmb_seg_table_restore_begin_def W slot slot_restore_begin_sim)
  next
    case (CallRestoreFinish tr cm now)
    then show ?thesis using c by (simp add: lmb_seg_table_restore_finish_def W slot slot_restore_finish_sim)
  next
    case (CallFence k2 w now)
    then show ?thesis using c by (simp add: lmb_seg_table_fence_def W slot slot_fence_sim)
  next
    case (CallClose ct)
    then show ?thesis using c k remove_other [OF inv] by (auto simp: table_close_eq split: option.split)
  qed (use c in simp)
qed

lemma reap_cases:
  assumes inv: "table_inv t"
  obtains "lmb_seg_table_reap_expired now t = (None, t)" "\<And>k s. seg_sessions t k = Some s \<Longrightarrow> \<not> seg_reapable now s"
  | k s where "lmb_seg_table_reap_expired now t = (Some k, seg_remove k t)"
      "seg_sessions t k = Some s" "seg_reapable now s"
proof -
  obtain r t' where r: "lmb_seg_table_reap_expired now t = (r, t')" by fastforce
  show thesis
  proof (cases r)
    case None
    with r table_reap_None [OF table_inv_wf [OF inv], of now t'] that(1) show thesis by simp
  next
    case (Some k)
    with r obtain s where "seg_sessions t k = Some s" "seg_reapable now s" "t' = seg_remove k t"
      using table_reap_Some [OF table_inv_wf [OF inv], of now k t'] by blast
    with r Some that(2) show thesis by simp
  qed
qed

end
