(* ===== verification/Segment_Guarantees.thy ===== *)
theory Segment_Guarantees
  imports Segment_Service Segment_Examples
begin

text \<open>
  The guarantees of the session table as properties of every reachable table, and a small
  concrete table (\<open>ex_table\<close>, two sessions, five slots) on which each of them is applied.
\<close>

section \<open>A concrete table\<close>

definition ex_table :: seg_table where
  "ex_table =
     \<lparr>tb_slots = replicate 5 seg_slot_zero, tb_bucket_count = 5, tb_max_sessions = 2,
      tb_active_count = 0\<rparr>"

lemma ex_create: "lmb_seg_table_create (\<lambda>_. True) 1 1 True 2 = Some ex_table"
  by (simp add: lmb_seg_table_create_def ex_table_def Let_def)

lemma ex_reachable: "seg_reachable ex_table"
  by (rule reach_create [OF ex_create])

definition ex_opened :: seg_table where
  "ex_opened = snd (lmb_seg_table_open ex_open 0 ex_table)"

definition ex_running :: seg_table where
  "ex_running = snd (lmb_seg_table_run_begin ex_run (Some ex_payload) 16 1 ex_opened)"

definition ex_committed :: seg_table where
  "ex_committed = snd (lmb_seg_table_run_commit ex_run 2 ex_running)"

definition ex_fenced :: seg_table where
  "ex_fenced = snd (lmb_seg_table_fence ex_id ex_owner 1 ex_opened)"

lemma ex_opened_reachable: "seg_reachable ex_opened"
  using reach_call [OF ex_reachable, of "CallOpen ex_open 0"] by (simp add: ex_opened_def)

lemma ex_running_reachable: "seg_reachable ex_running"
  using reach_call [OF ex_opened_reachable, of "CallRunBegin ex_run (Some ex_payload) 16 1"]
  by (simp add: ex_running_def)

lemma ex_table_empty: "seg_sessions ex_table k = None"
  by (rule create_inv [OF ex_create])

lemma ex_open_ok: "lmb_seg_table_open ex_open 0 ex_table = (SegOk, ex_opened)"
  and ex_opened_slot: "seg_sessions ex_opened ex_id = Some (slot_open ex_open 0)"
proof -
  have q: "tb_active_count ex_table < tb_max_sessions ex_table" by (simp add: ex_table_def)
  obtain t' where "lmb_seg_table_open ex_open 0 ex_table = (SegOk, t')"
    "seg_sessions t' = (seg_sessions ex_table)(ex_id \<mapsto> slot_open ex_open 0)"
    by (rule open_fresh [OF create_inv(1) [OF ex_create] ex_open_valid ex_table_empty q])
  then show "lmb_seg_table_open ex_open 0 ex_table = (SegOk, ex_opened)"
    "seg_sessions ex_opened ex_id = Some (slot_open ex_open 0)"
    by (simp_all add: ex_opened_def)
qed

definition ex_slot_running :: seg_slot where
  "ex_slot_running = (slot_open ex_open 0)\<lparr>sl_busy := True, sl_pending := ex_run,
     sl_pending_digest := seg_run_digest ex_run ex_payload\<rparr>"

lemma ex_history_empty: "seg_history_find seg_history_clear r = None"
  by (simp add: seg_history_find_def seg_history_clear_def find_None_iff seg_history_zero_def)

lemma slot_open_fields [simp]:
  "sl_open (slot_open op now) = op" "sl_busy (slot_open op now) = False"
  "sl_needs_restore (slot_open op now) = False" "sl_next_sequence (slot_open op now) = 0"
  "sl_next_position (slot_open op now) = 0" "sl_history (slot_open op now) = seg_history_clear"
  "sl_state (slot_open op now) = SlotActive" "sl_history_next (slot_open op now) = 0"
  "sl_expires_at_ms (slot_open op now) = seg_deadline now (op_ttl_ms op)"
  by (simp_all add: slot_open_def seg_slot_zero_def touch_expires)

lemma ex_slot_begin:
  "slot_run_begin ex_run ex_payload 1 (slot_open ex_open 0) = (SegOk, ex_slot_running)"
proof -
  have e: "\<not> seg_expired (slot_open ex_open 0) 1" by (simp add: seg_expired_def seg_deadline_def word_le_nat_alt)
  have r: "ex_run\<lparr>run_token_ids := None\<rparr> = ex_run"
    "length ex_payload = 16"
    by (simp_all add: ex_run_def ex_payload_def)
  show ?thesis
    by (simp add: slot_run_begin_def e owner_status_ok r ex_payload_bytes ex_history_empty ex_slot_running_def Let_def)
qed

lemma ex_begin_ok: "lmb_seg_table_run_begin ex_run (Some ex_payload) 16 1 ex_opened = (SegOk, ex_running)"
  and ex_running_slot: "seg_sessions ex_running ex_id = Some ex_slot_running"
proof -
  have i: "run_session_id ex_run = ex_id" "take 16 ex_payload = ex_payload"
    by (simp_all only: ex_run_def ex_open_def ex_payload_def lmb_seg_run.select_convs
        lmb_seg_open.select_convs length_replicate take_all)
  have f: "slot_fits ex_id ex_slot_running"
    by (simp add: slot_fits_def ex_slot_running_def)
  obtain t' where t': "with_slot (slot_run_begin ex_run ex_payload 1) ex_id ex_opened = (SegOk, t')"
    "seg_sessions t' = (seg_sessions ex_opened)(ex_id \<mapsto> ex_slot_running)"
    by (rule with_slot_Some [where f = "slot_run_begin ex_run ex_payload 1",
        OF table_inv_wf [OF reachable_inv [OF ex_opened_reachable]] ex_opened_slot ex_slot_begin f])
  then show "lmb_seg_table_run_begin ex_run (Some ex_payload) 16 1 ex_opened = (SegOk, ex_running)"
    "seg_sessions ex_running ex_id = Some ex_slot_running"
    by (simp_all add: ex_running_def lmb_seg_table_run_begin_def i)
qed

section \<open>Properties\<close>

text \<open>C10: in every reachable table the number of sessions is the active count, at most the quota,
  and every session satisfies its invariant: the owner is valid, the position lies inside the
  context, and the session is idle, running the run at its next sequence and position, or
  restoring a snapshot that may be installed.\<close>

theorem seg_reachable_sessions:
  assumes "seg_reachable t"
  shows "finite (dom (seg_sessions t)) \<and> card (dom (seg_sessions t)) = tb_active_count t \<and>
    tb_active_count t \<le> tb_max_sessions t \<and>
    (\<forall>k s. seg_sessions t k = Some s \<longrightarrow> slot_inv k s)"
proof -
  note inv = reachable_inv [OF assms]
  show ?thesis
    using seg_store.size_card [OF table_inv_wf [OF inv]] seg_store.size_quota [OF table_inv_wf [OF inv]]
      table_inv_slot [OF inv] by simp
qed

lemma seg_reachable_sessions_witness:
  "seg_reachable ex_running \<and> tb_active_count ex_running \<le> tb_max_sessions ex_running \<and>
   slot_inv ex_id ex_slot_running"
  using seg_reachable_sessions [OF ex_running_reachable] ex_running_slot ex_running_reachable by blast

text \<open>C9: the probing of the hash table is correct: in every reachable table a lookup returns the
  slot at index \<open>i\<close> exactly when \<open>i\<close> is the slot of that session, whatever the hash values and
  the tombstones left by closed sessions.\<close>

theorem seg_find_correct:
  assumes "seg_reachable t"
  shows "seg_find t k = Some i \<longleftrightarrow>
    i < length (tb_slots t) \<and> sl_state (tb_slots t ! i) = SlotActive \<and>
    op_session_id (sl_open (tb_slots t ! i)) = k"
  by (rule seg_find_iff [OF table_inv_wf [OF reachable_inv [OF assms]]])

lemma seg_find_correct_witness:
  "\<exists>i. seg_find ex_opened ex_id = Some i \<and> i < length (tb_slots ex_opened) \<and>
     tb_slots ex_opened ! i = slot_open ex_open 0"
  using seg_find_correct [OF ex_opened_reachable, of ex_id] ex_opened_slot
  by (auto simp: seg_sessions_def)

text \<open>C7: every call refines the abstract table: it leaves the abstract sessions alone, opens a
  fresh one below the quota, drops an idle one, or makes one step of the abstract life of one
  session (begin, commit or abort a run, begin, cancel or finish a restore, fence).\<close>

theorem seg_call_refines:
  assumes "seg_reachable t"
  shows "spec_table_step (tb_max_sessions t) (abs_sessions t) (abs_sessions (seg_apply c t))"
  using call_sim [OF reachable_inv [OF assms]] by simp

lemma seg_call_refines_witness:
  "spec_table_step (tb_max_sessions ex_opened) (abs_sessions ex_opened)
     (abs_sessions (seg_apply (CallRunBegin ex_run (Some ex_payload) 16 1) ex_opened)) \<and>
   abs_sessions (seg_apply (CallRunBegin ex_run (Some ex_payload) 16 1) ex_opened) ex_id
     \<noteq> abs_sessions ex_opened ex_id"
proof
  show "spec_table_step (tb_max_sessions ex_opened) (abs_sessions ex_opened)
     (abs_sessions (seg_apply (CallRunBegin ex_run (Some ex_payload) 16 1) ex_opened))"
    by (rule seg_call_refines [OF ex_opened_reachable])
  have "slot_phase ex_slot_running = Running ex_run"
    by (simp add: slot_phase_def ex_slot_running_def slot_open_def seg_slot_zero_def)
  then show "abs_sessions (seg_apply (CallRunBegin ex_run (Some ex_payload) 16 1) ex_opened) ex_id
     \<noteq> abs_sessions ex_opened ex_id"
    using ex_opened_slot ex_running_slot
    by (simp add: abs_sessions_def ex_running_def abs_slot_def slot_phase_def)
qed

text \<open>Opening a session that is not in the table succeeds below the quota (the probing finds
  a free slot), adds exactly this session and counts it; at the quota it fails with QUOTA and
  changes nothing.\<close>

lemma seg_open_new:
  assumes "seg_reachable t" "lmb_seg_open_valid op" "seg_sessions t (op_session_id op) = None"
  shows "if tb_active_count t < tb_max_sessions t
    then \<exists>t'. lmb_seg_table_open op now t = (SegOk, t') \<and>
           seg_sessions t' = (seg_sessions t)(op_session_id op \<mapsto> slot_open op now) \<and>
           tb_active_count t' = tb_active_count t + 1
    else lmb_seg_table_open op now t = (SegQuota, t)"
proof (cases "tb_active_count t < tb_max_sessions t")
  case True
  then show ?thesis
    by (auto elim!: open_fresh [OF reachable_inv [OF assms(1)] assms(2,3), of now])
next
  case False
  with assms show ?thesis by (simp add: table_open_eq)
qed

lemma seg_open_new_witness:
  "\<exists>t'. lmb_seg_table_open ex_open 5 ex_table = (SegOk, t') \<and>
     seg_sessions t' ex_id = Some (slot_open ex_open 5) \<and> tb_active_count t' = 1"
  using seg_open_new [OF ex_reachable ex_open_valid ex_table_empty, of 5]
  by (auto simp: ex_table_def)

text \<open>C11: isolation: a call that names another session leaves a session exactly as it is; a reap
  leaves it as it is too, or removes it, and then it was expired and not busy.\<close>

theorem seg_sessions_isolated:
  assumes "seg_reachable t" "seg_sessions t k = Some s" "call_session c \<noteq> Some k"
  shows "seg_sessions (seg_apply c t) k = Some s \<or>
    (\<exists>now. c = CallReap now \<and> \<not> sl_busy s \<and> seg_expired s now \<and> seg_sessions (seg_apply c t) k = None)"
proof (cases "call_session c")
  case (Some k')
  with assms call_other [OF reachable_inv [OF assms(1)], of c k' k] show ?thesis by auto
next
  case None
  then obtain now where c: "c = CallReap now" by (cases c) auto
  note inv = reachable_inv [OF assms(1)]
  show ?thesis
  proof (rule reap_cases [OF inv, of now], goal_cases)
    case 1
    with c assms show ?case by simp
  next
    case (2 k' s')
    with c assms remove_other [OF inv 2(2), of k] seg_store.remove_sessions [OF table_inv_wf [OF inv] 2(2)]
    show ?case by (cases "k = k'") (auto simp: seg_reapable_def)
  qed
qed

lemma seg_sessions_isolated_witness:
  "seg_sessions (seg_apply (CallFence (replicate 16 8) ex_owner 3) ex_running) ex_id = Some ex_slot_running"
proof -
  have "call_session (CallFence (replicate 16 8) ex_owner 3) \<noteq> Some ex_id" by code_simp
  from seg_sessions_isolated [OF ex_running_reachable ex_running_slot this] show ?thesis by auto
qed

section \<open>Runs\<close>

lemma history_find_update:
  assumes "seg_history_find hs r = None" "n < length hs" "h_used h" "h_request_id h = r"
  shows "seg_history_find (hs[n := h]) r = Some h"
proof -
  have "\<not> (h_used (hs ! i) \<and> lmb_seg_id_equal (h_request_id (hs ! i)) r)" if "i < length hs" for i
    using assms(1) that by (auto simp: seg_history_find_def find_None_iff)
  then show ?thesis
    using assms(2-4) unfolding seg_history_find_def find_Some_iff
    by (intro exI [of _ n]) (auto simp: lmb_seg_id_equal_def nth_list_update)
qed

lemma run_same_tokens: "seg_run_same (run\<lparr>run_token_ids := x\<rparr>) run"
  by (simp add: seg_run_same_def lmb_seg_id_equal_def owner_relation_0)

text \<open>A run that begins is exactly the next one of its session.\<close>

lemma slot_run_begin_ok:
  assumes "slot_run_begin run p now s = (SegOk, s1)"
  shows "\<not> seg_expired s now" "run_owner run = slot_owner s" "\<not> sl_busy s" "\<not> sl_needs_restore s"
    "lmb_seg_run_payload_bytes (sl_open s) run = Some (length p)"
    "seg_history_find (sl_history s) (run_request_id run) = None"
    "run_sequence run = sl_next_sequence s" "run_position run = sl_next_position s"
    "s1 = s\<lparr>sl_busy := True, sl_pending := run\<lparr>run_token_ids := None\<rparr>,
            sl_pending_digest := seg_run_digest run p\<rparr>"
  using assms by (auto simp: slot_run_begin_def Let_def owner_status_ok split: if_splits option.splits)

text \<open>A begun run commits, and the committed session answers the same run with DUPLICATE.\<close>

lemma slot_begin_commit:
  assumes inv: "slot_inv k s" and b: "slot_run_begin run p now s = (SegOk, s1)"
  shows "\<exists>s2. slot_run_commit run now1 s1 = (SegOk, s2) \<and>
    sl_next_sequence s2 = sl_next_sequence s + 1 \<and>
    unat (sl_next_position s2) = unat (sl_next_position s) + unat (run_rows run) \<and>
    unat (sl_next_position s2) \<le> slot_context s \<and> \<not> sl_busy s2 \<and>
    (\<forall>now2. \<not> seg_expired s2 now2 \<longrightarrow>
       slot_run_begin run p now2 s2 = (SegDuplicate, seg_touch s2 now2) \<and>
       (\<forall>p'. length p' = length p \<and> seg_run_digest run p' \<noteq> seg_run_digest run p \<longrightarrow>
          slot_run_begin run p' now2 s2 = (SegConflict, s2)))"
proof -
  note B = slot_run_begin_ok [OF b]
  let ?h = "\<lparr>h_used = True, h_request_id = run_request_id run, h_sequence = run_sequence run,
    h_position = run_position run, h_rows = run_rows run, h_digest = seg_run_digest run p\<rparr>"
  let ?s2 = "snd (slot_run_commit run now1 s1)"
  have c: "slot_run_commit run now1 s1 = (SegOk, ?s2)"
    by (simp add: slot_run_commit_def B(9) run_same_tokens Let_def)
  have f: "sl_next_sequence ?s2 = sl_next_sequence s + 1"
    "sl_next_position ?s2 = sl_next_position s + ucast (run_rows run)" "\<not> sl_busy ?s2"
    "sl_open ?s2 = sl_open s" "sl_history ?s2 = (sl_history s)[sl_history_next s := ?h]"
    by (simp_all add: slot_run_commit_def B(9) run_same_tokens Let_def)
  have pos: "unat (sl_next_position s) + unat (run_rows run) \<le> slot_context s"
    using payload_bytes_position(2) [OF B(5)] by (simp only: B(8))
  have "unat (sl_next_position ?s2) = unat (sl_next_position s) + unat (run_rows run)"
    unfolding f(2) by (rule position_advance [OF pos])
  moreover have "seg_history_find (sl_history ?s2) (run_request_id run) = Some ?h"
    unfolding f(5) using inv by (intro history_find_update B(6)) (simp_all add: slot_inv_def)
  then have "slot_run_begin run p now2 ?s2 = (SegDuplicate, seg_touch ?s2 now2) \<and>
      (\<forall>p'. length p' = length p \<and> seg_run_digest run p' \<noteq> seg_run_digest run p \<longrightarrow>
         slot_run_begin run p' now2 ?s2 = (SegConflict, ?s2))"
    if "\<not> seg_expired ?s2 now2" for now2
    using that B(2,5) f(4) by (auto simp: slot_run_begin_def Let_def owner_status_ok)
  ultimately show ?thesis using c f(1,3) pos by (metis (no_types, lifting))
qed

lemma seg_calls_isolated:
  "table_inv t \<Longrightarrow> \<forall>c \<in> set cs. \<exists>k'. call_session c = Some k' \<and> k' \<noteq> k \<Longrightarrow>
   seg_sessions (seg_calls cs t) k = seg_sessions t k"
proof (induction cs arbitrary: t)
  case Nil
  then show ?case by simp
next
  case (Cons c cs)
  then show ?case using call_other [OF Cons.prems(1)] call_sim by auto
qed

lemma calls_inv: "table_inv t \<Longrightarrow> table_inv (seg_calls cs t)"
  by (induction cs arbitrary: t) (simp_all add: call_sim)

lemma table_begin_slot:
  assumes "table_inv t" "lmb_seg_table_run_begin run (Some p) (length p) now t = (SegOk, t1)"
  obtains s s1 where "seg_sessions t (run_session_id run) = Some s" "slot_run_begin run p now s = (SegOk, s1)"
    "seg_sessions t1 = (seg_sessions t)(run_session_id run \<mapsto> s1)" "table_inv t1"
proof -
  let ?k = "run_session_id run" and ?f = "slot_run_begin run p now"
  from assms(2) have w: "with_slot ?f ?k t = (SegOk, t1)" by (simp add: lmb_seg_table_run_begin_def)
  then obtain s where s: "seg_sessions t ?k = Some s"
    by (cases "seg_sessions t ?k") (auto simp: seg_store.modify_None)
  note inv = table_inv_slot [OF assms(1) s] and wf = table_inv_wf [OF assms(1)]
  obtain st s1 where b: "?f s = (st, s1)" by fastforce
  with slot_run_begin_sim [OF inv, of run p now] have "slot_inv ?k s1" by (simp add: slot_sim_def)
  then obtain t' where "with_slot ?f ?k t = (st, t')" "seg_sessions t' = (seg_sessions t)(?k \<mapsto> s1)"
    using with_slot_Some [where f = ?f, OF wf s b slot_inv_fits] by blast
  moreover have "table_inv t1"
    using call_sim [OF assms(1), of "CallRunBegin run (Some p) (length p) now"] assms(2) by simp
  ultimately show thesis using that s b w by simp
qed

lemma sequence_step: "unat (x + 1 :: u64) = (if x = UINT64_MAX then 0 else unat x + 1)"
proof (cases "x = UINT64_MAX")
  case False
  then have "unat x \<noteq> unat UINT64_MAX" unfolding word_unat_eq_iff .
  with unat_u64_less [of x] have "unat x + 1 < 2 ^ 64" by simp
  with False show ?thesis by (simp add: unat_word_ariths)
qed simp

text \<open>C1: runs are applied in order and once. Suppose a run begins with OK, any calls on other
  sessions happen, and it is committed. The commit succeeds and advances the position by the rows of the
  run, without wrapping and within the context. The sequence number of the run is the one the
  session expected, and it advances by exactly one unless it is \<open>UINT64_MAX\<close>, where the 64-bit
  counter wraps to 0: no run that can be encoded or decoded has that number
  (\<open>seg_run_basic_valid\<close>), but \<open>run_begin\<close> itself does not refuse it. After any further
  calls on other sessions, and until the session expires, the same request with the same payload
  is answered DUPLICATE and begins nothing; with a payload of another digest it is a CONFLICT.\<close>

theorem seg_run_exactly_once:
  assumes "seg_reachable t"
    "lmb_seg_table_run_begin run (Some p) (length p) now t = (SegOk, t1)"
    "\<forall>c \<in> set (cs @ cs'). \<exists>k. call_session c = Some k \<and> k \<noteq> run_session_id run"
    "lmb_seg_table_run_commit run now1 (seg_calls cs t1) = (st, t2)"
  shows "st = SegOk \<and>
    (\<exists>s s2. seg_sessions t (run_session_id run) = Some s \<and>
       seg_sessions (seg_calls cs' t2) (run_session_id run) = Some s2 \<and>
       run_sequence run = sl_next_sequence s \<and> sl_next_sequence s2 = sl_next_sequence s + 1 \<and>
       unat (sl_next_sequence s2)
         = (if run_sequence run = UINT64_MAX then 0 else unat (sl_next_sequence s) + 1) \<and>
       unat (sl_next_position s2) = unat (sl_next_position s) + unat (run_rows run) \<and>
       unat (sl_next_position s2) \<le> unat (op_context_tokens (sl_open s)) \<and>
       (\<forall>now2. \<not> seg_expired s2 now2 \<longrightarrow>
          (\<exists>t3. lmb_seg_table_run_begin run (Some p) (length p) now2 (seg_calls cs' t2) = (SegDuplicate, t3) \<and>
                abs_sessions t3 = abs_sessions (seg_calls cs' t2)) \<and>
          (\<forall>p'. length p' = length p \<and> seg_run_digest run p' \<noteq> seg_run_digest run p \<longrightarrow>
                lmb_seg_table_run_begin run (Some p') (length p) now2 (seg_calls cs' t2)
                  = (SegConflict, seg_calls cs' t2))))"
proof -
  let ?k = "run_session_id run"
  obtain s s1 where s: "seg_sessions t ?k = Some s" "slot_run_begin run p now s = (SegOk, s1)"
    "seg_sessions t1 = (seg_sessions t)(?k \<mapsto> s1)" "table_inv t1"
    by (rule table_begin_slot [OF reachable_inv [OF assms(1)] assms(2)])
  note i1 = calls_inv [OF s(4), of cs]
  have s1: "seg_sessions (seg_calls cs t1) ?k = Some s1"
    using assms(3) s(3) by (subst seg_calls_isolated [OF s(4)]) auto
  obtain s2 where s2: "slot_run_commit run now1 s1 = (SegOk, s2)"
    "sl_next_sequence s2 = sl_next_sequence s + 1"
    "unat (sl_next_position s2) = unat (sl_next_position s) + unat (run_rows run)"
    "unat (sl_next_position s2) \<le> slot_context s"
    "\<And>now2. \<not> seg_expired s2 now2 \<Longrightarrow> slot_run_begin run p now2 s2 = (SegDuplicate, seg_touch s2 now2)"
    "\<And>now2 p'. \<not> seg_expired s2 now2 \<Longrightarrow> length p' = length p \<Longrightarrow>
       seg_run_digest run p' \<noteq> seg_run_digest run p \<Longrightarrow> slot_run_begin run p' now2 s2 = (SegConflict, s2)"
    using slot_begin_commit [OF table_inv_slot [OF reachable_inv [OF assms(1)] s(1)] s(2), of now1] by blast
  have "slot_inv ?k s2"
    using slot_run_commit_sim [OF table_inv_slot [OF i1 s1], of run now1] by (simp add: slot_sim_def s2(1))
  note fit2 = slot_inv_fits [OF this]
  obtain t' where "with_slot (slot_run_commit run now1) ?k (seg_calls cs t1) = (SegOk, t')"
    "seg_sessions t' = (seg_sessions (seg_calls cs t1))(?k \<mapsto> s2)"
    by (rule with_slot_Some [where f = "slot_run_commit run now1", OF table_inv_wf [OF i1] s1 s2(1) fit2])
  with assms(4) have st: "st = SegOk" and t2: "seg_sessions t2 ?k = Some s2"
    by (simp_all add: lmb_seg_table_run_commit_def)
  have i2: "table_inv t2"
    using call_sim [OF i1, of "CallRunCommit run now1"] assms(4) by simp
  note i3 = calls_inv [OF i2, of cs']
  let ?t = "seg_calls cs' t2"
  have t3: "seg_sessions ?t ?k = Some s2"
    using assms(3) t2 by (subst seg_calls_isolated [OF i2]) auto
  have "\<exists>t3. lmb_seg_table_run_begin run (Some p) (length p) now2 ?t = (SegDuplicate, t3) \<and>
      abs_sessions t3 = abs_sessions ?t" if e: "\<not> seg_expired s2 now2" for now2
  proof -
    have "slot_fits ?k (seg_touch s2 now2)" using fit2 by (simp add: slot_fits_def)
    then obtain t3 where "with_slot (slot_run_begin run p now2) ?k ?t = (SegDuplicate, t3)"
      "seg_sessions t3 = (seg_sessions ?t)(?k \<mapsto> seg_touch s2 now2)"
      using with_slot_Some [where f = "slot_run_begin run p now2", OF table_inv_wf [OF i3] t3 s2(5) [OF e]]
      by blast
    then show ?thesis
      using t3 by (auto simp: lmb_seg_table_run_begin_def abs_sessions_comp fun_eq_iff)
  qed
  moreover have "lmb_seg_table_run_begin run (Some p') (length p) now2 ?t = (SegConflict, ?t)"
    if "\<not> seg_expired s2 now2" "length p' = length p" "seg_run_digest run p' \<noteq> seg_run_digest run p" for now2 p'
    using with_slot_same [where f = "slot_run_begin run p' now2", OF t3 s2(6) [OF that]] that(2)
    by (simp add: lmb_seg_table_run_begin_def)
  moreover have "run_sequence run = sl_next_sequence s" by (rule slot_run_begin_ok(7) [OF s(2)])
  ultimately show ?thesis using st s(1) t3 s2(2-4) sequence_step by metis
qed

lemma seg_run_exactly_once_witness:
  "\<exists>t2 s2. lmb_seg_table_run_commit ex_run 2 ex_running = (SegOk, t2) \<and>
     seg_sessions t2 ex_id = Some s2 \<and> sl_next_sequence s2 = 1 \<and> unat (sl_next_sequence s2) = 1 \<and> unat (sl_next_position s2) = unat (run_rows ex_run)"
proof -
  obtain st t2 where c: "lmb_seg_table_run_commit ex_run 2 ex_running = (st, t2)" by fastforce
  have l: "length ex_payload = 16" by (simp add: ex_payload_def)
  have i: "run_session_id ex_run = ex_id"
    by (simp only: ex_run_def ex_open_def lmb_seg_run.select_convs lmb_seg_open.select_convs)
  from seg_run_exactly_once [OF ex_opened_reachable, of ex_run ex_payload 1 ex_running "[]" "[]" 2 st t2]
    ex_begin_ok c ex_opened_slot show ?thesis by (auto simp: l i)
qed

section \<open>Fencing\<close>

lemma owner_newer_le_trans': "owner_newer a c \<Longrightarrow> owner_le a b \<Longrightarrow> owner_newer b c"
  by (auto simp: owner_newer_def owner_le_def)

lemma stale_slot_run: "owner_newer (slot_owner s) (run_owner run) \<Longrightarrow>
    slot_run_begin run p now s = (if seg_expired s now then SegExpired else SegStaleOwner, s)"
  by (simp add: slot_run_begin_def owner_status_stale [THEN iffD2] Let_def)

text \<open>What every operation does to a session whose owner is newer than the caller: it answers a
  failure and leaves the slot as it is.\<close>

definition slot_refuses :: "seg_slot \<Rightarrow> lmb_seg_status \<times> seg_slot \<Rightarrow> bool" where
  "slot_refuses s r \<longleftrightarrow> fst r \<notin> {SegOk, SegDuplicate} \<and> snd r = s"

lemma refuses_with_slot:
  assumes "seg_sessions t k = Some s" "slot_refuses s (f s)"
  shows "fst (with_slot f k t) \<notin> {SegOk, SegDuplicate} \<and> snd (with_slot f k t) = t"
  using with_slot_same [OF assms(1), of f "fst (f s)"] assms(2)
  by (cases "f s") (simp add: slot_refuses_def)

lemma stale_running:
  assumes "slot_inv k s" "owner_newer (slot_owner s) (run_owner run)" "run_session_id run = k"
  shows "\<not> (sl_busy s \<and> seg_run_same (sl_pending s) run)"
proof
  assume b: "sl_busy s \<and> seg_run_same (sl_pending s) run"
  note P = seg_run_same_phase [OF assms(1,3) b [THEN conjunct1] b [THEN conjunct2]]
  have "run_owner (sl_pending s) = run_owner run"
    using b by (simp add: seg_run_same_def owner_relation_0)
  with P(2) assms(2) show False by simp
qed

lemma stale_restoring:
  assumes "slot_inv k s" "owner_newer (slot_owner s) (tr_owner tr)" "\<not> lmb_seg_id_is_zero (tr_request_id tr)"
    "sl_busy s" "tr_request_id (sl_pending_restore s) = tr_request_id tr"
  shows "tr_owner tr \<noteq> tr_owner (sl_pending_restore s)"
proof
  assume o: "tr_owner tr = tr_owner (sl_pending_restore s)"
  have "sl_pending_restore s \<noteq> seg_transfer_zero" using assms(3,5) by (metis id_is_zero_zero zero_fields(2))
  with assms(1,4) have "phase_ok (Restoring (sl_pending_restore s)) s"
    by (auto simp: slot_inv_def slot_phase_def)
  then have "tr_owner tr = slot_owner s \<or> owner_newer (tr_owner tr) (slot_owner s)" using o by auto
  with assms(2) owner_newer_trans owner_newer_irrefl show False by metis
qed

lemma stale_slot_ops:
  assumes inv: "slot_inv k s" and n: "owner_newer (slot_owner s) old"
  shows "op_owner op = old \<Longrightarrow> slot_refuses s (slot_reopen op now s)"
    "run_owner run = old \<Longrightarrow> slot_refuses s (slot_run_begin run p now s)"
    "run_owner run = old \<Longrightarrow> run_session_id run = k \<Longrightarrow> slot_refuses s (slot_run_commit run now s)"
    "run_owner run = old \<Longrightarrow> run_session_id run = k \<Longrightarrow> slot_refuses s (slot_run_abort run s)"
    "tr_owner tr = old \<Longrightarrow> slot_refuses s (slot_snapshot_check tr now s)"
    "tr_owner tr = old \<Longrightarrow> slot_refuses s (slot_restore_commit tr now s)"
    "tr_owner tr = old \<Longrightarrow> slot_refuses s (slot_restore_begin tr now s)"
    "tr_owner tr = old \<Longrightarrow> \<not> lmb_seg_id_is_zero (tr_request_id tr) \<Longrightarrow>
       slot_refuses s (slot_restore_finish tr c now s)"
    "slot_refuses s (slot_fence old now s)"
    "ct_owner ct = old \<Longrightarrow> slot_close ct s = SegStaleOwner"
proof -
  note R = slot_refuses_def
  from n have st: "seg_owner_status old (slot_owner s) = SegStaleOwner"
    and rel: "seg_owner_relation old (slot_owner s) < 0"
    by (simp_all add: owner_status_stale owner_relation_neg)
  have ne: "slot_owner s \<noteq> old" using n by auto
  show "slot_refuses s (slot_reopen op now s)" if "op_owner op = old"
    using st ne that by (simp add: R slot_reopen_def seg_open_equal_def owner_relation_0)
  show "slot_refuses s (slot_run_begin run p now s)" if "run_owner run = old"
    using n that by (simp add: R stale_slot_run)
  show "slot_refuses s (slot_run_commit run now s)" "slot_refuses s (slot_run_abort run s)"
    if "run_owner run = old" "run_session_id run = k"
    using stale_running [OF inv, of run] n that by (auto simp: R slot_run_commit_def slot_run_abort_def)
  show "slot_refuses s (slot_snapshot_check tr now s)" if "tr_owner tr = old"
    using st that by (simp add: R slot_snapshot_check_def)
  show "slot_refuses s (slot_restore_commit tr now s)" "slot_refuses s (slot_restore_begin tr now s)"
    if "tr_owner tr = old"
    using rel that by (simp_all add: R slot_restore_commit_def slot_restore_begin_def)
  show "slot_refuses s (slot_restore_finish tr c now s)"
    if "tr_owner tr = old" "\<not> lmb_seg_id_is_zero (tr_request_id tr)"
    using stale_restoring [OF inv, of tr] n that
    by (auto simp: R slot_restore_finish_def lmb_seg_id_equal_def owner_relation_0)
  show "slot_refuses s (slot_fence old now s)"
    using rel by (simp add: R slot_fence_def)
  show "slot_close ct s = SegStaleOwner" if "ct_owner ct = old"
    using st that by (simp add: slot_close_def)
qed

text \<open>A call on a session under an owner older than the session's fails and changes nothing.\<close>

lemma stale_call:
  assumes inv: "table_inv t" and s: "seg_sessions t k = Some s" and n: "owner_newer (slot_owner s) old"
    and c: "call_session c = Some k" "call_under c = Some old"
  shows "call_status c t \<notin> {SegOk, SegDuplicate} \<and> seg_apply c t = t"
proof -
  note ops = stale_slot_ops [OF table_inv_slot [OF inv s] n]
  note W = refuses_with_slot [OF s]
  show ?thesis
  proof (cases c)
    case (CallOpen op now)
    with c s W [where f = "slot_reopen op now", OF ops(1)] show ?thesis by (simp add: table_open_eq)
  next
    case (CallRunBegin run p m now)
    with c W [where f = "slot_run_begin run d now" for d, OF ops(2)] show ?thesis by (simp add: lmb_seg_table_run_begin_def)
  next
    case (CallRunCommit run now)
    with c W [where f = "slot_run_commit run now", OF ops(3)] show ?thesis by (simp add: lmb_seg_table_run_commit_def)
  next
    case (CallRunAbort run)
    with c W [where f = "slot_run_abort run", OF ops(4)] show ?thesis by (simp add: lmb_seg_table_run_abort_def)
  next
    case (CallSnapshotCheck tr now)
    with c W [where f = "slot_snapshot_check tr now", OF ops(5)] show ?thesis by (simp add: lmb_seg_table_snapshot_check_def)
  next
    case (CallRestoreCommit tr now)
    with c W [where f = "slot_restore_commit tr now", OF ops(6)] show ?thesis by (simp add: lmb_seg_table_restore_commit_def)
  next
    case (CallRestoreBegin tr now)
    with c W [where f = "slot_restore_begin tr now", OF ops(7)] show ?thesis by (simp add: lmb_seg_table_restore_begin_def)
  next
    case (CallRestoreFinish tr cm now)
    with c W [where f = "slot_restore_finish tr cm now", OF ops(8)] show ?thesis by (simp add: lmb_seg_table_restore_finish_def)
  next
    case (CallFence k2 w now)
    with c W [where f = "slot_fence old now", OF ops(9)] show ?thesis by (simp add: lmb_seg_table_fence_def)
  next
    case (CallClose ct)
    with c s ops(10) [of ct] show ?thesis by (simp add: table_close_eq)
  qed (use c in simp)
qed

text \<open>C2: fencing. Once the owner of a session has been seen in the table, no sequence of calls
  that keeps the session alive lets an older owner back in: every later call on the session, of
  whatever kind, under an owner that this one supersedes (an open, beginning, committing or
  aborting a run, checking a snapshot, installing, beginning or finishing a restore, a fence, a
  close) answers a failure and leaves the table unchanged, even while a run or a restore of the
  newer owner is pending.\<close>

theorem seg_fenced_forever:
  assumes "seg_reachable t" "seg_sessions t k = Some s" "seg_alive k cs t"
    "owner_newer (op_owner (sl_open s)) old"
  shows "\<forall>c. call_session c = Some k \<and> call_under c = Some old \<longrightarrow>
           call_status c (seg_calls cs t) \<notin> {SegOk, SegDuplicate} \<and>
           seg_apply c (seg_calls cs t) = seg_calls cs t"
proof -
  note inv = reachable_inv [OF assms(1)]
  obtain s' where s': "seg_sessions (seg_calls cs t) k = Some s'" using alive_present [OF assms(3)] by blast
  have "owner_newer (slot_owner s') old"
    using owner_newer_le_trans' [OF assms(4)] calls_owner [OF inv assms(3,2) s'] by blast
  with stale_call [OF calls_inv [OF inv] s'] show ?thesis by blast
qed

lemma ex_owner_newer: "owner_newer ex_owner (op_owner ex_open)"
  by (simp add: owner_newer_def owner_le_def ex_owner_def ex_open_owner)

lemma ex_owner_valid: "seg_owner_valid ex_owner" "\<not> lmb_seg_id_is_zero ex_id"
  by code_simp+

definition ex_slot_fenced :: seg_slot where
  "ex_slot_fenced = snd (slot_fence ex_owner 1 (slot_open ex_open 0))"

lemma ex_slot_fence: "slot_fence ex_owner 1 (slot_open ex_open 0) = (SegOk, ex_slot_fenced)"
proof -
  have e: "\<not> seg_expired (slot_open ex_open 0) 1" by (simp add: seg_expired_def seg_deadline_def word_le_nat_alt)
  have "seg_owner_relation ex_owner (op_owner ex_open) = 1"
    using ex_owner_newer by (simp add: owner_relation_1)
  with e show ?thesis by (simp add: ex_slot_fenced_def slot_fence_def)
qed

lemma ex_slot_fenced_owner: "op_owner (sl_open ex_slot_fenced) = ex_owner"
  "op_session_id (sl_open ex_slot_fenced) = ex_id" "sl_state ex_slot_fenced = SlotActive"
proof -
  have e: "\<not> seg_expired (slot_open ex_open 0) 1" by (simp add: seg_expired_def seg_deadline_def word_le_nat_alt)
  have "seg_owner_relation ex_owner (op_owner ex_open) = 1"
    using ex_owner_newer by (simp add: owner_relation_1)
  with e show "op_owner (sl_open ex_slot_fenced) = ex_owner"
    "op_session_id (sl_open ex_slot_fenced) = ex_id" "sl_state ex_slot_fenced = SlotActive"
    by (simp_all add: ex_slot_fenced_def slot_fence_def)
qed

lemma ex_fence_ok: "lmb_seg_table_fence ex_id ex_owner 1 ex_opened = (SegOk, ex_fenced)"
  and ex_fenced_slot: "seg_sessions ex_fenced ex_id = Some ex_slot_fenced"
proof -
  have f: "slot_fits ex_id ex_slot_fenced" by (simp add: slot_fits_def ex_slot_fenced_owner)
  obtain t' where t': "with_slot (slot_fence ex_owner 1) ex_id ex_opened = (SegOk, t')"
    "seg_sessions t' = (seg_sessions ex_opened)(ex_id \<mapsto> ex_slot_fenced)"
    by (rule with_slot_Some [where f = "slot_fence ex_owner 1",
        OF table_inv_wf [OF reachable_inv [OF ex_opened_reachable]] ex_opened_slot ex_slot_fence f])
  then show "lmb_seg_table_fence ex_id ex_owner 1 ex_opened = (SegOk, ex_fenced)"
    "seg_sessions ex_fenced ex_id = Some ex_slot_fenced"
    by (simp_all add: ex_fenced_def lmb_seg_table_fence_def ex_owner_valid)
qed

lemma ex_fenced_reachable: "seg_reachable ex_fenced"
  using reach_call [OF ex_opened_reachable, of "CallFence ex_id ex_owner 1"] by (simp add: ex_fenced_def)

lemma seg_fenced_forever_witness:
  "list_all (\<lambda>c. call_status c ex_fenced \<notin> {SegOk, SegDuplicate} \<and> seg_apply c ex_fenced = ex_fenced)
     [CallOpen ex_open 2, CallRunBegin ex_run (Some ex_payload) 16 2, CallRunCommit ex_run 2,
      CallRunAbort ex_run, CallFence ex_id (op_owner ex_open) 2]"
proof -
  have n: "owner_newer (op_owner (sl_open ex_slot_fenced)) (op_owner ex_open)"
    using ex_owner_newer by (simp add: ex_slot_fenced_owner)
  have a: "seg_alive ex_id [] ex_fenced" by (simp add: ex_fenced_slot)
  have i: "run_session_id ex_run = ex_id"
    by (simp only: ex_run_def ex_open_def lmb_seg_run.select_convs lmb_seg_open.select_convs)
  note F = seg_fenced_forever [OF ex_fenced_reachable ex_fenced_slot a n, unfolded seg_calls.simps]
  have "call_status c ex_fenced \<notin> {SegOk, SegDuplicate} \<and> seg_apply c ex_fenced = ex_fenced"
    if "call_session c = Some ex_id" "call_under c = Some (op_owner ex_open)" for c
    using F that by blast
  then show ?thesis by (simp add: i del: seg_apply.simps call_status.simps)
qed

section \<open>A busy session\<close>

text \<open>The calls that end the run or the restore a session is in.\<close>

fun ends_transaction :: "seg_call \<Rightarrow> bool" where
  "ends_transaction (CallRunCommit run now) = True"
| "ends_transaction (CallRunAbort run) = True"
| "ends_transaction (CallRestoreFinish tr c now) = True"
| "ends_transaction _ = False"

lemma busy_slot_ops:
  assumes "sl_busy s"
  shows "abs_slot (snd (slot_reopen op now s)) = abs_slot s"
    "abs_slot (snd (slot_run_begin run p now s)) = abs_slot s"
    "abs_slot (snd (slot_snapshot_check tr now s)) = abs_slot s"
    "abs_slot (snd (slot_restore_commit tr now s)) = abs_slot s"
    "abs_slot (snd (slot_restore_begin tr now s)) = abs_slot s"
    "abs_slot (snd (slot_fence w now s)) = abs_slot s"
    "slot_close ct s \<noteq> SegOk"
  using assms
  by (simp_all add: slot_reopen_def slot_run_begin_def slot_snapshot_check_def slot_restore_commit_def
      slot_restore_begin_def slot_fence_def slot_close_def Let_def split: option.split)

lemma with_slot_abs:
  assumes inv: "table_inv t" and s: "seg_sessions t k = Some s" and sim: "slot_sim k s (f s)"
    and a: "abs_slot (snd (f s)) = abs_slot s"
  shows "abs_sessions (snd (with_slot f k t)) k = abs_sessions t k"
  using seg_store.modify_sessions [where f = f, OF table_inv_wf [OF inv] s] sim a s
  by (simp add: slot_sim_def slot_inv_fits abs_sessions_def)

text \<open>C8: transactions are exclusive: while a session is inside a run or a restore, every call
  other than commit, abort and finish leaves its owner, sequence, position and pending
  transaction alone, and no close or reap removes it.\<close>

theorem seg_busy_exclusive:
  assumes "seg_reachable t" "seg_sessions t k = Some s" "sl_busy s" "\<not> ends_transaction c"
  shows "abs_sessions (seg_apply c t) k = abs_sessions t k"
proof (cases "call_session c = Some k")
  case False
  then consider k' where "call_session c = Some k'" "k' \<noteq> k" | now where "c = CallReap now"
    by (cases c) auto
  then show ?thesis
  proof cases
    case 1
    then show ?thesis using call_other [OF reachable_inv [OF assms(1)] 1(1), of k] by (simp add: abs_sessions_def)
  next
    case 2
    show ?thesis
    proof (rule reap_cases [OF reachable_inv [OF assms(1)], of now], goal_cases)
      case 1
      with 2 show ?case by simp
    next
      case (2 k' s')
      then have "k' \<noteq> k" using assms(2,3) by (auto simp: seg_reapable_def)
      with 2 \<open>c = CallReap now\<close> remove_other [OF reachable_inv [OF assms(1)] 2(2), of k] show ?case
        by (simp add: abs_sessions_def)
    qed
  qed
next
  case True
  note inv = reachable_inv [OF assms(1)]
  note i = table_inv_slot [OF inv assms(2)] and W = with_slot_abs [OF inv assms(2)]
  note B = busy_slot_ops [OF assms(3)]
  show ?thesis
  proof (cases c)
    case (CallOpen op now)
    with True assms(2) show ?thesis by (simp add: table_open_eq W slot_reopen_sim [OF i] B)
  next
    case (CallRunBegin run p n now)
    with True show ?thesis by (simp add: lmb_seg_table_run_begin_def Let_def W slot_run_begin_sim [OF i] B)
  next
    case (CallSnapshotCheck tr now)
    with True show ?thesis by (simp add: lmb_seg_table_snapshot_check_def W slot_snapshot_check_sim [OF i] B)
  next
    case (CallRestoreCommit tr now)
    with True show ?thesis by (simp add: lmb_seg_table_restore_commit_def W slot_restore_commit_sim [OF i] B)
  next
    case (CallRestoreBegin tr now)
    with True show ?thesis by (simp add: lmb_seg_table_restore_begin_def W slot_restore_begin_sim [OF i] B)
  next
    case (CallFence k' w now)
    with True show ?thesis by (simp add: lmb_seg_table_fence_def W slot_fence_sim [OF i] B)
  next
    case (CallClose ct)
    with True assms(2) show ?thesis by (simp add: table_close_eq B)
  qed (use True assms(4) in simp_all)
qed

lemma seg_busy_exclusive_witness:
  "abs_sessions (seg_apply (CallFence ex_id ex_owner 2) ex_running) ex_id = abs_sessions ex_running ex_id"
proof -
  have b: "sl_busy ex_slot_running" by (simp add: ex_slot_running_def)
  have e: "\<not> ends_transaction (CallFence ex_id ex_owner 2)" by simp
  show ?thesis by (rule seg_busy_exclusive [OF ex_running_reachable ex_running_slot b e])
qed

section \<open>Reaping\<close>

text \<open>The caller's loop: call \<open>reap_expired\<close> until it returns zero.\<close>

fun seg_reap_loop :: "nat \<Rightarrow> u64 \<Rightarrow> seg_table \<Rightarrow> (seg_id list \<times> seg_table) option" where
  "seg_reap_loop 0 now t = None"
| "seg_reap_loop (Suc n) now t =
     (case lmb_seg_table_reap_expired now t of
        (None, t') \<Rightarrow> Some ([], t')
      | (Some k, t') \<Rightarrow> map_option (\<lambda>(ks, t''). (k # ks, t'')) (seg_reap_loop n now t'))"

lemma reap_loop_done:
  "table_inv t \<Longrightarrow> tb_active_count t < n \<Longrightarrow>
   \<exists>ks t'. seg_reap_loop n now t = Some (ks, t') \<and> table_inv t' \<and>
     (\<forall>k. seg_sessions t' k =
        (case seg_sessions t k of Some s \<Rightarrow> if seg_reapable now s then None else Some s | None \<Rightarrow> None)) \<and>
     set ks = {k. \<exists>s. seg_sessions t k = Some s \<and> seg_reapable now s} \<and> distinct ks"
proof (induction n arbitrary: t)
  case 0
  then show ?case by simp
next
  case (Suc n)
  show ?case
  proof (rule reap_cases [OF Suc.prems(1), of now], goal_cases)
    case 1
    then show ?case using Suc.prems by (auto split: option.split)
  next
    case (2 k s)
    let ?t = "seg_remove k t"
    have m: "seg_sessions ?t = (seg_sessions t)(k := None)"
      using 2 Suc.prems by (intro seg_store.remove_sessions table_inv_wf)
    have c: "Suc (tb_active_count ?t) = tb_active_count t"
      using 2 Suc.prems by (intro seg_store.remove_size table_inv_wf)
    have i: "table_inv ?t" using 2 Suc.prems by (intro seg_store.remove_all)
    from Suc.IH [OF i] c Suc.prems(2) obtain ks t' where r: "seg_reap_loop n now ?t = Some (ks, t')" "table_inv t'"
      "\<forall>k'. seg_sessions t' k' =
        (case seg_sessions ?t k' of Some s \<Rightarrow> if seg_reapable now s then None else Some s | None \<Rightarrow> None)"
      "set ks = {k'. \<exists>s. seg_sessions ?t k' = Some s \<and> seg_reapable now s}" "distinct ks" by auto
    then show ?case using 2 m by (auto simp: fun_upd_apply split: option.splits if_splits)
  qed
qed

text \<open>C12: reaping ends and is exact: calling \<open>reap_expired\<close> until it returns zero takes at most one
  call more than there are sessions, returns the id of each expired idle session once, removes
  exactly these and keeps every other session as it is.\<close>

theorem seg_reap_complete:
  assumes "seg_reachable t"
  shows "\<exists>ks t'. seg_reap_loop (tb_active_count t + 1) now t = Some (ks, t') \<and>
    distinct ks \<and> set ks = {k. \<exists>s. seg_sessions t k = Some s \<and> \<not> sl_busy s \<and> seg_expired s now} \<and>
    (\<forall>k. seg_sessions t' k = (if k \<in> set ks then None else seg_sessions t k))"
proof -
  note inv = reachable_inv [OF assms]
  obtain ks t' where r: "seg_reap_loop (tb_active_count t + 1) now t = Some (ks, t')"
    "\<forall>k. seg_sessions t' k =
        (case seg_sessions t k of Some s \<Rightarrow> if seg_reapable now s then None else Some s | None \<Rightarrow> None)"
    "set ks = {k. \<exists>s. seg_sessions t k = Some s \<and> seg_reapable now s}" "distinct ks"
    using reap_loop_done [OF inv, of "tb_active_count t + 1" now] by auto
  have a: "seg_reapable now s \<longleftrightarrow> \<not> sl_busy s \<and> seg_expired s now" if "seg_sessions t k = Some s" for k s
    using table_inv_slot [OF inv that] by (simp add: seg_reapable_def slot_inv_def)
  have "set ks = {k. \<exists>s. seg_sessions t k = Some s \<and> \<not> sl_busy s \<and> seg_expired s now}"
    unfolding r(3) using a by blast
  moreover have "seg_sessions t' k = (if k \<in> set ks then None else seg_sessions t k)" for k
    using r(2,3) by (auto split: option.split)
  ultimately show ?thesis using r(1,4) by blast
qed

lemma seg_reap_complete_witness:
  "\<exists>ks t'. seg_reap_loop (tb_active_count ex_opened + 1) 1000 ex_opened = Some (ks, t') \<and>
     ex_id \<in> set ks \<and> seg_sessions t' ex_id = None"
proof -
  have "seg_expired (slot_open ex_open 0) 1000" by (simp add: seg_expired_def seg_deadline_def)
  with seg_reap_complete [OF ex_opened_reachable, of 1000] ex_opened_slot show ?thesis by auto
qed

end
