(* ===== verification/Scheduler.thy ===== *)
theory Scheduler
  imports Lumabri_Prelude
begin

text \<open>
  The latency predictor of \<^verbatim>\<open>lumabri_scheduler.h\<close>: moving averages of the observed latency, a
  circuit breaker that opens after three failures in a row and backs off exponentially, the score
  that ranks routes and the hedging delay. All fields are machine words, so the sums and
  products wrap as in C; the lemmas state the range in which they do not.
\<close>

record lmb_latency_predictor =
  ewma_us :: u64
  p95_us :: u64
  circuit_until_ms :: u64
  samples :: u32
  consecutive_failures :: u32

definition lmb_predict_init :: "u64 \<Rightarrow> lmb_latency_predictor" where
  "lmb_predict_init initial_us =
     (let us = (if initial_us = 0 then 1000 else initial_us) in
      \<lparr>ewma_us = us, p95_us = us, circuit_until_ms = 0, samples = 0, consecutive_failures = 0\<rparr>)"

definition lmb_predict_observe :: "u64 \<Rightarrow> lmb_latency_predictor \<Rightarrow> lmb_latency_predictor" where
  "lmb_predict_observe sample_us p =
     (let sample_us = (if sample_us = 0 then 1 else sample_us);
          p = (if ewma_us p = 0 then lmb_predict_init sample_us else p)
      in p\<lparr>ewma_us := (ewma_us p * 7 + sample_us) div 8,
           p95_us := (if sample_us > p95_us p then (p95_us p * 7 + sample_us) div 8
                      else (p95_us p * 31 + sample_us) div 32),
           samples := samples p + 1, consecutive_failures := 0, circuit_until_ms := 0\<rparr>)"

definition lmb_predict_failure :: "u64 \<Rightarrow> lmb_latency_predictor \<Rightarrow> lmb_latency_predictor" where
  "lmb_predict_failure now_ms p =
     (let p = (if ewma_us p = 0 then lmb_predict_init 1000 else p);
          p = (if consecutive_failures p < 31
               then p\<lparr>consecutive_failures := consecutive_failures p + 1\<rparr> else p)
      in if consecutive_failures p \<ge> 3
         then let shift = consecutive_failures p - 3;
                  cooldown = push_bit (unat (if shift > 5 then 5 else shift)) (1000 :: u64)
              in p\<lparr>circuit_until_ms := now_ms + cooldown\<rparr>
         else p)"

definition lmb_predict_available :: "lmb_latency_predictor \<Rightarrow> u64 \<Rightarrow> bool" where
  "lmb_predict_available p now_ms \<longleftrightarrow> circuit_until_ms p = 0 \<or> now_ms \<ge> circuit_until_ms p"

definition lmb_predict_score :: "lmb_latency_predictor \<Rightarrow> u32 \<Rightarrow> u64" where
  "lmb_predict_score p queue_ahead =
     (let base = (if ewma_us p \<noteq> 0 then ewma_us p else 1000);
          score = base * (ucast queue_ahead + 1)
      in score + ucast (consecutive_failures p) * base)"

definition lmb_predict_hedge_ms :: "lmb_latency_predictor \<Rightarrow> u32" where
  "lmb_predict_hedge_ms p =
     (if samples p < 8 \<or> p95_us p \<le> ewma_us p + ewma_us p div 2 then 0
      else let delay = (ewma_us p + p95_us p) div 2000;
               delay = (if delay < 2 then 2 else delay);
               delay = (if delay > 250 then 250 else delay)
           in ucast delay)"

section \<open>Averages\<close>

text \<open>Latencies below this bound cannot wrap the products of the averages or of a score.\<close>

abbreviation LATENCY_BOUND :: nat where "LATENCY_BOUND \<equiv> 2 ^ 59"

lemma unat_mult_add:
  fixes p s c :: u64
  assumes "unat p * unat c + unat s < 2 ^ 64"
  shows "unat (p * c + s) = unat p * unat c + unat s"
proof -
  have "unat p * unat c < 2 ^ 64" using assms by linarith
  then have "unat (p * c) = unat p * unat c" by (simp add: unat_word_ariths)
  with assms show ?thesis by (simp add: unat_word_ariths)
qed

lemma average_bounds:
  fixes p s c d :: u64
  assumes "unat p < LATENCY_BOUND" "unat s < LATENCY_BOUND" "unat d = unat c + 1" "unat c \<le> 31" "unat c > 0"
  shows "min (unat p) (unat s) \<le> unat ((p * c + s) div d)" "unat ((p * c + s) div d) \<le> max (unat p) (unat s)"
proof -
  let ?m = "min (unat p) (unat s)" and ?M = "max (unat p) (unat s)"
  have "unat p * unat c \<le> unat p * 31" using assms(4) by (rule mult_le_mono2)
  moreover have "unat p * 31 + unat s < 2 ^ 64" using assms(1,2) by simp
  ultimately have "unat p * unat c + unat s < 2 ^ 64" by linarith
  then have "unat (p * c + s) = unat p * unat c + unat s" by (rule unat_mult_add)
  then have v: "unat ((p * c + s) div d) = (unat p * unat c + unat s) div (unat c + 1)"
    by (simp add: unat_div assms(3))
  have "?m * (unat c + 1) \<le> unat p * unat c + unat s"
    using add_le_mono [OF mult_le_mono1 [of ?m "unat p" "unat c"] min.cobounded2 [of "unat p" "unat s"]]
    by (simp add: algebra_simps)
  then show "?m \<le> unat ((p * c + s) div d)"
    unfolding v by (simp add: less_eq_div_iff_mult_less_eq)
  have "unat p * unat c + unat s \<le> ?M * (unat c + 1)"
    using add_le_mono [OF mult_le_mono1 [of "unat p" ?M "unat c"] max.cobounded2 [of "unat s" "unat p"]]
    by (simp add: algebra_simps)
  then have "(unat p * unat c + unat s) div (unat c + 1) \<le> ?M * (unat c + 1) div (unat c + 1)"
    by (rule div_le_mono)
  also have "?M * (unat c + 1) div (unat c + 1) = ?M"
    by (rule nonzero_mult_div_cancel_right) simp
  finally show "unat ((p * c + s) div d) \<le> ?M"
    unfolding v .
qed

definition predictor_ok :: "lmb_latency_predictor \<Rightarrow> bool" where
  "predictor_ok p \<longleftrightarrow> unat (ewma_us p) < LATENCY_BOUND \<and> unat (p95_us p) < LATENCY_BOUND \<and>
     consecutive_failures p \<le> 31"

lemma init_ok: "unat us < LATENCY_BOUND \<Longrightarrow> predictor_ok (lmb_predict_init us)"
  by (simp add: predictor_ok_def lmb_predict_init_def)

lemma observe_ok:
  assumes "predictor_ok p" "unat us < LATENCY_BOUND"
  shows "predictor_ok (lmb_predict_observe us p)"
    "ewma_us p \<noteq> 0 \<Longrightarrow> us \<noteq> 0 \<Longrightarrow> min (unat (ewma_us p)) (unat us) \<le> unat (ewma_us (lmb_predict_observe us p))"
    "ewma_us p \<noteq> 0 \<Longrightarrow> us \<noteq> 0 \<Longrightarrow> unat (ewma_us (lmb_predict_observe us p)) \<le> max (unat (ewma_us p)) (unat us)"
    "ewma_us p \<noteq> 0 \<Longrightarrow> us \<noteq> 0 \<Longrightarrow> min (unat (p95_us p)) (unat us) \<le> unat (p95_us (lmb_predict_observe us p))"
    "ewma_us p \<noteq> 0 \<Longrightarrow> us \<noteq> 0 \<Longrightarrow> unat (p95_us (lmb_predict_observe us p)) \<le> max (unat (p95_us p)) (unat us)"
proof -
  let ?us = "if us = 0 then 1 else us" and ?p = "if ewma_us p = 0 then lmb_predict_init (if us = 0 then 1 else us) else p"
  have us: "unat ?us < LATENCY_BOUND" using assms(2) by simp
  have p: "predictor_ok ?p" using assms(1) us by (simp add: init_ok)
  have 8: "unat (8 :: u64) = unat (7 :: u64) + 1" "unat (32 :: u64) = unat (31 :: u64) + 1" by simp_all
  have e: "min (unat (ewma_us ?p)) (unat ?us) \<le> unat ((ewma_us ?p * 7 + ?us) div 8)"
    "unat ((ewma_us ?p * 7 + ?us) div 8) \<le> max (unat (ewma_us ?p)) (unat ?us)"
    using p us average_bounds [OF _ _ 8(1), of "ewma_us ?p" ?us] by (simp_all add: predictor_ok_def)
  let ?q = "if ?us > p95_us ?p then (p95_us ?p * 7 + ?us) div 8 else (p95_us ?p * 31 + ?us) div 32"
  have q: "min (unat (p95_us ?p)) (unat ?us) \<le> unat ?q" "unat ?q \<le> max (unat (p95_us ?p)) (unat ?us)"
    using p us average_bounds [OF _ _ 8(1), of "p95_us ?p" ?us] average_bounds [OF _ _ 8(2), of "p95_us ?p" ?us]
    by (simp_all add: predictor_ok_def)
  have o: "lmb_predict_observe us p = ?p\<lparr>ewma_us := (ewma_us ?p * 7 + ?us) div 8, p95_us := ?q,
      samples := samples ?p + 1, consecutive_failures := 0, circuit_until_ms := 0\<rparr>"
    by (simp only: lmb_predict_observe_def Let_def)
  have b: "max (unat (ewma_us ?p)) (unat ?us) < LATENCY_BOUND" "max (unat (p95_us ?p)) (unat ?us) < LATENCY_BOUND"
    using p us by (auto simp: predictor_ok_def)
  show "predictor_ok (lmb_predict_observe us p)"
    unfolding predictor_ok_def o using le_less_trans [OF e(2) b(1)] le_less_trans [OF q(2) b(2)] by simp
  assume nz: "ewma_us p \<noteq> 0" "us \<noteq> 0"
  show "min (unat (ewma_us p)) (unat us) \<le> unat (ewma_us (lmb_predict_observe us p))"
    "unat (ewma_us (lmb_predict_observe us p)) \<le> max (unat (ewma_us p)) (unat us)"
    "min (unat (p95_us p)) (unat us) \<le> unat (p95_us (lmb_predict_observe us p))"
    "unat (p95_us (lmb_predict_observe us p)) \<le> max (unat (p95_us p)) (unat us)"
    unfolding o using nz e q by simp_all
qed

section \<open>The circuit breaker\<close>

text \<open>After \<open>n\<close> failures in a row since the last success.\<close>

fun predict_failures :: "u64 list \<Rightarrow> lmb_latency_predictor \<Rightarrow> lmb_latency_predictor" where
  "predict_failures [] p = p"
| "predict_failures (now # nows) p = predict_failures nows (lmb_predict_failure now p)"

lemma failure_count:
  "ewma_us p \<noteq> 0 \<Longrightarrow> unat (consecutive_failures p) \<le> 31 \<Longrightarrow>
   unat (consecutive_failures (lmb_predict_failure now p)) = min 31 (unat (consecutive_failures p) + 1)"
  by (auto simp: lmb_predict_failure_def Let_def word_less_nat_alt unat_word_ariths)

lemma failure_ewma: "ewma_us p \<noteq> 0 \<Longrightarrow> ewma_us (lmb_predict_failure now p) = ewma_us p"
  by (simp add: lmb_predict_failure_def Let_def)

lemma failures_count:
  "ewma_us p \<noteq> 0 \<Longrightarrow> unat (consecutive_failures p) \<le> 31 \<Longrightarrow>
   unat (consecutive_failures (predict_failures nows p)) = min 31 (unat (consecutive_failures p) + length nows) \<and>
   ewma_us (predict_failures nows p) \<noteq> 0"
proof (induction nows arbitrary: p)
  case Nil
  then show ?case by simp
next
  case (Cons now nows)
  have "unat (consecutive_failures (predict_failures nows (lmb_predict_failure now p))) =
        min 31 (unat (consecutive_failures (lmb_predict_failure now p)) + length nows) \<and>
        ewma_us (predict_failures nows (lmb_predict_failure now p)) \<noteq> 0"
    using Cons.prems by (intro Cons.IH) (simp_all add: failure_ewma failure_count)
  with Cons.prems show ?case by (simp add: failure_count)
qed

lemma failures_append: "predict_failures (xs @ ys) p = predict_failures ys (predict_failures xs p)"
  by (induction xs arbitrary: p) simp_all

text \<open>How long the circuit stays open after the \<open>n\<close>-th failure: 1, 2, 4, .. 32 seconds.\<close>

definition cooldown_ms :: "nat \<Rightarrow> u64" where
  "cooldown_ms n = (if n < 3 then 0 else 1000 * 2 ^ min 5 (n - 3))"

lemma cooldown_from_3: "3 \<le> m \<Longrightarrow> cooldown_ms m = 1000 * 2 ^ min 5 (m - 3)"
  by (simp add: cooldown_ms_def)

lemma failure_circuit:
  assumes "ewma_us p \<noteq> 0" "unat (consecutive_failures p) \<le> 31"
  shows "circuit_until_ms (lmb_predict_failure now p) =
    (if unat (consecutive_failures p) < 2 then circuit_until_ms p
     else now + cooldown_ms (min 31 (unat (consecutive_failures p) + 1)))"
proof -
  let ?c = "consecutive_failures p"
  let ?n = "if ?c < 31 then ?c + 1 else ?c"
  have n: "unat ?n = min 31 (unat ?c + 1)"
    using assms(2) by (auto simp: word_less_nat_alt unat_word_ariths)
  have s: "unat (if ?n - 3 > 5 then 5 else ?n - 3) = min 5 (unat ?n - 3)" if "?n \<ge> 3"
    using that by (auto simp: word_less_nat_alt word_le_nat_alt unat_sub)
  have f: "circuit_until_ms (lmb_predict_failure now p) =
      (if ?n \<ge> 3 then now + push_bit (unat (if ?n - 3 > 5 then 5 else ?n - 3)) 1000 else circuit_until_ms p)"
    using assms(1) by (cases "?c < 31") (simp_all add: lmb_predict_failure_def Let_def)
  show ?thesis
  proof (cases "unat ?c < 2")
    case True
    with n have "\<not> ?n \<ge> 3" by (simp add: word_le_nat_alt)
    with True show ?thesis unfolding f by (simp only: if_True if_False)
  next
    case False
    with n have g: "?n \<ge> 3" by (simp add: word_le_nat_alt)
    have u: "3 \<le> unat ?n" using g by (simp add: word_le_nat_alt)
    have "circuit_until_ms (lmb_predict_failure now p) =
        now + push_bit (unat (if ?n - 3 > 5 then 5 else ?n - 3)) 1000"
      unfolding f by (rule if_P [OF g])
    also have "\<dots> = now + cooldown_ms (unat ?n)"
      unfolding s [OF g] cooldown_from_3 [OF u] by (simp only: push_bit_eq_mult)
    finally have "circuit_until_ms (lmb_predict_failure now p) = now + cooldown_ms (unat ?n)" .
    then show ?thesis using False by (simp only: n if_False)
  qed
qed

section \<open>Properties\<close>

text \<open>The circuit breaker: starting from a working predictor, after \<open>n\<close> failures in a row
  (at the given times, no success between) the failure count is \<open>n\<close>, saturating at 31; the
  circuit is untouched below three failures and from the third on it stays open for 1, 2, 4, ..
  and at most 32 seconds after the last failure; the next success closes it.\<close>

lemma predict_circuit_breaker:
  assumes "predictor_ok p" "ewma_us p \<noteq> 0" "consecutive_failures p = 0"
  shows "unat (consecutive_failures (predict_failures (nows @ [now]) p)) = min 31 (length nows + 1) \<and>
    circuit_until_ms (predict_failures (nows @ [now]) p) =
      (if length nows < 2 then circuit_until_ms p else now + cooldown_ms (min 31 (length nows + 1))) \<and>
    lmb_predict_available (lmb_predict_observe us (predict_failures (nows @ [now]) p)) t"
proof (intro conjI)
  let ?q = "predict_failures nows p"
  have c: "unat (consecutive_failures ?q) = min 31 (length nows)" "ewma_us ?q \<noteq> 0"
    using failures_count [OF assms(2), of nows] assms(3) by simp_all
  show "unat (consecutive_failures (predict_failures (nows @ [now]) p)) = min 31 (length nows + 1)"
    using failures_count [OF assms(2), of "nows @ [now]"] assms(3) by simp
  have early: "circuit_until_ms (predict_failures xs p) = circuit_until_ms p" if "length xs < 3" for xs
    using that
  proof (induction xs rule: rev_induct)
    case Nil
    then show ?case by simp
  next
    case (snoc x xs)
    then have "circuit_until_ms (predict_failures xs p) = circuit_until_ms p" by simp
    moreover have "unat (consecutive_failures (predict_failures xs p)) < 2" "ewma_us (predict_failures xs p) \<noteq> 0"
      using failures_count [OF assms(2), of xs] assms(3) snoc.prems by simp_all
    ultimately show ?case by (simp add: failures_append failure_circuit)
  qed
  show "circuit_until_ms (predict_failures (nows @ [now]) p) =
      (if length nows < 2 then circuit_until_ms p else now + cooldown_ms (min 31 (length nows + 1)))"
  proof (cases "length nows < 2")
    case True
    then show ?thesis using early [of "nows @ [now]"] by simp
  next
    case False
    then show ?thesis
      using failure_circuit [OF c(2), of now] c(1) by (simp add: failures_append min_def)
  qed
  show "lmb_predict_available (lmb_predict_observe us (predict_failures (nows @ [now]) p)) t"
    by (simp add: lmb_predict_available_def lmb_predict_observe_def Let_def)
qed

lemma predict_circuit_breaker_witness:
  "circuit_until_ms (predict_failures [10, 20, 30, 40] (lmb_predict_init 500)) = 2040"
proof -
  have "predictor_ok (lmb_predict_init 500)" by (simp add: init_ok)
  moreover have "ewma_us (lmb_predict_init 500) \<noteq> 0" "consecutive_failures (lmb_predict_init 500) = 0"
    by (simp_all add: lmb_predict_init_def)
  ultimately show ?thesis
    using predict_circuit_breaker [of "lmb_predict_init 500" "[10, 20, 30]" 40] by (simp add: cooldown_ms_def)
qed

text \<open>An observation is an average: below the bound on latencies nothing wraps, the new mean and
  the new tail estimate lie between the old value and the sample, and the state stays in range.\<close>

lemma predict_observe_average:
  assumes "predictor_ok p" "ewma_us p \<noteq> 0" "us \<noteq> 0" "unat us < LATENCY_BOUND"
  shows "predictor_ok (lmb_predict_observe us p) \<and>
    unat (ewma_us (lmb_predict_observe us p)) \<in> {min (unat (ewma_us p)) (unat us)..max (unat (ewma_us p)) (unat us)} \<and>
    unat (p95_us (lmb_predict_observe us p)) \<in> {min (unat (p95_us p)) (unat us)..max (unat (p95_us p)) (unat us)}"
  using observe_ok [OF assms(1,4)] assms(2,3) by simp

lemma predict_observe_average_witness:
  "unat (ewma_us (lmb_predict_observe 900 (lmb_predict_init 500))) \<in> {500..900}"
proof -
  have "predictor_ok (lmb_predict_init 500)" by (simp add: init_ok)
  moreover have "ewma_us (lmb_predict_init 500) = 500" "(900 :: u64) \<noteq> 0" "unat (900 :: u64) < LATENCY_BOUND"
    by (simp_all add: lmb_predict_init_def)
  ultimately show ?thesis
    using predict_observe_average [of "lmb_predict_init 500" 900] by (simp del: atLeastAtMost_iff)
qed

end
