(* ===== verification/Discovery.thy ===== *)
theory Discovery
  imports Segment_Codec Scheduler
begin

text \<open>
  The placement vocabulary of \<^verbatim>\<open>lumabri_segment_discovery.h\<close>/\<^verbatim>\<open>.c\<close>: what a node advertises, what a
  chat asks for, when they match, when a route snapshot covers the requested layers, the compute
  samples and the completion estimate. A snapshot's \<open>entries\<close> array has \<open>LMB_SEG_ROUTE_MAX\<close>
  elements of which the first \<open>count\<close> are used.
\<close>

abbreviation LMB_SEG_DISCOVERY_MAGIC :: u32 where "LMB_SEG_DISCOVERY_MAGIC \<equiv> 0x31444753"
abbreviation LMB_SEG_DISCOVERY_VERSION :: u32 where "LMB_SEG_DISCOVERY_VERSION \<equiv> 1"
abbreviation LMB_SEG_MODEL_MAX :: nat where "LMB_SEG_MODEL_MAX \<equiv> 64"
abbreviation LMB_SEG_PEER_NAME_MAX :: nat where "LMB_SEG_PEER_NAME_MAX \<equiv> 64"
abbreviation LMB_SEG_ADDR_MAX :: nat where "LMB_SEG_ADDR_MAX \<equiv> 64"
abbreviation LMB_SEG_ROUTE_MAX :: nat where "LMB_SEG_ROUTE_MAX \<equiv> 64"
abbreviation LMB_SEG_COMPUTE_MIN_SAMPLES :: u32 where "LMB_SEG_COMPUTE_MIN_SAMPLES \<equiv> 8"
abbreviation LMB_SEG_COMPUTE_MAX_US :: u64 where "LMB_SEG_COMPUTE_MAX_US \<equiv> 3600000000"
abbreviation LMB_SEG_ADVERT_DRAINING :: u32 where "LMB_SEG_ADVERT_DRAINING \<equiv> 1"
abbreviation LMB_SEG_ADVERT_FALLBACK :: u32 where "LMB_SEG_ADVERT_FALLBACK \<equiv> 2"
abbreviation LMB_SEG_ADVERT_RELAY_ONLY :: u32 where "LMB_SEG_ADVERT_RELAY_ONLY \<equiv> 4"
abbreviation LMB_SEG_TRANSPORT_DIRECT :: u32 where "LMB_SEG_TRANSPORT_DIRECT \<equiv> 1"
abbreviation LMB_SEG_TRANSPORT_RELAY :: u32 where "LMB_SEG_TRANSPORT_RELAY \<equiv> 2"

record lmb_seg_compute =
  cp_lease_id :: seg_id
  cp_fencing_epoch :: u64
  cp_ewma_us :: u64
  cp_samples :: u32

record lmb_seg_advert =
  av_peer_name :: bytes
  av_addr :: bytes
  av_model :: bytes
  av_model_root :: bytes
  av_tokenizer_root :: bytes
  av_layer_begin :: u32
  av_layer_end :: u32
  av_max_context :: u32
  av_max_rows :: u32
  av_state_dtype :: u32
  av_state_width :: u32
  av_max_sessions :: u32
  av_active_sessions :: u32
  av_queue_depth :: u32
  av_inflight :: u32
  av_flags :: u32
  av_capabilities :: u64
  av_resident_ram_bytes :: u64
  av_resident_vram_bytes :: u64
  av_engine_id :: bytes
  av_state_schema :: bytes
  av_numeric_class :: bytes

record lmb_seg_query =
  qy_model :: bytes
  qy_model_root :: bytes
  qy_tokenizer_root :: bytes
  qy_layer_begin :: u32
  qy_layer_end :: u32
  qy_context_tokens :: u32
  qy_rows :: u32
  qy_state_dtype :: u32
  qy_state_width :: u32
  qy_required_capabilities :: u64
  qy_engine_id :: bytes
  qy_state_schema :: bytes
  qy_numeric_class :: bytes

record lmb_seg_route_entry =
  re_advert :: lmb_seg_advert
  re_owner :: lmb_seg_owner
  re_transport :: u32
  re_latency :: lmb_latency_predictor
  re_predicted_us :: u64
  re_last_probe_ms :: u64
  re_compute :: lmb_seg_compute
  re_last_compute_ms :: u64

record lmb_seg_route_snapshot =
  rs_route_generation :: u64
  rs_fetched_at_ms :: u64
  rs_complete :: u32
  rs_count :: u32
  rs_entries :: "lmb_seg_route_entry list"

definition rs_used :: "lmb_seg_route_snapshot \<Rightarrow> lmb_seg_route_entry list" where
  "rs_used s = take (unat (rs_count s)) (rs_entries s)"

section \<open>Validity and matching\<close>

definition disc_str_valid :: "bytes \<Rightarrow> bool" where
  "disc_str_valid s \<longleftrightarrow> c_term s \<and> c_str s \<noteq> []"

definition disc_root_valid :: "bytes \<Rightarrow> bool" where
  "disc_root_valid root \<longleftrightarrow> fold (\<lambda>b any. any OR ucast b) root (0 :: u32) \<noteq> 0"

definition disc_backend_valid :: "u64 \<Rightarrow> bool" where
  "disc_backend_valid caps \<longleftrightarrow>
     (let backends = LMB_SEG_CAP_CPU OR LMB_SEG_CAP_CUDA OR LMB_SEG_CAP_HIP OR
                     LMB_SEG_CAP_METAL OR LMB_SEG_CAP_VULKAN
      in caps AND backends \<noteq> 0)"

definition lmb_seg_advert_valid :: "lmb_seg_advert \<Rightarrow> bool" where
  "lmb_seg_advert_valid a \<longleftrightarrow>
     \<not> (\<not> disc_str_valid (av_peer_name a) \<or> \<not> disc_str_valid (av_addr a) \<or>
        \<not> disc_str_valid (av_model a) \<or> \<not> disc_root_valid (av_model_root a) \<or>
        \<not> disc_root_valid (av_tokenizer_root a) \<or>
        av_layer_begin a \<ge> av_layer_end a \<or>
        av_max_context a = 0 \<or> av_max_context a > LMB_SEG_MAX_CONTEXT \<or>
        av_max_rows a = 0 \<or> av_max_rows a > LMB_SEG_MAX_ROWS \<or>
        lmb_seg_dtype_size (av_state_dtype a) = 0 \<or>
        av_state_width a = 0 \<or> av_state_width a > LMB_SEG_MAX_STATE_WIDTH \<or>
        av_max_sessions a = 0 \<or> av_active_sessions a > av_max_sessions a \<or>
        av_flags a AND NOT (LMB_SEG_ADVERT_DRAINING OR LMB_SEG_ADVERT_FALLBACK OR
                            LMB_SEG_ADVERT_RELAY_ONLY) \<noteq> 0 \<or>
        av_capabilities a AND NOT LMB_SEG_CAP_KNOWN_MASK \<noteq> 0 \<or>
        av_capabilities a AND LMB_SEG_CAP_RANGE_NATIVE = 0 \<or>
        av_capabilities a AND LMB_SEG_CAP_MULTI_SESSION = 0 \<or>
        \<not> disc_backend_valid (av_capabilities a) \<or>
        \<not> disc_str_valid (av_engine_id a) \<or> \<not> disc_str_valid (av_state_schema a) \<or>
        \<not> disc_str_valid (av_numeric_class a))"

definition lmb_seg_query_valid :: "lmb_seg_query \<Rightarrow> bool" where
  "lmb_seg_query_valid q \<longleftrightarrow>
     \<not> (\<not> disc_str_valid (qy_model q) \<or> \<not> disc_root_valid (qy_model_root q) \<or>
        \<not> disc_root_valid (qy_tokenizer_root q) \<or>
        qy_layer_begin q \<ge> qy_layer_end q \<or>
        qy_context_tokens q = 0 \<or> qy_context_tokens q > LMB_SEG_MAX_CONTEXT \<or>
        qy_rows q = 0 \<or> qy_rows q > LMB_SEG_MAX_ROWS \<or>
        lmb_seg_dtype_size (qy_state_dtype q) = 0 \<or>
        qy_state_width q = 0 \<or> qy_state_width q > LMB_SEG_MAX_STATE_WIDTH \<or>
        qy_required_capabilities q AND NOT LMB_SEG_CAP_KNOWN_MASK \<noteq> 0 \<or>
        \<not> disc_str_valid (qy_engine_id q) \<or> \<not> disc_str_valid (qy_state_schema q) \<or>
        \<not> disc_str_valid (qy_numeric_class q))"

definition lmb_seg_advert_compatible :: "lmb_seg_advert \<Rightarrow> lmb_seg_query \<Rightarrow> bool" where
  "lmb_seg_advert_compatible a q \<longleftrightarrow>
     lmb_seg_advert_valid a \<and> lmb_seg_query_valid q \<and>
     av_flags a AND LMB_SEG_ADVERT_DRAINING = 0 \<and>
     c_str (av_model a) = c_str (qy_model q) \<and>
     av_model_root a = qy_model_root q \<and>
     av_tokenizer_root a = qy_tokenizer_root q \<and>
     av_layer_begin a < qy_layer_end q \<and> av_layer_end a > qy_layer_begin q \<and>
     av_max_context a \<ge> qy_context_tokens q \<and> av_max_rows a \<ge> qy_rows q \<and>
     av_state_dtype a = qy_state_dtype q \<and> av_state_width a = qy_state_width q \<and>
     av_capabilities a AND qy_required_capabilities q = qy_required_capabilities q \<and>
     c_str (av_engine_id a) = c_str (qy_engine_id q) \<and>
     c_str (av_state_schema a) = c_str (qy_state_schema q) \<and>
     c_str (av_numeric_class a) = c_str (qy_numeric_class q)"

section \<open>Coverage\<close>

text \<open>One pass over the entries: the reachable boundaries and whether the pass added one.\<close>

definition route_step ::
  "lmb_seg_query \<Rightarrow> lmb_seg_route_entry \<Rightarrow> u32 list \<times> bool \<Rightarrow> u32 list \<times> bool" where
  "route_step q e st =
     (let a = re_advert e; (reachable, changed) = st in
      if \<not> lmb_seg_advert_compatible a q \<or>
         av_layer_begin a < qy_layer_begin q \<or> av_layer_end a > qy_layer_end q
      then (reachable, changed)
      else let begin_reachable = list_ex (\<lambda>r. r = av_layer_begin a) reachable;
               end_known = list_ex (\<lambda>r. r = av_layer_end a) reachable in
        if begin_reachable \<and> \<not> end_known \<and> length reachable < LMB_SEG_ROUTE_MAX + 1
        then (reachable @ [av_layer_end a], True)
        else (reachable, changed))"

fun route_passes :: "lmb_seg_query \<Rightarrow> lmb_seg_route_entry list \<Rightarrow> nat \<Rightarrow> u32 list \<Rightarrow> u32 list" where
  "route_passes q es 0 reachable = reachable"
| "route_passes q es (Suc passes) reachable =
     (let (reachable, changed) = fold (route_step q) es (reachable, False) in
      if \<not> changed then reachable else route_passes q es passes reachable)"

definition lmb_seg_route_complete :: "lmb_seg_route_snapshot \<Rightarrow> lmb_seg_query \<Rightarrow> bool" where
  "lmb_seg_route_complete s q \<longleftrightarrow>
     (if \<not> lmb_seg_query_valid q \<or> unat (rs_count s) > LMB_SEG_ROUTE_MAX then False
      else let reachable = route_passes q (rs_used s) (unat (rs_count s)) [qy_layer_begin q]
           in list_ex (\<lambda>r. r = qy_layer_end q) reachable)"

text \<open>The reference: exact ranges chained end to begin.\<close>

definition route_edges :: "lmb_seg_query \<Rightarrow> lmb_seg_route_entry list \<Rightarrow> (u32 \<times> u32) set" where
  "route_edges q es =
     {(av_layer_begin (re_advert e), av_layer_end (re_advert e)) | e.
        e \<in> set es \<and> lmb_seg_advert_compatible (re_advert e) q \<and>
        qy_layer_begin q \<le> av_layer_begin (re_advert e) \<and> av_layer_end (re_advert e) \<le> qy_layer_end q}"

definition route_ok :: "lmb_seg_query \<Rightarrow> lmb_seg_route_entry list \<Rightarrow> u32 list \<Rightarrow> bool" where
  "route_ok q es r \<longleftrightarrow> distinct r \<and> qy_layer_begin q \<in> set r \<and>
     set r \<subseteq> insert (qy_layer_begin q) (snd ` route_edges q es) \<and>
     (\<forall>x \<in> set r. (qy_layer_begin q, x) \<in> (route_edges q es)\<^sup>*)"

lemma finite_route_edges: "finite (snd ` route_edges q es)" "card (snd ` route_edges q es) \<le> length es"
proof -
  have "snd ` route_edges q es \<subseteq> (\<lambda>e. av_layer_end (re_advert e)) ` set es"
    by (auto simp: route_edges_def)
  moreover have "card ((\<lambda>e. av_layer_end (re_advert e)) ` set es) \<le> length es"
    using card_image_le [of "set es"] card_length [of es] by (meson List.finite_set le_trans)
  ultimately show "finite (snd ` route_edges q es)" "card (snd ` route_edges q es) \<le> length es"
    by (auto intro: finite_subset dest: card_mono [rotated])
qed

lemma route_ok_length:
  assumes "route_ok q es r"
  shows "length r \<le> length es + 1"
    "x \<in> snd ` route_edges q es \<Longrightarrow> x \<notin> set r \<Longrightarrow> length r \<le> length es"
proof -
  let ?B = "insert (qy_layer_begin q) (snd ` route_edges q es)"
  have f: "finite ?B" using finite_route_edges by simp
  have b: "card ?B \<le> length es + 1"
    using finite_route_edges [of q es] card_insert_le_m1 [of "length es + 1" "snd ` route_edges q es"] by simp
  have r: "length r = card (set r)" "set r \<subseteq> ?B"
    using assms by (simp_all add: route_ok_def distinct_card)
  show "length r \<le> length es + 1" using card_mono [OF f r(2)] b r(1) by linarith
  show "length r \<le> length es" if "x \<in> snd ` route_edges q es" "x \<notin> set r"
  proof -
    from that r(2) have "set r \<subset> ?B" by blast
    from psubset_card_mono [OF f this] b r(1) show ?thesis by linarith
  qed
qed

lemma route_step_cases:
  assumes ok: "route_ok q es r" and len: "length es \<le> LMB_SEG_ROUTE_MAX" and e: "e \<in> set es"
  obtains (same) "route_step q e (r, ch) = (r, ch)"
      "\<And>x y. (x, y) \<in> route_edges q [e] \<Longrightarrow> x \<in> set r \<Longrightarrow> y \<in> set r"
  | (new) y where "route_step q e (r, ch) = (r @ [y], True)" "route_ok q es (r @ [y])"
proof (cases "\<exists>x y. (x, y) \<in> route_edges q [e] \<and> x \<in> set r \<and> y \<notin> set r")
  case True
  then obtain x y where xy: "(x, y) \<in> route_edges q [e]" "x \<in> set r" "y \<notin> set r" by blast
  then have E: "(x, y) \<in> route_edges q es" using e by (auto simp: route_edges_def)
  then have y: "y \<in> snd ` route_edges q es" by force
  with ok xy(3) len have "length r < LMB_SEG_ROUTE_MAX + 1"
    using route_ok_length(2) [OF ok y xy(3)] by simp
  then have "route_step q e (r, ch) = (r @ [y], True)"
    using xy by (auto simp: route_step_def route_edges_def list_ex_iff not_less Let_def)
  moreover have "route_ok q es (r @ [y])"
    using ok xy E y by (auto simp: route_ok_def intro: rtrancl_into_rtrancl)
  ultimately show thesis by (rule new)
next
  case False
  then have "route_step q e (r, ch) = (r, ch)"
    by (auto simp: route_step_def route_edges_def list_ex_iff not_less Let_def)
  with False show thesis using same by blast
qed

lemma route_pass:
  assumes "length es \<le> LMB_SEG_ROUTE_MAX" "set es' \<subseteq> set es" "route_ok q es r"
  shows "\<exists>r' ch'. fold (route_step q) es' (r, ch) = (r', ch') \<and> route_ok q es r' \<and>
    length r \<le> length r' \<and> (ch' \<and> \<not> ch \<longrightarrow> length r < length r') \<and> (ch \<longrightarrow> ch') \<and>
    (\<not> ch' \<longrightarrow> r' = r \<and> (\<forall>(x, y) \<in> route_edges q es'. x \<in> set r \<longrightarrow> y \<in> set r))"
  using assms(2,3)
proof (induction es' arbitrary: r ch)
  case Nil
  then show ?case by (auto simp: route_edges_def)
next
  case (Cons e es')
  have E: "route_edges q (e # es') = route_edges q [e] \<union> route_edges q es'"
    by (auto simp: route_edges_def)
  from Cons.prems have e: "e \<in> set es" by simp
  show ?case
  proof (rule route_step_cases [OF Cons.prems(2) assms(1) e, of ch])
    assume s: "route_step q e (r, ch) = (r, ch)"
      "\<And>x y. (x, y) \<in> route_edges q [e] \<Longrightarrow> x \<in> set r \<Longrightarrow> y \<in> set r"
    then show ?thesis using Cons.IH [of r ch] Cons.prems by (simp add: E) blast
  next
    fix y
    assume s: "route_step q e (r, ch) = (r @ [y], True)" "route_ok q es (r @ [y])"
    then show ?thesis using Cons.IH [of "r @ [y]" True] Cons.prems by auto
  qed
qed

lemma route_passes_closed:
  assumes len: "length es \<le> LMB_SEG_ROUTE_MAX"
  shows "route_ok q es r \<Longrightarrow> length es + 1 \<le> length r + n \<Longrightarrow>
    route_ok q es (route_passes q es n r) \<and>
    (\<forall>(x, y) \<in> route_edges q es. x \<in> set (route_passes q es n r) \<longrightarrow> y \<in> set (route_passes q es n r))"
proof (induction n arbitrary: r)
  case 0
  have "y \<in> set r" if "(x, y) \<in> route_edges q es" for x y
  proof (rule ccontr)
    assume "y \<notin> set r"
    moreover have "y \<in> snd ` route_edges q es" using that by force
    ultimately show False using route_ok_length(2) [OF 0(1), of y] 0(2) by simp
  qed
  with 0 show ?case by auto
next
  case (Suc n)
  obtain r' ch' where p: "fold (route_step q) es (r, False) = (r', ch')" "route_ok q es r'"
    "ch' \<longrightarrow> length r < length r'"
    "\<not> ch' \<longrightarrow> r' = r \<and> (\<forall>(x, y) \<in> route_edges q es. x \<in> set r \<longrightarrow> y \<in> set r)"
    using route_pass [OF len order_refl Suc.prems(1), of False] by auto
  show ?case
  proof (cases ch')
    case True
    then show ?thesis using Suc.IH [OF p(2)] Suc.prems(2) p(1,3) by simp
  next
    case False
    then show ?thesis using p by simp
  qed
qed

lemma route_complete_iff:
  "lmb_seg_route_complete s q \<longleftrightarrow>
     lmb_seg_query_valid q \<and> unat (rs_count s) \<le> LMB_SEG_ROUTE_MAX \<and>
     (qy_layer_begin q, qy_layer_end q) \<in> (route_edges q (rs_used s))\<^sup>*"
  (is "_ \<longleftrightarrow> _ \<and> _ \<and> (?b, ?e) \<in> ?E\<^sup>*")
proof (cases "lmb_seg_query_valid q \<and> unat (rs_count s) \<le> LMB_SEG_ROUTE_MAX")
  case True
  let ?es = "rs_used s" and ?n = "unat (rs_count s)"
  let ?R = "route_passes q ?es ?n [?b]"
  have len: "length ?es \<le> LMB_SEG_ROUTE_MAX" "length ?es \<le> ?n" using True by (auto simp: rs_used_def)
  have "route_ok q ?es [?b]" by (simp add: route_ok_def)
  from route_passes_closed [OF len(1) this, of ?n] len(2)
  have ok: "route_ok q ?es ?R" and closed: "\<And>x y. (x, y) \<in> ?E \<Longrightarrow> x \<in> set ?R \<Longrightarrow> y \<in> set ?R" by auto
  have "?e \<in> set ?R \<longleftrightarrow> (?b, ?e) \<in> ?E\<^sup>*"
  proof
    assume "?e \<in> set ?R"
    with ok show "(?b, ?e) \<in> ?E\<^sup>*" by (simp add: route_ok_def)
  next
    assume "(?b, ?e) \<in> ?E\<^sup>*"
    then show "?e \<in> set ?R"
      by (induction rule: rtrancl_induct) (use ok closed in \<open>auto simp: route_ok_def\<close>)
  qed
  with True show ?thesis by (simp add: lmb_seg_route_complete_def list_ex_iff)
next
  case False
  then show ?thesis by (auto simp: lmb_seg_route_complete_def)
qed

section \<open>Compute samples\<close>

definition lmb_seg_compute_valid :: "lmb_seg_compute \<Rightarrow> bool" where
  "lmb_seg_compute_valid c \<longleftrightarrow>
     \<not> lmb_seg_id_is_zero (cp_lease_id c) \<and> cp_fencing_epoch c \<noteq> 0 \<and>
     cp_samples c \<noteq> 0 \<and> cp_ewma_us c \<noteq> 0 \<and> cp_ewma_us c \<le> LMB_SEG_COMPUTE_MAX_US"

definition lmb_seg_compute_observe :: "u64 \<Rightarrow> lmb_seg_compute \<Rightarrow> lmb_seg_compute" where
  "lmb_seg_compute_observe sample_us c =
     (if sample_us = 0 then c
      else let sample_us = (if sample_us > LMB_SEG_COMPUTE_MAX_US then LMB_SEG_COMPUTE_MAX_US else sample_us);
               c = c\<lparr>cp_ewma_us := (if cp_samples c = 0 then sample_us
                                   else (cp_ewma_us c * 7 + sample_us) div 8)\<rparr>
           in if cp_samples c < UINT32_MAX then c\<lparr>cp_samples := cp_samples c + 1\<rparr> else c)"

definition lmb_seg_compute_ready :: "lmb_seg_route_entry \<Rightarrow> bool" where
  "lmb_seg_compute_ready entry \<longleftrightarrow>
     cp_samples (re_compute entry) \<ge> LMB_SEG_COMPUTE_MIN_SAMPLES \<and>
     cp_ewma_us (re_compute entry) > 0 \<and>
     cp_ewma_us (re_compute entry) \<le> LMB_SEG_COMPUTE_MAX_US"

definition lmb_seg_completion_us :: "lmb_seg_route_entry \<Rightarrow> u64" where
  "lmb_seg_completion_us entry =
     (let work = ucast (av_queue_depth (re_advert entry)) + ucast (av_inflight (re_advert entry)) + 1 :: u64;
          base = (if re_predicted_us entry \<noteq> 0 then re_predicted_us entry
                  else (if re_transport entry AND LMB_SEG_TRANSPORT_DIRECT \<noteq> 0 then 50000 else 120000) * work)
      in if base \<ge> UINT64_MAX div 4 \<or> \<not> lmb_seg_compute_ready entry then base
         else let compute = cp_ewma_us (re_compute entry) in
           if work > (UINT64_MAX - base) div compute then UINT64_MAX
           else base + work * compute)"

text \<open>The backlog of an entry is added in 64 bits, so it does not wrap.\<close>

lemma unat_work:
  "unat (ucast (av_queue_depth (re_advert e)) + ucast (av_inflight (re_advert e)) + 1 :: u64)
     = unat (av_queue_depth (re_advert e)) + unat (av_inflight (re_advert e)) + 1"
  using unat_u32_less [of "av_queue_depth (re_advert e)"] unat_u32_less [of "av_inflight (re_advert e)"]
  by (simp add: unat_word_ariths)

lemma backlog_less: "unat (av_queue_depth (re_advert e)) + unat (av_inflight (re_advert e)) + 1 < 2 ^ 33"
  using unat_u32_less [of "av_queue_depth (re_advert e)"] unat_u32_less [of "av_inflight (re_advert e)"]
  by simp

text \<open>The estimate in unbounded arithmetic: the base plus the measured compute time of the backlog.\<close>

lemma completion_saturates:
  fixes e :: lmb_seg_route_entry
  defines "work \<equiv> unat (av_queue_depth (re_advert e)) + unat (av_inflight (re_advert e)) + 1"
    and "base \<equiv> if re_predicted_us e \<noteq> 0 then unat (re_predicted_us e)
      else (if re_transport e AND LMB_SEG_TRANSPORT_DIRECT \<noteq> 0 then 50000 else 120000) *
        (unat (av_queue_depth (re_advert e)) + unat (av_inflight (re_advert e)) + 1)"
  shows "unat (lmb_seg_completion_us e) =
     (if base \<ge> (2 ^ 64 - 1) div 4 \<or> \<not> lmb_seg_compute_ready e then base
      else min (2 ^ 64 - 1) (base + work * unat (cp_ewma_us (re_compute e))))"
proof -
  let ?work = "ucast (av_queue_depth (re_advert e)) + ucast (av_inflight (re_advert e)) + 1 :: u64"
  let ?k = "if re_transport e AND LMB_SEG_TRANSPORT_DIRECT \<noteq> 0 then 50000 else 120000 :: u64"
  let ?base = "if re_predicted_us e \<noteq> 0 then re_predicted_us e else ?k * ?work"
  let ?c = "cp_ewma_us (re_compute e)"
  note w = unat_work [of e, folded work_def]
  have "unat ?k * work < 2 ^ 64" using backlog_less [of e] by (simp add: work_def)
  then have k: "unat (?k * ?work) = unat ?k * work"
    using w by (metis unat_mult_exact)
  have b: "unat ?base = base"
    using k by (simp add: base_def work_def)
  have q: "?base \<ge> UINT64_MAX div 4 \<longleftrightarrow> base \<ge> (2 ^ 64 - 1) div 4"
    using b by (simp only: word_le_nat_alt unat_div unat_UINT_MAX) simp
  have def: "lmb_seg_completion_us e = (if ?base \<ge> UINT64_MAX div 4 \<or> \<not> lmb_seg_compute_ready e then ?base
      else if ?work > (UINT64_MAX - ?base) div ?c then UINT64_MAX else ?base + ?work * ?c)"
    by (simp only: lmb_seg_completion_us_def Let_def)
  show ?thesis
  proof (cases "?base \<ge> UINT64_MAX div 4 \<or> \<not> lmb_seg_compute_ready e")
    case True
    then have "lmb_seg_completion_us e = ?base" by (simp only: def if_True)
    with True q b show ?thesis by (simp only:) auto
  next
    case False
    then have c: "unat ?c > 0" by (simp add: lmb_seg_compute_ready_def word_less_nat_alt)
    have B: "base < 2 ^ 64" using b unat_u64_less [of ?base] by simp
    have m: "unat (UINT64_MAX - ?base) = 2 ^ 64 - 1 - base"
      using b unat_UINT_MAX(2) by (subst unat_sub) (simp_all only: word_order.extremum)
    have g: "?work > (UINT64_MAX - ?base) div ?c \<longleftrightarrow> base + work * unat ?c > 2 ^ 64 - 1"
    proof -
      have "?work > (UINT64_MAX - ?base) div ?c \<longleftrightarrow> work > (2 ^ 64 - 1 - base) div unat ?c"
        by (simp only: word_less_nat_alt unat_div m w)
      also have "\<dots> \<longleftrightarrow> 2 ^ 64 - 1 - base < work * unat ?c"
        using c by (simp add: div_less_iff_less_mult)
      also have "\<dots> \<longleftrightarrow> base + work * unat ?c > 2 ^ 64 - 1"
        using B by linarith
      finally show ?thesis .
    qed
    show ?thesis
    proof (cases "base + work * unat ?c > 2 ^ 64 - 1")
      case True
      then have "lmb_seg_completion_us e = UINT64_MAX" using False g by (simp only: def if_True if_False)
      with True False q show ?thesis by (simp only: unat_UINT_MAX) auto
    next
      case ng: False
      then have e: "lmb_seg_completion_us e = ?base + ?work * ?c" using False g by (simp only: def if_False)
      have l: "work * unat ?c < 2 ^ 64" using ng by simp
      have "unat (?work * ?c) = work * unat ?c"
        using unat_mult_exact [of ?work ?c] l w by simp
      then have "unat (?base + ?work * ?c) = base + work * unat ?c"
        using ng b by (simp only: unat_word_ariths) simp
      with ng False q e show ?thesis by (simp only:) auto
    qed
  qed
qed

end
