(* ===== verification/Discovery_Codec.thy ===== *)
theory Discovery_Codec
  imports Discovery Segment_Messages
begin

text \<open>
  The wire format of the placement messages (\<^verbatim>\<open>lumabri_segment_discovery.c\<close>): advert, query,
  registration reply, route snapshot and the compute sideband. They are written with the
  \<open>LmbBuf\<close> writers and read with \<open>DiscCur\<close>, whose readers are the \<open>SegCur\<close> readers.
  \<open>disc_now_ms ()\<close> at the end of a decode is the argument \<open>now\<close>.
\<close>

section \<open>The cursor\<close>

definition disc_cur_bytes :: "nat \<Rightarrow> cursor \<Rightarrow> (bytes \<times> cursor) option" where
  "disc_cur_bytes n c = (if n > length c then None else Some (take n c, drop n c))"

definition disc_cur_u16 :: "cursor \<Rightarrow> (u16 \<times> cursor) option" where
  "disc_cur_u16 c = do {
     (p, c) \<leftarrow> disc_cur_bytes 2 c;
     Some (ucast (p ! 0) OR push_bit 8 (ucast (p ! 1)), c)
   }"

definition disc_cur_u32 :: "cursor \<Rightarrow> (u32 \<times> cursor) option" where
  "disc_cur_u32 c = do { (p, c) \<leftarrow> disc_cur_bytes 4 c; Some (lmb_get32 p, c) }"

definition disc_cur_u64 :: "cursor \<Rightarrow> (u64 \<times> cursor) option" where
  "disc_cur_u64 c = do {
     (lo, c) \<leftarrow> disc_cur_u32 c;
     (hi, c) \<leftarrow> disc_cur_u32 c;
     Some (ucast lo OR push_bit 32 (ucast hi), c)
   }"

definition disc_cur_str :: "nat \<Rightarrow> cursor \<Rightarrow> (bytes \<times> cursor) option" where
  "disc_cur_str cap c =
     (if cap = 0 then None
      else case disc_cur_u16 c of
        None \<Rightarrow> None
      | Some (n, c) \<Rightarrow>
          if n = 0 \<or> unat n \<ge> cap \<or> unat n > length c \<or> 0 \<in> set (take (unat n) c) then None
          else Some (c_buf cap (take (unat n) c), drop (unat n) c))"

lemma disc_cur_eq [wire_simps]:
  "disc_cur_bytes = seg_cur_bytes" "disc_cur_u16 = seg_cur_u16" "disc_cur_u32 = seg_cur_u32"
  "disc_cur_u64 = seg_cur_u64" "disc_cur_str = seg_cur_str"
proof -
  show b: "disc_cur_bytes = seg_cur_bytes"
    by (intro ext) (simp add: disc_cur_bytes_def seg_cur_bytes_def)
  show u16: "disc_cur_u16 = seg_cur_u16"
    by (intro ext) (auto simp: disc_cur_u16_def seg_cur_u16_def b split: option.split)
  show u32: "disc_cur_u32 = seg_cur_u32"
    by (intro ext) (auto simp: disc_cur_u32_def seg_cur_u32_def b split: option.split)
  show "disc_cur_u64 = seg_cur_u64"
    by (intro ext) (simp add: disc_cur_u64_def seg_cur_u64_def u32)
  show "disc_cur_str = seg_cur_str"
    by (intro ext) (auto simp: disc_cur_str_def seg_cur_str_def u16 Let_def unat_eq_0 split: option.split)
qed

definition disc_buf_prefix :: "alloc \<Rightarrow> byte_buf \<Rightarrow> byte_buf option" where
  "disc_buf_prefix mem b =
     lmb_buf_u32 mem LMB_SEG_DISCOVERY_MAGIC b \<bind> lmb_buf_u32 mem LMB_SEG_DISCOVERY_VERSION"

definition disc_cur_prefix :: "cursor \<Rightarrow> cursor option" where
  "disc_cur_prefix c = do {
     (magic, c) \<leftarrow> disc_cur_u32 c;
     (version, c) \<leftarrow> disc_cur_u32 c;
     if magic \<noteq> LMB_SEG_DISCOVERY_MAGIC \<or> version \<noteq> LMB_SEG_DISCOVERY_VERSION then None else Some c
   }"

definition disc_finish :: "byte_buf \<Rightarrow> bytes option" where
  "disc_finish b =
     (if length (buf_data b) > unat UINT32_MAX \<or> length (buf_data b) > unat LMB_MAX_CONTROL_BODY
      then None else Some (buf_data b))"

section \<open>Adverts, queries and owners\<close>

definition disc_buf_advert :: "alloc \<Rightarrow> lmb_seg_advert \<Rightarrow> byte_buf \<Rightarrow> byte_buf option" where
  "disc_buf_advert mem a b = do {
     b \<leftarrow> lmb_buf_str mem (av_peer_name a) b;
     b \<leftarrow> lmb_buf_str mem (av_addr a) b;
     b \<leftarrow> lmb_buf_str mem (av_model a) b;
     b \<leftarrow> lmb_buf_bytes mem (av_model_root a) b;
     b \<leftarrow> lmb_buf_bytes mem (av_tokenizer_root a) b;
     b \<leftarrow> lmb_buf_u32 mem (av_layer_begin a) b;
     b \<leftarrow> lmb_buf_u32 mem (av_layer_end a) b;
     b \<leftarrow> lmb_buf_u32 mem (av_max_context a) b;
     b \<leftarrow> lmb_buf_u32 mem (av_max_rows a) b;
     b \<leftarrow> lmb_buf_u32 mem (av_state_dtype a) b;
     b \<leftarrow> lmb_buf_u32 mem (av_state_width a) b;
     b \<leftarrow> lmb_buf_u32 mem (av_max_sessions a) b;
     b \<leftarrow> lmb_buf_u32 mem (av_active_sessions a) b;
     b \<leftarrow> lmb_buf_u32 mem (av_queue_depth a) b;
     b \<leftarrow> lmb_buf_u32 mem (av_inflight a) b;
     b \<leftarrow> lmb_buf_u32 mem (av_flags a) b;
     b \<leftarrow> lmb_buf_u64 mem (av_capabilities a) b;
     b \<leftarrow> lmb_buf_u64 mem (av_resident_ram_bytes a) b;
     b \<leftarrow> lmb_buf_u64 mem (av_resident_vram_bytes a) b;
     b \<leftarrow> lmb_buf_str mem (av_engine_id a) b;
     b \<leftarrow> lmb_buf_str mem (av_state_schema a) b;
     lmb_buf_str mem (av_numeric_class a) b
   }"

definition disc_cur_advert :: "cursor \<Rightarrow> (lmb_seg_advert \<times> cursor) option" where
  "disc_cur_advert c = do {
     (peer, c) \<leftarrow> disc_cur_str LMB_SEG_PEER_NAME_MAX c;
     (addr, c) \<leftarrow> disc_cur_str LMB_SEG_ADDR_MAX c;
     (model, c) \<leftarrow> disc_cur_str LMB_SEG_MODEL_MAX c;
     (mroot, c) \<leftarrow> disc_cur_bytes LMB_SEG_ROOT_BYTES c;
     (troot, c) \<leftarrow> disc_cur_bytes LMB_SEG_ROOT_BYTES c;
     (lbegin, c) \<leftarrow> disc_cur_u32 c;
     (lend, c) \<leftarrow> disc_cur_u32 c;
     (context, c) \<leftarrow> disc_cur_u32 c;
     (rows, c) \<leftarrow> disc_cur_u32 c;
     (dtype, c) \<leftarrow> disc_cur_u32 c;
     (width, c) \<leftarrow> disc_cur_u32 c;
     (sessions, c) \<leftarrow> disc_cur_u32 c;
     (active, c) \<leftarrow> disc_cur_u32 c;
     (queue, c) \<leftarrow> disc_cur_u32 c;
     (inflight, c) \<leftarrow> disc_cur_u32 c;
     (flags, c) \<leftarrow> disc_cur_u32 c;
     (caps, c) \<leftarrow> disc_cur_u64 c;
     (ram, c) \<leftarrow> disc_cur_u64 c;
     (vram, c) \<leftarrow> disc_cur_u64 c;
     (engine, c) \<leftarrow> disc_cur_str LMB_SEG_ENGINE_MAX c;
     (schema, c) \<leftarrow> disc_cur_str LMB_SEG_SCHEMA_MAX c;
     (numeric, c) \<leftarrow> disc_cur_str LMB_SEG_NUMERIC_CLASS_MAX c;
     Some (\<lparr>av_peer_name = peer, av_addr = addr, av_model = model, av_model_root = mroot,
            av_tokenizer_root = troot, av_layer_begin = lbegin, av_layer_end = lend,
            av_max_context = context, av_max_rows = rows, av_state_dtype = dtype,
            av_state_width = width, av_max_sessions = sessions, av_active_sessions = active,
            av_queue_depth = queue, av_inflight = inflight, av_flags = flags,
            av_capabilities = caps, av_resident_ram_bytes = ram, av_resident_vram_bytes = vram,
            av_engine_id = engine, av_state_schema = schema, av_numeric_class = numeric\<rparr>, c)
   }"

definition disc_put_advert :: "alloc \<Rightarrow> lmb_seg_advert \<Rightarrow> byte_buf \<Rightarrow> byte_buf option" where
  "disc_put_advert mem a b = disc_buf_prefix mem b \<bind> disc_buf_advert mem a"

definition lmb_seg_advert_encode :: "alloc \<Rightarrow> lmb_seg_advert \<Rightarrow> bytes option" where
  "lmb_seg_advert_encode mem a =
     (if \<not> lmb_seg_advert_valid a then None
      else disc_put_advert mem a buf_empty \<bind> disc_finish)"

definition disc_get_advert :: "cursor \<Rightarrow> (lmb_seg_advert \<times> cursor) option" where
  "disc_get_advert c = disc_cur_prefix c \<bind> disc_cur_advert"

definition lmb_seg_advert_decode :: "bytes \<Rightarrow> lmb_seg_advert option" where
  "lmb_seg_advert_decode body =
     (case disc_get_advert body of
        None \<Rightarrow> None
      | Some (a, c) \<Rightarrow> if c \<noteq> [] \<or> \<not> lmb_seg_advert_valid a then None else Some a)"

definition disc_buf_query :: "alloc \<Rightarrow> lmb_seg_query \<Rightarrow> byte_buf \<Rightarrow> byte_buf option" where
  "disc_buf_query mem q b = do {
     b \<leftarrow> lmb_buf_str mem (qy_model q) b;
     b \<leftarrow> lmb_buf_bytes mem (qy_model_root q) b;
     b \<leftarrow> lmb_buf_bytes mem (qy_tokenizer_root q) b;
     b \<leftarrow> lmb_buf_u32 mem (qy_layer_begin q) b;
     b \<leftarrow> lmb_buf_u32 mem (qy_layer_end q) b;
     b \<leftarrow> lmb_buf_u32 mem (qy_context_tokens q) b;
     b \<leftarrow> lmb_buf_u32 mem (qy_rows q) b;
     b \<leftarrow> lmb_buf_u32 mem (qy_state_dtype q) b;
     b \<leftarrow> lmb_buf_u32 mem (qy_state_width q) b;
     b \<leftarrow> lmb_buf_u64 mem (qy_required_capabilities q) b;
     b \<leftarrow> lmb_buf_str mem (qy_engine_id q) b;
     b \<leftarrow> lmb_buf_str mem (qy_state_schema q) b;
     lmb_buf_str mem (qy_numeric_class q) b
   }"

definition disc_cur_query :: "cursor \<Rightarrow> (lmb_seg_query \<times> cursor) option" where
  "disc_cur_query c = do {
     (model, c) \<leftarrow> disc_cur_str LMB_SEG_MODEL_MAX c;
     (mroot, c) \<leftarrow> disc_cur_bytes LMB_SEG_ROOT_BYTES c;
     (troot, c) \<leftarrow> disc_cur_bytes LMB_SEG_ROOT_BYTES c;
     (lbegin, c) \<leftarrow> disc_cur_u32 c;
     (lend, c) \<leftarrow> disc_cur_u32 c;
     (context, c) \<leftarrow> disc_cur_u32 c;
     (rows, c) \<leftarrow> disc_cur_u32 c;
     (dtype, c) \<leftarrow> disc_cur_u32 c;
     (width, c) \<leftarrow> disc_cur_u32 c;
     (caps, c) \<leftarrow> disc_cur_u64 c;
     (engine, c) \<leftarrow> disc_cur_str LMB_SEG_ENGINE_MAX c;
     (schema, c) \<leftarrow> disc_cur_str LMB_SEG_SCHEMA_MAX c;
     (numeric, c) \<leftarrow> disc_cur_str LMB_SEG_NUMERIC_CLASS_MAX c;
     Some (\<lparr>qy_model = model, qy_model_root = mroot, qy_tokenizer_root = troot,
            qy_layer_begin = lbegin, qy_layer_end = lend, qy_context_tokens = context,
            qy_rows = rows, qy_state_dtype = dtype, qy_state_width = width,
            qy_required_capabilities = caps, qy_engine_id = engine, qy_state_schema = schema,
            qy_numeric_class = numeric\<rparr>, c)
   }"

definition disc_put_query :: "alloc \<Rightarrow> lmb_seg_query \<Rightarrow> byte_buf \<Rightarrow> byte_buf option" where
  "disc_put_query mem q b = disc_buf_prefix mem b \<bind> disc_buf_query mem q"

definition lmb_seg_query_encode :: "alloc \<Rightarrow> lmb_seg_query \<Rightarrow> bytes option" where
  "lmb_seg_query_encode mem q =
     (if \<not> lmb_seg_query_valid q then None
      else disc_put_query mem q buf_empty \<bind> disc_finish)"

definition disc_get_query :: "cursor \<Rightarrow> (lmb_seg_query \<times> cursor) option" where
  "disc_get_query c = disc_cur_prefix c \<bind> disc_cur_query"

definition lmb_seg_query_decode :: "bytes \<Rightarrow> lmb_seg_query option" where
  "lmb_seg_query_decode body =
     (case disc_get_query body of
        None \<Rightarrow> None
      | Some (q, c) \<Rightarrow> if c \<noteq> [] \<or> \<not> lmb_seg_query_valid q then None else Some q)"

definition disc_buf_owner :: "alloc \<Rightarrow> lmb_seg_owner \<Rightarrow> byte_buf \<Rightarrow> byte_buf option" where
  "disc_buf_owner mem w b = do {
     b \<leftarrow> lmb_buf_bytes mem (lease_id w) b;
     b \<leftarrow> lmb_buf_u64 mem (fencing_epoch w) b;
     lmb_buf_u64 mem (route_generation w) b
   }"

definition disc_cur_owner :: "cursor \<Rightarrow> (lmb_seg_owner \<times> cursor) option" where
  "disc_cur_owner c = do {
     (lease, c) \<leftarrow> disc_cur_bytes LMB_SEG_ID_BYTES c;
     (epoch, c) \<leftarrow> disc_cur_u64 c;
     (route, c) \<leftarrow> disc_cur_u64 c;
     Some (\<lparr>lease_id = lease, fencing_epoch = epoch, route_generation = route\<rparr>, c)
   }"

definition disc_owner_valid :: "lmb_seg_owner \<Rightarrow> bool" where
  "disc_owner_valid w \<longleftrightarrow>
     \<not> (lmb_seg_id_is_zero (lease_id w) \<or> fencing_epoch w = 0 \<or> route_generation w = 0)"

definition disc_put_registration :: "alloc \<Rightarrow> lmb_seg_owner \<Rightarrow> byte_buf \<Rightarrow> byte_buf option" where
  "disc_put_registration mem w b = disc_buf_prefix mem b \<bind> disc_buf_owner mem w"

definition lmb_seg_registration_reply_encode :: "alloc \<Rightarrow> lmb_seg_owner \<Rightarrow> bytes option" where
  "lmb_seg_registration_reply_encode mem w =
     (if \<not> disc_owner_valid w then None
      else disc_put_registration mem w buf_empty \<bind> disc_finish)"

definition disc_get_registration :: "cursor \<Rightarrow> (lmb_seg_owner \<times> cursor) option" where
  "disc_get_registration c = disc_cur_prefix c \<bind> disc_cur_owner"

definition lmb_seg_registration_reply_decode :: "bytes \<Rightarrow> lmb_seg_owner option" where
  "lmb_seg_registration_reply_decode body =
     (case disc_get_registration body of
        None \<Rightarrow> None
      | Some (w, c) \<Rightarrow> if c \<noteq> [] \<or> \<not> disc_owner_valid w then None else Some w)"

section \<open>Route snapshots\<close>

definition disc_entry_valid :: "u64 \<Rightarrow> lmb_seg_route_entry \<Rightarrow> bool" where
  "disc_entry_valid generation e \<longleftrightarrow>
     \<not> (\<not> lmb_seg_advert_valid (re_advert e) \<or>
        lmb_seg_id_is_zero (lease_id (re_owner e)) \<or>
        fencing_epoch (re_owner e) = 0 \<or>
        route_generation (re_owner e) \<noteq> generation \<or>
        re_transport e = 0 \<or>
        re_transport e AND NOT (LMB_SEG_TRANSPORT_DIRECT OR LMB_SEG_TRANSPORT_RELAY) \<noteq> 0)"

definition disc_put_entry ::
  "u64 \<Rightarrow> alloc \<Rightarrow> lmb_seg_route_entry \<Rightarrow> byte_buf \<Rightarrow> byte_buf option" where
  "disc_put_entry generation mem e b =
     (if \<not> disc_entry_valid generation e then None
      else do {
        b \<leftarrow> disc_buf_advert mem (re_advert e) b;
        b \<leftarrow> disc_buf_owner mem (re_owner e) b;
        lmb_buf_u32 mem (re_transport e) b
      })"

definition disc_put_routes :: "alloc \<Rightarrow> lmb_seg_route_snapshot \<Rightarrow> byte_buf \<Rightarrow> byte_buf option" where
  "disc_put_routes mem s b = do {
     b \<leftarrow> disc_buf_prefix mem b;
     b \<leftarrow> lmb_buf_u64 mem (rs_route_generation s) b;
     b \<leftarrow> lmb_buf_u32 mem (if rs_complete s \<noteq> 0 then 1 else 0) b;
     b \<leftarrow> lmb_buf_u32 mem (rs_count s) b;
     put_seq (disc_put_entry (rs_route_generation s) mem) (rs_used s) b
   }"

definition lmb_seg_route_encode :: "alloc \<Rightarrow> lmb_seg_route_snapshot \<Rightarrow> bytes option" where
  "lmb_seg_route_encode mem s =
     (if rs_route_generation s = 0 \<or> unat (rs_count s) > LMB_SEG_ROUTE_MAX then None
      else disc_put_routes mem s buf_empty \<bind> disc_finish)"

definition seg_compute_zero :: lmb_seg_compute where
  "seg_compute_zero =
     \<lparr>cp_lease_id = replicate LMB_SEG_ID_BYTES 0, cp_fencing_epoch = 0, cp_ewma_us = 0, cp_samples = 0\<rparr>"

definition predictor_zero :: lmb_latency_predictor where
  "predictor_zero =
     \<lparr>ewma_us = 0, p95_us = 0, circuit_until_ms = 0, samples = 0, consecutive_failures = 0\<rparr>"

text \<open>An entry whose wire fields have been read into a zeroed struct.\<close>

definition disc_fresh_entry :: "lmb_seg_advert \<Rightarrow> lmb_seg_owner \<Rightarrow> u32 \<Rightarrow> lmb_seg_route_entry" where
  "disc_fresh_entry a w transport =
     \<lparr>re_advert = a, re_owner = w, re_transport = transport, re_latency = predictor_zero,
      re_predicted_us = 0, re_last_probe_ms = 0, re_compute = seg_compute_zero,
      re_last_compute_ms = 0\<rparr>"

definition seg_advert_zero :: lmb_seg_advert where
  "seg_advert_zero =
     \<lparr>av_peer_name = replicate LMB_SEG_PEER_NAME_MAX 0, av_addr = replicate LMB_SEG_ADDR_MAX 0,
      av_model = replicate LMB_SEG_MODEL_MAX 0, av_model_root = replicate LMB_SEG_ROOT_BYTES 0,
      av_tokenizer_root = replicate LMB_SEG_ROOT_BYTES 0, av_layer_begin = 0, av_layer_end = 0,
      av_max_context = 0, av_max_rows = 0, av_state_dtype = 0, av_state_width = 0,
      av_max_sessions = 0, av_active_sessions = 0, av_queue_depth = 0, av_inflight = 0,
      av_flags = 0, av_capabilities = 0, av_resident_ram_bytes = 0, av_resident_vram_bytes = 0,
      av_engine_id = replicate LMB_SEG_ENGINE_MAX 0,
      av_state_schema = replicate LMB_SEG_SCHEMA_MAX 0,
      av_numeric_class = replicate LMB_SEG_NUMERIC_CLASS_MAX 0\<rparr>"

definition seg_entry_zero :: lmb_seg_route_entry where
  "seg_entry_zero =
     disc_fresh_entry seg_advert_zero
       \<lparr>lease_id = replicate LMB_SEG_ID_BYTES 0, fencing_epoch = 0, route_generation = 0\<rparr> 0"

definition disc_get_entry :: "u64 \<Rightarrow> cursor \<Rightarrow> (lmb_seg_route_entry \<times> cursor) option" where
  "disc_get_entry generation c = do {
     (a, c) \<leftarrow> disc_cur_advert c;
     (w, c) \<leftarrow> disc_cur_owner c;
     (transport, c) \<leftarrow> disc_cur_u32 c;
     let e = disc_fresh_entry a w transport;
     if \<not> disc_entry_valid generation e then None else Some (e, c)
   }"

definition disc_get_routes :: "u64 \<Rightarrow> cursor \<Rightarrow> (lmb_seg_route_snapshot \<times> cursor) option" where
  "disc_get_routes now c = do {
     c \<leftarrow> disc_cur_prefix c;
     (generation, c) \<leftarrow> disc_cur_u64 c;
     (complete, c) \<leftarrow> disc_cur_u32 c;
     (count, c) \<leftarrow> disc_cur_u32 c;
     if generation = 0 \<or> complete > 1 \<or> unat count > LMB_SEG_ROUTE_MAX then None
     else do {
       (es, c) \<leftarrow> get_seq (disc_get_entry generation) (unat count) c;
       Some (\<lparr>rs_route_generation = generation, rs_fetched_at_ms = now, rs_complete = complete,
              rs_count = count,
              rs_entries = es @ replicate (LMB_SEG_ROUTE_MAX - length es) seg_entry_zero\<rparr>, c)
     }
   }"

definition lmb_seg_route_decode :: "u64 \<Rightarrow> bytes \<Rightarrow> lmb_seg_route_snapshot option" where
  "lmb_seg_route_decode now body =
     (case disc_get_routes now body of
        None \<Rightarrow> None
      | Some (s, c) \<Rightarrow> if c \<noteq> [] then None else Some s)"

section \<open>The compute sideband\<close>

abbreviation LMB_SEG_COMPUTE_MAGIC :: u32 where "LMB_SEG_COMPUTE_MAGIC \<equiv> 0x31435347"
abbreviation LMB_SEG_COMPUTE_VERSION :: u32 where "LMB_SEG_COMPUTE_VERSION \<equiv> 1"

definition disc_compute_prefix :: "alloc \<Rightarrow> u32 \<Rightarrow> byte_buf \<Rightarrow> byte_buf option" where
  "disc_compute_prefix mem count b = do {
     b \<leftarrow> lmb_buf_u32 mem LMB_SEG_COMPUTE_MAGIC b;
     b \<leftarrow> lmb_buf_u32 mem LMB_SEG_COMPUTE_VERSION b;
     lmb_buf_u32 mem count b
   }"

definition disc_compute_header :: "cursor \<Rightarrow> (u32 \<times> cursor) option" where
  "disc_compute_header c = do {
     (magic, c) \<leftarrow> disc_cur_u32 c;
     (version, c) \<leftarrow> disc_cur_u32 c;
     (count, c) \<leftarrow> disc_cur_u32 c;
     if magic \<noteq> LMB_SEG_COMPUTE_MAGIC \<or> version \<noteq> LMB_SEG_COMPUTE_VERSION \<or>
        unat count > LMB_SEG_ROUTE_MAX
     then None else Some (count, c)
   }"

definition disc_compute_key_write :: "alloc \<Rightarrow> lmb_seg_compute \<Rightarrow> byte_buf \<Rightarrow> byte_buf option" where
  "disc_compute_key_write mem k b =
     lmb_buf_bytes mem (cp_lease_id k) b \<bind> lmb_buf_u64 mem (cp_fencing_epoch k)"

definition disc_compute_key_read :: "cursor \<Rightarrow> (lmb_seg_compute \<times> cursor) option" where
  "disc_compute_key_read c = do {
     (lease, c) \<leftarrow> disc_cur_bytes LMB_SEG_ID_BYTES c;
     (epoch, c) \<leftarrow> disc_cur_u64 c;
     if lmb_seg_id_is_zero lease \<or> epoch = 0 then None
     else Some (seg_compute_zero\<lparr>cp_lease_id := lease, cp_fencing_epoch := epoch\<rparr>, c)
   }"

definition disc_compute_value_write :: "alloc \<Rightarrow> lmb_seg_compute \<Rightarrow> byte_buf \<Rightarrow> byte_buf option" where
  "disc_compute_value_write mem v b = do {
     b \<leftarrow> disc_compute_key_write mem v b;
     b \<leftarrow> lmb_buf_u32 mem (cp_samples v) b;
     lmb_buf_u64 mem (cp_ewma_us v) b
   }"

definition disc_compute_value_read :: "cursor \<Rightarrow> (lmb_seg_compute \<times> cursor) option" where
  "disc_compute_value_read c = do {
     (k, c) \<leftarrow> disc_compute_key_read c;
     (n, c) \<leftarrow> disc_cur_u32 c;
     (us, c) \<leftarrow> disc_cur_u64 c;
     let v = k\<lparr>cp_samples := n, cp_ewma_us := us\<rparr>;
     if \<not> lmb_seg_compute_valid v then None else Some (v, c)
   }"

definition lmb_seg_compute_put_encode :: "alloc \<Rightarrow> lmb_seg_compute \<Rightarrow> bytes option" where
  "lmb_seg_compute_put_encode mem v =
     (if \<not> lmb_seg_compute_valid v then None
      else (disc_compute_prefix mem 1 buf_empty \<bind> disc_compute_value_write mem v) \<bind> disc_finish)"

definition lmb_seg_compute_put_decode :: "bytes \<Rightarrow> lmb_seg_compute option" where
  "lmb_seg_compute_put_decode body = do {
     (count, c) \<leftarrow> disc_compute_header body;
     if count \<noteq> 1 then None
     else do {
       (v, c) \<leftarrow> disc_compute_value_read c;
       if c \<noteq> [] then None else Some v
     }
   }"

definition entry_key :: "lmb_seg_route_entry \<Rightarrow> lmb_seg_compute" where
  "entry_key e = seg_compute_zero\<lparr>cp_lease_id := lease_id (re_owner e),
                                  cp_fencing_epoch := fencing_epoch (re_owner e)\<rparr>"

definition lmb_seg_compute_get_encode :: "alloc \<Rightarrow> lmb_seg_route_snapshot \<Rightarrow> bytes option" where
  "lmb_seg_compute_get_encode mem s =
     (if unat (rs_count s) > LMB_SEG_ROUTE_MAX then None
      else (disc_compute_prefix mem (rs_count s) buf_empty \<bind>
            put_seq (\<lambda>k b. if lmb_seg_id_is_zero (cp_lease_id k) \<or> cp_fencing_epoch k = 0 then None
                           else disc_compute_key_write mem k b) (map entry_key (rs_used s)))
           \<bind> disc_finish)"

definition compute_same_key :: "lmb_seg_compute \<Rightarrow> lmb_seg_compute \<Rightarrow> bool" where
  "compute_same_key a b \<longleftrightarrow>
     lmb_seg_id_equal (cp_lease_id a) (cp_lease_id b) \<and> cp_fencing_epoch a = cp_fencing_epoch b"

fun disc_read_keys :: "nat \<Rightarrow> lmb_seg_compute list \<Rightarrow> cursor \<Rightarrow> (lmb_seg_compute list \<times> cursor) option" where
  "disc_read_keys 0 seen c = Some (seen, c)"
| "disc_read_keys (Suc n) seen c = do {
     (k, c) \<leftarrow> disc_compute_key_read c;
     if list_ex (compute_same_key k) seen then None else disc_read_keys n (seen @ [k]) c
   }"

definition lmb_seg_compute_get_request_decode :: "bytes \<Rightarrow> lmb_seg_compute list option" where
  "lmb_seg_compute_get_request_decode body = do {
     (count, c) \<leftarrow> disc_compute_header body;
     (requested, c) \<leftarrow> disc_read_keys (unat count) [] c;
     if c = [] then Some requested else None
   }"

definition lmb_seg_compute_get_reply_encode :: "alloc \<Rightarrow> lmb_seg_compute list \<Rightarrow> bytes option" where
  "lmb_seg_compute_get_reply_encode mem values =
     (if length values > LMB_SEG_ROUTE_MAX then None
      else (disc_compute_prefix mem (of_nat (length values)) buf_empty \<bind>
            put_seq (\<lambda>v b. if \<not> lmb_seg_compute_valid v then None
                           else disc_compute_value_write mem v b) values)
           \<bind> disc_finish)"

text \<open>The loop over \<open>j\<close> keeps the last match.\<close>

definition disc_entry_index :: "lmb_seg_compute \<Rightarrow> lmb_seg_route_entry list \<Rightarrow> nat option" where
  "disc_entry_index v es =
     fold (\<lambda>j found. if compute_same_key v (entry_key (es ! j)) then Some j else found)
       [0..<length es] None"

fun disc_read_values ::
  "lmb_seg_route_entry list \<Rightarrow> nat \<Rightarrow> (nat \<times> lmb_seg_compute) list \<Rightarrow> cursor \<Rightarrow>
   ((nat \<times> lmb_seg_compute) list \<times> cursor) option" where
  "disc_read_values es 0 seen c = Some (seen, c)"
| "disc_read_values es (Suc n) seen c = do {
     (v, c) \<leftarrow> disc_compute_value_read c;
     i \<leftarrow> disc_entry_index v es;
     if list_ex (\<lambda>(j, _). i = j) seen then None
     else disc_read_values es n (seen @ [(i, v)]) c
   }"

definition lmb_seg_compute_get_decode ::
  "bytes \<Rightarrow> lmb_seg_route_snapshot \<Rightarrow> lmb_seg_route_snapshot option" where
  "lmb_seg_compute_get_decode body s =
     (if unat (rs_count s) > LMB_SEG_ROUTE_MAX then None
      else do {
        (count, c) \<leftarrow> disc_compute_header body;
        if count > rs_count s then None
        else do {
          (parsed, c) \<leftarrow> disc_read_values (rs_used s) (unat count) [] c;
          if c \<noteq> [] then None
          else Some (s\<lparr>rs_entries := fold (\<lambda>(i, v) es. es[i := (es ! i)\<lparr>re_compute := v\<rparr>]) parsed (rs_entries s)\<rparr>)
        }
      })"

end
