(* ===== verification/Discovery_Messages.thy ===== *)
theory Discovery_Messages
  imports Discovery_Codec
begin

text \<open>
  The wire laws of the placement messages: the field codecs of advert, query, owner and route
  entry, and the \<open>message\<close> contract interpreted for adverts, queries, registration replies, route
  snapshots and compute samples. Their bodies are bounded when they are encoded
  (\<open>LMB_MAX_CONTROL_BODY\<close>); the decoders leave the bound to the frame layer.
\<close>

abbreviation disc_limit :: nat where "disc_limit \<equiv> unat LMB_MAX_CONTROL_BODY"
abbreviation disc_fits :: "nat \<Rightarrow> bool" where "disc_fits n \<equiv> True"

lemma disc_finish_eq: "disc_finish = buf_finish disc_limit"
  by (intro ext) (auto simp: disc_finish_def buf_finish_def)

definition enc_disc_prefix :: bytes where
  "enc_disc_prefix = lmb_put32 LMB_SEG_DISCOVERY_MAGIC @ lmb_put32 LMB_SEG_DISCOVERY_VERSION"

definition enc_advert :: "lmb_seg_advert \<Rightarrow> bytes" where
  "enc_advert a = enc_str (av_peer_name a) @ enc_str (av_addr a) @ enc_str (av_model a) @
     av_model_root a @ av_tokenizer_root a @ lmb_put32 (av_layer_begin a) @
     lmb_put32 (av_layer_end a) @ lmb_put32 (av_max_context a) @ lmb_put32 (av_max_rows a) @
     lmb_put32 (av_state_dtype a) @ lmb_put32 (av_state_width a) @ lmb_put32 (av_max_sessions a) @
     lmb_put32 (av_active_sessions a) @ lmb_put32 (av_queue_depth a) @ lmb_put32 (av_inflight a) @
     lmb_put32 (av_flags a) @ enc_u64 (av_capabilities a) @ enc_u64 (av_resident_ram_bytes a) @
     enc_u64 (av_resident_vram_bytes a) @ enc_str (av_engine_id a) @ enc_str (av_state_schema a) @
     enc_str (av_numeric_class a)"

definition enc_query :: "lmb_seg_query \<Rightarrow> bytes" where
  "enc_query q = enc_str (qy_model q) @ qy_model_root q @ qy_tokenizer_root q @
     lmb_put32 (qy_layer_begin q) @ lmb_put32 (qy_layer_end q) @ lmb_put32 (qy_context_tokens q) @
     lmb_put32 (qy_rows q) @ lmb_put32 (qy_state_dtype q) @ lmb_put32 (qy_state_width q) @
     enc_u64 (qy_required_capabilities q) @ enc_str (qy_engine_id q) @ enc_str (qy_state_schema q) @
     enc_str (qy_numeric_class q)"

text \<open>A string buffer of a given capacity that holds a nonempty string.\<close>

definition str_buf :: "nat \<Rightarrow> bytes \<Rightarrow> bool" where
  "str_buf cap s \<longleftrightarrow> str_ok s \<and> length s = cap"

definition canon_str :: "bytes \<Rightarrow> bytes" where
  "canon_str s = c_buf (length s) (c_str s)"

definition advert_sized :: "lmb_seg_advert \<Rightarrow> bool" where
  "advert_sized a \<longleftrightarrow> length (av_peer_name a) = LMB_SEG_PEER_NAME_MAX \<and>
     length (av_addr a) = LMB_SEG_ADDR_MAX \<and> length (av_model a) = LMB_SEG_MODEL_MAX \<and>
     length (av_model_root a) = LMB_SEG_ROOT_BYTES \<and> length (av_tokenizer_root a) = LMB_SEG_ROOT_BYTES \<and>
     length (av_engine_id a) = LMB_SEG_ENGINE_MAX \<and> length (av_state_schema a) = LMB_SEG_SCHEMA_MAX \<and>
     length (av_numeric_class a) = LMB_SEG_NUMERIC_CLASS_MAX"

definition advert_ok :: "lmb_seg_advert \<Rightarrow> bool" where
  "advert_ok a \<longleftrightarrow> advert_sized a \<and> str_ok (av_peer_name a) \<and> str_ok (av_addr a) \<and>
     str_ok (av_model a) \<and> str_ok (av_engine_id a) \<and> str_ok (av_state_schema a) \<and>
     str_ok (av_numeric_class a)"

definition canon_advert :: "lmb_seg_advert \<Rightarrow> lmb_seg_advert" where
  "canon_advert a = a\<lparr>av_peer_name := canon_str (av_peer_name a), av_addr := canon_str (av_addr a),
     av_model := canon_str (av_model a), av_engine_id := canon_str (av_engine_id a),
     av_state_schema := canon_str (av_state_schema a), av_numeric_class := canon_str (av_numeric_class a)\<rparr>"

definition query_sized :: "lmb_seg_query \<Rightarrow> bool" where
  "query_sized q \<longleftrightarrow> length (qy_model q) = LMB_SEG_MODEL_MAX \<and>
     length (qy_model_root q) = LMB_SEG_ROOT_BYTES \<and> length (qy_tokenizer_root q) = LMB_SEG_ROOT_BYTES \<and>
     length (qy_engine_id q) = LMB_SEG_ENGINE_MAX \<and> length (qy_state_schema q) = LMB_SEG_SCHEMA_MAX \<and>
     length (qy_numeric_class q) = LMB_SEG_NUMERIC_CLASS_MAX"

definition query_ok :: "lmb_seg_query \<Rightarrow> bool" where
  "query_ok q \<longleftrightarrow> query_sized q \<and> str_ok (qy_model q) \<and> str_ok (qy_engine_id q) \<and>
     str_ok (qy_state_schema q) \<and> str_ok (qy_numeric_class q)"

definition canon_query :: "lmb_seg_query \<Rightarrow> lmb_seg_query" where
  "canon_query q = q\<lparr>qy_model := canon_str (qy_model q), qy_engine_id := canon_str (qy_engine_id q),
     qy_state_schema := canon_str (qy_state_schema q), qy_numeric_class := canon_str (qy_numeric_class q)\<rparr>"

section \<open>Field laws\<close>

lemma disc_str_valid_eq: "disc_str_valid = seg_string_valid"
  by (intro ext) (simp add: disc_str_valid_def seg_string_valid_def)

lemma str_ok_length: "str_ok s \<Longrightarrow> length (c_str s) < length s"
  by (simp add: str_ok_def c_str_length)

lemma canon_str_valid: "seg_string_valid s \<Longrightarrow> seg_string_valid (canon_str s)"
  unfolding canon_str_def by (rule seg_string_valid_c_buf) simp_all

lemma c_str_canon: "c_term s \<Longrightarrow> c_str (canon_str s) = c_str s"
  by (simp add: canon_str_def c_str_length c_str_no_zero)

lemma length_canon_str [simp]: "str_ok s \<Longrightarrow> length (canon_str s) = length s"
  by (simp add: canon_str_def str_ok_length less_imp_le)

lemma disc_cur_str_enc [wire_simps]:
  "str_ok s \<Longrightarrow> length s = cap \<Longrightarrow> seg_cur_str cap (enc_str s @ r) = Some (canon_str s, r)"
  using str_ok_length [of s] by (simp add: wire_simps canon_str_def)

lemma disc_cur_str_SomeD:
  "seg_cur_str cap c = Some (s, r) \<Longrightarrow>
   c = enc_str s @ r \<and> str_ok s \<and> length s = cap \<and> canon_str s = s"
  by (drule seg_cur_str_SomeD) (simp add: canon_str_def str_ok_def)

lemmas disc_reads = disc_cur_str_SomeD seg_cur_bytes_SomeD seg_cur_u32_SomeD seg_cur_u64_SomeD

lemma disc_cur_prefix_enc [wire_simps]: "disc_cur_prefix (enc_disc_prefix @ r) = Some r"
  by (simp add: disc_cur_prefix_def enc_disc_prefix_def wire_simps)

lemma disc_cur_prefix_SomeD: "disc_cur_prefix c = Some r \<Longrightarrow> c = enc_disc_prefix @ r"
  by (auto simp: disc_cur_prefix_def enc_disc_prefix_def disc_cur_eq bind_eq_Some_conv
      split: if_splits dest!: seg_cur_u32_SomeD)

lemma writes_disc_prefix [writes_intros]: "writes mem (disc_buf_prefix mem) enc_disc_prefix"
  unfolding disc_buf_prefix_def enc_disc_prefix_def by (intro writes_intros)

lemma str_ok_short: "str_ok s \<Longrightarrow> length (c_str s) < 2 ^ 16"
  by (simp add: str_ok_def)

lemma writes_advert: "advert_ok a \<Longrightarrow> writes mem (disc_buf_advert mem a) (enc_advert a)"
  unfolding disc_buf_advert_def enc_advert_def advert_ok_def
  by (intro writes_intros) (simp_all only: str_ok_short)

lemma disc_cur_advert_enc: "advert_ok a \<Longrightarrow> disc_cur_advert (enc_advert a @ r) = Some (canon_advert a, r)"
  by (simp add: disc_cur_advert_def enc_advert_def advert_ok_def advert_sized_def canon_advert_def wire_simps)

lemma disc_cur_advert_SomeD:
  "disc_cur_advert c = Some (a, r) \<Longrightarrow> c = enc_advert a @ r \<and> advert_ok a \<and> canon_advert a = a"
  by (auto simp: disc_cur_advert_def enc_advert_def advert_ok_def advert_sized_def canon_advert_def
      disc_cur_eq bind_eq_Some_conv dest!: disc_reads)

interpretation advert_codec: codec disc_buf_advert disc_cur_advert enc_advert advert_ok canon_advert
  by unfold_locales (simp_all add: writes_advert disc_cur_advert_enc disc_cur_advert_SomeD)

lemma writes_query: "query_ok q \<Longrightarrow> writes mem (disc_buf_query mem q) (enc_query q)"
  unfolding disc_buf_query_def enc_query_def query_ok_def
  by (intro writes_intros) (simp_all only: str_ok_short)

lemma disc_cur_query_enc: "query_ok q \<Longrightarrow> disc_cur_query (enc_query q @ r) = Some (canon_query q, r)"
  by (simp add: disc_cur_query_def enc_query_def query_ok_def query_sized_def canon_query_def wire_simps)

lemma disc_cur_query_SomeD:
  "disc_cur_query c = Some (q, r) \<Longrightarrow> c = enc_query q @ r \<and> query_ok q \<and> canon_query q = q"
  by (auto simp: disc_cur_query_def enc_query_def query_ok_def query_sized_def canon_query_def
      disc_cur_eq bind_eq_Some_conv dest!: disc_reads)

interpretation query_codec: codec disc_buf_query disc_cur_query enc_query query_ok canon_query
  by unfold_locales (simp_all add: writes_query disc_cur_query_enc disc_cur_query_SomeD)

lemma writes_disc_owner: "writes mem (disc_buf_owner mem w) (enc_owner w)"
  unfolding disc_buf_owner_def enc_owner_def by (intro writes_intros)

lemma disc_cur_owner_eq: "disc_cur_owner = seg_cur_owner"
  by (intro ext) (simp add: disc_cur_owner_def seg_cur_owner_def seg_cur_id_def disc_cur_eq)

interpretation disc_owner_codec: codec disc_buf_owner disc_cur_owner enc_owner owner_sized id
  unfolding disc_cur_owner_eq
  by unfold_locales (auto simp: writes_disc_owner wire_simps dest: seg_cur_owner_SomeD)

lemma advert_valid_ok: "lmb_seg_advert_valid a \<Longrightarrow> advert_sized a \<Longrightarrow> advert_ok a"
  by (simp add: lmb_seg_advert_valid_def advert_sized_def advert_ok_def disc_str_valid_eq str_okI)

lemma advert_valid_canon: "lmb_seg_advert_valid a \<Longrightarrow> lmb_seg_advert_valid (canon_advert a)"
  by (simp add: lmb_seg_advert_valid_def canon_advert_def disc_str_valid_eq canon_str_valid)

lemma query_valid_ok: "lmb_seg_query_valid q \<Longrightarrow> query_sized q \<Longrightarrow> query_ok q"
  by (simp add: lmb_seg_query_valid_def query_sized_def query_ok_def disc_str_valid_eq str_okI)

lemma query_valid_canon: "lmb_seg_query_valid q \<Longrightarrow> lmb_seg_query_valid (canon_query q)"
  by (simp add: lmb_seg_query_valid_def canon_query_def disc_str_valid_eq canon_str_valid)

lemma advert_ok_sized: "advert_ok a \<Longrightarrow> advert_sized a"
  by (simp add: advert_ok_def)

lemma query_ok_sized: "query_ok q \<Longrightarrow> query_sized q"
  by (simp add: query_ok_def)

section \<open>Adverts, queries, registrations\<close>

lemma prefix_put: "writes mem (put mem x) e \<Longrightarrow>
    writes mem (\<lambda>b. disc_buf_prefix mem b \<bind> put mem x) (enc_disc_prefix @ e)"
  by (intro writes_bind writes_disc_prefix)

interpretation advert_msg: message disc_put_advert disc_get_advert "\<lambda>a. enc_disc_prefix @ enc_advert a"
  advert_ok canon_advert disc_limit disc_fits lmb_seg_advert_valid advert_sized
  lmb_seg_advert_encode lmb_seg_advert_decode
proof (unfold_locales, goal_cases)
  case (1 x mem)
  then show ?case unfolding disc_put_advert_def by (intro prefix_put writes_advert)
next
  case (2 x r)
  then show ?case by (simp add: disc_get_advert_def wire_simps disc_cur_advert_enc)
next
  case (3 c x r)
  then show ?case
    by (auto simp: disc_get_advert_def bind_eq_Some_conv dest!: disc_cur_prefix_SomeD disc_cur_advert_SomeD)
qed (simp_all add: lmb_seg_advert_encode_def lmb_seg_advert_decode_def disc_finish_eq advert_valid_ok
    advert_valid_canon advert_ok_sized)

interpretation query_msg: message disc_put_query disc_get_query "\<lambda>q. enc_disc_prefix @ enc_query q"
  query_ok canon_query disc_limit disc_fits lmb_seg_query_valid query_sized
  lmb_seg_query_encode lmb_seg_query_decode
proof (unfold_locales, goal_cases)
  case (1 x mem)
  then show ?case unfolding disc_put_query_def by (intro prefix_put writes_query)
next
  case (2 x r)
  then show ?case by (simp add: disc_get_query_def wire_simps disc_cur_query_enc)
next
  case (3 c x r)
  then show ?case
    by (auto simp: disc_get_query_def bind_eq_Some_conv dest!: disc_cur_prefix_SomeD disc_cur_query_SomeD)
qed (simp_all add: lmb_seg_query_encode_def lmb_seg_query_decode_def disc_finish_eq query_valid_ok
    query_valid_canon query_ok_sized)

interpretation registration_msg: message disc_put_registration disc_get_registration
  "\<lambda>w. enc_disc_prefix @ enc_owner w" owner_sized id disc_limit disc_fits disc_owner_valid owner_sized
  lmb_seg_registration_reply_encode lmb_seg_registration_reply_decode
proof (unfold_locales, goal_cases)
  case (1 x mem)
  then show ?case unfolding disc_put_registration_def by (intro prefix_put writes_disc_owner)
next
  case (2 x r)
  then show ?case by (simp add: disc_get_registration_def wire_simps disc_cur_owner_eq)
next
  case (3 c x r)
  then show ?case
    by (auto simp: disc_get_registration_def disc_cur_owner_eq bind_eq_Some_conv
        dest!: disc_cur_prefix_SomeD seg_cur_owner_SomeD)
qed (simp_all add: lmb_seg_registration_reply_encode_def lmb_seg_registration_reply_decode_def disc_finish_eq)

section \<open>Route snapshots\<close>

definition enc_entry :: "lmb_seg_route_entry \<Rightarrow> bytes" where
  "enc_entry e = enc_advert (re_advert e) @ enc_owner (re_owner e) @ lmb_put32 (re_transport e)"

definition entry_sized :: "lmb_seg_route_entry \<Rightarrow> bool" where
  "entry_sized e \<longleftrightarrow> advert_sized (re_advert e) \<and> owner_sized (re_owner e)"

definition entry_ok :: "u64 \<Rightarrow> lmb_seg_route_entry \<Rightarrow> bool" where
  "entry_ok generation e \<longleftrightarrow> entry_sized e \<and> disc_entry_valid generation e"

text \<open>What the receiver sees of an entry: the wire fields, the observations zeroed.\<close>

definition canon_entry :: "lmb_seg_route_entry \<Rightarrow> lmb_seg_route_entry" where
  "canon_entry e = disc_fresh_entry (canon_advert (re_advert e)) (re_owner e) (re_transport e)"

lemma entry_valid_advert: "disc_entry_valid g e \<Longrightarrow> lmb_seg_advert_valid (re_advert e)"
  by (simp add: disc_entry_valid_def)

lemma entry_valid_canon: "disc_entry_valid g e \<Longrightarrow> disc_entry_valid g (canon_entry e)"
  by (simp add: disc_entry_valid_def canon_entry_def disc_fresh_entry_def advert_valid_canon)

interpretation entry_codec: codec "disc_put_entry g" "disc_get_entry g" enc_entry "entry_ok g" canon_entry
  for g
proof (unfold_locales, goal_cases)
  case (1 e mem)
  then have "advert_ok (re_advert e)"
    unfolding entry_ok_def entry_sized_def by (blast intro: advert_valid_ok entry_valid_advert)
  with 1 show ?case
    unfolding disc_put_entry_def enc_entry_def entry_ok_def
    by (simp, intro writes_intros writes_advert writes_disc_owner)
next
  case (2 e r)
  then have "advert_ok (re_advert e)" "owner_sized (re_owner e)" "disc_entry_valid g (canon_entry e)"
    unfolding entry_ok_def entry_sized_def
    by (blast intro: advert_valid_ok entry_valid_advert entry_valid_canon)+
  then show ?case
    by (simp add: disc_get_entry_def enc_entry_def disc_cur_advert_enc disc_cur_owner_eq wire_simps
        canon_entry_def Let_def)
next
  case (3 c e r)
  then show ?case
    by (auto simp: disc_get_entry_def enc_entry_def entry_ok_def entry_sized_def canon_entry_def
        disc_fresh_entry_def disc_cur_eq disc_cur_owner_eq bind_eq_Some_conv Let_def advert_ok_sized
        split: if_splits
        dest!: disc_cur_advert_SomeD seg_cur_owner_SomeD seg_cur_u32_SomeD)
qed

definition enc_routes :: "lmb_seg_route_snapshot \<Rightarrow> bytes" where
  "enc_routes s = enc_disc_prefix @ enc_u64 (rs_route_generation s) @
     lmb_put32 (if rs_complete s \<noteq> 0 then 1 else 0) @ lmb_put32 (rs_count s) @
     concat (map enc_entry (rs_used s))"

definition routes_sized :: "lmb_seg_route_snapshot \<Rightarrow> bool" where
  "routes_sized s \<longleftrightarrow> length (rs_entries s) = LMB_SEG_ROUTE_MAX \<and> (\<forall>e \<in> set (rs_used s). entry_sized e)"

definition routes_valid :: "lmb_seg_route_snapshot \<Rightarrow> bool" where
  "routes_valid s \<longleftrightarrow> rs_route_generation s \<noteq> 0 \<and> unat (rs_count s) \<le> LMB_SEG_ROUTE_MAX \<and>
     (\<forall>e \<in> set (rs_used s). disc_entry_valid (rs_route_generation s) e)"

definition routes_ok :: "lmb_seg_route_snapshot \<Rightarrow> bool" where
  "routes_ok s \<longleftrightarrow> routes_sized s \<and> routes_valid s"

definition canon_routes :: "u64 \<Rightarrow> lmb_seg_route_snapshot \<Rightarrow> lmb_seg_route_snapshot" where
  "canon_routes now s = s\<lparr>rs_fetched_at_ms := now, rs_complete := (if rs_complete s \<noteq> 0 then 1 else 0),
     rs_entries := map canon_entry (rs_used s) @
       replicate (LMB_SEG_ROUTE_MAX - unat (rs_count s)) seg_entry_zero\<rparr>"

lemma put_entries_None:
  "\<exists>e \<in> set es. \<not> disc_entry_valid g e \<Longrightarrow> put_seq (disc_put_entry g mem) es b = None"
proof (induction es arbitrary: b)
  case Nil
  then show ?case by simp
next
  case (Cons e es)
  show ?case
  proof (cases "disc_put_entry g mem e b")
    case (Some b')
    then have "disc_entry_valid g e" by (simp add: disc_put_entry_def split: if_splits)
    with Cons show ?thesis by (simp add: Some)
  qed simp
qed

lemma routes_used_length: "routes_ok s \<Longrightarrow> length (rs_used s) = unat (rs_count s)"
  by (simp add: routes_ok_def routes_sized_def routes_valid_def rs_used_def)

lemma routes_entries_ok: "routes_ok s \<Longrightarrow> \<forall>e \<in> set (rs_used s). entry_ok (rs_route_generation s) e"
  by (simp add: routes_ok_def routes_sized_def routes_valid_def entry_ok_def)

lemma disc_get_routes_enc:
  assumes "routes_ok s"
  shows "disc_get_routes now (enc_routes s @ r) = Some (canon_routes now s, r)"
proof -
  let ?g = "rs_route_generation s"
  have "get_seq (disc_get_entry ?g) (length (rs_used s)) (concat (map enc_entry (rs_used s)) @ r) =
      Some (map canon_entry (rs_used s), r)"
    using routes_entries_ok [OF assms] by (rule entry_codec.get_seq_enc)
  moreover have "?g \<noteq> 0" "unat (rs_count s) \<le> LMB_SEG_ROUTE_MAX"
    using assms by (simp_all add: routes_ok_def routes_valid_def)
  ultimately show ?thesis
    using routes_used_length [OF assms]
    by (simp add: disc_get_routes_def enc_routes_def wire_simps canon_routes_def)
qed

lemma u32_eqI: "unat (a :: u32) = unat b \<Longrightarrow> a = b"
  by (rule unsigned_word_eqI)

lemma disc_get_routes_SomeD:
  assumes "disc_get_routes now c = Some (s, r)"
  shows "c = enc_routes s @ r \<and> routes_ok s \<and> canon_routes now s = s"
proof -
  from assms obtain g cp n es c0 c1 where
    c: "disc_cur_prefix c = Some c0" "c0 = enc_u64 g @ lmb_put32 cp @ lmb_put32 n @ c1"
    and gd: "g \<noteq> 0" "\<not> cp > 1" "unat n \<le> LMB_SEG_ROUTE_MAX"
    and es: "get_seq (disc_get_entry g) (unat n) c1 = Some (es, r)"
    and s: "s = \<lparr>rs_route_generation = g, rs_fetched_at_ms = now, rs_complete = cp, rs_count = n,
         rs_entries = es @ replicate (LMB_SEG_ROUTE_MAX - length es) seg_entry_zero\<rparr>"
    by (auto simp: disc_get_routes_def disc_cur_eq bind_eq_Some_conv not_less split: if_splits
        dest!: seg_cur_u64_SomeD seg_cur_u32_SomeD)
  note E = entry_codec.get_seq_dec [OF es]
  have cp: "cp \<noteq> 0 \<longrightarrow> cp = 1"
  proof -
    have "unat cp \<le> 1" using gd(2) by (simp add: word_less_nat_alt)
    then have "unat cp = 0 \<or> unat cp = 1" by linarith
    then show ?thesis by (auto simp: unat_eq_0 intro: u32_eqI)
  qed
  have u: "rs_used s = es" using E by (simp add: rs_used_def s)
  have "c = enc_routes s @ r"
    using disc_cur_prefix_SomeD [OF c(1)] c(2) E cp by (simp add: enc_routes_def u) (simp add: s)
  moreover have "routes_ok s"
    using E gd by (auto simp: routes_ok_def routes_sized_def routes_valid_def u entry_ok_def) (simp_all add: s)
  moreover have "map canon_entry es = es" using E by (simp add: map_idI)
  then have "canon_routes now s = s"
    using E cp by (simp add: canon_routes_def u) (simp add: s)
  ultimately show ?thesis by blast
qed

interpretation route_msg: message disc_put_routes "disc_get_routes now" enc_routes routes_ok
  "canon_routes now" disc_limit disc_fits routes_valid routes_sized lmb_seg_route_encode
  "lmb_seg_route_decode now"
  for now
proof (unfold_locales, goal_cases)
  case (1 s mem)
  then show ?case
    unfolding disc_put_routes_def enc_routes_def
    by (intro writes_intros writes_disc_prefix entry_codec.put_seq_writes routes_entries_ok)
next
  case (2 s r)
  then show ?case by (rule disc_get_routes_enc)
next
  case (3 c s r)
  then show ?case by (rule disc_get_routes_SomeD)
next
  case (4 mem s)
  have "disc_put_routes mem s b = None" if "\<exists>e \<in> set (rs_used s). \<not> disc_entry_valid (rs_route_generation s) e" for b
    using put_entries_None [OF that, of mem]
    by (cases "disc_buf_prefix mem b") (simp_all add: disc_put_routes_def bind_eq_None_conv)
  then show ?case by (auto simp: lmb_seg_route_encode_def routes_valid_def disc_finish_eq not_less)
next
  case (5 body)
  have "routes_valid s" if "disc_get_routes now body = Some (s, c)" for s c
    using disc_get_routes_SomeD [OF that] by (simp add: routes_ok_def)
  then show ?case by (auto simp: lmb_seg_route_decode_def split: option.split)
next
  case (10 s)
  then have "routes_ok s" by (simp add: routes_ok_def)
  from disc_get_routes_SomeD [OF disc_get_routes_enc [OF this, of now "[]"]] show ?case
    by (simp add: routes_ok_def)
qed (simp_all add: routes_ok_def)

section \<open>Compute samples\<close>

definition enc_key :: "lmb_seg_compute \<Rightarrow> bytes" where
  "enc_key k = cp_lease_id k @ enc_u64 (cp_fencing_epoch k)"

definition enc_value :: "lmb_seg_compute \<Rightarrow> bytes" where
  "enc_value v = enc_key v @ lmb_put32 (cp_samples v) @ enc_u64 (cp_ewma_us v)"

definition enc_compute_prefix :: "u32 \<Rightarrow> bytes" where
  "enc_compute_prefix n = lmb_put32 LMB_SEG_COMPUTE_MAGIC @ lmb_put32 LMB_SEG_COMPUTE_VERSION @ lmb_put32 n"

definition compute_sized :: "lmb_seg_compute \<Rightarrow> bool" where
  "compute_sized v \<longleftrightarrow> length (cp_lease_id v) = LMB_SEG_ID_BYTES"

lemma writes_compute_prefix: "writes mem (disc_compute_prefix mem n) (enc_compute_prefix n)"
  unfolding disc_compute_prefix_def enc_compute_prefix_def by (intro writes_intros)

lemma compute_header_enc: "unat n \<le> LMB_SEG_ROUTE_MAX \<Longrightarrow>
    disc_compute_header (enc_compute_prefix n @ r) = Some (n, r)"
  by (simp add: disc_compute_header_def enc_compute_prefix_def wire_simps)

lemma compute_header_SomeD:
  "disc_compute_header c = Some (n, r) \<Longrightarrow> c = enc_compute_prefix n @ r \<and> unat n \<le> LMB_SEG_ROUTE_MAX"
  by (auto simp: disc_compute_header_def enc_compute_prefix_def disc_cur_eq bind_eq_Some_conv
      split: if_splits dest!: seg_cur_u32_SomeD)

lemma writes_value: "writes mem (disc_compute_value_write mem v) (enc_value v)"
  unfolding disc_compute_value_write_def disc_compute_key_write_def enc_value_def enc_key_def
  by (intro writes_intros)

interpretation value_codec: codec disc_compute_value_write disc_compute_value_read enc_value
  "\<lambda>v. compute_sized v \<and> lmb_seg_compute_valid v" id
proof (unfold_locales, goal_cases)
  case (1 v mem)
  show ?case by (rule writes_value)
next
  case (2 v r)
  then have "\<not> lmb_seg_id_is_zero (cp_lease_id v)" "cp_fencing_epoch v \<noteq> 0"
    by (simp_all add: lmb_seg_compute_valid_def)
  with 2 show ?case
    by (cases v) (simp add: disc_compute_value_read_def disc_compute_key_read_def enc_value_def enc_key_def
        compute_sized_def seg_compute_zero_def wire_simps Let_def)
next
  case (3 c v r)
  then show ?case
    by (auto simp: disc_compute_value_read_def disc_compute_key_read_def enc_value_def enc_key_def
        compute_sized_def seg_compute_zero_def disc_cur_eq bind_eq_Some_conv Let_def split: if_splits
        dest!: seg_cur_bytes_SomeD seg_cur_u64_SomeD seg_cur_u32_SomeD)
qed

definition compute_put :: "alloc \<Rightarrow> lmb_seg_compute \<Rightarrow> byte_buf \<Rightarrow> byte_buf option" where
  "compute_put mem v b = disc_compute_prefix mem 1 b \<bind> disc_compute_value_write mem v"

definition compute_get :: "cursor \<Rightarrow> (lmb_seg_compute \<times> cursor) option" where
  "compute_get c = disc_compute_header c \<bind> (\<lambda>(n, c). if n \<noteq> 1 then None else disc_compute_value_read c)"

interpretation compute_msg: message compute_put compute_get "\<lambda>v. enc_compute_prefix 1 @ enc_value v"
  "\<lambda>v. compute_sized v \<and> lmb_seg_compute_valid v" id disc_limit disc_fits lmb_seg_compute_valid
  compute_sized lmb_seg_compute_put_encode lmb_seg_compute_put_decode
proof (unfold_locales, goal_cases)
  case (1 v mem)
  show ?case unfolding compute_put_def by (intro writes_bind writes_compute_prefix writes_value)
next
  case (2 v r)
  then show ?case
    using value_codec.get_enc [of v r] by (simp add: compute_get_def compute_header_enc)
next
  case (3 c v r)
  then show ?case
    by (auto simp: compute_get_def bind_eq_Some_conv split: if_splits
        dest!: compute_header_SomeD value_codec.get_dec)
next
  case (5 body)
  have "lmb_seg_compute_valid v" if "disc_compute_value_read c = Some (v, r)" for v c r
    using value_codec.get_dec [OF that] by simp
  then show ?case
    by (auto simp: lmb_seg_compute_put_decode_def compute_get_def split: option.split bind_splits)
qed (simp_all add: lmb_seg_compute_put_encode_def compute_put_def disc_finish_eq)

end
