(* ===== verification/Discovery_Refresh.thy ===== *)
theory Discovery_Refresh
  imports Discovery_Messages
begin

text \<open>
  The discovery client of \<^verbatim>\<open>lumabri_segment_discovery.c\<close>: fetching the placement of a query from a
  tracker with its optional compute sideband, keeping what was observed of a route across
  refreshes, ranking the routes and publishing a snapshot to the chat. The sockets, the clock and
  the allocator are the parameters \<open>net\<close>, \<open>now\<close>, \<open>mem\<close>; the background thread and its callers are
  the step relation \<open>disc_step\<close>, one step per critical section of the lock.
\<close>

section \<open>Requests to the tracker\<close>

abbreviation LMB_ERR :: u32 where "LMB_ERR \<equiv> 3"
abbreviation LMB_SEG_ROUTES_R :: u32 where "LMB_SEG_ROUTES_R \<equiv> 54"
abbreviation LMB_SEG_COMPUTE_GET_R :: u32 where "LMB_SEG_COMPUTE_GET_R \<equiv> 101"

record lmb_msg =
  msg_op :: u32
  msg_body :: bytes
  msg_pay_len :: u32

text \<open>What one fetch sees of the outside: whether the transport hooks initialise, the reply to a
  route request and to a sideband request (\<open>None\<close>: connect, authentication or I/O failed), and
  the clock at the four places it is read.\<close>

record disc_net =
  net_secure :: bool
  net_request :: "bytes \<Rightarrow> lmb_msg option"
  net_compute :: "bytes \<Rightarrow> lmb_msg option"
  net_decoded_ms :: u64
  net_query_ms :: u64
  net_received_ms :: u64
  net_legacy_ms :: u64

text \<open>Trackers known not to speak the sideband: four slots of a tracker name and a retry time.\<close>

record disc_legacy =
  lg_tracker :: bytes
  lg_retry_at_ms :: u64

definition disc_compute_should_query :: "u64 \<Rightarrow> disc_legacy list \<Rightarrow> bytes \<Rightarrow> bool" where
  "disc_compute_should_query now legacy tracker \<longleftrightarrow>
     \<not> list_ex (\<lambda>l. lg_tracker l = tracker \<and> now < lg_retry_at_ms l) legacy"

fun disc_legacy_slot :: "bytes \<Rightarrow> nat \<Rightarrow> disc_legacy list \<Rightarrow> nat option" where
  "disc_legacy_slot tracker i [] = None"
| "disc_legacy_slot tracker i (l # ls) =
     (if lg_tracker l = tracker \<or> lg_tracker l = [] then Some i
      else disc_legacy_slot tracker (i + 1) ls)"

definition disc_compute_mark_legacy :: "u64 \<Rightarrow> bytes \<Rightarrow> disc_legacy list \<Rightarrow> disc_legacy list" where
  "disc_compute_mark_legacy now tracker legacy =
     (let slot = (case disc_legacy_slot tracker 0 legacy of Some i \<Rightarrow> i | None \<Rightarrow> 0)
      in legacy[slot := \<lparr>lg_tracker = take 255 tracker, lg_retry_at_ms = now + 60000\<rparr>])"

definition disc_compute_query :: "disc_net \<Rightarrow> bytes \<Rightarrow> lmb_msg option" where
  "disc_compute_query net body = (if \<not> net_secure net then None else net_compute net body)"

definition lmb_seg_compute_probe :: "alloc \<Rightarrow> disc_net \<Rightarrow> bytes \<Rightarrow> bool" where
  "lmb_seg_compute_probe mem net tracker =
     (if tracker = [] then False
      else let empty = \<lparr>rs_route_generation = 0, rs_fetched_at_ms = 0, rs_complete = 0, rs_count = 0,
                        rs_entries = replicate LMB_SEG_ROUTE_MAX seg_entry_zero\<rparr> in
        case lmb_seg_compute_get_encode mem empty of None \<Rightarrow> False
        | Some body \<Rightarrow>
          case disc_compute_query net body of None \<Rightarrow> False
          | Some reply \<Rightarrow> msg_op reply = LMB_SEG_COMPUTE_GET_R \<and> msg_pay_len reply = 0 \<and>
              lmb_seg_compute_get_decode (msg_body reply) empty \<noteq> None)"

text \<open>The update of the entries in use.\<close>

definition rs_map :: "(lmb_seg_route_entry \<Rightarrow> lmb_seg_route_entry) \<Rightarrow> lmb_seg_route_snapshot \<Rightarrow>
    lmb_seg_route_snapshot" where
  "rs_map f s = s\<lparr>rs_entries := map f (rs_used s) @ drop (unat (rs_count s)) (rs_entries s)\<rparr>"

definition disc_stamp_compute :: "u64 \<Rightarrow> lmb_seg_route_entry \<Rightarrow> lmb_seg_route_entry" where
  "disc_stamp_compute received e =
     e\<lparr>re_last_compute_ms := (if cp_samples (re_compute e) \<noteq> 0 then received else UINT64_MAX)\<rparr>"

text \<open>The sideband exchange on an accepted placement; it can only add telemetry.\<close>

definition disc_fetch_compute ::
  "alloc \<Rightarrow> disc_net \<Rightarrow> disc_legacy list \<Rightarrow> bytes \<Rightarrow> lmb_seg_route_snapshot \<Rightarrow>
   lmb_seg_route_snapshot \<times> disc_legacy list" where
  "disc_fetch_compute mem net legacy tracker s =
     (case lmb_seg_compute_get_encode mem s of None \<Rightarrow> (s, legacy)
      | Some body \<Rightarrow>
        case disc_compute_query net body of None \<Rightarrow> (s, legacy)
        | Some reply \<Rightarrow>
          let parsed = (if msg_op reply = LMB_SEG_COMPUTE_GET_R \<and> msg_pay_len reply = 0
                        then lmb_seg_compute_get_decode (msg_body reply) s else None) in
          case parsed of Some s' \<Rightarrow> (rs_map (disc_stamp_compute (net_received_ms net)) s', legacy)
          | None \<Rightarrow>
            if msg_op reply = LMB_ERR
            then (s, disc_compute_mark_legacy (net_legacy_ms net) tracker legacy)
            else (s, legacy))"

definition lmb_seg_routes_fetch ::
  "alloc \<Rightarrow> disc_net \<Rightarrow> disc_legacy list \<Rightarrow> bytes \<Rightarrow> lmb_seg_query \<Rightarrow>
   lmb_seg_route_snapshot option \<times> disc_legacy list" where
  "lmb_seg_routes_fetch mem net legacy tracker query =
     (if tracker = [] \<or> \<not> net_secure net then (None, legacy)
      else case lmb_seg_query_encode mem query of None \<Rightarrow> (None, legacy)
      | Some body \<Rightarrow>
        case net_request net body of None \<Rightarrow> (None, legacy)
        | Some reply \<Rightarrow>
          if msg_op reply \<noteq> LMB_SEG_ROUTES_R \<or> msg_pay_len reply \<noteq> 0 then (None, legacy)
          else case lmb_seg_route_decode (net_decoded_ms net) (msg_body reply) of None \<Rightarrow> (None, legacy)
          | Some s \<Rightarrow>
            if rs_complete s \<noteq> (if lmb_seg_route_complete s query then 1 else 0) then (None, legacy)
            else if rs_complete s = 0 \<or> rs_count s = 0 \<or>
                    \<not> disc_compute_should_query (net_query_ms net) legacy tracker then (Some s, legacy)
            else let (s, legacy) = disc_fetch_compute mem net legacy tracker s in (Some s, legacy))"

section \<open>Observations kept across refreshes\<close>

definition disc_same_route :: "lmb_seg_route_entry \<Rightarrow> lmb_seg_route_entry \<Rightarrow> bool" where
  "disc_same_route a b \<longleftrightarrow>
     c_str (av_peer_name (re_advert a)) = c_str (av_peer_name (re_advert b)) \<and>
     c_str (av_addr (re_advert a)) = c_str (av_addr (re_advert b)) \<and>
     av_layer_begin (re_advert a) = av_layer_begin (re_advert b) \<and>
     av_layer_end (re_advert a) = av_layer_end (re_advert b)"

definition disc_old_entry :: "lmb_seg_route_entry \<Rightarrow> lmb_seg_route_snapshot option \<Rightarrow> lmb_seg_route_entry option" where
  "disc_old_entry e previous =
     (case previous of None \<Rightarrow> None | Some p \<Rightarrow> List.find (disc_same_route e) (rs_used p))"

definition disc_keeps_compute :: "u64 \<Rightarrow> lmb_seg_route_entry \<Rightarrow> lmb_seg_route_entry \<Rightarrow> bool" where
  "disc_keeps_compute now entry old \<longleftrightarrow>
     cp_samples (re_compute entry) = 0 \<and> re_last_compute_ms entry = 0 \<and>
     re_last_compute_ms old \<noteq> 0 \<and>
     now \<ge> re_last_compute_ms old \<and>
     now - re_last_compute_ms old \<le> 10000 \<and>
     lmb_seg_id_equal (lease_id (re_owner entry)) (lease_id (re_owner old)) \<and>
     fencing_epoch (re_owner entry) = fencing_epoch (re_owner old)"

definition disc_inherit ::
  "u64 \<Rightarrow> lmb_seg_route_snapshot option \<Rightarrow> lmb_seg_route_entry \<Rightarrow> lmb_seg_route_entry" where
  "disc_inherit now previous entry =
     (case disc_old_entry entry previous of
        Some old \<Rightarrow>
          let entry = entry\<lparr>re_latency := re_latency old, re_last_probe_ms := re_last_probe_ms old\<rparr>
          in if disc_keeps_compute now entry old
             then entry\<lparr>re_compute := re_compute old, re_last_compute_ms := re_last_compute_ms old\<rparr>
             else entry
      | None \<Rightarrow>
          entry\<lparr>re_latency := lmb_predict_init
            (if re_transport entry AND LMB_SEG_TRANSPORT_DIRECT \<noteq> 0 then 50000 else 120000)\<rparr>)"

text \<open>One direct probe: whether the connection opened and answered, and the clock around it.\<close>

record disc_probe =
  pr_connected :: bool
  pr_bad :: bool
  pr_before_ms :: u64
  pr_after_ms :: u64

definition disc_probe_us :: "disc_probe \<Rightarrow> u64" where
  "disc_probe_us p =
     (if \<not> pr_connected p then 0
      else if pr_bad p then 0
      else let elapsed = (pr_after_ms p - pr_before_ms p) * 1000
           in if elapsed \<noteq> 0 then elapsed else 1)"

definition disc_probe_entry :: "u64 \<Rightarrow> disc_probe \<Rightarrow> lmb_seg_route_entry \<Rightarrow> lmb_seg_route_entry" where
  "disc_probe_entry now probe entry =
     (if re_transport entry AND LMB_SEG_TRANSPORT_DIRECT = 0 then entry
      else let sample = disc_probe_us probe in
        if sample \<noteq> 0
        then entry\<lparr>re_latency := lmb_predict_observe sample (re_latency entry), re_last_probe_ms := now\<rparr>
        else entry\<lparr>re_latency := lmb_predict_failure now (re_latency entry)\<rparr>)"

text \<open>The rotating probes of one pass: \<open>n\<close> of them are left, \<open>probes\<close> gives their outcomes.\<close>

fun disc_probe_routes ::
  "u64 \<Rightarrow> nat \<Rightarrow> disc_probe list \<Rightarrow> u32 \<Rightarrow> lmb_seg_route_entry list \<Rightarrow> u32 \<times> lmb_seg_route_entry list" where
  "disc_probe_routes now (Suc n) (p # probes) cursor es =
     (let i = unat (cursor mod of_nat (length es))
      in disc_probe_routes now n probes (cursor + 1) (es[i := disc_probe_entry now p (es ! i)]))"
| "disc_probe_routes now _ _ cursor es = (cursor, es)"

definition disc_predict :: "u64 \<Rightarrow> lmb_seg_route_entry \<Rightarrow> lmb_seg_route_entry" where
  "disc_predict now entry =
     (let queue = av_queue_depth (re_advert entry) + av_inflight (re_advert entry);
          entry = entry\<lparr>re_predicted_us := lmb_predict_score (re_latency entry) queue\<rparr>
      in if \<not> lmb_predict_available (re_latency entry) now
         then entry\<lparr>re_predicted_us := UINT64_MAX div 4\<rparr> else entry)"

definition disc_enrich_routes ::
  "u64 \<Rightarrow> disc_probe list \<Rightarrow> u32 \<Rightarrow> lmb_seg_route_snapshot \<Rightarrow> lmb_seg_route_snapshot option \<Rightarrow>
   u32 \<times> lmb_seg_route_snapshot" where
  "disc_enrich_routes now probes cursor next previous =
     (let probe_budget = (if rs_count next < 8 then rs_count next else 8);
          es = map (disc_inherit now previous) (rs_used next);
          (cursor, es) = disc_probe_routes now (unat probe_budget) probes cursor es;
          es = map (disc_predict now) es
      in (cursor, next\<lparr>rs_entries := es @ drop (unat (rs_count next)) (rs_entries next)\<rparr>))"

section \<open>The discovery object\<close>

record lmb_seg_discovery =
  dd_stop :: bool
  dd_have_snapshot :: bool
  dd_refresh_requested :: bool
  dd_refresh_ms :: u32
  dd_tracker :: bytes
  dd_query :: lmb_seg_query
  dd_snapshot :: lmb_seg_route_snapshot
  dd_probe_cursor :: u32

definition disc_previous :: "lmb_seg_discovery \<Rightarrow> lmb_seg_route_snapshot option" where
  "disc_previous d = (if dd_have_snapshot d then Some (dd_snapshot d) else None)"

definition disc_publish :: "lmb_seg_route_snapshot \<Rightarrow> lmb_seg_discovery \<Rightarrow> lmb_seg_discovery" where
  "disc_publish next d =
     (if \<not> dd_have_snapshot d \<or> rs_route_generation next \<ge> rs_route_generation (dd_snapshot d)
      then d\<lparr>dd_snapshot := next, dd_have_snapshot := True\<rparr> else d)"

definition lmb_seg_discovery_start :: "bytes \<Rightarrow> lmb_seg_query \<Rightarrow> u32 \<Rightarrow> lmb_seg_discovery option" where
  "lmb_seg_discovery_start tracker query refresh_ms =
     (if tracker = [] \<or> length tracker \<ge> 256 \<or> \<not> lmb_seg_query_valid query \<or>
         refresh_ms < 50 \<or> refresh_ms > 3600000 then None
      else Some \<lparr>dd_stop = False, dd_have_snapshot = False, dd_refresh_requested = False,
             dd_refresh_ms = refresh_ms, dd_tracker = tracker, dd_query = query,
             dd_snapshot = \<lparr>rs_route_generation = 0, rs_fetched_at_ms = 0, rs_complete = 0, rs_count = 0,
               rs_entries = replicate LMB_SEG_ROUTE_MAX seg_entry_zero\<rparr>,
             dd_probe_cursor = 0\<rparr>)"

definition lmb_seg_discovery_snapshot :: "lmb_seg_discovery \<Rightarrow> lmb_seg_route_snapshot option" where
  "lmb_seg_discovery_snapshot d = (if dd_have_snapshot d then Some (dd_snapshot d) else None)"

definition lmb_seg_discovery_request_refresh :: "lmb_seg_discovery \<Rightarrow> lmb_seg_discovery option" where
  "lmb_seg_discovery_request_refresh d =
     (if \<not> dd_stop d then Some (d\<lparr>dd_refresh_requested := True\<rparr>) else None)"

text \<open>The part of a stop under the lock; the caller then joins the thread and frees the object.\<close>

definition lmb_seg_discovery_stop :: "lmb_seg_discovery \<Rightarrow> lmb_seg_discovery" where
  "lmb_seg_discovery_stop d = d\<lparr>dd_stop := True\<rparr>"

text \<open>The part of a failover refresh under the lock, on the fetched snapshot \<open>next\<close>.\<close>

definition lmb_seg_discovery_refresh_now ::
  "u64 \<Rightarrow> lmb_seg_route_snapshot \<Rightarrow> lmb_seg_discovery \<Rightarrow> lmb_seg_route_snapshot \<times> lmb_seg_discovery" where
  "lmb_seg_discovery_refresh_now now next d =
     (let next = rs_map (\<lambda>e. disc_predict now (disc_inherit now (disc_previous d) e)) next;
          d = disc_publish next d
      in (dd_snapshot d, d))"

text \<open>Where the background thread is: before the top of its loop, fetching, probing with what it
  read as the previous snapshot, about to publish, waiting on the condition variable, returned.\<close>

datatype disc_pc =
    D_Top
  | D_Fetch
  | D_Probe lmb_seg_route_snapshot "lmb_seg_route_snapshot option"
  | D_Publish lmb_seg_route_snapshot
  | D_Wait
  | D_Done

record disc_state =
  ds_disc :: lmb_seg_discovery
  ds_pc :: disc_pc
  ds_legacy :: "disc_legacy list"

inductive disc_step :: "disc_state \<Rightarrow> disc_state \<Rightarrow> bool" where
  worker_top: "ds_pc s = D_Top \<Longrightarrow>
    disc_step s (s\<lparr>ds_disc := (ds_disc s)\<lparr>dd_refresh_requested := False\<rparr>,
                   ds_pc := if dd_stop (ds_disc s) then D_Done else D_Fetch\<rparr>)"
| worker_fetched: "ds_pc s = D_Fetch \<Longrightarrow>
    lmb_seg_routes_fetch mem net (ds_legacy s) (dd_tracker (ds_disc s)) (dd_query (ds_disc s)) = (Some next, legacy) \<Longrightarrow>
    disc_step s (s\<lparr>ds_pc := D_Probe next (disc_previous (ds_disc s)), ds_legacy := legacy\<rparr>)"
| worker_failed: "ds_pc s = D_Fetch \<Longrightarrow>
    lmb_seg_routes_fetch mem net (ds_legacy s) (dd_tracker (ds_disc s)) (dd_query (ds_disc s)) = (None, legacy) \<Longrightarrow>
    disc_step s (s\<lparr>ds_pc := D_Wait, ds_legacy := legacy\<rparr>)"
| worker_probed: "ds_pc s = D_Probe next previous \<Longrightarrow> 8 \<le> length probes \<Longrightarrow>
    disc_enrich_routes now probes (dd_probe_cursor (ds_disc s)) next previous = (cursor, next') \<Longrightarrow>
    disc_step s (s\<lparr>ds_disc := (ds_disc s)\<lparr>dd_probe_cursor := cursor\<rparr>, ds_pc := D_Publish next'\<rparr>)"
| worker_publish: "ds_pc s = D_Publish next \<Longrightarrow>
    disc_step s (s\<lparr>ds_disc := disc_publish next (ds_disc s), ds_pc := D_Wait\<rparr>)"
| worker_wait: "ds_pc s = D_Wait \<Longrightarrow>
    disc_step s (s\<lparr>ds_pc := if dd_stop (ds_disc s) then D_Done else D_Top\<rparr>)"
| client_request: "lmb_seg_discovery_request_refresh (ds_disc s) = Some d \<Longrightarrow>
    disc_step s (s\<lparr>ds_disc := d\<rparr>)"
| client_fetch: "lmb_seg_routes_fetch mem net (ds_legacy s) (dd_tracker (ds_disc s)) (dd_query (ds_disc s)) = (r, legacy) \<Longrightarrow>
    disc_step s (s\<lparr>ds_legacy := legacy\<rparr>)"
| client_refresh: "fst (lmb_seg_routes_fetch mem net legacy (dd_tracker (ds_disc s)) (dd_query (ds_disc s))) = Some next \<Longrightarrow>
    lmb_seg_discovery_refresh_now now next (ds_disc s) = (out, d) \<Longrightarrow>
    disc_step s (s\<lparr>ds_disc := d\<rparr>)"
| client_stop: "disc_step s (s\<lparr>ds_disc := lmb_seg_discovery_stop (ds_disc s)\<rparr>)"

definition disc_initial :: "lmb_seg_discovery \<Rightarrow> disc_state" where
  "disc_initial d = \<lparr>ds_disc = d, ds_pc = D_Top, ds_legacy = replicate 4 \<lparr>lg_tracker = [], lg_retry_at_ms = 0\<rparr>\<rparr>"

end
