(* ===== verification/Discovery_Guarantees.thy ===== *)
theory Discovery_Guarantees
  imports Discovery_Refresh
begin

text \<open>
  What the discovery client guarantees: the sideband and the ranking only add telemetry, a
  published snapshot is consistent, its generation never goes back, and a compute sample is only
  shown for the lease and epoch it was measured under.
\<close>

section \<open>Telemetry leaves the placement alone\<close>

text \<open>The placement part of an entry.\<close>

definition entry_place :: "lmb_seg_route_entry \<Rightarrow> lmb_seg_advert \<times> lmb_seg_owner \<times> u32" where
  "entry_place e = (re_advert e, re_owner e, re_transport e)"

definition same_place :: "lmb_seg_route_snapshot \<Rightarrow> lmb_seg_route_snapshot \<Rightarrow> bool" where
  "same_place s t \<longleftrightarrow> rs_route_generation s = rs_route_generation t \<and> rs_complete s = rs_complete t \<and>
     rs_count s = rs_count t \<and> map entry_place (rs_entries s) = map entry_place (rs_entries t)"

lemma same_place_refl: "same_place s s"
  by (simp add: same_place_def)

lemma same_place_trans: "same_place s t \<Longrightarrow> same_place t u \<Longrightarrow> same_place s u"
  by (simp add: same_place_def)

lemma place_simps [simp]:
  "entry_place (e\<lparr>re_compute := v\<rparr>) = entry_place e"
  "entry_place (e\<lparr>re_last_compute_ms := t\<rparr>) = entry_place e"
  "entry_place (e\<lparr>re_latency := p\<rparr>) = entry_place e"
  "entry_place (e\<lparr>re_last_probe_ms := t\<rparr>) = entry_place e"
  "entry_place (e\<lparr>re_predicted_us := t\<rparr>) = entry_place e"
  by (simp_all add: entry_place_def)

lemma place_steps [simp]:
  "entry_place (disc_stamp_compute t e) = entry_place e"
  "entry_place (disc_inherit now prev e) = entry_place e"
  "entry_place (disc_probe_entry now p e) = entry_place e"
  "entry_place (disc_predict now e) = entry_place e"
  by (simp_all add: disc_stamp_compute_def disc_inherit_def disc_probe_entry_def disc_predict_def Let_def
      split: option.split)

lemma compute_steps [simp]:
  "re_compute (disc_stamp_compute t e) = re_compute e"
  "re_compute (disc_probe_entry now p e) = re_compute e"
  "re_compute (disc_predict now e) = re_compute e"
  by (simp_all add: disc_stamp_compute_def disc_probe_entry_def disc_predict_def Let_def)

lemma place_comp [simp]:
  "entry_place \<circ> disc_stamp_compute t = entry_place"
  "entry_place \<circ> disc_inherit now prev = entry_place"
  "entry_place \<circ> disc_predict now = entry_place"
  by (simp_all add: fun_eq_iff)

lemma map_place_update:
  "i < length es \<Longrightarrow> entry_place x = entry_place (es ! i) \<Longrightarrow> map entry_place (es[i := x]) = map entry_place es"
  by (simp add: map_update list_update_same_conv_nth)

lemma same_place_rs_map:
  assumes "\<And>e. entry_place (f e) = entry_place e"
  shows "same_place (rs_map f s) s"
proof -
  have "map entry_place (map f (rs_used s)) = map entry_place (rs_used s)" using assms by simp
  then show ?thesis
    by (simp add: same_place_def rs_map_def rs_used_def take_map [symmetric] drop_map [symmetric])
qed

section \<open>The sideband reply\<close>

text \<open>A sample belongs to an entry when it names the entry's lease and epoch.\<close>

definition compute_attributed :: "lmb_seg_route_entry \<Rightarrow> bool" where
  "compute_attributed e \<longleftrightarrow> cp_samples (re_compute e) \<noteq> 0 \<longrightarrow>
     cp_lease_id (re_compute e) = lease_id (re_owner e) \<and>
     cp_fencing_epoch (re_compute e) = fencing_epoch (re_owner e)"

lemma same_key_entry:
  "compute_same_key v (entry_key e) \<longleftrightarrow>
     cp_lease_id v = lease_id (re_owner e) \<and> cp_fencing_epoch v = fencing_epoch (re_owner e)"
  by (simp add: compute_same_key_def entry_key_def seg_compute_zero_def lmb_seg_id_equal_def)

lemma entry_index_SomeD:
  assumes "disc_entry_index v es = Some i"
  shows "i < length es \<and> compute_same_key v (entry_key (es ! i))"
proof -
  have "fold (\<lambda>j found. if compute_same_key v (entry_key (es ! j)) then Some j else found) js f = Some i \<Longrightarrow>
      f = Some i \<or> (i \<in> set js \<and> compute_same_key v (entry_key (es ! i)))" for js f
    by (induction js arbitrary: f) (auto split: if_splits)
  from this [of "[0..<length es]" None] assms show ?thesis
    by (auto simp: disc_entry_index_def)
qed

definition parsed_ok :: "lmb_seg_route_entry list \<Rightarrow> (nat \<times> lmb_seg_compute) list \<Rightarrow> bool" where
  "parsed_ok es ps \<longleftrightarrow> (\<forall>(i, v) \<in> set ps. i < length es \<and> compute_same_key v (entry_key (es ! i)) \<and>
     lmb_seg_compute_valid v) \<and> distinct (map fst ps)"

lemma value_read_valid: "disc_compute_value_read c = Some (v, r) \<Longrightarrow> lmb_seg_compute_valid v"
  using value_codec.get_dec by blast

lemma read_values_ok:
  "disc_read_values es n seen c = Some (ps, r) \<Longrightarrow> parsed_ok es seen \<Longrightarrow> parsed_ok es ps"
proof (induction n arbitrary: seen c)
  case 0
  then show ?case by simp
next
  case (Suc n)
  then obtain v c' i where v: "disc_compute_value_read c = Some (v, c')" "disc_entry_index v es = Some i"
    "\<not> list_ex (\<lambda>(j, _). i = j) seen" "disc_read_values es n (seen @ [(i, v)]) c' = Some (ps, r)"
    by (auto simp: bind_eq_Some_conv split: if_splits)
  have "parsed_ok es (seen @ [(i, v)])"
    using Suc.prems(2) v(3) entry_index_SomeD [OF v(2)] value_read_valid [OF v(1)]
    by (auto simp: parsed_ok_def list_ex_iff)
  from Suc.IH [OF v(4) this] show ?case .
qed

lemma fold_updates:
  assumes "distinct (map fst ps)" "\<forall>(i, v) \<in> set ps. i < length es"
  shows "length (fold (\<lambda>(i, v) es. es[i := (es ! i)\<lparr>re_compute := v\<rparr>]) ps es) = length es \<and>
    (\<forall>j < length es. fold (\<lambda>(i, v) es. es[i := (es ! i)\<lparr>re_compute := v\<rparr>]) ps es ! j =
       (case map_of ps j of Some v \<Rightarrow> (es ! j)\<lparr>re_compute := v\<rparr> | None \<Rightarrow> es ! j))"
  using assms
proof (induction ps arbitrary: es)
  case Nil
  then show ?case by simp
next
  case (Cons p ps)
  obtain i v where p: "p = (i, v)" by (cases p)
  have n: "map_of ps i = None" using Cons.prems(1) p by (simp add: map_of_eq_None_iff)
  let ?es = "es[i := (es ! i)\<lparr>re_compute := v\<rparr>]"
  have "distinct (map fst ps)" "\<forall>(i, v) \<in> set ps. i < length ?es" using Cons.prems by auto
  from Cons.IH [OF this] n Cons.prems(2) p show ?case
    by (auto simp: nth_list_update split: option.splits)
qed

lemma compute_get_decode_SomeD:
  assumes "lmb_seg_compute_get_decode body s = Some s'"
  obtains ps where "parsed_ok (rs_used s) ps"
    "s' = s\<lparr>rs_entries := fold (\<lambda>(i, v) es. es[i := (es ! i)\<lparr>re_compute := v\<rparr>]) ps (rs_entries s)\<rparr>"
proof -
  from assms obtain n c ps where
    "disc_compute_header body = Some (n, c)" "disc_read_values (rs_used s) (unat n) [] c = Some (ps, [])"
    "s' = s\<lparr>rs_entries := fold (\<lambda>(i, v) es. es[i := (es ! i)\<lparr>re_compute := v\<rparr>]) ps (rs_entries s)\<rparr>"
    by (auto simp: lmb_seg_compute_get_decode_def bind_eq_Some_conv split: if_splits)
  with read_values_ok [of "rs_used s" "unat n" "[]" c ps "[]"] show thesis
    using that by (simp add: parsed_ok_def)
qed

lemma compute_get_decode_length:
  assumes "lmb_seg_compute_get_decode body s = Some s'"
  shows "length (rs_entries s') = length (rs_entries s)"
proof -
  have "length (fold (\<lambda>(i, v) es. es[i := (es ! i)\<lparr>re_compute := v\<rparr>]) ps es) = length es" for ps and es :: "lmb_seg_route_entry list"
    by (induction ps arbitrary: es) (auto simp: split_beta)
  with assms show ?thesis by (elim compute_get_decode_SomeD) simp
qed

text \<open>What an accepted reply does, entry by entry.\<close>

lemma compute_get_decode_entry:
  assumes "lmb_seg_compute_get_decode body s = Some s'" "j < length (rs_entries s)"
  shows "rs_entries s' ! j = rs_entries s ! j \<or>
    (j < length (rs_used s) \<and> (\<exists>v. rs_entries s' ! j = (rs_entries s ! j)\<lparr>re_compute := v\<rparr> \<and>
       compute_same_key v (entry_key (rs_entries s ! j)) \<and> lmb_seg_compute_valid v))"
proof -
  from assms(1) obtain ps where ps: "parsed_ok (rs_used s) ps"
    "s' = s\<lparr>rs_entries := fold (\<lambda>(i, v) es. es[i := (es ! i)\<lparr>re_compute := v\<rparr>]) ps (rs_entries s)\<rparr>"
    by (rule compute_get_decode_SomeD)
  have b: "\<forall>(i, v) \<in> set ps. i < length (rs_entries s)" using ps(1) by (auto simp: parsed_ok_def rs_used_def)
  have d: "distinct (map fst ps)" using ps(1) by (simp add: parsed_ok_def)
  note F = fold_updates [OF d b]
  show ?thesis
  proof (cases "map_of ps j")
    case None
    then show ?thesis using F assms(2) by (simp add: ps(2))
  next
    case (Some v)
    then have "(j, v) \<in> set ps" by (rule map_of_SomeD)
    with ps(1) have "j < length (rs_used s)" "compute_same_key v (entry_key (rs_used s ! j))" "lmb_seg_compute_valid v"
      by (auto simp: parsed_ok_def)
    moreover have "rs_entries s' ! j = (rs_entries s ! j)\<lparr>re_compute := v\<rparr>"
      using F assms(2) Some by (simp add: ps(2))
    ultimately show ?thesis by (auto simp: rs_used_def)
  qed
qed

lemma compute_get_decode_place:
  assumes "lmb_seg_compute_get_decode body s = Some s'"
  shows "same_place s' s"
proof -
  from assms obtain ps where s': "s' = s\<lparr>rs_entries := rs_entries s'\<rparr>"
    by (elim compute_get_decode_SomeD) simp
  have "map entry_place (rs_entries s') = map entry_place (rs_entries s)"
  proof (rule nth_equalityI)
    note l = compute_get_decode_length [OF assms]
    then show "length (map entry_place (rs_entries s')) = length (map entry_place (rs_entries s))" by simp
    fix j assume "j < length (map entry_place (rs_entries s'))"
    with l have "j < length (rs_entries s)" by simp
    with compute_get_decode_entry [OF assms this] l
    show "map entry_place (rs_entries s') ! j = map entry_place (rs_entries s) ! j" by auto
  qed
  moreover have "rs_route_generation s' = rs_route_generation s" "rs_complete s' = rs_complete s" "rs_count s' = rs_count s"
    by (subst s', simp)+
  ultimately show ?thesis by (simp add: same_place_def)
qed

section \<open>Ranking\<close>

lemma probe_routes_place:
  "length (snd (disc_probe_routes now n probes cursor es)) = length es \<and>
   map entry_place (snd (disc_probe_routes now n probes cursor es)) = map entry_place es \<and>
   map re_compute (snd (disc_probe_routes now n probes cursor es)) = map re_compute es"
proof (induction now n probes cursor es rule: disc_probe_routes.induct)
  case (1 now n p probes cursor es)
  let ?i = "unat (cursor mod of_nat (length es))"
  have "map f (es[?i := x]) = map f es" if "f x = f (es ! ?i)" for f :: "lmb_seg_route_entry \<Rightarrow> 'a" and x
    using that by (cases "?i < length es") (simp_all add: map_update list_update_same_conv_nth list_update_beyond)
  from this [of entry_place "disc_probe_entry now p (es ! ?i)"]
    this [of re_compute "disc_probe_entry now p (es ! ?i)"] 1
  show ?case by (simp add: Let_def)
qed simp_all

lemma map_map_place: "map entry_place (map (disc_inherit now previous) es) = map entry_place es"
  by simp

lemma enrich_place:
  assumes "disc_enrich_routes now probes cursor s previous = (cursor', s')"
  shows "same_place s' s"
proof -
  obtain cu es where p: "disc_probe_routes now (unat (if rs_count s < 8 then rs_count s else 8)) probes cursor
      (map (disc_inherit now previous) (rs_used s)) = (cu, es)" by fastforce
  from probe_routes_place [of now _ probes cursor "map (disc_inherit now previous) (rs_used s)"] p
  have "map entry_place es = map entry_place (rs_used s)" by (metis (no_types, lifting) map_map_place snd_conv)
  with p assms show ?thesis
    by (auto simp: disc_enrich_routes_def same_place_def rs_used_def take_map [symmetric] drop_map [symmetric] Let_def)
qed

section \<open>Consistent snapshots\<close>

definition snapshot_ok :: "lmb_seg_query \<Rightarrow> lmb_seg_route_snapshot \<Rightarrow> bool" where
  "snapshot_ok q s \<longleftrightarrow> routes_ok s \<and>
     rs_complete s = (if lmb_seg_route_complete s q then 1 else 0) \<and>
     (\<forall>e \<in> set (rs_used s). compute_attributed e)"

lemma route_edges_place:
  assumes "map entry_place es = map entry_place es'"
  shows "route_edges q es = route_edges q es'"
proof -
  have E: "route_edges q es = (\<lambda>(a, w, t). (av_layer_begin a, av_layer_end a)) `
      {x \<in> set (map entry_place es). lmb_seg_advert_compatible (fst x) q \<and>
         qy_layer_begin q \<le> av_layer_begin (fst x) \<and> av_layer_end (fst x) \<le> qy_layer_end q}" for es
    by (force simp: route_edges_def entry_place_def)
  show ?thesis unfolding E assms ..
qed

lemma same_place_used: "same_place s t \<Longrightarrow> map entry_place (rs_used s) = map entry_place (rs_used t)"
  by (simp add: same_place_def rs_used_def flip: take_map)

lemma same_place_complete: "same_place s t \<Longrightarrow> lmb_seg_route_complete s q = lmb_seg_route_complete t q"
  using route_edges_place [OF same_place_used, of s t q] by (simp add: route_complete_iff same_place_def)

lemma entry_ok_place: "entry_place e = entry_place e' \<Longrightarrow> entry_ok g e = entry_ok g e'"
  by (simp add: entry_place_def entry_ok_def entry_sized_def disc_entry_valid_def)

lemma routes_ok_entries:
  "routes_ok s \<longleftrightarrow> rs_route_generation s \<noteq> 0 \<and> unat (rs_count s) \<le> LMB_SEG_ROUTE_MAX \<and>
     length (rs_entries s) = LMB_SEG_ROUTE_MAX \<and> (\<forall>e \<in> set (rs_used s). entry_ok (rs_route_generation s) e)"
  by (auto simp: routes_ok_def routes_sized_def routes_valid_def entry_ok_def)

lemma all_place:
  assumes "map entry_place es = map entry_place es'" "\<And>e e'. entry_place e = entry_place e' \<Longrightarrow> P e = P e'"
  shows "(\<forall>e \<in> set es. P e) = (\<forall>e \<in> set es'. P e)"
proof -
  have "list_all2 (\<lambda>e e'. entry_place e = entry_place e') es es'"
    using assms(1) by (simp add: list.rel_eq [symmetric] list_all2_map1 list_all2_map2)
  then show ?thesis
  proof (induction rule: list_all2_induct)
    case (Cons x xs y ys)
    then show ?case using assms(2) [of x y] by auto
  qed simp
qed

lemma same_place_ok:
  assumes "same_place s t"
  shows "routes_ok s = routes_ok t"
proof -
  have g: "rs_route_generation s = rs_route_generation t" "rs_count s = rs_count t"
    using assms by (simp_all add: same_place_def)
  have l: "length (rs_entries s) = length (rs_entries t)"
    using assms by (metis same_place_def length_map)
  have "(\<forall>e \<in> set (rs_used s). entry_ok (rs_route_generation s) e) =
      (\<forall>e \<in> set (rs_used t). entry_ok (rs_route_generation s) e)"
    by (rule all_place [OF same_place_used [OF assms] entry_ok_place])
  then show ?thesis by (simp only: routes_ok_entries g l)
qed

lemma snapshot_ok_place:
  assumes "snapshot_ok q s" "same_place t s" "\<And>e. e \<in> set (rs_used t) \<Longrightarrow> compute_attributed e"
  shows "snapshot_ok q t"
  using assms same_place_ok [OF assms(2)] same_place_complete [OF assms(2), of q]
  by (simp add: snapshot_ok_def same_place_def)

lemma rs_used_map [simp]: "rs_used (rs_map f s) = map f (rs_used s)"
  by (auto simp: rs_map_def rs_used_def)

lemma attributed_stamp [simp]: "compute_attributed (disc_stamp_compute t e) = compute_attributed e"
  by (simp add: compute_attributed_def disc_stamp_compute_def)

lemma attributed_compute:
  "entry_place e' = entry_place e \<Longrightarrow> re_compute e' = re_compute e \<Longrightarrow> compute_attributed e' = compute_attributed e"
  by (simp add: compute_attributed_def entry_place_def)

lemma decoded_ok:
  assumes "lmb_seg_route_decode now body = Some s"
    "rs_complete s = (if lmb_seg_route_complete s q then 1 else 0)"
  shows "snapshot_ok q s"
proof -
  from assms(1) obtain c where "disc_get_routes now body = Some (s, c)"
    by (auto simp: lmb_seg_route_decode_def split: option.splits if_splits prod.splits)
  then have s: "routes_ok s" "canon_routes now s = s" using disc_get_routes_SomeD by blast+
  have u: "rs_used s = map canon_entry (rs_used s)"
  proof -
    have "length (rs_used s) = unat (rs_count s)"
      using s(1) by (auto simp: routes_ok_entries rs_used_def)
    then have "rs_used (canon_routes now s) = map canon_entry (rs_used s)"
      by (simp add: canon_routes_def) (simp add: rs_used_def)
    then show ?thesis by (simp add: s(2))
  qed
  have "compute_attributed (canon_entry e)" for e
    by (simp add: compute_attributed_def canon_entry_def disc_fresh_entry_def seg_compute_zero_def)
  then have "compute_attributed e" if "e \<in> set (rs_used s)" for e
    using that u by (metis (no_types, lifting) ex_map_conv)
  with s assms(2) show ?thesis by (simp add: snapshot_ok_def)
qed

lemma sideband_ok:
  assumes "lmb_seg_compute_get_decode body s = Some s'" "snapshot_ok q s"
  shows "snapshot_ok q s'"
proof (rule snapshot_ok_place [OF assms(2) compute_get_decode_place [OF assms(1)]])
  fix e assume "e \<in> set (rs_used s')"
  moreover have c: "rs_count s' = rs_count s"
    using compute_get_decode_place [OF assms(1)] by (simp add: same_place_def)
  ultimately obtain j where j: "j < length (rs_entries s)" "j < unat (rs_count s)" "e = rs_entries s' ! j"
    using compute_get_decode_length [OF assms(1)] by (auto simp: rs_used_def in_set_conv_nth)
  have "rs_entries s ! j \<in> set (rs_used s)" using j by (auto simp: rs_used_def in_set_conv_nth)
  then have "compute_attributed (rs_entries s ! j)" using assms(2) by (simp add: snapshot_ok_def)
  with compute_get_decode_entry [OF assms(1) j(1)] show "compute_attributed e"
    by (auto simp: j(3) compute_attributed_def same_key_entry)
qed

lemma fetch_ok:
  assumes "lmb_seg_routes_fetch mem net legacy tracker q = (Some s, legacy')"
  shows "snapshot_ok q s"
proof -
  from assms obtain body s0 where s0: "lmb_seg_route_decode (net_decoded_ms net) body = Some s0"
    "rs_complete s0 = (if lmb_seg_route_complete s0 q then 1 else 0)"
    and s: "s = s0 \<or> s = fst (disc_fetch_compute mem net legacy tracker s0)"
    by (auto simp: lmb_seg_routes_fetch_def Let_def split: if_splits option.splits prod.splits)
  note ok = decoded_ok [OF s0]
  have "snapshot_ok q (rs_map (disc_stamp_compute t) s1)" if "lmb_seg_compute_get_decode b s0 = Some s1" for t b s1
    using sideband_ok [OF that ok]
    by (intro snapshot_ok_place [OF sideband_ok [OF that ok] same_place_rs_map]) (auto simp: snapshot_ok_def)
  then have "snapshot_ok q (fst (disc_fetch_compute mem net legacy tracker s0))"
    using ok by (auto simp: disc_fetch_compute_def Let_def split: option.splits if_splits)
  with s ok show ?thesis by blast
qed

lemma attributed_inherit:
  assumes "compute_attributed e" "\<And>p x. previous = Some p \<Longrightarrow> x \<in> set (rs_used p) \<Longrightarrow> compute_attributed x"
  shows "compute_attributed (disc_inherit now previous e)"
proof (cases "disc_old_entry e previous")
  case None
  with assms(1) show ?thesis by (simp add: disc_inherit_def compute_attributed_def)
next
  case (Some old)
  then obtain p where "previous = Some p" "old \<in> set (rs_used p)"
    by (auto simp: disc_old_entry_def find_Some_iff split: option.splits)
  then have "compute_attributed old" by (rule assms(2))
  with Some assms(1) show ?thesis
    by (auto simp: disc_inherit_def compute_attributed_def disc_keeps_compute_def lmb_seg_id_equal_def Let_def)
qed

lemma enrich_ok:
  assumes "disc_enrich_routes now probes cursor s previous = (cursor', s')" "snapshot_ok q s"
    "\<And>p. previous = Some p \<Longrightarrow> snapshot_ok q p"
  shows "snapshot_ok q s'"
proof (rule snapshot_ok_place [OF assms(2) enrich_place [OF assms(1)]])
  fix e assume e: "e \<in> set (rs_used s')"
  obtain cu es where p: "disc_probe_routes now (unat (if rs_count s < 8 then rs_count s else 8)) probes cursor
      (map (disc_inherit now previous) (rs_used s)) = (cu, es)" by fastforce
  with assms(1) have s': "s' = s\<lparr>rs_entries := map (disc_predict now) es @ drop (unat (rs_count s)) (rs_entries s)\<rparr>"
    by (simp add: disc_enrich_routes_def Let_def)
  note P = probe_routes_place [of now "unat (if rs_count s < 8 then rs_count s else 8)" probes cursor
      "map (disc_inherit now previous) (rs_used s)", unfolded p snd_conv]
  have l: "length es = unat (rs_count s)"
    using P assms(2) by (simp add: snapshot_ok_def routes_ok_entries rs_used_def)
  then have "rs_used s' = map (disc_predict now) es" by (simp add: s' rs_used_def)
  with e obtain j where j: "j < length es" "e = disc_predict now (es ! j)" by (auto simp: in_set_conv_nth)
  let ?old = "rs_used s ! j"
  have jl: "j < length (rs_used s)" using j(1) P by simp
  have "entry_place (es ! j) = entry_place (disc_inherit now previous ?old)"
    using P j(1) jl by (metis (no_types, lifting) nth_map length_map)
  moreover have "re_compute (es ! j) = re_compute (disc_inherit now previous ?old)"
    using P j(1) jl by (metis (no_types, lifting) nth_map length_map)
  moreover have "compute_attributed (disc_inherit now previous ?old)"
    using assms(2,3) jl by (intro attributed_inherit) (auto simp: snapshot_ok_def)
  ultimately show "compute_attributed e"
    by (subst attributed_compute [of e "disc_inherit now previous ?old"]) (simp_all add: j(2))
qed

lemma refresh_ok:
  assumes "snapshot_ok q next" "\<And>p. disc_previous d = Some p \<Longrightarrow> snapshot_ok q p"
  shows "snapshot_ok q (rs_map (\<lambda>e. disc_predict now (disc_inherit now (disc_previous d) e)) next)"
proof (rule snapshot_ok_place [OF assms(1) same_place_rs_map])
  fix e assume "e \<in> set (rs_used (rs_map (\<lambda>e. disc_predict now (disc_inherit now (disc_previous d) e)) next))"
  then obtain x where x: "x \<in> set (rs_used next)" "e = disc_predict now (disc_inherit now (disc_previous d) x)"
    by auto
  have "compute_attributed (disc_inherit now (disc_previous d) x)"
    using x(1) assms by (intro attributed_inherit) (auto simp: snapshot_ok_def)
  then show "compute_attributed e"
    by (subst attributed_compute [of e "disc_inherit now (disc_previous d) x"]) (simp_all add: x(2))
qed simp

section \<open>The discovery object\<close>

definition disc_inv :: "lmb_seg_query \<Rightarrow> disc_state \<Rightarrow> bool" where
  "disc_inv q s \<longleftrightarrow> dd_query (ds_disc s) = q \<and>
     (dd_have_snapshot (ds_disc s) \<longrightarrow> snapshot_ok q (dd_snapshot (ds_disc s))) \<and>
     (\<forall>next previous. ds_pc s = D_Probe next previous \<longrightarrow> snapshot_ok q next \<and>
        (\<forall>p. previous = Some p \<longrightarrow> snapshot_ok q p)) \<and>
     (\<forall>next. ds_pc s = D_Publish next \<longrightarrow> snapshot_ok q next)"

lemma publish_query [simp]: "dd_query (disc_publish next d) = dd_query d"
  "dd_tracker (disc_publish next d) = dd_tracker d" "dd_stop (disc_publish next d) = dd_stop d"
  by (simp_all add: disc_publish_def)

lemma publish_ok:
  "snapshot_ok q next \<Longrightarrow> (dd_have_snapshot d \<Longrightarrow> snapshot_ok q (dd_snapshot d)) \<Longrightarrow>
   dd_have_snapshot (disc_publish next d) \<and> snapshot_ok q (dd_snapshot (disc_publish next d))"
  by (simp add: disc_publish_def)

lemma previous_SomeD: "disc_previous d = Some p \<Longrightarrow> dd_have_snapshot d \<and> p = dd_snapshot d"
  by (auto simp: disc_previous_def split: if_splits)

lemma disc_step_inv:
  assumes "disc_step s t" "disc_inv q s"
  shows "disc_inv q t"
  using assms
proof (induction rule: disc_step.induct)
  case (worker_fetched s mem net "next" legacy)
  then show ?case using fetch_ok [OF worker_fetched(2)] by (auto simp: disc_inv_def dest: previous_SomeD)
next
  case (worker_probed s "next" previous probes now cursor next')
  then have "snapshot_ok q next'"
    by (intro enrich_ok [OF worker_probed(3)]) (auto simp: disc_inv_def)
  with worker_probed show ?case by (simp add: disc_inv_def)
next
  case (worker_publish s "next")
  then show ?case using publish_ok [of q "next" "ds_disc s"] by (simp add: disc_inv_def)
next
  case (client_request s d)
  then show ?case by (auto simp: disc_inv_def lmb_seg_discovery_request_refresh_def split: if_splits)
next
  case (client_refresh mem net legacy s "next" now out d)
  then have n: "snapshot_ok q next" using fetch_ok by (metis prod.collapse disc_inv_def)
  let ?next = "rs_map (\<lambda>e. disc_predict now (disc_inherit now (disc_previous (ds_disc s)) e)) next"
  have "snapshot_ok q ?next"
    using client_refresh.prems by (intro refresh_ok n) (auto simp: disc_inv_def dest: previous_SomeD)
  moreover have "d = disc_publish ?next (ds_disc s)"
    using client_refresh(2) by (simp add: lmb_seg_discovery_refresh_now_def Let_def)
  ultimately show ?case
    using client_refresh.prems publish_ok [of q ?next "ds_disc s"] by (simp add: disc_inv_def)
qed (auto simp: disc_inv_def lmb_seg_discovery_stop_def)

text \<open>Reachable states of a discovery object that was started.\<close>

inductive disc_reachable :: "bytes \<Rightarrow> lmb_seg_query \<Rightarrow> u32 \<Rightarrow> disc_state \<Rightarrow> bool" for tracker query refresh where
  start: "lmb_seg_discovery_start tracker query refresh = Some d \<Longrightarrow>
    disc_reachable tracker query refresh (disc_initial d)"
| step: "disc_reachable tracker query refresh s \<Longrightarrow> disc_step s t \<Longrightarrow> disc_reachable tracker query refresh t"

lemma disc_reachable_inv: "disc_reachable tracker q refresh s \<Longrightarrow> disc_inv q s"
proof (induction rule: disc_reachable.induct)
  case (start d)
  then show ?case
    by (auto simp: disc_inv_def disc_initial_def lmb_seg_discovery_start_def split: if_splits)
next
  case (step s t)
  then show ?case by (metis disc_step_inv)
qed

lemma disc_step_generation:
  assumes "disc_step s t" "dd_have_snapshot (ds_disc s)"
  shows "dd_have_snapshot (ds_disc t) \<and>
    rs_route_generation (dd_snapshot (ds_disc s)) \<le> rs_route_generation (dd_snapshot (ds_disc t))"
  using assms
  by (induction rule: disc_step.induct)
     (auto simp: disc_publish_def lmb_seg_discovery_request_refresh_def lmb_seg_discovery_stop_def lmb_seg_discovery_refresh_now_def
        Let_def not_le split: if_splits)

end
