(* ===== verification/Discovery_Claims.thy ===== *)
theory Discovery_Claims
  imports Discovery_Guarantees
begin

text \<open>
  The properties of discovery, and the concrete placement they are applied to: one node serving
  the layers 0 to 4 of a model that a chat asks for.
\<close>

section \<open>A concrete placement\<close>

definition ex_advert :: lmb_seg_advert where
  "ex_advert =
     \<lparr>av_peer_name = c_buf LMB_SEG_PEER_NAME_MAX [112], av_addr = c_buf LMB_SEG_ADDR_MAX [49],
      av_model = c_buf LMB_SEG_MODEL_MAX [109], av_model_root = replicate LMB_SEG_ROOT_BYTES 1,
      av_tokenizer_root = replicate LMB_SEG_ROOT_BYTES 2, av_layer_begin = 0, av_layer_end = 4,
      av_max_context = 64, av_max_rows = 4, av_state_dtype = 1, av_state_width = 8,
      av_max_sessions = 2, av_active_sessions = 0, av_queue_depth = 0, av_inflight = 0,
      av_flags = 0,
      av_capabilities = LMB_SEG_CAP_RANGE_NATIVE OR LMB_SEG_CAP_MULTI_SESSION OR LMB_SEG_CAP_CPU,
      av_resident_ram_bytes = 0, av_resident_vram_bytes = 0,
      av_engine_id = c_buf LMB_SEG_ENGINE_MAX [97],
      av_state_schema = c_buf LMB_SEG_SCHEMA_MAX [98],
      av_numeric_class = c_buf LMB_SEG_NUMERIC_CLASS_MAX [99]\<rparr>"

definition ex_query :: lmb_seg_query where
  "ex_query =
     \<lparr>qy_model = c_buf LMB_SEG_MODEL_MAX [109], qy_model_root = replicate LMB_SEG_ROOT_BYTES 1,
      qy_tokenizer_root = replicate LMB_SEG_ROOT_BYTES 2, qy_layer_begin = 0, qy_layer_end = 4,
      qy_context_tokens = 16, qy_rows = 1, qy_state_dtype = 1, qy_state_width = 8,
      qy_required_capabilities = LMB_SEG_CAP_RANGE_NATIVE,
      qy_engine_id = c_buf LMB_SEG_ENGINE_MAX [97],
      qy_state_schema = c_buf LMB_SEG_SCHEMA_MAX [98],
      qy_numeric_class = c_buf LMB_SEG_NUMERIC_CLASS_MAX [99]\<rparr>"

definition ex_entry :: lmb_seg_route_entry where
  "ex_entry = disc_fresh_entry ex_advert
     \<lparr>lease_id = replicate LMB_SEG_ID_BYTES 3, fencing_epoch = 1, route_generation = 7\<rparr> LMB_SEG_TRANSPORT_DIRECT"

definition ex_routes :: lmb_seg_route_snapshot where
  "ex_routes = \<lparr>rs_route_generation = 7, rs_fetched_at_ms = 100, rs_complete = 1, rs_count = 1,
     rs_entries = ex_entry # replicate 63 seg_entry_zero\<rparr>"

definition ex_tracker :: bytes where "ex_tracker = [116]"

text \<open>A tracker that answers the route request and does not speak the sideband.\<close>

definition ex_net :: disc_net where
  "ex_net = \<lparr>net_secure = True,
     net_request = (\<lambda>_. Some \<lparr>msg_op = LMB_SEG_ROUTES_R, msg_body = enc_routes ex_routes, msg_pay_len = 0\<rparr>),
     net_compute = (\<lambda>_. None), net_decoded_ms = 100, net_query_ms = 100, net_received_ms = 100,
     net_legacy_ms = 100\<rparr>"

lemma ex_compatible: "lmb_seg_advert_compatible ex_advert ex_query"
  by code_simp

lemma ex_advert_valid: "lmb_seg_advert_valid ex_advert"
  by code_simp

lemma ex_query_valid: "lmb_seg_query_valid ex_query"
  by code_simp

lemma ex_advert_sized: "advert_sized ex_advert"
  by (simp add: advert_sized_def ex_advert_def)

lemma ex_query_sized: "query_sized ex_query"
  by (simp add: query_sized_def ex_query_def)

lemma ex_entry_ok: "entry_ok 7 ex_entry"
proof -
  have "owner_sized (re_owner ex_entry)"
    by (simp add: ex_entry_def disc_fresh_entry_def owner_sized_def)
  moreover have "\<not> lmb_seg_id_is_zero (lease_id (re_owner ex_entry))" by code_simp
  ultimately show ?thesis
    using ex_advert_valid ex_advert_sized
    by (simp add: entry_ok_def entry_sized_def disc_entry_valid_def ex_entry_def disc_fresh_entry_def)
qed

lemma ex_canon: "canon_entry ex_entry = ex_entry"
proof -
  have "canon_advert ex_advert = ex_advert" by (simp add: canon_advert_def canon_str_def ex_advert_def)
  then show ?thesis by (simp add: canon_entry_def ex_entry_def disc_fresh_entry_def)
qed

lemma ex_used: "rs_used ex_routes = [ex_entry]"
  by (simp add: rs_used_def ex_routes_def)

lemma ex_routes_ok: "routes_ok ex_routes"
  using ex_entry_ok by (simp add: routes_ok_entries ex_used) (simp add: ex_routes_def)

lemma ex_routes_decode: "lmb_seg_route_decode 100 (enc_routes ex_routes) = Some ex_routes"
proof -
  have "canon_routes 100 ex_routes = ex_routes"
    by (simp add: canon_routes_def ex_used ex_canon) (simp add: ex_routes_def)
  then show ?thesis
    using disc_get_routes_enc [OF ex_routes_ok, of 100 "[]"] by (simp add: lmb_seg_route_decode_def)
qed

lemma ex_routes_complete: "lmb_seg_route_complete ex_routes ex_query"
proof -
  have "(0, 4) \<in> route_edges ex_query [ex_entry]"
    using ex_compatible by (auto simp: route_edges_def ex_entry_def disc_fresh_entry_def)
      (simp_all add: ex_advert_def ex_query_def)
  then have "(qy_layer_begin ex_query, qy_layer_end ex_query) \<in> (route_edges ex_query (rs_used ex_routes))\<^sup>*"
    by (simp add: ex_used) (simp add: ex_query_def r_into_rtrancl)
  then show ?thesis using ex_query_valid by (simp add: route_complete_iff) (simp add: ex_routes_def)
qed

lemma ex_query_encode: "\<exists>body. lmb_seg_query_encode (\<lambda>_. True) ex_query = Some body"
proof -
  have "length (enc_disc_prefix @ enc_query ex_query) = 116" by code_simp
  then show ?thesis
    using query_msg.encode_total [OF ex_query_valid ex_query_sized] by simp
qed

lemma ex_fetch: "lmb_seg_routes_fetch (\<lambda>_. True) ex_net legacy ex_tracker ex_query = (Some ex_routes, legacy)"
proof -
  have "disc_fetch_compute (\<lambda>_. True) ex_net legacy ex_tracker ex_routes = (ex_routes, legacy)"
    by (simp add: disc_fetch_compute_def disc_compute_query_def ex_net_def split: option.split)
  then show ?thesis
    using ex_query_encode ex_routes_decode ex_routes_complete
    by (auto simp: lmb_seg_routes_fetch_def ex_net_def ex_tracker_def Let_def) (simp_all add: ex_routes_def)
qed

definition ex_disc :: lmb_seg_discovery where
  "ex_disc = the (lmb_seg_discovery_start ex_tracker ex_query 1000)"

lemma ex_disc_start: "lmb_seg_discovery_start ex_tracker ex_query 1000 = Some ex_disc"
  by (simp add: ex_disc_def lmb_seg_discovery_start_def ex_query_valid ex_tracker_def)

lemma ex_disc_fields: "dd_tracker ex_disc = ex_tracker" "dd_query ex_disc = ex_query" "\<not> dd_have_snapshot ex_disc"
  by (simp_all add: ex_disc_def lmb_seg_discovery_start_def ex_query_valid ex_tracker_def)

definition ex_after :: disc_state where
  "ex_after = (disc_initial ex_disc)\<lparr>ds_disc := snd (lmb_seg_discovery_refresh_now 100 ex_routes ex_disc)\<rparr>"

lemma ex_step: "disc_step (disc_initial ex_disc) ex_after"
proof -
  obtain out d where r: "lmb_seg_discovery_refresh_now 100 ex_routes ex_disc = (out, d)" by fastforce
  have f: "fst (lmb_seg_routes_fetch (\<lambda>_. True) ex_net [] (dd_tracker (ds_disc (disc_initial ex_disc)))
      (dd_query (ds_disc (disc_initial ex_disc)))) = Some ex_routes"
    by (simp add: disc_initial_def ex_disc_fields ex_fetch)
  show ?thesis
    unfolding ex_after_def r snd_conv
    by (rule disc_step.client_refresh [OF f, of 100 out]) (simp add: disc_initial_def r)
qed

lemma ex_disc_reach: "disc_reachable ex_tracker ex_query 1000 ex_after"
  using disc_reachable.step [OF disc_reachable.start [OF ex_disc_start] ex_step] .

lemma ex_published: "dd_have_snapshot (ds_disc ex_after)"
  "rs_route_generation (dd_snapshot (ds_disc ex_after)) = 7"
  by (simp_all add: ex_after_def lmb_seg_discovery_refresh_now_def disc_publish_def ex_disc_fields Let_def
      rs_map_def ex_routes_def)

section \<open>Properties\<close>

text \<open>C26: a snapshot covers a query exactly when compatible adverts that lie inside the requested
  layers chain from its first to its last boundary, each range starting where one before it ended:
  overlapping ranges do not count as coverage, and neither the number of passes nor the bounded
  boundary array misses a chain.\<close>

theorem route_coverage:
  "lmb_seg_route_complete s q \<longleftrightarrow>
     lmb_seg_query_valid q \<and> unat (rs_count s) \<le> LMB_SEG_ROUTE_MAX \<and>
     (qy_layer_begin q, qy_layer_end q) \<in>
       {(av_layer_begin (re_advert e), av_layer_end (re_advert e)) | e.
          e \<in> set (rs_used s) \<and> lmb_seg_advert_compatible (re_advert e) q \<and>
          qy_layer_begin q \<le> av_layer_begin (re_advert e) \<and>
          av_layer_end (re_advert e) \<le> qy_layer_end q}\<^sup>*"
  unfolding route_complete_iff route_edges_def ..

text \<open>C39: what a chat reads is consistent, at every moment and under any interleaving of the worker,
  of failover refreshes and of replies (well formed or not) of the network: the generation is not
  zero, the entries in use are valid and belong to it, the completeness flag says what the
  coverage of the query is, and a compute sample is shown only next to the lease and fencing epoch
  it was measured under.\<close>

theorem discovery_snapshot_consistent:
  assumes "disc_reachable tracker q refresh s" "lmb_seg_discovery_snapshot (ds_disc s) = Some snap"
  shows "rs_route_generation snap \<noteq> 0 \<and> unat (rs_count snap) \<le> LMB_SEG_ROUTE_MAX \<and>
    rs_complete snap = (if lmb_seg_route_complete snap q then 1 else 0) \<and>
    (\<forall>e \<in> set (rs_used snap). disc_entry_valid (rs_route_generation snap) e \<and>
       (cp_samples (re_compute e) \<noteq> 0 \<longrightarrow>
          cp_lease_id (re_compute e) = lease_id (re_owner e) \<and>
          cp_fencing_epoch (re_compute e) = fencing_epoch (re_owner e)))"
proof -
  have "snapshot_ok q snap"
    using disc_reachable_inv [OF assms(1)] assms(2)
    by (auto simp: disc_inv_def lmb_seg_discovery_snapshot_def split: if_splits)
  then show ?thesis
    by (auto simp: snapshot_ok_def routes_ok_entries entry_ok_def compute_attributed_def)
qed

lemma discovery_snapshot_consistent_witness:
  "\<exists>snap. lmb_seg_discovery_snapshot (ds_disc ex_after) = Some snap \<and> rs_route_generation snap = 7 \<and>
     rs_complete snap = (if lmb_seg_route_complete snap ex_query then 1 else 0)"
proof -
  have "lmb_seg_discovery_snapshot (ds_disc ex_after) = Some (dd_snapshot (ds_disc ex_after))"
    by (simp add: lmb_seg_discovery_snapshot_def ex_published)
  with discovery_snapshot_consistent [OF ex_disc_reach this] ex_published(2) show ?thesis by blast
qed

text \<open>A published placement is never replaced by an older one: whatever happens after a snapshot
  was published, one stays published and its generation never decreases, so that a stale tracker
  or a late reply cannot move a chat back to fenced owners.\<close>

lemma discovery_generation_monotone:
  assumes "disc_step\<^sup>*\<^sup>* s t" "dd_have_snapshot (ds_disc s)"
  shows "dd_have_snapshot (ds_disc t) \<and>
    rs_route_generation (dd_snapshot (ds_disc s)) \<le> rs_route_generation (dd_snapshot (ds_disc t))"
  using assms
proof (induction rule: rtranclp_induct)
  case base
  then show ?case by simp
next
  case (step t u)
  then show ?case using disc_step_generation [OF step(2)] by auto
qed

lemma discovery_generation_monotone_witness:
  "7 \<le> rs_route_generation (dd_snapshot (ds_disc (ex_after\<lparr>ds_disc := lmb_seg_discovery_stop (ds_disc ex_after)\<rparr>)))"
proof -
  let ?t = "ex_after\<lparr>ds_disc := lmb_seg_discovery_stop (ds_disc ex_after)\<rparr>"
  have "disc_step\<^sup>*\<^sup>* ex_after ?t" by (rule r_into_rtranclp) (rule disc_step.client_stop)
  from discovery_generation_monotone [OF this ex_published(1)] ex_published(2) show ?thesis by metis
qed

text \<open>A route snapshot survives the wire: the receiver sees the same placement, strings in
  zeroed buffers, its observations empty and its own fetch time.\<close>

lemma route_roundtrip:
  assumes "routes_sized s" "lmb_seg_route_encode mem s = Some body"
  shows "lmb_seg_route_decode now body = Some (canon_routes now s)"
  using assms by (rule route_msg.roundtrip)

lemma route_roundtrip_witness:
  "\<exists>body. lmb_seg_route_encode (\<lambda>_. True) ex_routes = Some body \<and>
     lmb_seg_route_decode 100 body = Some (canon_routes 100 ex_routes)"
proof -
  have "length (enc_routes ex_routes) = 210" by code_simp
  then obtain body where b: "lmb_seg_route_encode (\<lambda>_. True) ex_routes = Some body"
    using route_msg.encode_total [of ex_routes "\<lambda>_. True"] ex_routes_ok by (simp add: routes_ok_def)
  with route_roundtrip [OF _ b, of 100] ex_routes_ok show ?thesis by (simp add: routes_ok_def)
qed

text \<open>C40: the two estimates of the backlog of an advert. The ranking estimate is exact: it is the
  base (the prediction, or a fixed cost per unit of work) plus the measured compute time of
  queue depth, inflight count and the request itself, added without wrapping and saturating at
  the 64-bit maximum; an unreachable base or a sample that is not ready leaves the base alone.
  The prediction is not: it sees the sum of queue depth and inflight count modulo \<open>2\<^sup>3\<^sup>2\<close> only, so
  an advert with \<open>2\<^sup>3\<^sup>2\<close> requests ahead is predicted like an idle node.\<close>

theorem backlog_estimates:
  "let q = unat (av_queue_depth (re_advert e)); i = unat (av_inflight (re_advert e));
       base = (if re_predicted_us e \<noteq> 0 then unat (re_predicted_us e)
               else (if re_transport e AND LMB_SEG_TRANSPORT_DIRECT \<noteq> 0 then 50000 else 120000) * (q + i + 1))
   in unat (lmb_seg_completion_us e) =
        (if base < (2 ^ 64 - 1) div 4 \<and> lmb_seg_compute_ready e
         then min (2 ^ 64 - 1) (base + (q + i + 1) * unat (cp_ewma_us (re_compute e)))
         else base) \<and>
      re_predicted_us (disc_predict now e) =
        re_predicted_us (disc_predict now
          (e\<lparr>re_advert := (re_advert e)\<lparr>av_queue_depth := of_nat ((q + i) mod 2 ^ 32), av_inflight := 0\<rparr>\<rparr>))"
proof -
  let ?a = "re_advert e"
  let ?n = "unat (av_queue_depth ?a) + unat (av_inflight ?a)"
  have "av_queue_depth ?a + av_inflight ?a = (of_nat (?n mod 2 ^ 32) :: u32)"
    by (simp add: word_unat_eq_iff unat_word_ariths unat_of_nat)
  then have "re_predicted_us (disc_predict now e) = re_predicted_us (disc_predict now
      (e\<lparr>re_advert := ?a\<lparr>av_queue_depth := of_nat (?n mod 2 ^ 32), av_inflight := 0\<rparr>\<rparr>))"
    by (simp only: disc_predict_def Let_def) simp
  with completion_saturates [of e] show ?thesis by (auto simp: Let_def not_less)
qed

end
