(* ===== verification/Demand.thy ===== *)
theory Demand
  imports Lumabri_Prelude
begin

text \<open>
  The gateway's demand observer, \<^verbatim>\<open>lumabri_demand.h\<close>: per model the requests that are pending and
  admitted, one-minute counters in a ring of one-second buckets, a ring of latency samples and
  their percentiles. Workers report by datagrams (\<open>lmb_demand_event\<close>) and are reaped when their
  process ends. The 64 models, 60 buckets and 64 samples are lists of these lengths.
\<close>

section \<open>Data\<close>

abbreviation LMB_DEMAND_MODELS :: nat where "LMB_DEMAND_MODELS \<equiv> 64"
abbreviation LMB_DEMAND_WINDOW :: nat where "LMB_DEMAND_WINDOW \<equiv> 60"
abbreviation LMB_DEMAND_SAMPLES :: nat where "LMB_DEMAND_SAMPLES \<equiv> 64"
abbreviation LMB_DEMAND_START :: u32 where "LMB_DEMAND_START \<equiv> 1"
abbreviation LMB_DEMAND_ADMIT :: u32 where "LMB_DEMAND_ADMIT \<equiv> 2"
abbreviation LMB_DEMAND_END :: u32 where "LMB_DEMAND_END \<equiv> 3"
abbreviation LMB_DEMAND_COMPLETE :: u32 where "LMB_DEMAND_COMPLETE \<equiv> 0"
abbreviation LMB_DEMAND_CAPACITY :: u32 where "LMB_DEMAND_CAPACITY \<equiv> 1"
abbreviation LMB_DEMAND_INTERRUPTED :: nat where "LMB_DEMAND_INTERRUPTED \<equiv> 5"
abbreviation LMB_DEMAND_OUTCOMES :: nat where "LMB_DEMAND_OUTCOMES \<equiv> 6"
abbreviation LMB_DEMAND_STARTED :: nat where "LMB_DEMAND_STARTED \<equiv> 6"
abbreviation LMB_DEMAND_ADMITTED :: nat where "LMB_DEMAND_ADMITTED \<equiv> 7"
abbreviation LMB_DEMAND_COUNTERS :: nat where "LMB_DEMAND_COUNTERS \<equiv> 8"

record lmb_demand_event =
  de_sequence :: u32
  de_kind :: u32
  de_outcome :: u32
  de_reserved :: u32
  de_model :: bytes
  de_ttft_us :: u64
  de_completion_us :: u64

record lmb_demand_bucket =
  bk_second :: u64
  bk_count :: "u64 list"

record lmb_demand_sample =
  sm_at :: u64
  sm_ttft_us :: u64
  sm_completion_us :: u64

record lmb_demand_model =
  dm_id :: bytes
  dm_pending :: u32
  dm_admitted :: u32
  dm_sample_cursor :: u32
  dm_last_activity :: u64
  dm_buckets :: "lmb_demand_bucket list"
  dm_samples :: "lmb_demand_sample list"

record lmb_demand =
  dd_started_ms :: u64
  dd_captured_ms :: u64
  dd_loss_ms :: u64
  dd_loss_count :: u64
  dd_refused_connections :: u64
  dd_uncertain_workers :: u32
  dd_instance :: bytes
  dd_models :: "lmb_demand_model list"

record lmb_demand_worker =
  dw_model :: int
  dw_sequence :: u32
  dw_admitted :: bool
  dw_ended :: bool
  dw_uncertain :: bool

record lmb_demand_summary =
  ds_counts :: "u64 list"
  ds_ttft_p50_us :: u64
  ds_ttft_p95_us :: u64
  ds_completion_p50_us :: u64
  ds_completion_p95_us :: u64
  ds_ttft_samples :: u32
  ds_completion_samples :: u32

definition demand_bucket_zero :: lmb_demand_bucket where
  "demand_bucket_zero = \<lparr>bk_second = 0, bk_count = replicate LMB_DEMAND_COUNTERS 0\<rparr>"

definition demand_sample_zero :: lmb_demand_sample where
  "demand_sample_zero = \<lparr>sm_at = 0, sm_ttft_us = 0, sm_completion_us = 0\<rparr>"

definition demand_model_zero :: lmb_demand_model where
  "demand_model_zero =
     \<lparr>dm_id = replicate 32 0, dm_pending = 0, dm_admitted = 0, dm_sample_cursor = 0, dm_last_activity = 0,
      dm_buckets = replicate LMB_DEMAND_WINDOW demand_bucket_zero,
      dm_samples = replicate LMB_DEMAND_SAMPLES demand_sample_zero\<rparr>"

definition demand_worker_zero :: lmb_demand_worker where
  "demand_worker_zero = \<lparr>dw_model = -1, dw_sequence = 0, dw_admitted = False, dw_ended = False, dw_uncertain = False\<rparr>"

section \<open>Losses and counters\<close>

definition lmb_demand_loss :: "u64 \<Rightarrow> lmb_demand \<Rightarrow> lmb_demand" where
  "lmb_demand_loss now s = s\<lparr>dd_loss_ms := now, dd_loss_count := dd_loss_count s + 1\<rparr>"

definition lmb_demand_worker_loss ::
  "u64 \<Rightarrow> lmb_demand \<Rightarrow> lmb_demand_worker \<Rightarrow> lmb_demand \<times> lmb_demand_worker" where
  "lmb_demand_worker_loss now s w =
     (let (s, w) = (if \<not> dw_uncertain w
                    then (s\<lparr>dd_uncertain_workers := dd_uncertain_workers s + 1\<rparr>, w\<lparr>dw_uncertain := True\<rparr>)
                    else (s, w))
      in (lmb_demand_loss now s, w))"

definition lmb_demand_window_complete :: "lmb_demand \<Rightarrow> u64 \<Rightarrow> bool" where
  "lmb_demand_window_complete s now \<longleftrightarrow>
     dd_started_ms s \<noteq> 0 \<and> dd_uncertain_workers s = 0 \<and> now \<ge> dd_started_ms s \<and>
     now - dd_started_ms s \<ge> 60000 \<and> now \<ge> dd_captured_ms s \<and> now - dd_captured_ms s \<le> 1000 \<and>
     (dd_loss_count s = 0 \<or> (now \<ge> dd_loss_ms s \<and> now - dd_loss_ms s \<ge> 61000))"

definition bucket_count :: "nat \<Rightarrow> u64 \<Rightarrow> lmb_demand_bucket \<Rightarrow> lmb_demand_bucket" where
  "bucket_count counter second b =
     (let b = (if bk_second b \<noteq> second then demand_bucket_zero\<lparr>bk_second := second\<rparr> else b)
      in b\<lparr>bk_count := (bk_count b)[counter := bk_count b ! counter + 1]\<rparr>)"

definition lmb_demand_count :: "nat \<Rightarrow> u64 \<Rightarrow> lmb_demand_model \<Rightarrow> lmb_demand_model" where
  "lmb_demand_count counter now m =
     (let second = now div 1000; i = unat (second mod 60)
      in m\<lparr>dm_buckets := (dm_buckets m)[i := bucket_count counter second (dm_buckets m ! i)],
           dm_last_activity := now\<rparr>)"

section \<open>Slots\<close>

definition demand_vacant :: "u64 \<Rightarrow> lmb_demand_model \<Rightarrow> bool" where
  "demand_vacant now m \<longleftrightarrow>
     dm_pending m = 0 \<and> dm_admitted m = 0 \<and>
     (dm_last_activity m = 0 \<or> (now \<ge> dm_last_activity m \<and> now - dm_last_activity m \<ge> 61000))"

text \<open>The scan: the first slot with this id, otherwise the last vacant one.\<close>

fun demand_scan :: "bytes \<Rightarrow> u64 \<Rightarrow> nat \<Rightarrow> nat option \<Rightarrow> lmb_demand_model list \<Rightarrow> (nat + nat option)" where
  "demand_scan ident now i vacant [] = Inr vacant"
| "demand_scan ident now i vacant (m # ms) =
     (if dm_id m = ident then Inl i
      else demand_scan ident now (i + 1) (if demand_vacant now m then Some i else vacant) ms)"

definition lmb_demand_model_slot :: "bytes \<Rightarrow> u64 \<Rightarrow> lmb_demand \<Rightarrow> nat option \<times> lmb_demand" where
  "lmb_demand_model_slot ident now s =
     (if list_all (\<lambda>b. b = 0) ident then (None, s)
      else case demand_scan ident now 0 None (dd_models s) of
        Inl i \<Rightarrow> (Some i, s)
      | Inr None \<Rightarrow> (None, s)
      | Inr (Some i) \<Rightarrow> (Some i, s\<lparr>dd_models := (dd_models s)[i := demand_model_zero\<lparr>dm_id := ident\<rparr>]\<rparr>))"

section \<open>Events\<close>

definition demand_update :: "nat \<Rightarrow> (lmb_demand_model \<Rightarrow> lmb_demand_model) \<Rightarrow> lmb_demand \<Rightarrow> lmb_demand" where
  "demand_update i f s = s\<lparr>dd_models := (dd_models s)[i := f (dd_models s ! i)]\<rparr>"

definition demand_sample :: "lmb_demand_event \<Rightarrow> u64 \<Rightarrow> lmb_demand_model \<Rightarrow> lmb_demand_model" where
  "demand_sample e now m =
     (let m = m\<lparr>dm_samples := (dm_samples m)[unat (dm_sample_cursor m mod 64) :=
                  \<lparr>sm_at = now, sm_ttft_us = de_ttft_us e, sm_completion_us = de_completion_us e\<rparr>],
                dm_sample_cursor := dm_sample_cursor m + 1\<rparr>
      in if dm_sample_cursor m = UINT32_MAX then m\<lparr>dm_sample_cursor := dm_sample_cursor m mod 64\<rparr> else m)"

definition demand_start ::
  "lmb_demand \<Rightarrow> lmb_demand_worker \<Rightarrow> lmb_demand_event \<Rightarrow> u64 \<Rightarrow> (lmb_demand \<times> lmb_demand_worker) option" where
  "demand_start s w e now =
     (if dw_sequence w \<noteq> 0 \<or> dw_model w \<ge> 0 \<or> de_ttft_us e \<noteq> 0 \<or> de_completion_us e \<noteq> 0 \<or> de_outcome e \<noteq> 0
      then None
      else case lmb_demand_model_slot (de_model e) now s of
        (None, _) \<Rightarrow> None
      | (Some i, s) \<Rightarrow>
          Some (demand_update i (\<lambda>m. lmb_demand_count LMB_DEMAND_STARTED now (m\<lparr>dm_pending := dm_pending m + 1\<rparr>)) s,
                w\<lparr>dw_model := int i\<rparr>))"

definition demand_admit ::
  "lmb_demand \<Rightarrow> lmb_demand_worker \<Rightarrow> lmb_demand_event \<Rightarrow> u64 \<Rightarrow> (lmb_demand \<times> lmb_demand_worker) option" where
  "demand_admit s w e now =
     (let i = nat (dw_model w); m = dd_models s ! i in
      if dw_admitted w \<or> dm_pending m = 0 \<or> de_outcome e \<noteq> 0 \<or> de_ttft_us e \<noteq> 0 \<or> de_completion_us e \<noteq> 0
      then None
      else Some (demand_update i (\<lambda>m. lmb_demand_count LMB_DEMAND_ADMITTED now
                   (m\<lparr>dm_pending := dm_pending m - 1, dm_admitted := dm_admitted m + 1\<rparr>)) s,
                 w\<lparr>dw_admitted := True\<rparr>))"

text \<open>The counter a worker's request is held in, and its decrement.\<close>

definition demand_active :: "bool \<Rightarrow> lmb_demand_model \<Rightarrow> u32" where
  "demand_active admitted m = (if admitted then dm_admitted m else dm_pending m)"

definition demand_drop :: "bool \<Rightarrow> lmb_demand_model \<Rightarrow> lmb_demand_model" where
  "demand_drop admitted m =
     (if admitted then m\<lparr>dm_admitted := dm_admitted m - 1\<rparr> else m\<lparr>dm_pending := dm_pending m - 1\<rparr>)"

definition demand_end ::
  "lmb_demand \<Rightarrow> lmb_demand_worker \<Rightarrow> lmb_demand_event \<Rightarrow> u64 \<Rightarrow> (lmb_demand \<times> lmb_demand_worker) option" where
  "demand_end s w e now =
     (let i = nat (dw_model w); m = dd_models s ! i in
      if unat (de_outcome e) \<ge> LMB_DEMAND_OUTCOMES \<or>
         (de_outcome e = LMB_DEMAND_COMPLETE \<and> (\<not> dw_admitted w \<or> de_completion_us e = 0)) \<or>
         (de_outcome e = LMB_DEMAND_CAPACITY \<and> dw_admitted w) \<or>
         de_ttft_us e > de_completion_us e \<or> de_completion_us e > 3600000000
      then None
      else if demand_active (dw_admitted w) m = 0 then None
      else Some (demand_update i (\<lambda>m.
                   let m = lmb_demand_count (unat (de_outcome e)) now (demand_drop (dw_admitted w) m)
                   in if de_outcome e = LMB_DEMAND_COMPLETE then demand_sample e now m else m) s,
                 w\<lparr>dw_ended := True\<rparr>))"

definition lmb_demand_event_step ::
  "lmb_demand \<Rightarrow> lmb_demand_worker \<Rightarrow> lmb_demand_event \<Rightarrow> u64 \<Rightarrow> bool \<times> lmb_demand \<times> lmb_demand_worker" where
  "lmb_demand_event_step s w e now =
     (let good =
        (if de_sequence e \<noteq> dw_sequence w + 1 \<or> dw_ended w \<or> de_reserved e \<noteq> 0 \<or>
            de_kind e < LMB_DEMAND_START \<or> de_kind e > LMB_DEMAND_END then None
         else if de_kind e = LMB_DEMAND_START then demand_start s w e now
         else if dw_model w < 0 \<or> dw_model w \<ge> int LMB_DEMAND_MODELS then None
         else if de_model e \<noteq> dm_id (dd_models s ! nat (dw_model w)) then None
         else if de_kind e = LMB_DEMAND_ADMIT then demand_admit s w e now
         else demand_end s w e now)
      in case good of
           Some (s, w) \<Rightarrow> (True, s, w\<lparr>dw_sequence := de_sequence e\<rparr>)
         | None \<Rightarrow> (False, lmb_demand_worker_loss now s w))"

definition lmb_demand_reap ::
  "lmb_demand \<Rightarrow> lmb_demand_worker \<Rightarrow> bool \<Rightarrow> u64 \<Rightarrow> lmb_demand \<times> lmb_demand_worker" where
  "lmb_demand_reap s w uncertain now =
     (let s = (if uncertain then lmb_demand_loss now s else s);
          s = (if dw_model w \<ge> 0 \<and> \<not> dw_ended w
               then let i = nat (dw_model w);
                        s = (if demand_active (dw_admitted w) (dd_models s ! i) \<noteq> 0
                             then demand_update i (demand_drop (dw_admitted w)) s
                             else lmb_demand_loss now s);
                        s = demand_update i (lmb_demand_count LMB_DEMAND_INTERRUPTED now) s
                    in lmb_demand_loss now s
               else s);
          s = (if dw_uncertain w \<and> dd_uncertain_workers s \<noteq> 0
               then s\<lparr>dd_uncertain_workers := dd_uncertain_workers s - 1\<rparr> else s)
      in (s, demand_worker_zero))"

section \<open>Summaries\<close>

definition demand_add_bucket :: "u64 \<Rightarrow> lmb_demand_bucket \<Rightarrow> u64 list \<Rightarrow> u64 list" where
  "demand_add_bucket second b counts =
     (if second < bk_second b \<or> second - bk_second b \<ge> 60 then counts
      else map2 (+) counts (bk_count b))"

definition demand_sample_recent :: "u64 \<Rightarrow> lmb_demand_sample \<Rightarrow> bool" where
  "demand_sample_recent now p \<longleftrightarrow>
     \<not> (sm_at p = 0 \<or> now < sm_at p \<or> now div 1000 - sm_at p div 1000 \<ge> 60)"

definition demand_percentile :: "u32 \<Rightarrow> u64 list \<Rightarrow> u64" where
  "demand_percentile p xs =
     (if xs = [] then 0 else sort xs ! unat ((of_nat (length xs) * p + 99) div 100 - 1))"

definition lmb_demand_summarise :: "lmb_demand_model \<Rightarrow> u64 \<Rightarrow> lmb_demand_summary" where
  "lmb_demand_summarise m now =
     (let counts = fold (demand_add_bucket (now div 1000)) (dm_buckets m) (replicate LMB_DEMAND_COUNTERS 0);
          recent = filter (demand_sample_recent now) (dm_samples m);
          ttft = filter (\<lambda>t. t \<noteq> 0) (map sm_ttft_us recent);
          total = map sm_completion_us recent
      in \<lparr>ds_counts = counts,
          ds_ttft_p50_us = demand_percentile 50 ttft, ds_ttft_p95_us = demand_percentile 95 ttft,
          ds_completion_p50_us = demand_percentile 50 total, ds_completion_p95_us = demand_percentile 95 total,
          ds_ttft_samples = of_nat (length ttft), ds_completion_samples = of_nat (length total)\<rparr>)"

section \<open>The observer and its workers\<close>

datatype demand_op =
    Demand_Event nat lmb_demand_event u64
  | Demand_Reap nat bool u64

fun demand_apply :: "demand_op \<Rightarrow> lmb_demand \<times> lmb_demand_worker list \<Rightarrow> lmb_demand \<times> lmb_demand_worker list" where
  "demand_apply (Demand_Event k e now) (s, ws) =
     (if k < length ws then let (_, s', w) = lmb_demand_event_step s (ws ! k) e now in (s', ws[k := w]) else (s, ws))"
| "demand_apply (Demand_Reap k uncertain now) (s, ws) =
     (if k < length ws then let (s', w) = lmb_demand_reap s (ws ! k) uncertain now in (s', ws[k := w]) else (s, ws))"

definition demand_run :: "demand_op list \<Rightarrow> lmb_demand \<times> lmb_demand_worker list \<Rightarrow> lmb_demand \<times> lmb_demand_worker list" where
  "demand_run ops st = fold demand_apply ops st"

text \<open>A fresh observer with \<open>n\<close> workers.\<close>

definition demand_fresh :: "u64 \<Rightarrow> nat \<Rightarrow> lmb_demand \<times> lmb_demand_worker list" where
  "demand_fresh now n =
     (\<lparr>dd_started_ms = now, dd_captured_ms = now, dd_loss_ms = 0, dd_loss_count = 0, dd_refused_connections = 0,
       dd_uncertain_workers = 0, dd_instance = replicate 32 0,
       dd_models = replicate LMB_DEMAND_MODELS demand_model_zero\<rparr>, replicate n demand_worker_zero)"

text \<open>A worker has a request in slot \<open>i\<close>, admitted or not.\<close>

definition demand_live :: "nat \<Rightarrow> bool \<Rightarrow> lmb_demand_worker \<Rightarrow> bool" where
  "demand_live i admitted w \<longleftrightarrow> dw_model w = int i \<and> \<not> dw_ended w \<and> dw_admitted w = admitted"

definition demand_holds :: "nat \<Rightarrow> bool \<Rightarrow> lmb_demand_worker list \<Rightarrow> nat" where
  "demand_holds i admitted ws = length (filter (demand_live i admitted) ws)"

definition demand_worker_ok :: "lmb_demand_worker \<Rightarrow> bool" where
  "demand_worker_ok w \<longleftrightarrow> dw_model w < int LMB_DEMAND_MODELS \<and> (dw_model w < 0 \<longrightarrow> \<not> dw_admitted w)"

definition demand_inv :: "lmb_demand \<times> lmb_demand_worker list \<Rightarrow> bool" where
  "demand_inv st \<longleftrightarrow> (let (s, ws) = st in
     length ws < 2 ^ 32 \<and> length (dd_models s) = LMB_DEMAND_MODELS \<and>
     (\<forall>w \<in> set ws. demand_worker_ok w) \<and>
     (\<forall>i < LMB_DEMAND_MODELS. \<forall>a. unat (demand_active a (dd_models s ! i)) = demand_holds i a ws) \<and>
     unat (dd_uncertain_workers s) = length (filter dw_uncertain ws))"

text \<open>A step of worker \<open>k\<close> keeps the invariant when it moves its request between the counters.\<close>

lemma demand_inv_step:
  assumes inv: "demand_inv (s, ws)" and k: "k < length ws"
    and len: "length (dd_models s') = LMB_DEMAND_MODELS" and m: "demand_worker_ok w"
    and act: "\<And>i a. i < LMB_DEMAND_MODELS \<Longrightarrow>
      unat (demand_active a (dd_models s' ! i)) + (if demand_live i a (ws ! k) then 1 else 0) =
      unat (demand_active a (dd_models s ! i)) + (if demand_live i a w then 1 else 0)"
    and unc: "unat (dd_uncertain_workers s') + (if dw_uncertain (ws ! k) then 1 else 0) =
      unat (dd_uncertain_workers s) + (if dw_uncertain w then 1 else 0)"
  shows "demand_inv (s', ws[k := w])"
proof -
  have "unat (demand_active a (dd_models s' ! i)) = demand_holds i a (ws[k := w])" if "i < LMB_DEMAND_MODELS" for i a
    using inv act [OF that, of a] length_filter_update [OF k, of "demand_live i a" w] that
    by (auto simp: demand_inv_def demand_holds_def split: if_splits)
  moreover have "unat (dd_uncertain_workers s') = length (filter dw_uncertain (ws[k := w]))"
    using inv unc length_filter_update [OF k, of dw_uncertain w]
    by (auto simp: demand_inv_def split: if_splits)
  moreover have "\<forall>v \<in> set (ws[k := w]). demand_worker_ok v"
    using inv m set_update_subset_insert [of ws k w] by (auto simp: demand_inv_def)
  ultimately show ?thesis using inv len by (simp add: demand_inv_def)
qed

lemma demand_update_nth:
  "i < length (dd_models s) \<Longrightarrow>
   dd_models (demand_update i f s) ! j = (if j = i then f (dd_models s ! i) else dd_models s ! j)"
  by (simp add: demand_update_def)

lemma demand_update_simps [simp]:
  "length (dd_models (demand_update i f s)) = length (dd_models s)"
  "dd_uncertain_workers (demand_update i f s) = dd_uncertain_workers s"
  by (simp_all add: demand_update_def)

lemma demand_count_simps [simp]:
  "dm_pending (lmb_demand_count c now m) = dm_pending m"
  "dm_admitted (lmb_demand_count c now m) = dm_admitted m"
  "dm_id (lmb_demand_count c now m) = dm_id m"
  by (simp_all add: lmb_demand_count_def Let_def)

lemma demand_sample_simps [simp]:
  "dm_pending (demand_sample e now m) = dm_pending m"
  "dm_admitted (demand_sample e now m) = dm_admitted m"
  "dm_id (demand_sample e now m) = dm_id m"
  by (simp_all add: demand_sample_def Let_def)

lemma demand_loss_simps [simp]:
  "dd_models (lmb_demand_loss now s) = dd_models s"
  "dd_uncertain_workers (lmb_demand_loss now s) = dd_uncertain_workers s"
  by (simp_all add: lmb_demand_loss_def)

lemma demand_scan_spec:
  "demand_scan ident now i v ms = r \<Longrightarrow>
   (case r of Inl j \<Rightarrow> i \<le> j \<and> j < i + length ms \<and> dm_id (ms ! (j - i)) = ident
    | Inr None \<Rightarrow> True
    | Inr (Some j) \<Rightarrow> v = Some j \<or> (i \<le> j \<and> j < i + length ms \<and> demand_vacant now (ms ! (j - i))))"
proof (induction ms arbitrary: i v)
  case Nil
  then show ?case by (auto split: option.split)
next
  case (Cons m ms)
  show ?case
  proof (cases "dm_id m = ident")
    case True
    with Cons.prems show ?thesis by auto
  next
    case False
    let ?v = "if demand_vacant now m then Some i else v"
    from False Cons.prems have "demand_scan ident now (i + 1) ?v ms = r" by simp
    note IH = Cons.IH [OF this]
    show ?thesis
    proof (cases r)
      case (Inl j)
      with IH show ?thesis by (auto simp: nth_Cons')
    next
      case (Inr o')
      with IH show ?thesis by (auto simp: nth_Cons' split: option.splits if_splits)
    qed
  qed
qed

lemma demand_slot_SomeD:
  assumes "lmb_demand_model_slot ident now s = (Some i, s')" "length (dd_models s) = LMB_DEMAND_MODELS"
  shows "i < LMB_DEMAND_MODELS" "length (dd_models s') = LMB_DEMAND_MODELS"
    "dd_uncertain_workers s' = dd_uncertain_workers s"
    "demand_active a (dd_models s' ! j) = demand_active a (dd_models s ! j)"
    "dm_id (dd_models s' ! i) = ident" "j \<noteq> i \<Longrightarrow> dd_models s' ! j = dd_models s ! j"
    "demand_active a (dd_models s ! j) \<noteq> 0 \<Longrightarrow> dm_id (dd_models s' ! j) = dm_id (dd_models s ! j)"
proof -
  consider (found) "demand_scan ident now 0 None (dd_models s) = Inl i" "s' = s"
    | (vacant) "demand_scan ident now 0 None (dd_models s) = Inr (Some i)"
        "s' = s\<lparr>dd_models := (dd_models s)[i := demand_model_zero\<lparr>dm_id := ident\<rparr>]\<rparr>"
    using assms(1) by (auto simp: lmb_demand_model_slot_def split: if_splits sum.splits option.splits)
  then have "i < LMB_DEMAND_MODELS \<and> length (dd_models s') = LMB_DEMAND_MODELS \<and>
    dd_uncertain_workers s' = dd_uncertain_workers s \<and>
    demand_active a (dd_models s' ! j) = demand_active a (dd_models s ! j) \<and>
    dm_id (dd_models s' ! i) = ident \<and> (j \<noteq> i \<longrightarrow> dd_models s' ! j = dd_models s ! j) \<and>
    (demand_active a (dd_models s ! j) \<noteq> 0 \<longrightarrow> dm_id (dd_models s' ! j) = dm_id (dd_models s ! j))"
  proof cases
    case found
    with demand_scan_spec [OF found(1)] assms(2) show ?thesis by simp
  next
    case vacant
    with demand_scan_spec [OF vacant(1)] assms(2) show ?thesis
      by (auto simp: nth_list_update demand_vacant_def demand_active_def demand_model_zero_def)
  qed
  then show "i < LMB_DEMAND_MODELS" "length (dd_models s') = LMB_DEMAND_MODELS"
    "dd_uncertain_workers s' = dd_uncertain_workers s"
    "demand_active a (dd_models s' ! j) = demand_active a (dd_models s ! j)"
    "dm_id (dd_models s' ! i) = ident" "j \<noteq> i \<Longrightarrow> dd_models s' ! j = dd_models s ! j"
    "demand_active a (dd_models s ! j) \<noteq> 0 \<Longrightarrow> dm_id (dd_models s' ! j) = dm_id (dd_models s ! j)"
    by blast+
qed

lemma unat_suc_u32: "unat (x :: u32) + 1 < 2 ^ 32 \<Longrightarrow> unat (x + 1) = unat x + 1"
  by (simp add: unat_word_ariths)

lemma unat_pred_u32: "(x :: u32) \<noteq> 0 \<Longrightarrow> unat (x - 1) + 1 = unat x"
proof -
  assume "x \<noteq> 0"
  then have "0 < unat x" by (simp add: unat_gt_0)
  then have "1 \<le> x" by (simp add: word_le_nat_alt)
  then show ?thesis using \<open>0 < unat x\<close> by (simp add: unat_sub)
qed

lemma inv_active:
  "demand_inv (s, ws) \<Longrightarrow> i < LMB_DEMAND_MODELS \<Longrightarrow>
   unat (demand_active a (dd_models s ! i)) = demand_holds i a ws"
  by (simp add: demand_inv_def)

lemma inv_active_room:
  assumes "demand_inv (s, ws)" "k < length ws" "i < LMB_DEMAND_MODELS" "\<not> demand_live i a (ws ! k)"
  shows "unat (demand_active a (dd_models s ! i)) + 1 < 2 ^ 32"
proof -
  have "demand_holds i a ws < length ws"
    unfolding demand_holds_def by (rule length_filter_less [of "ws ! k"]) (use assms in auto)
  with assms show ?thesis by (simp add: demand_inv_def)
qed

lemma inv_active_live:
  assumes "demand_inv (s, ws)" "k < length ws" "i < LMB_DEMAND_MODELS" "demand_live i a (ws ! k)"
  shows "demand_active a (dd_models s ! i) \<noteq> 0"
proof -
  have "ws ! k \<in> set (filter (demand_live i a) ws)" using assms by simp
  then have "demand_holds i a ws \<noteq> 0" unfolding demand_holds_def by (cases "filter (demand_live i a) ws") auto
  with inv_active [OF assms(1,3), of a] show ?thesis by (metis unat_0)
qed

lemma inv_worker: "demand_inv (s, ws) \<Longrightarrow> k < length ws \<Longrightarrow> demand_worker_ok (ws ! k)"
  by (auto simp: demand_inv_def)

lemma inv_models: "demand_inv (s, ws) \<Longrightarrow> length (dd_models s) = LMB_DEMAND_MODELS"
  by (simp add: demand_inv_def)

text \<open>A worker marked uncertain.\<close>

lemma worker_loss_inv:
  assumes inv: "demand_inv (s, ws)" and k: "k < length ws"
    and l: "lmb_demand_worker_loss now s (ws ! k) = (s', w)"
  shows "demand_inv (s', ws[k := w])"
proof (rule demand_inv_step [OF inv k])
  have w: "dw_model w = dw_model (ws ! k)" "dw_ended w = dw_ended (ws ! k)" "dw_admitted w = dw_admitted (ws ! k)"
    "dd_models s' = dd_models s" "dw_uncertain w"
    using l by (auto simp: lmb_demand_worker_loss_def split: if_splits)
  then show "length (dd_models s') = LMB_DEMAND_MODELS" "demand_worker_ok w"
    using inv_models [OF inv] inv_worker [OF inv k] by (simp_all add: demand_worker_ok_def)
  show "unat (demand_active a (dd_models s' ! i)) + (if demand_live i a (ws ! k) then 1 else 0) =
      unat (demand_active a (dd_models s ! i)) + (if demand_live i a w then 1 else 0)" for i a
    using w by (simp add: demand_live_def)
  show "unat (dd_uncertain_workers s') + (if dw_uncertain (ws ! k) then 1 else 0) =
      unat (dd_uncertain_workers s) + (if dw_uncertain w then 1 else 0)"
  proof (cases "dw_uncertain (ws ! k)")
    case True
    with l w show ?thesis by (auto simp: lmb_demand_worker_loss_def)
  next
    case False
    have "length (filter dw_uncertain ws) < length ws"
      by (rule length_filter_less [of "ws ! k"]) (use k False in auto)
    then have "unat (dd_uncertain_workers s) + 1 < 2 ^ 32" using inv by (simp add: demand_inv_def)
    then have "unat (dd_uncertain_workers s + 1) = unat (dd_uncertain_workers s) + 1" by (rule unat_suc_u32)
    with l w False show ?thesis by (auto simp: lmb_demand_worker_loss_def)
  qed
qed

lemma demand_start_inv:
  assumes inv: "demand_inv (s, ws)" and k: "k < length ws" and st: "demand_start s (ws ! k) e now = Some (s', w)"
    and live: "\<not> dw_ended (ws ! k)"
  shows "demand_inv (s', ws[k := w\<lparr>dw_sequence := q\<rparr>])"
proof -
  from st obtain i s1 where i: "lmb_demand_model_slot (de_model e) now s = (Some i, s1)"
    and s': "s' = demand_update i (\<lambda>m. lmb_demand_count LMB_DEMAND_STARTED now (m\<lparr>dm_pending := dm_pending m + 1\<rparr>)) s1"
    and w: "w = (ws ! k)\<lparr>dw_model := int i\<rparr>" and neg: "dw_model (ws ! k) < 0"
    by (auto simp: demand_start_def split: if_splits prod.splits option.splits)
  note S = demand_slot_SomeD [OF i inv_models [OF inv]]
  have dead: "\<not> demand_live j a (ws ! k)" for j a using neg by (simp add: demand_live_def)
  have adm: "\<not> dw_admitted (ws ! k)" using inv_worker [OF inv k] neg by (simp add: demand_worker_ok_def)
  have room: "unat (dm_pending (dd_models s1 ! i)) + 1 < 2 ^ 32"
    using inv_active_room [OF inv k S(1) dead, of False] S(4) [of False i] by (simp add: demand_active_def)
  show ?thesis
  proof (rule demand_inv_step [OF inv k])
    show "length (dd_models s') = LMB_DEMAND_MODELS" using S(2) by (simp add: s')
    show "demand_worker_ok (w\<lparr>dw_sequence := q\<rparr>)" using S(1) by (simp add: w demand_worker_ok_def)
    show "unat (dd_uncertain_workers s') + (if dw_uncertain (ws ! k) then 1 else 0) =
      unat (dd_uncertain_workers s) + (if dw_uncertain (w\<lparr>dw_sequence := q\<rparr>) then 1 else 0)"
      by (simp add: s' w S(3))
    fix j a assume j: "j < LMB_DEMAND_MODELS"
    have l: "demand_live j a (w\<lparr>dw_sequence := q\<rparr>) \<longleftrightarrow> j = i \<and> \<not> a"
      using live adm by (auto simp: demand_live_def w)
    have "unat (demand_active a (dd_models s' ! j)) =
        unat (demand_active a (dd_models s1 ! j)) + (if j = i \<and> \<not> a then 1 else 0)"
      using S(1,2) unat_suc_u32 [OF room] by (simp add: s' demand_update_nth demand_active_def)
    then show "unat (demand_active a (dd_models s' ! j)) + (if demand_live j a (ws ! k) then 1 else 0) =
      unat (demand_active a (dd_models s ! j)) + (if demand_live j a (w\<lparr>dw_sequence := q\<rparr>) then 1 else 0)"
      using S(4) [of a j] dead l by simp
  qed
qed

text \<open>The two moves of a live request: from pending to admitted, and out.\<close>

lemma demand_move_inv:
  assumes inv: "demand_inv (s, ws)" and k: "k < length ws" and i: "dw_model (ws ! k) = int i" and live: "\<not> dw_ended (ws ! k)"
    and s': "s' = demand_update i f s" and w: "demand_worker_ok w" "dw_uncertain w = dw_uncertain (ws ! k)"
    and f: "\<And>a. unat (demand_active a (f (dd_models s ! i))) + (if a = dw_admitted (ws ! k) then 1 else 0) =
      unat (demand_active a (dd_models s ! i)) + (if demand_live i a w then 1 else 0)"
    and other: "\<And>j a. j \<noteq> i \<Longrightarrow> \<not> demand_live j a w"
  shows "demand_inv (s', ws[k := w])"
proof (rule demand_inv_step [OF inv k])
  have i64: "i < LMB_DEMAND_MODELS" using inv_worker [OF inv k] i by (simp add: demand_worker_ok_def)
  show "length (dd_models s') = LMB_DEMAND_MODELS" using inv_models [OF inv] by (simp add: s')
  show "demand_worker_ok w" by (rule w)
  show "unat (dd_uncertain_workers s') + (if dw_uncertain (ws ! k) then 1 else 0) =
      unat (dd_uncertain_workers s) + (if dw_uncertain w then 1 else 0)"
    by (simp add: s' w)
  fix j a assume j: "j < LMB_DEMAND_MODELS"
  have "demand_live j a (ws ! k) \<longleftrightarrow> j = i \<and> a = dw_admitted (ws ! k)"
    using i live by (auto simp: demand_live_def)
  then show "unat (demand_active a (dd_models s' ! j)) + (if demand_live j a (ws ! k) then 1 else 0) =
      unat (demand_active a (dd_models s ! j)) + (if demand_live j a w then 1 else 0)"
    using f [of a] other [of j a] i64 inv_models [OF inv] by (auto simp: s' demand_update_nth)
qed

lemma demand_admit_inv:
  assumes inv: "demand_inv (s, ws)" and k: "k < length ws" and ad: "demand_admit s (ws ! k) e now = Some (s', w)"
    and live: "\<not> dw_ended (ws ! k)" and m: "\<not> dw_model (ws ! k) < 0"
  shows "demand_inv (s', ws[k := w\<lparr>dw_sequence := q\<rparr>])"
proof -
  let ?i = "nat (dw_model (ws ! k))"
  let ?m = "dd_models s ! ?i"
  have i: "dw_model (ws ! k) = int ?i" using m by simp
  have i64: "?i < LMB_DEMAND_MODELS" using inv_worker [OF inv k] m by (simp add: demand_worker_ok_def)
  have s': "s' = demand_update ?i (\<lambda>m. lmb_demand_count LMB_DEMAND_ADMITTED now
        (m\<lparr>dm_pending := dm_pending m - 1, dm_admitted := dm_admitted m + 1\<rparr>)) s"
    and w: "w = (ws ! k)\<lparr>dw_admitted := True\<rparr>" and g: "\<not> dw_admitted (ws ! k)" "dm_pending ?m \<noteq> 0"
    using ad by (auto simp: demand_admit_def Let_def split: if_splits)
  have "\<not> demand_live ?i True (ws ! k)" using g by (simp add: demand_live_def)
  from unat_suc_u32 [OF inv_active_room [OF inv k i64 this]] unat_pred_u32 [OF g(2)]
  show ?thesis
    by (intro demand_move_inv [OF inv k i live s'])
      (use g i live inv_worker [OF inv k] in \<open>auto simp: w demand_worker_ok_def demand_active_def demand_live_def\<close>)
qed

lemma demand_drop_active:
  "demand_active b m \<noteq> 0 \<Longrightarrow>
   unat (demand_active a (demand_drop b m)) + (if a = b then 1 else 0) = unat (demand_active a m)"
  using unat_pred_u32 [of "demand_active b m"] by (auto simp: demand_active_def demand_drop_def)

lemma demand_active_count [simp]:
  "demand_active a (lmb_demand_count c now m) = demand_active a m"
  "demand_active a (demand_sample e now m) = demand_active a m"
  by (simp_all add: demand_active_def)

lemma demand_end_inv:
  assumes inv: "demand_inv (s, ws)" and k: "k < length ws" and en: "demand_end s (ws ! k) e now = Some (s', w)"
    and live: "\<not> dw_ended (ws ! k)" and m: "\<not> dw_model (ws ! k) < 0"
  shows "demand_inv (s', ws[k := w\<lparr>dw_sequence := q\<rparr>])"
proof -
  let ?i = "nat (dw_model (ws ! k))"
  have i: "dw_model (ws ! k) = int ?i" using m by simp
  have s': "s' = demand_update ?i (\<lambda>m.
        let m = lmb_demand_count (unat (de_outcome e)) now (demand_drop (dw_admitted (ws ! k)) m)
        in if de_outcome e = LMB_DEMAND_COMPLETE then demand_sample e now m else m) s"
    and w: "w = (ws ! k)\<lparr>dw_ended := True\<rparr>" and g: "demand_active (dw_admitted (ws ! k)) (dd_models s ! ?i) \<noteq> 0"
    using en by (auto simp: demand_end_def Let_def split: if_splits)
  show ?thesis
  proof (rule demand_move_inv [OF inv k i live s'])
    fix a
    have "\<not> demand_live ?i a (w\<lparr>dw_sequence := q\<rparr>)" by (simp add: w demand_live_def)
    then show "unat (demand_active a
          (let m = lmb_demand_count (unat (de_outcome e)) now (demand_drop (dw_admitted (ws ! k)) (dd_models s ! ?i))
           in if de_outcome e = LMB_DEMAND_COMPLETE then demand_sample e now m else m)) +
        (if a = dw_admitted (ws ! k) then 1 else 0) =
      unat (demand_active a (dd_models s ! ?i)) + (if demand_live ?i a (w\<lparr>dw_sequence := q\<rparr>) then 1 else 0)"
      using demand_drop_active [OF g, of a]
      by (cases a; cases "dw_admitted (ws ! k)") (simp_all add: Let_def)
  qed (use inv_worker [OF inv k] in \<open>simp_all add: w demand_worker_ok_def demand_live_def\<close>)
qed

lemma demand_event_inv:
  assumes inv: "demand_inv (s, ws)" and k: "k < length ws"
    and ev: "lmb_demand_event_step s (ws ! k) e now = (ok, s', w)"
  shows "demand_inv (s', ws[k := w])"
proof -
  consider (bad) "lmb_demand_worker_loss now s (ws ! k) = (s', w)"
    | (start) w0 where "demand_start s (ws ! k) e now = Some (s', w0)" "w = w0\<lparr>dw_sequence := de_sequence e\<rparr>"
        "\<not> dw_ended (ws ! k)"
    | (admit) w0 where "demand_admit s (ws ! k) e now = Some (s', w0)" "w = w0\<lparr>dw_sequence := de_sequence e\<rparr>"
        "\<not> dw_ended (ws ! k)" "\<not> dw_model (ws ! k) < 0"
    | (stop) w0 where "demand_end s (ws ! k) e now = Some (s', w0)" "w = w0\<lparr>dw_sequence := de_sequence e\<rparr>"
        "\<not> dw_ended (ws ! k)" "\<not> dw_model (ws ! k) < 0"
    using ev by (auto simp: lmb_demand_event_step_def Let_def split: if_splits option.splits prod.splits)
  then show ?thesis
  proof cases
    case bad
    then show ?thesis by (rule worker_loss_inv [OF inv k])
  next
    case start
    then show ?thesis using demand_start_inv [OF inv k] by blast
  next
    case admit
    then show ?thesis using demand_admit_inv [OF inv k] by blast
  next
    case stop
    then show ?thesis using demand_end_inv [OF inv k] by blast
  qed
qed

lemma demand_reap_inv:
  assumes inv: "demand_inv (s, ws)" and k: "k < length ws"
    and rp: "lmb_demand_reap s (ws ! k) uncertain now = (s', w)"
  shows "demand_inv (s', ws[k := w])"
proof -
  let ?w = "ws ! k" and ?i = "nat (dw_model (ws ! k))"
  let ?live = "dw_model ?w \<ge> 0 \<and> \<not> dw_ended ?w"
  let ?drop = "\<lambda>m. if ?live then lmb_demand_count LMB_DEMAND_INTERRUPTED now (demand_drop (dw_admitted ?w) m) else m"
  have i64: "?live \<Longrightarrow> ?i < LMB_DEMAND_MODELS" using inv_worker [OF inv k] by (auto simp: demand_worker_ok_def)
  have nz: "?live \<Longrightarrow> demand_active (dw_admitted ?w) (dd_models s ! ?i) \<noteq> 0"
    using inv_active_live [OF inv k i64] by (simp add: demand_live_def)
  have w: "w = demand_worker_zero" using rp by (simp add: lmb_demand_reap_def Let_def)
  have models: "dd_models s' ! j = (if j = ?i then ?drop (dd_models s ! j) else dd_models s ! j)"
    and len: "length (dd_models s') = LMB_DEMAND_MODELS"
    and unc: "dd_uncertain_workers s' =
      (if dw_uncertain ?w \<and> dd_uncertain_workers s \<noteq> 0 then dd_uncertain_workers s - 1 else dd_uncertain_workers s)"
    for j
    using rp i64 nz inv_models [OF inv]
    by (cases ?live; auto simp: lmb_demand_reap_def Let_def demand_update_nth split: if_splits)+
  show ?thesis
  proof (rule demand_inv_step [OF inv k len])
    show "demand_worker_ok w" by (simp add: w demand_worker_zero_def demand_worker_ok_def)
    show "unat (dd_uncertain_workers s') + (if dw_uncertain ?w then 1 else 0) =
        unat (dd_uncertain_workers s) + (if dw_uncertain w then 1 else 0)"
    proof (cases "dw_uncertain ?w")
      case True
      then have "?w \<in> set (filter dw_uncertain ws)" using k by simp
      then have "length (filter dw_uncertain ws) \<noteq> 0" by (cases "filter dw_uncertain ws") auto
      then have "dd_uncertain_workers s \<noteq> 0" using inv by (auto simp: demand_inv_def)
      from unat_pred_u32 [OF this] True this show ?thesis by (simp add: unc w demand_worker_zero_def)
    next
      case False
      then show ?thesis by (simp add: unc w demand_worker_zero_def)
    qed
    fix j a assume j: "j < LMB_DEMAND_MODELS"
    have l: "demand_live j a ?w \<longleftrightarrow> ?live \<and> j = ?i \<and> a = dw_admitted ?w" by (auto simp: demand_live_def)
    have z: "\<not> demand_live j a w" by (simp add: w demand_worker_zero_def demand_live_def)
    show "unat (demand_active a (dd_models s' ! j)) + (if demand_live j a ?w then 1 else 0) =
        unat (demand_active a (dd_models s ! j)) + (if demand_live j a w then 1 else 0)"
    proof (cases "?live \<and> j = ?i")
      case True
      with demand_drop_active [OF nz, of a] z l show ?thesis by (simp add: models)
    next
      case False
      with z l show ?thesis by (auto simp: models)
    qed
  qed
qed

lemma demand_apply_inv: "demand_inv st \<Longrightarrow> demand_inv (demand_apply x st)"
proof (cases x)
  case (Demand_Event k e now)
  assume "demand_inv st"
  then show ?thesis
    using demand_event_inv [of "fst st" "snd st" k e now] unfolding Demand_Event
    by (cases st) (auto split: prod.splits)
next
  case (Demand_Reap k u now)
  assume "demand_inv st"
  then show ?thesis
    using demand_reap_inv [of "fst st" "snd st" k u now] unfolding Demand_Reap
    by (cases st) (auto split: prod.splits)
qed

lemma demand_run_inv: "demand_inv st \<Longrightarrow> demand_inv (demand_run ops st)"
  unfolding demand_run_def by (induction ops arbitrary: st) (simp_all add: demand_apply_inv)

lemma demand_fresh_inv: "n < 2 ^ 32 \<Longrightarrow> demand_inv (demand_fresh now n)"
  by (auto simp: demand_inv_def demand_fresh_def demand_worker_ok_def demand_worker_zero_def demand_active_def
      demand_model_zero_def demand_holds_def demand_live_def)

end
