(* ===== verification/Demand_Window.thy ===== *)
theory Demand_Window
  imports Demand "HOL-Library.Multiset"
begin

text \<open>
  The one-minute window of the demand observer: the ring of one-second buckets counts exactly the
  events of the last sixty seconds, and a percentile is the nearest-rank one.
\<close>

section \<open>The ring as a history\<close>

definition sec :: "u64 \<Rightarrow> nat" where "sec t = unat t div 1000"

lemma unat_sec: "unat (t div 1000 :: u64) = sec t"
  by (simp add: sec_def unat_div)

type_synonym demand_history = "(nat \<times> u64) list"

definition demand_counted :: "demand_history \<Rightarrow> lmb_demand_model" where
  "demand_counted h = fold (\<lambda>(c, t). lmb_demand_count c t) h demand_model_zero"

text \<open>The events of a counter with a property of their second.\<close>

definition hits :: "nat \<Rightarrow> (nat \<Rightarrow> bool) \<Rightarrow> demand_history \<Rightarrow> nat" where
  "hits c P h = length (filter (\<lambda>(c', t). c' = c \<and> P (sec t)) h)"

lemma hits_append: "hits c P (h @ [(c', t)]) = hits c P h + (if c' = c \<and> P (sec t) then 1 else 0)"
  by (simp add: hits_def)

lemma hits_none: "(\<And>c' t. (c', t) \<in> set h \<Longrightarrow> \<not> P (sec t)) \<Longrightarrow> hits c P h = 0"
  by (auto simp: hits_def filter_empty_conv)

lemma hits_cong: "(\<And>c' t. (c', t) \<in> set h \<Longrightarrow> P (sec t) = Q (sec t)) \<Longrightarrow> hits c P h = hits c Q h"
  unfolding hits_def by (rule arg_cong [of _ _ length], rule filter_cong) auto

lemma hits_residues: "(\<Sum>r<60. hits c (\<lambda>x. P x \<and> x mod 60 = r) h) = hits c P h"
proof (induction h)
  case Nil
  then show ?case by (simp add: hits_def)
next
  case (Cons e h)
  obtain c' t where e: "e = (c', t)" by fastforce
  have "(\<Sum>r<60. if c' = c \<and> P (sec t) \<and> sec t mod 60 = r then 1 else (0 :: nat)) =
      (if c' = c \<and> P (sec t) then 1 else 0)"
  proof (cases "c' = c \<and> P (sec t)")
    case True
    then have "(\<Sum>r<60. if c' = c \<and> P (sec t) \<and> sec t mod 60 = r then 1 else (0 :: nat)) =
        (\<Sum>r<60. if sec t mod 60 = r then 1 else 0)"
      by simp
    also have "\<dots> = 1" by (simp only: sum.delta' finite_lessThan) simp
    finally show ?thesis using True by simp
  qed auto
  moreover have "hits c (\<lambda>x. P x \<and> x mod 60 = r) (e # h) =
      (if c' = c \<and> P (sec t) \<and> sec t mod 60 = r then 1 else 0) + hits c (\<lambda>x. P x \<and> x mod 60 = r) h" for r
    by (simp add: hits_def e)
  ultimately show ?case using Cons by (simp add: sum.distrib) (simp add: hits_def e)
qed

text \<open>What the bucket of residue \<open>r\<close> knows of a history: its second is the last one with events of
  this residue, and it counts these.\<close>

definition bucket_ok :: "demand_history \<Rightarrow> nat \<Rightarrow> lmb_demand_bucket \<Rightarrow> bool" where
  "bucket_ok h r b \<longleftrightarrow>
     length (bk_count b) = LMB_DEMAND_COUNTERS \<and>
     (\<forall>c < LMB_DEMAND_COUNTERS. unat (bk_count b ! c) = hits c (\<lambda>x. x = unat (bk_second b) \<and> x mod 60 = r) h) \<and>
     (\<forall>(c, t) \<in> set h. sec t mod 60 = r \<longrightarrow> sec t \<le> unat (bk_second b)) \<and>
     (unat (bk_second b) = 0 \<or> unat (bk_second b) mod 60 = r \<and> (\<exists>(c, t) \<in> set h. sec t = unat (bk_second b)))"

definition ring_ok :: "demand_history \<Rightarrow> lmb_demand_bucket list \<Rightarrow> bool" where
  "ring_ok h bs \<longleftrightarrow> length bs = LMB_DEMAND_WINDOW \<and> (\<forall>r < LMB_DEMAND_WINDOW. bucket_ok h r (bs ! r))"

lemma ring_ok_zero: "ring_ok [] (dm_buckets demand_model_zero)"
  by (auto simp: ring_ok_def bucket_ok_def demand_model_zero_def demand_bucket_zero_def hits_def)

lemma bucket_ok_before: "bucket_ok h r b \<Longrightarrow> \<forall>(c, t) \<in> set h. sec t \<le> T \<Longrightarrow> unat (bk_second b) \<le> T"
  by (auto simp: bucket_ok_def)

lemma unat_suc_u64: "unat (x :: u64) + 1 < 2 ^ 64 \<Longrightarrow> unat (x + 1) = unat x + 1"
  by (simp add: unat_word_ariths)

lemma hits_le: "hits c P h \<le> length h"
  unfolding hits_def by (rule length_filter_le)

lemma bucket_ok_count:
  assumes ok: "bucket_ok h (sec t mod 60) b" and c: "c < LMB_DEMAND_COUNTERS"
    and late: "\<forall>(c', t') \<in> set h. sec t' \<le> sec t" and len: "length h + 1 < 2 ^ 64"
  shows "bucket_ok (h @ [(c, t)]) (sec t mod 60) (bucket_count c (t div 1000) b)"
proof -
  let ?s = "t div 1000" and ?r = "sec t mod 60"
  let ?new = "bucket_count c ?s b"
  have B: "length (bk_count b) = 8" "\<And>c'. c' < 8 \<Longrightarrow> unat (bk_count b ! c') =
        hits c' (\<lambda>x. x = unat (bk_second b) \<and> x mod 60 = ?r) h"
    "\<forall>(c', t') \<in> set h. sec t' mod 60 = ?r \<longrightarrow> sec t' \<le> unat (bk_second b)"
    using ok by (simp_all add: bucket_ok_def)
  have b4: "unat (bk_second b) \<le> sec t" by (rule bucket_ok_before [OF ok late])
  have sec': "bk_second ?new = ?s" by (simp add: bucket_count_def demand_bucket_zero_def Let_def)
  have cnt: "length (bk_count ?new) = 8 \<and> (\<forall>c' < 8. unat (bk_count ?new ! c') =
      hits c' (\<lambda>x. x = sec t \<and> x mod 60 = ?r) (h @ [(c, t)]))"
  proof (cases "bk_second b = ?s")
    case True
    have "hits c (\<lambda>x. x = sec t \<and> x mod 60 = ?r) h + 1 < 2 ^ 64"
      using hits_le [of c _ h] len by (meson add_le_mono1 le_less_trans)
    then have "unat (bk_count b ! c) + 1 < 2 ^ 64"
      using B(2) [OF c] unfolding True unat_sec by simp
    then have "unat (bk_count b ! c + 1) = unat (bk_count b ! c) + 1" by (rule unat_suc_u64)
    with B(1,2) True c show ?thesis
      by (auto simp: bucket_count_def hits_append nth_list_update unat_sec)
  next
    case False
    then have "unat (bk_second b) \<noteq> sec t" by (metis unat_sec word_unat_eq_iff)
    with b4 have lt: "unat (bk_second b) < sec t" by simp
    have old: "hits c' (\<lambda>x. x = sec t \<and> x mod 60 = ?r) h = 0" for c'
    proof (rule hits_none)
      fix c'' t' assume e: "(c'', t') \<in> set h"
      show "\<not> (sec t' = sec t \<and> sec t' mod 60 = ?r)"
      proof
        assume a: "sec t' = sec t \<and> sec t' mod 60 = ?r"
        with B(3) e have "sec t' \<le> unat (bk_second b)" by blast
        with a lt show False by simp
      qed
    qed
    show ?thesis
      using False c by (auto simp: bucket_count_def demand_bucket_zero_def hits_append nth_list_update old)
  qed
  show ?thesis
    unfolding bucket_ok_def sec' unat_sec using cnt late by auto
qed

lemma bucket_ok_other:
  assumes "bucket_ok h r b" "r \<noteq> sec t mod 60"
  shows "bucket_ok (h @ [(c, t)]) r b"
proof -
  have "hits c' (\<lambda>x. x = y \<and> x mod 60 = r) (h @ [(c, t)]) = hits c' (\<lambda>x. x = y \<and> x mod 60 = r) h" for c' y
    using assms(2) by (auto simp: hits_append)
  then show ?thesis using assms by (auto simp: bucket_ok_def)
qed

lemma ring_ok_count:
  assumes ok: "ring_ok h (dm_buckets m)" and c: "c < LMB_DEMAND_COUNTERS"
    and late: "\<forall>(c', t') \<in> set h. sec t' \<le> sec t" and len: "length h + 1 < 2 ^ 64"
  shows "ring_ok (h @ [(c, t)]) (dm_buckets (lmb_demand_count c t m))"
proof -
  let ?bs = "dm_buckets m" and ?i = "sec t mod 60"
  have i: "unat (t div 1000 mod 60) = ?i" by (simp add: unat_mod unat_sec)
  have bs': "dm_buckets (lmb_demand_count c t m) = ?bs[?i := bucket_count c (t div 1000) (?bs ! ?i)]"
    by (simp add: lmb_demand_count_def Let_def i)
  have l: "length ?bs = 60" and i60: "?i < 60" using ok by (simp_all add: ring_ok_def)
  have "bucket_ok (h @ [(c, t)]) r (?bs[?i := bucket_count c (t div 1000) (?bs ! ?i)] ! r)" if r: "r < 60" for r
  proof (cases "r = ?i")
    case True
    have "bucket_ok h ?i (?bs ! ?i)" using ok i60 by (simp add: ring_ok_def)
    from bucket_ok_count [OF this c late len] True l r show ?thesis by simp
  next
    case False
    then show ?thesis using ok r bucket_ok_other [of h r "?bs ! r" t c] by (simp add: ring_ok_def)
  qed
  then show ?thesis unfolding bs' ring_ok_def using l by simp
qed

lemma ring_ok_history:
  assumes "sorted (map (sec \<circ> snd) h)" "\<forall>(c, t) \<in> set h. c < LMB_DEMAND_COUNTERS" "length h < 2 ^ 64"
  shows "ring_ok h (dm_buckets (demand_counted h))"
  using assms
proof (induction h rule: rev_induct)
  case Nil
  then show ?case by (simp add: demand_counted_def ring_ok_zero)
next
  case (snoc e h)
  obtain c t where e: "e = (c, t)" by fastforce
  have "ring_ok h (dm_buckets (demand_counted h))" using snoc by (simp add: sorted_append)
  moreover have "\<forall>(c', t') \<in> set h. sec t' \<le> sec t" using snoc.prems(1) e by (fastforce simp: sorted_append)
  moreover have "demand_counted (h @ [e]) = lmb_demand_count c t (demand_counted h)"
    by (simp add: demand_counted_def e)
  ultimately show ?case using ring_ok_count [of h "demand_counted h" c t] snoc.prems e by simp
qed

section \<open>Summing the buckets\<close>

definition bucket_recent :: "nat \<Rightarrow> lmb_demand_bucket \<Rightarrow> bool" where
  "bucket_recent s b \<longleftrightarrow> unat (bk_second b) \<le> s \<and> s < unat (bk_second b) + 60"

lemma add_bucket_recent:
  "demand_add_bucket second b counts =
     (if bucket_recent (unat second) b then map2 (+) counts (bk_count b) else counts)"
proof -
  have "unat (second - bk_second b) = unat second - unat (bk_second b)" if "\<not> second < bk_second b"
    using that by (intro unat_sub) simp
  then have "(second < bk_second b \<or> second - bk_second b \<ge> 60) \<longleftrightarrow> \<not> bucket_recent (unat second) b"
    by (cases "second < bk_second b") (auto simp: bucket_recent_def word_less_nat_alt word_le_nat_alt)
  then show ?thesis by (simp add: demand_add_bucket_def)
qed

lemma fold_add_buckets:
  assumes "\<forall>b \<in> set bs. length (bk_count b) = LMB_DEMAND_COUNTERS" "length acc = LMB_DEMAND_COUNTERS" "c < LMB_DEMAND_COUNTERS"
    "unat (acc ! c) + (\<Sum>b\<leftarrow>bs. if bucket_recent (unat second) b then unat (bk_count b ! c) else 0) < 2 ^ 64"
  shows "unat (fold (demand_add_bucket second) bs acc ! c) =
    unat (acc ! c) + (\<Sum>b\<leftarrow>bs. if bucket_recent (unat second) b then unat (bk_count b ! c) else 0)"
  using assms
proof (induction bs arbitrary: acc)
  case Nil
  then show ?case by simp
next
  case (Cons b bs)
  show ?case
  proof (cases "bucket_recent (unat second) b")
    case True
    have n: "map2 (+) acc (bk_count b) ! c = acc ! c + bk_count b ! c" using Cons.prems by simp
    have u: "unat (acc ! c + bk_count b ! c) = unat (acc ! c) + unat (bk_count b ! c)"
      using Cons.prems(4) True by (simp add: unat_word_ariths)
    have "length (map2 (+) acc (bk_count b)) = 8" using Cons.prems by simp
    then show ?thesis
      using Cons.IH [of "map2 (+) acc (bk_count b)"] Cons.prems True
      unfolding n u by (simp add: add_bucket_recent n u add.assoc)
  next
    case False
    then show ?thesis using Cons by (simp add: add_bucket_recent)
  qed
qed

lemma mod_window: "(y :: nat) mod 60 = x mod 60 \<Longrightarrow> y < x + 60 \<Longrightarrow> x \<le> y \<Longrightarrow> y = x"
proof -
  assume a: "y mod 60 = x mod 60" "y < x + 60" "x \<le> y"
  then have "60 dvd y - x" by (simp add: mod_eq_dvd_iff_nat)
  moreover have "y - x < 60" using a by linarith
  ultimately show "y = x" using a(3) by (metis dvd_imp_le not_less zero_less_diff le_antisym)
qed

lemma window_counts:
  assumes h: "sorted (map (sec \<circ> snd) h)" "\<forall>(c, t) \<in> set h. c < LMB_DEMAND_COUNTERS" "length h < 2 ^ 64"
    and now: "\<forall>(c, t) \<in> set h. sec t \<le> sec now" and c: "c < LMB_DEMAND_COUNTERS"
  shows "unat (ds_counts (lmb_demand_summarise (demand_counted h) now) ! c) = hits c (\<lambda>x. sec now < x + 60) h"
proof -
  let ?bs = "dm_buckets (demand_counted h)"
  note ok = ring_ok_history [OF h]
  let ?f = "\<lambda>b. if bucket_recent (sec now) b then unat (bk_count b ! c) else 0"
  have each: "?f (?bs ! r) = hits c (\<lambda>x. sec now < x + 60 \<and> x mod 60 = r) h" if r: "r < 60" for r
  proof -
    let ?y = "unat (bk_second (?bs ! r))"
    have b: "bucket_ok h r (?bs ! r)" using ok r by (simp add: ring_ok_def)
    then have R: "unat (bk_count (?bs ! r) ! c) = hits c (\<lambda>x. x = ?y \<and> x mod 60 = r) h"
      "\<forall>(c', t) \<in> set h. sec t mod 60 = r \<longrightarrow> sec t \<le> ?y" "?y = 0 \<or> ?y mod 60 = r"
      using c by (auto simp: bucket_ok_def)
    have y: "?y \<le> sec now" by (rule bucket_ok_before [OF b now])
    show ?thesis
    proof (cases "bucket_recent (sec now) (?bs ! r)")
      case True
      have "hits c (\<lambda>x. x = ?y \<and> x mod 60 = r) h = hits c (\<lambda>x. sec now < x + 60 \<and> x mod 60 = r) h"
      proof (rule hits_cong)
        fix c' t assume e: "(c', t) \<in> set h"
        show "(sec t = ?y \<and> sec t mod 60 = r) = (sec now < sec t + 60 \<and> sec t mod 60 = r)"
        proof (cases "sec t mod 60 = r")
          case res: True
          have le: "sec t \<le> ?y" using R(2) e res by blast
          have "sec t = ?y" if "sec now < sec t + 60"
          proof (cases "?y = 0")
            case False
            with R(3) res have "?y mod 60 = sec t mod 60" by simp
            moreover have "?y < sec t + 60" using y that by simp
            ultimately show ?thesis using le by (rule mod_window [symmetric])
          qed (use le in simp)
          then show ?thesis using True res by (auto simp: bucket_recent_def)
        qed simp
      qed
      with True R(1) show ?thesis by simp
    next
      case False
      with y have "?y + 60 \<le> sec now" by (simp add: bucket_recent_def)
      have "hits c (\<lambda>x. sec now < x + 60 \<and> x mod 60 = r) h = 0"
      proof (rule hits_none)
        fix c' t assume "(c', t) \<in> set h"
        with R(2) have "sec t mod 60 = r \<longrightarrow> sec t \<le> ?y" by blast
        with \<open>?y + 60 \<le> sec now\<close> show "\<not> (sec now < sec t + 60 \<and> sec t mod 60 = r)" by auto
      qed
      with False show ?thesis by simp
    qed
  qed
  have l: "length ?bs = 60" using ok by (simp add: ring_ok_def)
  have "(\<Sum>b\<leftarrow>?bs. ?f b) = (\<Sum>r<60. ?f (?bs ! r))"
    using sum_list_sum_nth [of "map ?f ?bs"] l by (simp add: atLeast0LessThan)
  also have "\<dots> = (\<Sum>r<60. hits c (\<lambda>x. sec now < x + 60 \<and> x mod 60 = r) h)"
    by (rule sum.cong) (simp_all add: each)
  also have "\<dots> = hits c (\<lambda>x. sec now < x + 60) h" by (rule hits_residues)
  finally have total: "(\<Sum>b\<leftarrow>?bs. ?f b) = hits c (\<lambda>x. sec now < x + 60) h" .
  have lens: "\<forall>b \<in> set ?bs. length (bk_count b) = LMB_DEMAND_COUNTERS"
    using ok by (auto simp: ring_ok_def bucket_ok_def in_set_conv_nth)
  have small: "hits c (\<lambda>x. sec now < x + 60) h < 2 ^ 64" using hits_le [of c _ h] h(3) by (rule le_less_trans)
  have z: "replicate LMB_DEMAND_COUNTERS (0 :: u64) ! c = 0" using c by (rule nth_replicate)
  have "length (replicate LMB_DEMAND_COUNTERS (0 :: u64)) = LMB_DEMAND_COUNTERS" by (rule length_replicate)
  from fold_add_buckets [OF lens this c, of "now div 1000"] total small
  have "unat (fold (demand_add_bucket (now div 1000)) ?bs (replicate LMB_DEMAND_COUNTERS 0) ! c) = (\<Sum>b\<leftarrow>?bs. ?f b)"
    unfolding z unat_sec by simp
  then show ?thesis unfolding total by (simp add: lmb_demand_summarise_def Let_def)
qed

section \<open>Percentiles\<close>

lemma length_filter_sort: "length (filter P (sort xs)) = length (filter P xs)"
  by (metis mset_filter mset_sort size_mset)

lemma nth_sorted_rank:
  assumes "sorted ys" "i < length ys"
  shows "i + 1 \<le> length (filter (\<lambda>x. x \<le> ys ! i) ys)" "length (filter (\<lambda>x. x < ys ! i) ys) \<le> i"
proof -
  have "\<forall>x \<in> set (take (i + 1) ys). x \<le> ys ! i"
    using assms by (auto simp: in_set_conv_nth less_Suc_eq_le intro!: sorted_nth_mono)
  then have "filter (\<lambda>x. x \<le> ys ! i) (take (i + 1) ys) = take (i + 1) ys" by simp
  moreover have "length (filter (\<lambda>x. x \<le> ys ! i) ys) =
      length (filter (\<lambda>x. x \<le> ys ! i) (take (i + 1) ys)) + length (filter (\<lambda>x. x \<le> ys ! i) (drop (i + 1) ys))"
    by (metis append_take_drop_id filter_append length_append)
  ultimately show "i + 1 \<le> length (filter (\<lambda>x. x \<le> ys ! i) ys)" using assms(2) by simp
  have "\<forall>x \<in> set (drop i ys). \<not> x < ys ! i"
    using assms by (auto simp: in_set_conv_nth not_less intro!: sorted_nth_mono)
  then have "filter (\<lambda>x. x < ys ! i) (drop i ys) = []" by (simp add: filter_empty_conv)
  then have "length (filter (\<lambda>x. x < ys ! i) ys) = length (filter (\<lambda>x. x < ys ! i) (take i ys))"
    by (metis append_take_drop_id append_Nil2 filter_append)
  also have "\<dots> \<le> i" by (rule le_trans [OF length_filter_le]) simp
  finally show "length (filter (\<lambda>x. x < ys ! i) ys) \<le> i" .
qed

lemma percentile_index:
  assumes "0 < n" "n \<le> 64" "0 < p" "p \<le> 100"
  shows "unat ((of_nat n * of_nat p + 99) div 100 - 1 :: u32) = (n * p + 99) div 100 - 1"
proof -
  have "n * p \<le> 64 * 100" using assms(2,4) by (rule mult_le_mono)
  then have "unat (of_nat n * of_nat p + 99 :: u32) = n * p + 99"
    by (simp add: unat_word_ariths unat_of_nat flip: of_nat_mult)
  then have d: "unat ((of_nat n * of_nat p + 99) div 100 :: u32) = (n * p + 99) div 100" by (simp add: unat_div)
  have "0 < n * p" using assms(1,3) by simp
  then have "1 \<le> (n * p + 99) div 100" by (simp add: less_eq_div_iff_mult_less_eq)
  with d have "1 \<le> ((of_nat n * of_nat p + 99) div 100 :: u32)" by (simp add: word_le_nat_alt)
  with d show ?thesis by (simp add: unat_sub)
qed

lemma ceil_rank:
  fixes q :: nat
  shows "0 < q \<Longrightarrow> q \<le> 100 * ((q + 99) div 100 - 1 + 1) \<and> 100 * ((q + 99) div 100 - 1) < q"
proof -
  assume "0 < q"
  have e: "100 * ((q + 99) div 100) + (q + 99) mod 100 = q + 99" by simp
  have m: "(q + 99) mod 100 < 100" by simp
  obtain d where d: "(q + 99) div 100 = Suc d"
    using e m \<open>0 < q\<close> by (cases "(q + 99) div 100") simp_all
  have "q \<le> 100 * (d + 1)" "100 * d < q" using e m unfolding d by simp_all
  then show ?thesis unfolding d by simp
qed

lemma percentile_rank:
  assumes "xs \<noteq> []" "length xs \<le> LMB_DEMAND_SAMPLES" "0 < p" "p \<le> 100"
  shows "demand_percentile (of_nat p) xs \<in> set xs \<and>
    length xs * p \<le> 100 * length (filter (\<lambda>x. x \<le> demand_percentile (of_nat p) xs) xs) \<and>
    100 * length (filter (\<lambda>x. x < demand_percentile (of_nat p) xs) xs) < length xs * p"
proof -
  let ?n = "length xs" and ?i = "(length xs * p + 99) div 100 - 1"
  have n: "0 < ?n" using assms(1) by simp
  have "0 < ?n * p" using n assms(3) by simp
  then have one: "1 \<le> (?n * p + 99) div 100" using less_eq_div_iff_mult_less_eq [of 100 1 "?n * p + 99"] by (simp add: Suc_le_eq)
  have "(?n * p + 99) div 100 \<le> (?n * 100 + 99) div 100" using assms(4) by (intro div_le_mono) simp
  then have i: "?i < ?n" using one n by simp
  have q: "demand_percentile (of_nat p) xs = sort xs ! ?i"
    using assms(1) percentile_index [OF n assms(2-4)] by (simp add: demand_percentile_def)
  have lo: "?n * p \<le> 100 * (?i + 1)" and hi: "100 * ?i < ?n * p"
    using ceil_rank [OF \<open>0 < ?n * p\<close>] by blast+
  have i': "?i < length (sort xs)" using i by simp
  note R = nth_sorted_rank [OF sorted_sort i', unfolded length_filter_sort]
  have "sort xs ! ?i \<in> set xs" using i by (metis length_sort nth_mem set_sort)
  with R lo hi show ?thesis unfolding q by linarith
qed

section \<open>Properties\<close>

lemma demand_live_eq:
  "demand_live i False = (\<lambda>w. dw_model w = int i \<and> \<not> dw_ended w \<and> \<not> dw_admitted w)"
  "demand_live i True = (\<lambda>w. dw_model w = int i \<and> \<not> dw_ended w \<and> dw_admitted w)"
  by (simp_all add: demand_live_def fun_eq_iff)

text \<open>C38: the demand counters are the workers: after any sequence of reports, well formed or not, and
  of reaped processes, each model's pending and admitted counts are exactly the numbers of
  workers with such a request in its slot, and the count of uncertain workers is exact; no
  report or crash leaks or loses a request.\<close>

theorem demand_accounting:
  assumes "n < 2 ^ 32" "demand_run ops (demand_fresh now n) = (s, ws)" "i < LMB_DEMAND_MODELS"
  shows "unat (dm_pending (dd_models s ! i)) =
      length (filter (\<lambda>w. dw_model w = int i \<and> \<not> dw_ended w \<and> \<not> dw_admitted w) ws) \<and>
    unat (dm_admitted (dd_models s ! i)) =
      length (filter (\<lambda>w. dw_model w = int i \<and> \<not> dw_ended w \<and> dw_admitted w) ws) \<and>
    unat (dd_uncertain_workers s) = length (filter dw_uncertain ws)"
proof -
  have inv: "demand_inv (s, ws)"
    using demand_run_inv [OF demand_fresh_inv [OF assms(1)], of ops now] assms(2) by simp
  have "unat (demand_active a (dd_models s ! i)) = demand_holds i a ws" for a
    using inv assms(3) by (simp add: demand_inv_def)
  from this [of False] this [of True] inv show ?thesis
    by (simp add: demand_inv_def demand_active_def demand_holds_def demand_live_eq)
qed

definition ex_demand_start :: lmb_demand_event where
  "ex_demand_start = \<lparr>de_sequence = 1, de_kind = LMB_DEMAND_START, de_outcome = 0, de_reserved = 0,
     de_model = replicate 32 7, de_ttft_us = 0, de_completion_us = 0\<rparr>"

lemma demand_accounting_witness:
  "\<exists>s ws. demand_run [Demand_Event 0 ex_demand_start 5000, Demand_Reap 1 True 6000] (demand_fresh 1 2) = (s, ws) \<and>
     unat (dm_pending (dd_models s ! 63)) =
       length (filter (\<lambda>w. dw_model w = 63 \<and> \<not> dw_ended w \<and> \<not> dw_admitted w) ws)"
proof -
  obtain s ws where r: "demand_run [Demand_Event 0 ex_demand_start 5000, Demand_Reap 1 True 6000] (demand_fresh 1 2) = (s, ws)"
    by fastforce
  with demand_accounting [of 2 "[Demand_Event 0 ex_demand_start 5000, Demand_Reap 1 True 6000]" 1 s ws 63]
  show ?thesis by auto
qed

text \<open>The window is exact: after events at non-decreasing times, the counters of a summary taken at
  \<open>now\<close> are the numbers of events of the last sixty seconds, although the ring keeps only one
  bucket per second modulo sixty and clears a bucket when it is reused.\<close>

lemma demand_window_exact:
  assumes "sorted (map (sec \<circ> snd) h)" "\<forall>(c, t) \<in> set h. c < LMB_DEMAND_COUNTERS \<and> sec t \<le> sec now"
    "length h < 2 ^ 64" "c < LMB_DEMAND_COUNTERS"
  shows "unat (ds_counts (lmb_demand_summarise (fold (\<lambda>(c, t). lmb_demand_count c t) h demand_model_zero) now) ! c) =
    length (filter (\<lambda>(c', t). c' = c \<and> unat now div 1000 < unat t div 1000 + 60) h)"
  using window_counts [OF assms(1) _ assms(3) _ assms(4), of now] assms(2)
  by (auto simp: demand_counted_def hits_def sec_def split_beta)

lemma demand_window_exact_witness:
  "unat (ds_counts (lmb_demand_summarise
     (fold (\<lambda>(c, t). lmb_demand_count c t) [(6, 1000), (6, 59000), (6, 61000)] demand_model_zero) 61500) ! 6) = 2"
  using demand_window_exact [of "[(6, 1000), (6, 59000), (6, 61000)]" 61500 6] by (simp add: sec_def)

text \<open>The reported percentiles are nearest-rank percentiles of the recent completions: a sample of
  the window, with at least \<open>p\<close> percent of the samples at or below it and fewer strictly below.\<close>

lemma demand_percentile_rank:
  assumes "totals = map sm_completion_us (filter (demand_sample_recent now) (dm_samples m))" "totals \<noteq> []"
    "length (dm_samples m) = LMB_DEMAND_SAMPLES"
  shows "ds_completion_p95_us (lmb_demand_summarise m now) \<in> set totals \<and>
    length totals * 95 \<le> 100 * length (filter (\<lambda>x. x \<le> ds_completion_p95_us (lmb_demand_summarise m now)) totals) \<and>
    100 * length (filter (\<lambda>x. x < ds_completion_p95_us (lmb_demand_summarise m now)) totals) < length totals * 95"
proof -
  have l: "length totals \<le> LMB_DEMAND_SAMPLES"
    using assms(1,3) length_filter_le [of "demand_sample_recent now" "dm_samples m"] by simp
  have "ds_completion_p95_us (lmb_demand_summarise m now) = demand_percentile (of_nat 95) totals"
    by (simp add: lmb_demand_summarise_def assms(1) Let_def)
  with percentile_rank [OF assms(2) l, of 95] show ?thesis by simp
qed

lemma demand_percentile_rank_witness:
  "ds_completion_p95_us (lmb_demand_summarise (demand_model_zero\<lparr>dm_samples :=
       \<lparr>sm_at = 5000, sm_ttft_us = 1, sm_completion_us = 9\<rparr> # replicate 63 demand_sample_zero\<rparr>) 6000) \<in> {9}"
proof -
  let ?m = "demand_model_zero\<lparr>dm_samples :=
       \<lparr>sm_at = 5000, sm_ttft_us = 1, sm_completion_us = 9\<rparr> # replicate 63 demand_sample_zero\<rparr>"
  have t: "[9] = map sm_completion_us (filter (demand_sample_recent 6000) (dm_samples ?m))"
    by (simp add: demand_sample_recent_def demand_sample_zero_def) (simp add: word_le_nat_alt)
  have "length (dm_samples ?m) = LMB_DEMAND_SAMPLES" by simp
  from demand_percentile_rank [OF t _ this] show ?thesis by simp
qed

end
