(* ===== verification/Run_Gate.thy ===== *)
theory Run_Gate
  imports Lumabri_Prelude
begin

text \<open>
  The admission gate of \<^verbatim>\<open>lumabri_run_gate.c\<close>: at most \<open>capacity\<close> runs at a time, a bounded FIFO of
  waiters, deadlines and cancellation. A waiter is identified by its thread; the linked list from
  \<open>head\<close> to \<open>tail\<close> is a list. The clock and the cancellation callbacks are parameters of every
  critical section: \<open>now w\<close> and \<open>cancelled w\<close> are what they answer for the waiter \<open>w\<close>.
\<close>

section \<open>The gate\<close>

record lmb_run_waiter =
  rw_thread :: nat
  rw_deadline_ms :: u64

record lmb_run_gate =
  rg_queue :: "lmb_run_waiter list"
  rg_capacity :: u32
  rg_max_queue :: u32
  rg_in_use :: u32
  rg_queued :: u32
  rg_published_in_use :: u32
  rg_published_queued :: u32

text \<open>The field \<open>result\<close> of a waiter: waiting (0), admitted (1), cancelled (-1), expired (2).\<close>

datatype gate_result = G_Waiting | G_Admitted | G_Cancelled | G_Expired

type_synonym gate_results = "nat \<Rightarrow> gate_result"

definition gate_publish :: "lmb_run_gate \<Rightarrow> lmb_run_gate" where
  "gate_publish g = g\<lparr>rg_published_in_use := rg_in_use g, rg_published_queued := rg_queued g\<rparr>"

text \<open>What the head of the queue is told when a permit is free.\<close>

definition gate_answer :: "(nat \<Rightarrow> bool) \<Rightarrow> (nat \<Rightarrow> u64) \<Rightarrow> lmb_run_waiter \<Rightarrow> gate_result" where
  "gate_answer cancelled now w =
     (if cancelled (rw_thread w) then G_Cancelled
      else if now (rw_thread w) \<ge> rw_deadline_ms w then G_Expired else G_Admitted)"

fun admit_loop :: "(nat \<Rightarrow> bool) \<Rightarrow> (nat \<Rightarrow> u64) \<Rightarrow> lmb_run_waiter list \<Rightarrow> lmb_run_gate \<Rightarrow> gate_results \<Rightarrow>
    lmb_run_gate \<times> gate_results" where
  "admit_loop cancelled now [] g results = (g\<lparr>rg_queue := []\<rparr>, results)"
| "admit_loop cancelled now (w # ws) g results =
     (if rg_in_use g < rg_capacity g then
        let g = g\<lparr>rg_queued := rg_queued g - 1\<rparr>;
            a = gate_answer cancelled now w
        in admit_loop cancelled now ws
             (if a = G_Admitted then g\<lparr>rg_in_use := rg_in_use g + 1\<rparr> else g)
             (results(rw_thread w := a))
      else (g\<lparr>rg_queue := w # ws\<rparr>, results))"

definition gate_admit :: "(nat \<Rightarrow> bool) \<Rightarrow> (nat \<Rightarrow> u64) \<Rightarrow> lmb_run_gate \<Rightarrow> gate_results \<Rightarrow>
    lmb_run_gate \<times> gate_results" where
  "gate_admit cancelled now g results =
     (let (g, results) = admit_loop cancelled now (rg_queue g) g results in (gate_publish g, results))"

definition lmb_run_gate_init :: "u32 \<Rightarrow> u32 \<Rightarrow> lmb_run_gate option" where
  "lmb_run_gate_init capacity max_queue =
     (if capacity = 0 then None
      else Some (gate_publish \<lparr>rg_queue = [], rg_capacity = capacity, rg_max_queue = max_queue, rg_in_use = 0,
             rg_queued = 0, rg_published_in_use = 0, rg_published_queued = 0\<rparr>))"

definition waiter_remove :: "(nat \<Rightarrow> bool) \<Rightarrow> (nat \<Rightarrow> u64) \<Rightarrow> nat \<Rightarrow> lmb_run_gate \<Rightarrow> gate_results \<Rightarrow>
    lmb_run_gate \<times> gate_results" where
  "waiter_remove cancelled now t g results =
     (let g = (if list_ex (\<lambda>w. rw_thread w = t) (rg_queue g)
               then g\<lparr>rg_queue := filter (\<lambda>w. rw_thread w \<noteq> t) (rg_queue g), rg_queued := rg_queued g - 1\<rparr>
               else g)
      in gate_admit cancelled now g results)"

text \<open>Entering up to the wait. \<open>Some r\<close> is a return value, \<open>None\<close> says that the thread waits.\<close>

datatype gate_return = Gate_Admitted | Gate_Refused | Gate_Cancelled

definition gate_enter_start ::
  "u32 \<Rightarrow> u64 \<Rightarrow> (nat \<Rightarrow> bool) \<Rightarrow> (nat \<Rightarrow> u64) \<Rightarrow> nat \<Rightarrow> lmb_run_gate \<Rightarrow> gate_results \<Rightarrow>
   gate_return option \<times> lmb_run_gate \<times> gate_results" where
  "gate_enter_start wait_ms started cancelled now t g results =
     (if wait_ms = 0 then (Some Gate_Refused, g, results)
      else if started = UINT64_MAX \<or> started > UINT64_MAX - ucast wait_ms then (Some Gate_Refused, g, results)
      else let deadline = started + ucast wait_ms; stopped = cancelled t in
        if stopped \<or> now t \<ge> deadline
        then (Some (if stopped then Gate_Cancelled else Gate_Refused), g, results)
        else if rg_queue g = [] \<and> rg_in_use g < rg_capacity g
        then (Some Gate_Admitted, gate_publish (g\<lparr>rg_in_use := rg_in_use g + 1\<rparr>), results)
        else if rg_queued g \<ge> rg_max_queue g then (Some Gate_Refused, g, results)
        else (None, gate_publish (g\<lparr>rg_queue := rg_queue g @ [\<lparr>rw_thread = t, rw_deadline_ms = deadline\<rparr>],
                                    rg_queued := rg_queued g + 1\<rparr>), results(t := G_Waiting)))"

text \<open>One turn of the wait loop: whether it is left, and with which \<open>result\<close>.\<close>

definition gate_poll :: "bool \<Rightarrow> u64 \<Rightarrow> u64 \<Rightarrow> gate_result \<Rightarrow> gate_return option" where
  "gate_poll stopped clock deadline result =
     (if result \<noteq> G_Waiting then Some Gate_Refused
      else if stopped then Some Gate_Cancelled
      else if clock \<ge> deadline then Some Gate_Refused
      else None)"

text \<open>The end of entering, after the loop was left with \<open>left\<close>; the second cancellation check is the
  callback's answer at that moment.\<close>

definition gate_enter_finish ::
  "gate_return \<Rightarrow> bool \<Rightarrow> (nat \<Rightarrow> bool) \<Rightarrow> (nat \<Rightarrow> u64) \<Rightarrow> nat \<Rightarrow> lmb_run_gate \<Rightarrow> gate_results \<Rightarrow>
   gate_return \<times> lmb_run_gate \<times> gate_results" where
  "gate_enter_finish left stopped cancelled now t g results =
     (case results t of
        G_Admitted \<Rightarrow>
          if stopped then (Gate_Cancelled, gate_admit cancelled now (g\<lparr>rg_in_use := rg_in_use g - 1\<rparr>) results)
          else (Gate_Admitted, g, results)
      | G_Cancelled \<Rightarrow> (Gate_Cancelled, g, results)
      | G_Expired \<Rightarrow> (Gate_Refused, g, results)
      | G_Waiting \<Rightarrow> (left, waiter_remove cancelled now t g results))"

definition lmb_run_gate_leave :: "(nat \<Rightarrow> bool) \<Rightarrow> (nat \<Rightarrow> u64) \<Rightarrow> lmb_run_gate \<Rightarrow> gate_results \<Rightarrow>
    lmb_run_gate \<times> gate_results" where
  "lmb_run_gate_leave cancelled now g results =
     gate_admit cancelled now
       (if rg_in_use g \<noteq> 0 then g\<lparr>rg_in_use := rg_in_use g - 1\<rparr> else g) results"

definition lmb_run_gate_inflight :: "lmb_run_gate \<Rightarrow> u32" where
  "lmb_run_gate_inflight g = rg_published_in_use g"

definition lmb_run_gate_queued :: "lmb_run_gate \<Rightarrow> u32" where
  "lmb_run_gate_queued g = rg_published_queued g"

section \<open>Threads at the gate\<close>

text \<open>The threads waiting inside \<open>lmb_run_gate_enter\<close> with their deadlines, and those that hold a
  permit: they were admitted and have not left.\<close>

record gate_state =
  gs_gate :: lmb_run_gate
  gs_results :: gate_results
  gs_waiting :: "nat \<Rightarrow> u64 option"
  gs_holding :: "nat set"

inductive gate_step :: "gate_state \<Rightarrow> gate_state \<Rightarrow> bool" where
  enter_now: "t \<notin> dom (gs_waiting s) \<Longrightarrow> t \<notin> gs_holding s \<Longrightarrow>
    gate_enter_start wait started cancelled now t (gs_gate s) (gs_results s) = (Some r, g, results) \<Longrightarrow>
    gate_step s (s\<lparr>gs_gate := g, gs_results := results,
      gs_holding := if r = Gate_Admitted then insert t (gs_holding s) else gs_holding s\<rparr>)"
| enter_wait: "t \<notin> dom (gs_waiting s) \<Longrightarrow> t \<notin> gs_holding s \<Longrightarrow>
    gate_enter_start wait started cancelled now t (gs_gate s) (gs_results s) = (None, g, results) \<Longrightarrow>
    gate_step s (s\<lparr>gs_gate := g, gs_results := results, gs_waiting := (gs_waiting s)(t \<mapsto> started + ucast wait)\<rparr>)"
| wake: "gs_waiting s t = Some deadline \<Longrightarrow>
    gate_poll (cancelled t) (now t) deadline (gs_results s t) = Some left \<or> left = Gate_Refused \<Longrightarrow>
    gate_enter_finish left stopped cancelled now t (gs_gate s) (gs_results s) = (r, g, results) \<Longrightarrow>
    gate_step s (s\<lparr>gs_gate := g, gs_results := results, gs_waiting := (gs_waiting s)(t := None),
      gs_holding := if r = Gate_Admitted then insert t (gs_holding s) else gs_holding s\<rparr>)"
| leave: "t \<in> gs_holding s \<Longrightarrow>
    lmb_run_gate_leave cancelled now (gs_gate s) (gs_results s) = (g, results) \<Longrightarrow>
    gate_step s (s\<lparr>gs_gate := g, gs_results := results, gs_holding := gs_holding s - {t}\<rparr>)"

text \<open>A failed wait on the condition variable leaves the loop like an expired deadline, which is the
  second case of \<open>wake\<close>.\<close>

inductive gate_reachable :: "gate_state \<Rightarrow> bool" where
  init: "lmb_run_gate_init capacity max_queue = Some g \<Longrightarrow>
    gate_reachable \<lparr>gs_gate = g, gs_results = (\<lambda>_. G_Waiting), gs_waiting = (\<lambda>_. None), gs_holding = {}\<rparr>"
| step: "gate_reachable s \<Longrightarrow> gate_step s t \<Longrightarrow> gate_reachable t"

section \<open>Admission\<close>

lemma gate_answer_not_waiting [simp]: "gate_answer cancelled now w \<noteq> G_Waiting"
  by (simp add: gate_answer_def)

abbreviation threads :: "lmb_run_waiter list \<Rightarrow> nat set" where
  "threads ws \<equiv> rw_thread ` set ws"

text \<open>Admission answers a prefix of the queue, in order, and stops only when the gate is full.\<close>

lemma admit_loop_prefix:
  assumes "admit_loop cancelled now ws g r = (g', r')" "distinct (map rw_thread ws)"
    "unat (rg_queued g) = length ws" "rg_in_use g \<le> rg_capacity g"
  shows "\<exists>k \<le> length ws. rg_queue g' = drop k ws \<and> unat (rg_queued g') = length (drop k ws) \<and>
    rg_capacity g' = rg_capacity g \<and> rg_max_queue g' = rg_max_queue g \<and>
    rg_in_use g' \<le> rg_capacity g \<and> (k < length ws \<longrightarrow> rg_in_use g' = rg_capacity g) \<and>
    (ws \<noteq> [] \<and> rg_in_use g < rg_capacity g \<longrightarrow> 0 < k) \<and>
    unat (rg_in_use g') = unat (rg_in_use g) + length (filter (\<lambda>w. gate_answer cancelled now w = G_Admitted) (take k ws)) \<and>
    (\<forall>w \<in> set (take k ws). r' (rw_thread w) = gate_answer cancelled now w) \<and>
    (\<forall>t. t \<notin> threads (take k ws) \<longrightarrow> r' t = r t)"
  using assms
proof (induction ws arbitrary: g r)
  case Nil
  then show ?case by auto
next
  case (Cons w ws)
  show ?case
  proof (cases "rg_in_use g < rg_capacity g")
    case False
    with Cons.prems show ?thesis by (intro exI [of _ 0]) auto
  next
    case True
    let ?a = "gate_answer cancelled now w"
    let ?g = "g\<lparr>rg_queued := rg_queued g - 1\<rparr>"
    let ?h = "if ?a = G_Admitted then ?g\<lparr>rg_in_use := rg_in_use ?g + 1\<rparr> else ?g"
    have L: "admit_loop cancelled now ws ?h (r(rw_thread w := ?a)) = (g', r')"
      using Cons.prems(1) True by (simp add: Let_def)
    have q: "unat (rg_queued ?h) = length ws"
    proof -
      have "1 \<le> rg_queued g" using Cons.prems(3) by (simp add: word_le_nat_alt)
      then show ?thesis using Cons.prems(3) by (simp add: unat_sub)
    qed
    have u: "unat (rg_in_use g + 1) = unat (rg_in_use g) + 1"
      using True unat_u32_less [of "rg_capacity g"] by (simp add: unat_word_ariths word_less_nat_alt)
    then have le: "rg_in_use ?h \<le> rg_capacity ?h" using True by (simp add: word_le_nat_alt word_less_nat_alt)
    have d: "distinct (map rw_thread ws)" "rw_thread w \<notin> threads ws" using Cons.prems(2) by simp_all
    have hs: "rg_capacity ?h = rg_capacity g" "rg_max_queue ?h = rg_max_queue g" by simp_all
    from Cons.IH [OF L d(1) q le, unfolded hs] obtain k where k: "k \<le> length ws" "rg_queue g' = drop k ws"
      "unat (rg_queued g') = length (drop k ws)" "rg_capacity g' = rg_capacity g" "rg_max_queue g' = rg_max_queue g"
      "rg_in_use g' \<le> rg_capacity g" "k < length ws \<longrightarrow> rg_in_use g' = rg_capacity g"
      "unat (rg_in_use g') = unat (rg_in_use ?h) + length (filter (\<lambda>w. gate_answer cancelled now w = G_Admitted) (take k ws))"
      "\<forall>w \<in> set (take k ws). r' (rw_thread w) = gate_answer cancelled now w"
      "\<forall>t. t \<notin> threads (take k ws) \<longrightarrow> r' t = (r(rw_thread w := ?a)) t"
      by blast
    have w: "r' (rw_thread w) = ?a"
      using k(10) d(2) by (metis (no_types, lifting) fun_upd_same image_iff in_set_takeD)
    have i: "unat (rg_in_use ?h) = unat (rg_in_use g) + (if ?a = G_Admitted then 1 else 0)"
      using u by simp
    show ?thesis
    proof (intro exI [of _ "Suc k"] conjI)
      show "unat (rg_in_use g') = unat (rg_in_use g) +
          length (filter (\<lambda>w. gate_answer cancelled now w = G_Admitted) (take (Suc k) (w # ws)))"
        using k(8) i by simp
      show "\<forall>v \<in> set (take (Suc k) (w # ws)). r' (rw_thread v) = gate_answer cancelled now v"
        using k(9) w by simp
      show "\<forall>t. t \<notin> threads (take (Suc k) (w # ws)) \<longrightarrow> r' t = r t"
        using k(10) by simp
    qed (use k in simp_all)
  qed
qed

section \<open>The invariant\<close>

definition granted :: "gate_results \<Rightarrow> (nat \<Rightarrow> u64 option) \<Rightarrow> nat set \<Rightarrow> nat set" where
  "granted r waiting H = H \<union> {t \<in> dom waiting. r t = G_Admitted}"

definition gate_core :: "lmb_run_gate \<Rightarrow> gate_results \<Rightarrow> (nat \<Rightarrow> u64 option) \<Rightarrow> nat set \<Rightarrow> bool" where
  "gate_core g r waiting H \<longleftrightarrow>
     distinct (map rw_thread (rg_queue g)) \<and>
     (\<forall>w \<in> set (rg_queue g). waiting (rw_thread w) = Some (rw_deadline_ms w)) \<and>
     threads (rg_queue g) = {t \<in> dom waiting. r t = G_Waiting} \<and>
     unat (rg_queued g) = length (rg_queue g) \<and> rg_queued g \<le> rg_max_queue g \<and>
     rg_in_use g \<le> rg_capacity g \<and> finite H \<and> finite (dom waiting) \<and> H \<inter> dom waiting = {} \<and>
     unat (rg_in_use g) = card (granted r waiting H)"

definition gate_settled :: "lmb_run_gate \<Rightarrow> bool" where
  "gate_settled g \<longleftrightarrow> (rg_queue g \<noteq> [] \<longrightarrow> rg_in_use g = rg_capacity g) \<and>
     rg_published_in_use g = rg_in_use g \<and> rg_published_queued g = rg_queued g"

definition gate_inv :: "gate_state \<Rightarrow> bool" where
  "gate_inv s \<longleftrightarrow> gate_core (gs_gate s) (gs_results s) (gs_waiting s) (gs_holding s) \<and> gate_settled (gs_gate s)"

lemma granted_finite: "finite H \<Longrightarrow> finite (dom waiting) \<Longrightarrow> finite (granted r waiting H)"
  by (simp add: granted_def)

lemma gate_core_admit:
  assumes core: "gate_core g r waiting H" and adm: "gate_admit cancelled now g r = (g', r')"
  shows "gate_core g' r' waiting H \<and> gate_settled g' \<and> rg_capacity g' = rg_capacity g \<and>
    (rg_queue g \<noteq> [] \<and> rg_in_use g < rg_capacity g \<longrightarrow> length (rg_queue g') < length (rg_queue g)) \<and>
    (\<exists>k. rg_queue g' = drop k (rg_queue g) \<and>
       (\<forall>w \<in> set (take k (rg_queue g)). r' (rw_thread w) = gate_answer cancelled now w) \<and>
       (\<forall>t. t \<notin> threads (take k (rg_queue g)) \<longrightarrow> r' t = r t))"
proof -
  let ?q = "rg_queue g"
  obtain h where L: "admit_loop cancelled now ?q g r = (h, r')" and g': "g' = gate_publish h"
    using adm by (auto simp: gate_admit_def split: prod.splits)
  have d: "distinct (map rw_thread ?q)" and W: "threads ?q = {t \<in> dom waiting. r t = G_Waiting}"
    and fin: "finite H" "finite (dom waiting)" and disj: "H \<inter> dom waiting = {}"
    and c: "unat (rg_in_use g) = card (granted r waiting H)"
    using core by (simp_all add: gate_core_def)
  from admit_loop_prefix [OF L d] core obtain k where k: "k \<le> length ?q" "rg_queue h = drop k ?q"
    "unat (rg_queued h) = length (drop k ?q)" "rg_capacity h = rg_capacity g" "rg_max_queue h = rg_max_queue g"
    "rg_in_use h \<le> rg_capacity g" "k < length ?q \<longrightarrow> rg_in_use h = rg_capacity g"
    "?q \<noteq> [] \<and> rg_in_use g < rg_capacity g \<longrightarrow> 0 < k"
    "unat (rg_in_use h) = unat (rg_in_use g) + length (filter (\<lambda>w. gate_answer cancelled now w = G_Admitted) (take k ?q))"
    "\<forall>w \<in> set (take k ?q). r' (rw_thread w) = gate_answer cancelled now w"
    "\<forall>t. t \<notin> threads (take k ?q) \<longrightarrow> r' t = r t"
    by (auto simp: gate_core_def)
  let ?A = "filter (\<lambda>w. gate_answer cancelled now w = G_Admitted) (take k ?q)"
  have tq: "threads (take k ?q) \<subseteq> threads ?q" by (auto dest: in_set_takeD)
  have split: "threads ?q = threads (take k ?q) \<union> threads (drop k ?q)"
    by (metis append_take_drop_id set_append image_Un)
  have dd: "threads (take k ?q) \<inter> threads (drop k ?q) = {}"
    using d by (metis append_take_drop_id distinct_append map_append set_map)
  have gr: "granted r' waiting H = granted r waiting H \<union> threads ?A"
  proof (rule set_eqI)
    fix t
    show "t \<in> granted r' waiting H \<longleftrightarrow> t \<in> granted r waiting H \<union> threads ?A"
    proof (cases "t \<in> threads (take k ?q)")
      case True
      then obtain w where w: "w \<in> set (take k ?q)" "t = rw_thread w" by blast
      have u: "w' = w" if "w' \<in> set (take k ?q)" "rw_thread w' = t" for w'
        using d that w by (auto simp: distinct_map inj_on_def dest: in_set_takeD)
      have "t \<in> threads ?q" using True tq by blast
      then have tw: "t \<in> dom waiting" "r t = G_Waiting" using W by blast+
      have A: "t \<in> threads ?A \<longleftrightarrow> gate_answer cancelled now w = G_Admitted"
      proof
        assume "t \<in> threads ?A"
        then obtain w' where w': "w' \<in> set (take k ?q)" "rw_thread w' = t" "gate_answer cancelled now w' = G_Admitted"
          by auto
        with u [OF w'(1,2)] show "gate_answer cancelled now w = G_Admitted" by simp
      next
        assume "gate_answer cancelled now w = G_Admitted"
        with w show "t \<in> threads ?A" by auto
      qed
      have rt: "r' t = gate_answer cancelled now w" using k(10) w by simp
      have "t \<notin> H" using tw(1) disj by blast
      then have "t \<in> granted r' waiting H \<longleftrightarrow> gate_answer cancelled now w = G_Admitted"
        "t \<notin> granted r waiting H"
        using tw rt by (simp_all add: granted_def)
      with A show ?thesis by blast
    next
      case False
      then have "r' t = r t" using k(11) by simp
      moreover have "t \<notin> threads ?A" using False by auto
      ultimately show ?thesis by (simp add: granted_def)
    qed
  qed
  have disA: "granted r waiting H \<inter> threads ?A = {}"
  proof -
    have "threads ?A \<subseteq> {t \<in> dom waiting. r t = G_Waiting}" using tq W by auto
    then show ?thesis using disj by (auto simp: granted_def)
  qed
  have cA: "card (threads ?A) = length ?A"
  proof -
    have "distinct (map rw_thread ?A)" using d by (simp add: distinct_map_filter take_map [symmetric])
    from distinct_card [OF this] show ?thesis by simp
  qed
  have card: "unat (rg_in_use h) = card (granted r' waiting H)"
    unfolding gr using k(9) c cA card_Un_disjoint [OF granted_finite [OF fin] _ disA] by simp
  have W': "threads (drop k ?q) = {t \<in> dom waiting. r' t = G_Waiting}"
  proof (rule set_eqI)
    fix t
    show "t \<in> threads (drop k ?q) \<longleftrightarrow> t \<in> {t \<in> dom waiting. r' t = G_Waiting}"
    proof (cases "t \<in> threads (take k ?q)")
      case True
      then have "r' t \<noteq> G_Waiting" using k(10) by auto
      with True dd show ?thesis by auto
    next
      case False
      then have "t \<in> threads (drop k ?q) \<longleftrightarrow> t \<in> threads ?q" using split by blast
      with False k(11) W show ?thesis by auto
    qed
  qed
  have "length (drop k ?q) \<le> length ?q" by simp
  then have q: "rg_queued h \<le> rg_max_queue h"
    using core k(3,5) by (auto simp: gate_core_def word_le_nat_alt)
  have "gate_core h r' waiting H"
    using core k d W' card q fin disj
    by (auto simp: gate_core_def distinct_drop drop_map [symmetric] dest: in_set_dropD)
  moreover have "gate_settled g'"
    using k by (auto simp: gate_settled_def g' gate_publish_def)
  moreover have "length (drop k ?q) < length ?q" if "?q \<noteq> []" "rg_in_use g < rg_capacity g"
    using k(8) that by (cases ?q) simp_all
  ultimately show ?thesis
    using k by (auto simp: g' gate_publish_def gate_core_def)
qed

section \<open>Every step keeps the invariant\<close>

text \<open>What a critical section does to the gate before it admits: the invariant may be unsettled.\<close>

lemma gate_core_permit:
  assumes "gate_core g r waiting H" "t \<notin> H" "t \<notin> dom waiting" "rg_in_use g < rg_capacity g"
  shows "gate_core (g\<lparr>rg_in_use := rg_in_use g + 1\<rparr>) r waiting (insert t H)"
proof -
  have u: "unat (rg_in_use g + 1) = unat (rg_in_use g) + 1"
    using assms(4) unat_u32_less [of "rg_capacity g"] by (simp add: unat_word_ariths word_less_nat_alt)
  have "granted r waiting (insert t H) = insert t (granted r waiting H)"
    "t \<notin> granted r waiting H" "finite (granted r waiting H)"
    using assms(1-3) by (auto simp: granted_def gate_core_def)
  moreover have "rg_in_use g + 1 \<le> rg_capacity g"
    using u assms(4) by (simp add: word_le_nat_alt word_less_nat_alt)
  ultimately show ?thesis using assms u by (simp add: gate_core_def)
qed

lemma gate_core_release:
  assumes "gate_core g r waiting (insert t H)" "t \<notin> H"
  shows "gate_core (g\<lparr>rg_in_use := rg_in_use g - 1\<rparr>) r waiting H" and "rg_in_use g \<noteq> 0"
proof -
  have g: "granted r waiting (insert t H) = insert t (granted r waiting H)"
    "t \<notin> granted r waiting H" "finite (granted r waiting H)"
    using assms by (auto simp: granted_def gate_core_def)
  then have c: "unat (rg_in_use g) = Suc (card (granted r waiting H))"
    using assms(1) by (simp add: gate_core_def)
  then show nz: "rg_in_use g \<noteq> 0" by auto
  have "1 \<le> rg_in_use g" using c by (simp add: word_le_nat_alt)
  then have u: "unat (rg_in_use g - 1) = card (granted r waiting H)" using c by (simp add: unat_sub)
  then have "rg_in_use g - 1 \<le> rg_capacity g"
    using assms(1) c by (simp add: gate_core_def word_le_nat_alt)
  with u assms show "gate_core (g\<lparr>rg_in_use := rg_in_use g - 1\<rparr>) r waiting H" by (simp add: gate_core_def)
qed

text \<open>A waiter that was answered turns into a holder, or goes away.\<close>

lemma gate_core_answered:
  assumes "gate_core g r waiting H" "waiting t = Some d" "r t = G_Admitted"
  shows "gate_core g r (waiting(t := None)) (insert t H)"
proof -
  have "granted r (waiting(t := None)) (insert t H) = granted r waiting H"
    using assms(2,3) by (auto simp: granted_def)
  moreover have q: "t \<notin> threads (rg_queue g)" using assms by (auto simp: gate_core_def)
  moreover have "{u \<in> dom (waiting(t := None)). r u = G_Waiting} = {u \<in> dom waiting. r u = G_Waiting}"
    using assms(3) by auto
  moreover have "\<forall>w \<in> set (rg_queue g). (waiting(t := None)) (rw_thread w) = waiting (rw_thread w)"
    using q by (auto simp: image_iff)
  ultimately show ?thesis using assms(1) by (auto simp: gate_core_def)
qed

lemma gate_core_dropped:
  assumes "gate_core g r waiting H" "waiting t = Some d" "r t = G_Cancelled \<or> r t = G_Expired"
  shows "gate_core g r (waiting(t := None)) H"
proof -
  have "granted r (waiting(t := None)) H = granted r waiting H"
    using assms(2,3) by (auto simp: granted_def)
  moreover have q: "t \<notin> threads (rg_queue g)" using assms by (auto simp: gate_core_def)
  moreover have "{u \<in> dom (waiting(t := None)). r u = G_Waiting} = {u \<in> dom waiting. r u = G_Waiting}"
    using assms(3) by auto
  moreover have "\<forall>w \<in> set (rg_queue g). (waiting(t := None)) (rw_thread w) = waiting (rw_thread w)"
    using q by (auto simp: image_iff)
  ultimately show ?thesis using assms(1) by (auto simp: gate_core_def)
qed

lemma filter_one:
  assumes "distinct (map f xs)" "x \<in> set xs"
  shows "length (filter (\<lambda>y. f y \<noteq> f x) xs) = length xs - 1"
  using assms
proof (induction xs)
  case Nil
  then show ?case by simp
next
  case (Cons a xs)
  show ?case
  proof (cases "a = x")
    case True
    with Cons.prems have "filter (\<lambda>y. f y \<noteq> f x) xs = xs" by (auto simp: filter_id_conv image_iff)
    with True show ?thesis by simp
  next
    case False
    with Cons.prems have x: "x \<in> set xs" "f a \<noteq> f x" by auto
    with Cons have "length (filter (\<lambda>y. f y \<noteq> f x) xs) = length xs - 1" by simp
    moreover have "length xs > 0" using x(1) by (cases xs) simp_all
    ultimately show ?thesis using x(2) by simp
  qed
qed

lemma gate_core_removed:
  assumes "gate_core g r waiting H" "waiting t = Some d" "r t = G_Waiting"
  shows "gate_core (g\<lparr>rg_queue := filter (\<lambda>w. rw_thread w \<noteq> t) (rg_queue g), rg_queued := rg_queued g - 1\<rparr>)
      r (waiting(t := None)) H"
    and "list_ex (\<lambda>w. rw_thread w = t) (rg_queue g)"
proof -
  let ?q = "filter (\<lambda>w. rw_thread w \<noteq> t) (rg_queue g)"
  have t: "t \<in> threads (rg_queue g)" and d: "distinct (map rw_thread (rg_queue g))"
    using assms by (auto simp: gate_core_def)
  then show "list_ex (\<lambda>w. rw_thread w = t) (rg_queue g)" by (auto simp: list_ex_iff)
  from t obtain w where w: "w \<in> set (rg_queue g)" "rw_thread w = t" by blast
  have l: "length ?q = length (rg_queue g) - 1" using filter_one [OF d w(1)] w(2) by simp
  have "rg_queue g \<noteq> []" using w by auto
  then have n: "0 < unat (rg_queued g)" using assms(1) by (simp add: gate_core_def)
  then have "1 \<le> rg_queued g" by (simp add: word_le_nat_alt)
  then have u: "unat (rg_queued g - 1) = length ?q"
    using assms(1) l by (simp add: gate_core_def unat_sub)
  then have "rg_queued g - 1 \<le> rg_max_queue g"
    using assms(1) l by (auto simp: gate_core_def word_le_nat_alt)
  moreover have "granted r (waiting(t := None)) H = granted r waiting H"
    using assms(3) by (auto simp: granted_def)
  moreover have "threads ?q = {u \<in> dom (waiting(t := None)). r u = G_Waiting}"
    using assms(1) by (auto simp: gate_core_def)
  ultimately show "gate_core (g\<lparr>rg_queue := ?q, rg_queued := rg_queued g - 1\<rparr>) r (waiting(t := None)) H"
    using assms(1) u d by (auto simp: gate_core_def distinct_map_filter)
qed

lemma gate_core_publish [simp]: "gate_core (gate_publish g) r waiting H = gate_core g r waiting H"
  by (simp add: gate_core_def gate_publish_def)

lemma gate_core_enqueue:
  assumes "gate_core g r waiting H" "t \<notin> H" "t \<notin> dom waiting" "\<not> rg_queued g \<ge> rg_max_queue g"
  shows "gate_core (g\<lparr>rg_queue := rg_queue g @ [\<lparr>rw_thread = t, rw_deadline_ms = d\<rparr>],
      rg_queued := rg_queued g + 1\<rparr>) (r(t := G_Waiting)) (waiting(t \<mapsto> d)) H"
proof -
  have u: "unat (rg_queued g + 1) = unat (rg_queued g) + 1"
    using assms(4) unat_u32_less [of "rg_max_queue g"] by (simp add: unat_word_ariths word_le_nat_alt)
  have "t \<notin> threads (rg_queue g)" using assms(1,3) by (auto simp: gate_core_def)
  moreover have "granted (r(t := G_Waiting)) (waiting(t \<mapsto> d)) H = granted r waiting H"
    using assms(2,3) by (auto simp: granted_def)
  moreover have "{u \<in> dom (waiting(t \<mapsto> d)). (r(t := G_Waiting)) u = G_Waiting} =
      insert t {u \<in> dom waiting. r u = G_Waiting}"
    by auto
  moreover have "rg_queued g + 1 \<le> rg_max_queue g" using u assms(4) by (simp add: word_le_nat_alt)
  moreover have "\<forall>w \<in> set (rg_queue g). (waiting(t \<mapsto> d)) (rw_thread w) = waiting (rw_thread w)"
    using calculation(1) by auto
  ultimately show ?thesis using assms u by (auto simp: gate_core_def)
qed

lemma enter_start_cases:
  assumes "gate_enter_start wait started cancelled now t g r = (out, g', r')"
  obtains (refused) v where "out = Some v" "v \<noteq> Gate_Admitted" "g' = g" "r' = r"
  | (admitted) "out = Some Gate_Admitted" "rg_queue g = []" "rg_in_use g < rg_capacity g" "r' = r"
      "g' = gate_publish (g\<lparr>rg_in_use := rg_in_use g + 1\<rparr>)"
  | (waits) "out = None" "\<not> rg_queued g \<ge> rg_max_queue g" "rg_queue g \<noteq> [] \<or> \<not> rg_in_use g < rg_capacity g"
      "r' = r(t := G_Waiting)"
      "g' = gate_publish (g\<lparr>rg_queue := rg_queue g @ [\<lparr>rw_thread = t, rw_deadline_ms = started + ucast wait\<rparr>],
        rg_queued := rg_queued g + 1\<rparr>)"
proof -
  let ?d = "started + ucast wait"
  consider (early) "wait = 0 \<or> started = UINT64_MAX \<or> started > UINT64_MAX - ucast wait"
    | (late) "\<not> (wait = 0 \<or> started = UINT64_MAX \<or> started > UINT64_MAX - ucast wait)"
        "cancelled t \<or> now t \<ge> ?d"
    | (free) "\<not> (wait = 0 \<or> started = UINT64_MAX \<or> started > UINT64_MAX - ucast wait)"
        "\<not> (cancelled t \<or> now t \<ge> ?d)" "rg_queue g = [] \<and> rg_in_use g < rg_capacity g"
    | (busy) "\<not> (wait = 0 \<or> started = UINT64_MAX \<or> started > UINT64_MAX - ucast wait)"
        "\<not> (cancelled t \<or> now t \<ge> ?d)" "\<not> (rg_queue g = [] \<and> rg_in_use g < rg_capacity g)"
    by blast
  then show thesis
  proof cases
    case early
    then have "out = Some Gate_Refused \<and> g' = g \<and> r' = r"
      using assms by (auto simp: gate_enter_start_def split: if_splits)
    then show thesis using refused [of Gate_Refused] by simp
  next
    case late
    then have "out = Some (if cancelled t then Gate_Cancelled else Gate_Refused) \<and> g' = g \<and> r' = r"
      using assms by (simp only: gate_enter_start_def Let_def de_Morgan_disj if_False if_True simp_thms)
        (auto simp: Let_def)
    then show thesis using refused [of "if cancelled t then Gate_Cancelled else Gate_Refused"] by simp
  next
    case free
    then show thesis using assms admitted by (auto simp: gate_enter_start_def Let_def)
  next
    case busy
    then show thesis
      using assms refused [of Gate_Refused] waits
      by (cases "rg_queued g \<ge> rg_max_queue g") (auto simp: gate_enter_start_def Let_def)
  qed
qed

lemma enter_finish_inv:
  assumes core: "gate_core g r waiting H" and set: "gate_settled g" and w: "waiting t = Some d"
    and fin: "gate_enter_finish left stopped cancelled now t g r = (v, g', r')"
    and left: "left \<noteq> Gate_Admitted"
  shows "gate_core g' r' (waiting(t := None)) (if v = Gate_Admitted then insert t H else H) \<and> gate_settled g'"
proof (cases "r t")
  case G_Waiting
  note R = gate_core_removed [OF core w G_Waiting]
  let ?g = "g\<lparr>rg_queue := filter (\<lambda>w. rw_thread w \<noteq> t) (rg_queue g), rg_queued := rg_queued g - 1\<rparr>"
  have "v = left" "gate_admit cancelled now ?g r = (g', r')"
    using fin G_Waiting R(2) by (auto simp: gate_enter_finish_def waiter_remove_def)
  with gate_core_admit [OF R(1)] left show ?thesis by simp
next
  case G_Admitted
  note A = gate_core_answered [OF core w G_Admitted]
  have tH: "t \<notin> H" using core w by (auto simp: gate_core_def)
  show ?thesis
  proof (cases stopped)
    case True
    then have "v = Gate_Cancelled" "gate_admit cancelled now (g\<lparr>rg_in_use := rg_in_use g - 1\<rparr>) r = (g', r')"
      using fin G_Admitted by (simp_all add: gate_enter_finish_def)
    with gate_core_admit [OF gate_core_release(1) [OF A tH]] show ?thesis by simp
  next
    case False
    with fin G_Admitted A set show ?thesis by (auto simp: gate_enter_finish_def)
  qed
next
  case G_Cancelled
  with fin gate_core_dropped [OF core w] set show ?thesis by (auto simp: gate_enter_finish_def)
next
  case G_Expired
  with fin gate_core_dropped [OF core w] set show ?thesis by (auto simp: gate_enter_finish_def)
qed

lemma gate_poll_left: "gate_poll a b c d = Some x \<Longrightarrow> x \<noteq> Gate_Admitted"
  by (auto simp: gate_poll_def split: if_splits)

lemma gate_step_inv: "gate_step s s' \<Longrightarrow> gate_inv s \<Longrightarrow> gate_inv s'"
proof (induction rule: gate_step.induct)
  case (enter_now t s wait started cancelled now r g results)
  from enter_now(3) show ?case
  proof (cases rule: enter_start_cases)
    case (refused v)
    with enter_now show ?thesis by (simp add: gate_inv_def)
  next
    case admitted
    with enter_now gate_core_permit [of "gs_gate s" "gs_results s" "gs_waiting s" "gs_holding s" t] show ?thesis
      by (simp add: gate_inv_def gate_settled_def) (simp add: gate_publish_def)
  qed simp
next
  case (enter_wait t s wait started cancelled now g results)
  from enter_wait(3) show ?case
  proof (cases rule: enter_start_cases)
    case waits
    have core: "gate_core (gs_gate s) (gs_results s) (gs_waiting s) (gs_holding s)" and st: "gate_settled (gs_gate s)"
      using enter_wait.prems by (simp_all add: gate_inv_def)
    have full: "rg_in_use (gs_gate s) = rg_capacity (gs_gate s)"
      using waits(3) core st by (auto simp: gate_core_def gate_settled_def)
    have "gate_settled g" using full by (simp add: waits(5) gate_settled_def gate_publish_def)
    with gate_core_enqueue [OF core enter_wait(2,1) waits(2), of "started + ucast wait"] waits show ?thesis
      by (simp add: gate_inv_def)
  qed simp_all
next
  case (wake s t deadline cancelled now left stopped r g results)
  then have "left \<noteq> Gate_Admitted" by (auto dest: gate_poll_left)
  with wake enter_finish_inv [where waiting = "gs_waiting s" and t = t and H = "gs_holding s", OF _ _ wake(1) wake(3)] show ?case by (simp add: gate_inv_def)
next
  case (leave t s cancelled now g results)
  let ?H = "gs_holding s - {t}"
  have core: "gate_core (gs_gate s) (gs_results s) (gs_waiting s) (insert t ?H)"
    using leave by (simp add: gate_inv_def insert_absorb)
  have "t \<notin> ?H" by simp
  note R = gate_core_release [OF core this]
  have "gate_admit cancelled now ((gs_gate s)\<lparr>rg_in_use := rg_in_use (gs_gate s) - 1\<rparr>) (gs_results s) = (g, results)"
    using leave(2) R(2) by (simp add: lmb_run_gate_leave_def)
  with gate_core_admit [OF R(1)] show ?case by (simp add: gate_inv_def)
qed

lemma gate_reachable_inv: "gate_reachable s \<Longrightarrow> gate_inv s"
proof (induction rule: gate_reachable.induct)
  case (init capacity max_queue g)
  then show ?case
    by (auto simp: gate_inv_def gate_core_def gate_settled_def lmb_run_gate_init_def gate_publish_def granted_def
        split: if_splits)
next
  case (step s t)
  then show ?case by (metis gate_step_inv)
qed

section \<open>Progress\<close>

text \<open>What a sequence of leaves needs of the gate.\<close>

definition gate_live :: "lmb_run_gate \<Rightarrow> bool" where
  "gate_live g \<longleftrightarrow> rg_capacity g \<noteq> 0 \<and> distinct (map rw_thread (rg_queue g)) \<and>
     unat (rg_queued g) = length (rg_queue g) \<and> rg_in_use g \<le> rg_capacity g \<and>
     (rg_queue g \<noteq> [] \<longrightarrow> rg_in_use g = rg_capacity g)"

lemma leave_prefix:
  assumes "gate_live g" "lmb_run_gate_leave cancelled now g r = (g', r')"
  shows "gate_live g' \<and> (\<exists>k. rg_queue g' = drop k (rg_queue g) \<and> (rg_queue g \<noteq> [] \<longrightarrow> 0 < k) \<and>
    (\<forall>w \<in> set (take k (rg_queue g)). r' (rw_thread w) = gate_answer cancelled now w) \<and>
    (\<forall>t. t \<notin> threads (take k (rg_queue g)) \<longrightarrow> r' t = r t))"
proof -
  let ?g = "if rg_in_use g \<noteq> 0 then g\<lparr>rg_in_use := rg_in_use g - 1\<rparr> else g"
  have q: "rg_queue ?g = rg_queue g" "rg_queued ?g = rg_queued g" "rg_capacity ?g = rg_capacity g" by simp_all
  obtain h where L: "admit_loop cancelled now (rg_queue g) ?g r = (h, r')" and g': "g' = gate_publish h"
    using assms(2) by (auto simp: lmb_run_gate_leave_def gate_admit_def q split: prod.splits)
  have le: "rg_in_use ?g \<le> rg_capacity ?g" and lt: "rg_queue g \<noteq> [] \<longrightarrow> rg_in_use ?g < rg_capacity ?g"
  proof -
    have "rg_in_use g - 1 < rg_in_use g" if "rg_in_use g \<noteq> 0"
    proof -
      have "1 \<le> rg_in_use g" using that by (simp add: word_le_nat_alt unat_gt_0 Suc_le_eq)
      then show ?thesis using that by (simp add: word_less_nat_alt unat_sub unat_gt_0)
    qed
    then show "rg_in_use ?g \<le> rg_capacity ?g" "rg_queue g \<noteq> [] \<longrightarrow> rg_in_use ?g < rg_capacity ?g"
      using assms(1) by (auto simp: gate_live_def)
  qed
  have d: "distinct (map rw_thread (rg_queue g))" and n: "unat (rg_queued ?g) = length (rg_queue g)"
    using assms(1) by (simp_all add: gate_live_def)
  from admit_loop_prefix [OF L d n le] obtain k where k: "k \<le> length (rg_queue g)" "rg_queue h = drop k (rg_queue g)"
    "unat (rg_queued h) = length (drop k (rg_queue g))" "rg_capacity h = rg_capacity ?g"
    "rg_in_use h \<le> rg_capacity ?g" "k < length (rg_queue g) \<longrightarrow> rg_in_use h = rg_capacity ?g"
    "rg_queue g \<noteq> [] \<and> rg_in_use ?g < rg_capacity ?g \<longrightarrow> 0 < k"
    "\<forall>w \<in> set (take k (rg_queue g)). r' (rw_thread w) = gate_answer cancelled now w"
    "\<forall>t. t \<notin> threads (take k (rg_queue g)) \<longrightarrow> r' t = r t"
    by blast
  have "gate_live g'"
    using assms(1) k(1-6) d
    by (auto simp: gate_live_def g' gate_publish_def q drop_map [symmetric])
  with k lt show ?thesis by (auto simp: g' gate_publish_def)
qed

lemma reachable_live: "gate_reachable s \<Longrightarrow> gate_live (gs_gate s)"
proof -
  have cap: "rg_capacity (gs_gate s') = rg_capacity (gs_gate s)" if "gate_step s s'" "gate_inv s" for s s'
    using that
  proof (induction rule: gate_step.induct)
    case (enter_now t s wait started cancelled now r g results)
    from enter_now(3) show ?case by (cases rule: enter_start_cases) (simp_all add: gate_publish_def)
  next
    case (enter_wait t s wait started cancelled now g results)
    from enter_wait(3) show ?case by (cases rule: enter_start_cases) (simp_all add: gate_publish_def)
  next
    case (wake s t deadline cancelled now left stopped r g results)
    have core: "gate_core (gs_gate s) (gs_results s) (gs_waiting s) (gs_holding s)"
      using wake by (simp add: gate_inv_def)
    have tH: "t \<notin> gs_holding s" using core wake(1) by (auto simp: gate_core_def)
    show ?case
    proof (cases "gs_results s t")
      case G_Waiting
      note R = gate_core_removed [OF core wake(1) G_Waiting]
      from wake(3) G_Waiting R(2) gate_core_admit [OF R(1)] show ?thesis
        by (auto simp: gate_enter_finish_def waiter_remove_def)
    next
      case G_Admitted
      note A = gate_core_release(1) [OF gate_core_answered [OF core wake(1) G_Admitted] tH]
      from wake(3) G_Admitted gate_core_admit [OF A] show ?thesis
        by (auto simp: gate_enter_finish_def split: if_splits)
    qed (use wake(3) in \<open>simp_all add: gate_enter_finish_def\<close>)
  next
    case (leave t s cancelled now g results)
    let ?H = "gs_holding s - {t}"
    have core: "gate_core (gs_gate s) (gs_results s) (gs_waiting s) (insert t ?H)"
      using leave by (simp add: gate_inv_def insert_absorb)
    have "t \<notin> ?H" by simp
    note R = gate_core_release [OF core this]
    with leave(2) gate_core_admit [OF R(1)] show ?case by (simp add: lmb_run_gate_leave_def)
  qed
  assume reach: "gate_reachable s"
  then have "rg_capacity (gs_gate s) \<noteq> 0"
  proof (induction rule: gate_reachable.induct)
    case (init capacity max_queue g)
    then show ?case by (auto simp: lmb_run_gate_init_def gate_publish_def split: if_splits)
  next
    case (step s t)
    then show ?case using cap [OF step(2) gate_reachable_inv [OF step(1)]] by simp
  qed
  with gate_reachable_inv [OF reach] show ?thesis
    by (simp add: gate_live_def gate_inv_def gate_core_def gate_settled_def)
qed

lemma gate_answer_final: "gate_answer cancelled now w \<noteq> G_Waiting"
  by (simp add: gate_answer_def)

text \<open>A sequence of leaves, each with its own callbacks and clock.\<close>

definition run_leaves ::
  "((nat \<Rightarrow> bool) \<times> (nat \<Rightarrow> u64)) list \<Rightarrow> lmb_run_gate \<times> gate_results \<Rightarrow> lmb_run_gate \<times> gate_results" where
  "run_leaves = fold (\<lambda>(cancelled, now) (g, r). lmb_run_gate_leave cancelled now g r)"

lemma leaves_drain:
  assumes "gate_live g" "length (rg_queue g) \<le> length ls" "run_leaves ls (g, r) = (g', r')"
  shows "rg_queue g' = [] \<and>
    (\<forall>w \<in> set (rg_queue g). \<exists>(cancelled, now) \<in> set ls. r' (rw_thread w) = gate_answer cancelled now w) \<and>
    (\<forall>t. t \<notin> threads (rg_queue g) \<longrightarrow> r' t = r t)"
  using assms
proof (induction ls arbitrary: g r)
  case Nil
  then show ?case by (simp add: run_leaves_def)
next
  case (Cons c ls)
  obtain cancelled now where c: "c = (cancelled, now)" by (cases c)
  obtain h x where l: "lmb_run_gate_leave cancelled now g r = (h, x)" by fastforce
  from leave_prefix [OF Cons.prems(1) l] obtain k where k: "gate_live h" "rg_queue h = drop k (rg_queue g)"
    "rg_queue g \<noteq> [] \<longrightarrow> 0 < k"
    "\<forall>w \<in> set (take k (rg_queue g)). x (rw_thread w) = gate_answer cancelled now w"
    "\<forall>t. t \<notin> threads (take k (rg_queue g)) \<longrightarrow> x t = r t" by blast
  have len: "length (rg_queue h) \<le> length ls" using k(2,3) Cons.prems(2) by (cases "rg_queue g") auto
  have run: "run_leaves ls (h, x) = (g', r')" using Cons.prems(3) l by (simp add: run_leaves_def c)
  note IH = Cons.IH [OF k(1) len run]
  let ?q = "rg_queue g"
  have parts: "set ?q = set (take k ?q) \<union> set (drop k ?q)" by (metis append_take_drop_id set_append)
  have "distinct (map rw_thread (take k ?q @ drop k ?q))" using Cons.prems(1) by (simp add: gate_live_def)
  then have disj: "rw_thread w \<notin> threads (drop k ?q)" if "w \<in> set (take k ?q)" for w
    using that by (auto simp del: append_take_drop_id)
  have "\<exists>(cancelled, now) \<in> set (c # ls). r' (rw_thread w) = gate_answer cancelled now w" if w: "w \<in> set ?q" for w
  proof (cases "w \<in> set (take k ?q)")
    case True
    then have "r' (rw_thread w) = x (rw_thread w)" using IH disj k(2) by simp
    with k(4) True show ?thesis by (simp add: c)
  next
    case False
    with w parts k(2) have "w \<in> set (rg_queue h)" by auto
    with IH show ?thesis by fastforce
  qed
  moreover have "r' t = r t" if t: "t \<notin> threads ?q" for t
  proof -
    have "t \<notin> threads (take k ?q)" "t \<notin> threads (rg_queue h)" using t parts k(2) by auto
    with IH k(5) show ?thesis by metis
  qed
  ultimately show ?case using IH by blast
qed

section \<open>A gate in use\<close>

text \<open>One permit, two places in the queue: thread 4 runs, threads 2 and 3 wait.\<close>

definition ex_gate :: gate_state where
  "ex_gate =
     \<lparr>gs_gate = \<lparr>rg_queue = [\<lparr>rw_thread = 2, rw_deadline_ms = 110\<rparr>, \<lparr>rw_thread = 3, rw_deadline_ms = 120\<rparr>],
        rg_capacity = 1, rg_max_queue = 2, rg_in_use = 1, rg_queued = 2, rg_published_in_use = 1,
        rg_published_queued = 2\<rparr>,
      gs_results = (\<lambda>_. G_Waiting)(2 := G_Waiting, 3 := G_Waiting),
      gs_waiting = (\<lambda>_. None)(2 \<mapsto> 10 + ucast (100 :: u32), 3 \<mapsto> 20 + ucast (100 :: u32)), gs_holding = {4}\<rparr>"

definition ex_gate_0 :: lmb_run_gate where
  "ex_gate_0 = \<lparr>rg_queue = [], rg_capacity = 1, rg_max_queue = 2, rg_in_use = 0, rg_queued = 0,
     rg_published_in_use = 0, rg_published_queued = 0\<rparr>"

lemma ex_gate_reachable: "gate_reachable ex_gate"
proof -
  let ?no = "\<lambda>_ :: nat. False" and ?t = "\<lambda>_ :: nat. 20 :: u64"
  let ?s0 = "\<lparr>gs_gate = ex_gate_0, gs_results = (\<lambda>_. G_Waiting), gs_waiting = (\<lambda>_. None), gs_holding = {}\<rparr>"
  let ?g1 = "ex_gate_0\<lparr>rg_in_use := 1, rg_published_in_use := 1\<rparr>"
  let ?s1 = "?s0\<lparr>gs_gate := ?g1, gs_holding := {4}\<rparr>"
  let ?g2 = "?g1\<lparr>rg_queue := [\<lparr>rw_thread = 2, rw_deadline_ms = 110\<rparr>], rg_queued := 1, rg_published_queued := 1\<rparr>"
  let ?s2 = "?s1\<lparr>gs_gate := ?g2, gs_results := (\<lambda>_. G_Waiting)(2 := G_Waiting),
    gs_waiting := (\<lambda>_. None)(2 \<mapsto> 10 + ucast (100 :: u32))\<rparr>"
  have 0: "gate_reachable ?s0"
    by (rule gate_reachable.init [of 1 2]) (simp add: lmb_run_gate_init_def gate_publish_def ex_gate_0_def)
  have e1: "gate_enter_start 100 0 ?no ?t 4 ex_gate_0 (\<lambda>_. G_Waiting) = (Some Gate_Admitted, ?g1, \<lambda>_. G_Waiting)"
    by (simp add: gate_enter_start_def gate_publish_def ex_gate_0_def Let_def)
  have e2: "gate_enter_start 100 10 ?no ?t 2 ?g1 (\<lambda>_. G_Waiting) = (None, ?g2, (\<lambda>_. G_Waiting)(2 := G_Waiting))"
    by (simp add: gate_enter_start_def gate_publish_def ex_gate_0_def Let_def)
  have e3: "gate_enter_start 100 20 ?no ?t 3 ?g2 ((\<lambda>_. G_Waiting)(2 := G_Waiting)) =
      (None, gs_gate ex_gate, (\<lambda>_. G_Waiting)(2 := G_Waiting, 3 := G_Waiting))"
    by (simp add: gate_enter_start_def gate_publish_def ex_gate_0_def ex_gate_def Let_def)
      (simp add: word_le_nat_alt)
  have "gate_step ?s0 (?s0\<lparr>gs_gate := ?g1, gs_results := (\<lambda>_. G_Waiting),
      gs_holding := if Gate_Admitted = Gate_Admitted then insert 4 (gs_holding ?s0) else gs_holding ?s0\<rparr>)"
    by (rule gate_step.enter_now [where wait = 100 and started = 0 and cancelled = ?no and now = ?t])
      (simp_all add: e1)
  then have 1: "gate_reachable ?s1" using gate_reachable.step [OF 0] by simp
  have "gate_step ?s1 (?s1\<lparr>gs_gate := ?g2, gs_results := (\<lambda>_. G_Waiting)(2 := G_Waiting),
      gs_waiting := (gs_waiting ?s1)(2 \<mapsto> 10 + ucast (100 :: u32))\<rparr>)"
    by (rule gate_step.enter_wait [where wait = 100 and started = 10 and cancelled = ?no and now = ?t])
      (simp_all add: e2)
  then have 2: "gate_reachable ?s2" using gate_reachable.step [OF 1] by simp
  have "gate_step ?s2 (?s2\<lparr>gs_gate := gs_gate ex_gate, gs_results := (\<lambda>_. G_Waiting)(2 := G_Waiting, 3 := G_Waiting),
      gs_waiting := (gs_waiting ?s2)(3 \<mapsto> 20 + ucast (100 :: u32))\<rparr>)"
    by (rule gate_step.enter_wait [where wait = 100 and started = 20 and cancelled = ?no and now = ?t])
      (simp_all add: e3)
  from gate_reachable.step [OF 2 this] show ?thesis by (simp add: ex_gate_def)
qed

section \<open>Properties\<close>

text \<open>C23: the admission limit holds in every reachable state, whatever the interleaving of entering,
  waking, cancelling, expiring and leaving: no more runs are in use than the capacity, the count
  is exactly the number of permits given and not returned, the queue keeps its bound, nobody
  waits while a permit is free, and the published counters are the real ones.\<close>

theorem gate_admission:
  assumes "gate_reachable s"
  shows "let g = gs_gate s in
    rg_in_use g \<le> rg_capacity g \<and>
    unat (rg_in_use g) = card (gs_holding s \<union> {t \<in> dom (gs_waiting s). gs_results s t = G_Admitted}) \<and>
    threads (rg_queue g) = {t \<in> dom (gs_waiting s). gs_results s t = G_Waiting} \<and>
    length (rg_queue g) \<le> unat (rg_max_queue g) \<and>
    (rg_queue g = [] \<or> rg_in_use g = rg_capacity g) \<and>
    lmb_run_gate_inflight g = rg_in_use g \<and> unat (lmb_run_gate_queued g) = length (rg_queue g)"
  using gate_reachable_inv [OF assms]
  by (auto simp: gate_inv_def gate_core_def gate_settled_def granted_def lmb_run_gate_inflight_def
      lmb_run_gate_queued_def word_le_nat_alt Let_def)

lemma gate_admission_witness: "rg_in_use (gs_gate ex_gate) \<le> rg_capacity (gs_gate ex_gate)"
  using gate_admission [OF ex_gate_reachable] by (simp add: Let_def)

text \<open>C24: admission is first come first served and no leave is wasted: a leave answers a non-empty
  prefix of a non-empty queue, each of these waiters by its own cancellation and deadline
  (cancelled, expired or admitted), leaves everybody behind them waiting in the same order and
  changes no other answer.\<close>

theorem gate_fifo:
  assumes "gate_reachable s" "lmb_run_gate_leave cancelled now (gs_gate s) (gs_results s) = (g', r')"
  shows "\<exists>k. rg_queue g' = drop k (rg_queue (gs_gate s)) \<and>
    (rg_queue (gs_gate s) = [] \<or> 0 < k) \<and>
    (\<forall>w \<in> set (take k (rg_queue (gs_gate s))). r' (rw_thread w) = gate_answer cancelled now w) \<and>
    (\<forall>t. t \<in> threads (take k (rg_queue (gs_gate s))) \<or> r' t = gs_results s t)"
  using leave_prefix [OF reachable_live [OF assms(1)] assms(2)] by blast

lemma gate_fifo_witness:
  "\<exists>g' r'. lmb_run_gate_leave (\<lambda>_. False) (\<lambda>_. 30) (gs_gate ex_gate) (gs_results ex_gate) = (g', r') \<and>
     length (rg_queue g') < 2"
proof -
  obtain g' r' where l: "lmb_run_gate_leave (\<lambda>_. False) (\<lambda>_. 30) (gs_gate ex_gate) (gs_results ex_gate) = (g', r')"
    by fastforce
  from gate_fifo [OF ex_gate_reachable l] obtain k where "rg_queue g' = drop k (rg_queue (gs_gate ex_gate))"
    "rg_queue (gs_gate ex_gate) = [] \<or> 0 < k" by blast
  then have "length (rg_queue g') < 2" by (simp add: ex_gate_def)
  with l show ?thesis by blast
qed

text \<open>C25: every waiter is eventually answered: after as many leaves as the queue is long, whatever
  the callbacks and the clock of each of them say, the queue is empty, every waiter that was in
  it has the answer that one of the leaves computed for it (admitted, cancelled or expired, no
  longer waiting), and the answers of all other threads are untouched.\<close>

theorem gate_drains:
  assumes "gate_reachable s" "length (rg_queue (gs_gate s)) \<le> length ls"
    "run_leaves ls (gs_gate s, gs_results s) = (g', r')"
  shows "rg_queue g' = [] \<and>
    (\<forall>w \<in> set (rg_queue (gs_gate s)). r' (rw_thread w) \<noteq> G_Waiting \<and>
       (\<exists>(cancelled, now) \<in> set ls. r' (rw_thread w) = gate_answer cancelled now w)) \<and>
    (\<forall>t. t \<notin> threads (rg_queue (gs_gate s)) \<longrightarrow> r' t = gs_results s t)"
  using leaves_drain [OF reachable_live [OF assms(1)] assms(2,3)] by (fastforce simp: gate_answer_final)

lemma gate_drains_witness:
  "\<exists>g' r'. run_leaves [(\<lambda>_. False, \<lambda>_. 30), (\<lambda>_. False, \<lambda>_. 115)] (gs_gate ex_gate, gs_results ex_gate) = (g', r') \<and>
     rg_queue g' = [] \<and> r' 2 \<noteq> G_Waiting \<and> r' 3 \<noteq> G_Waiting"
proof -
  let ?ls = "[(\<lambda>_. False, \<lambda>_. 30), (\<lambda>_. False, \<lambda>_. 115)] :: ((nat \<Rightarrow> bool) \<times> (nat \<Rightarrow> u64)) list"
  obtain g' r' where l: "run_leaves ?ls (gs_gate ex_gate, gs_results ex_gate) = (g', r')" by fastforce
  have "length (rg_queue (gs_gate ex_gate)) \<le> length ?ls" by (simp add: ex_gate_def)
  from gate_drains [OF ex_gate_reachable this l] l show ?thesis by (simp add: ex_gate_def)
qed

end
