(* ===== verification/Planner.thy ===== *)
theory Planner
  imports Lumabri_Prelude
begin

text \<open>
  What a checkpoint costs in memory, \<^verbatim>\<open>lumabri_planner.h\<close>: size arithmetic that saturates at the
  sentinel \<open>UINT64_MAX\<close> instead of wrapping, the cost of a range of layers and of Edge, and the
  three states a range can have under a budget. \<open>rep v n\<close> relates a saturating size to the exact
  number it stands for, so that an accepted estimate is shown to be the exact sum.
\<close>

section \<open>Data\<close>

abbreviation LMB_PLAN_LAYER_MAX :: nat where "LMB_PLAN_LAYER_MAX \<equiv> 512"

record lmb_layer_memory =
  lm_resident_bytes :: u64
  lm_state_fixed_bytes :: u64
  lm_state_token_bytes :: u64
  lm_state_context_limit :: u32

record lmb_model_shape =
  ms_model_type :: bytes
  ms_segment_id :: bytes
  ms_layers :: u32
  ms_hidden :: u32
  ms_intermediate :: u32
  ms_moe_intermediate :: u32
  ms_experts :: u32
  ms_experts_per_tok :: u32
  ms_heads :: u32
  ms_kv_heads :: u32
  ms_vocab :: u32
  ms_bits_per_weight :: u32
  ms_disk_streaming :: bool
  ms_sizing_verified :: bool
  ms_memory_contract :: u32
  ms_max_context :: u32
  ms_boundary_width :: u32
  ms_edge_resident_bytes :: u64
  ms_edge_scratch_fixed_bytes :: u64
  ms_segment_fixed_bytes :: u64
  ms_session_fixed_bytes :: u64
  ms_session_token_bytes :: u64
  ms_scratch_fixed_bytes :: u64
  ms_scratch_token_bytes :: u64
  ms_memory :: "lmb_layer_memory list"

record lmb_range_cost =
  rc_resident_bytes :: u64
  rc_working_set_bytes :: u64
  rc_state_bytes :: u64
  rc_scratch_bytes :: u64
  rc_ok :: bool

definition range_cost_zero :: lmb_range_cost where
  "range_cost_zero = \<lparr>rc_resident_bytes = 0, rc_working_set_bytes = 0, rc_state_bytes = 0,
     rc_scratch_bytes = 0, rc_ok = False\<rparr>"

datatype lmb_plan_state = LMB_PLAN_RESIDENT | LMB_PLAN_DISK | LMB_PLAN_UNRUNNABLE

section \<open>Sizes\<close>

definition lmb_size_add :: "u64 \<Rightarrow> u64 \<Rightarrow> u64" where
  "lmb_size_add a b = (if UINT64_MAX - a < b then UINT64_MAX else a + b)"

definition lmb_size_mul :: "u64 \<Rightarrow> u64 \<Rightarrow> u64" where
  "lmb_size_mul a b =
     (if a = UINT64_MAX \<or> b = UINT64_MAX then UINT64_MAX
      else if b \<noteq> 0 \<and> a > UINT64_MAX div b then UINT64_MAX else a * b)"

definition lmb_weight_bytes :: "u64 \<Rightarrow> u32 \<Rightarrow> u64" where
  "lmb_weight_bytes elements bits =
     (let bits = (if bits = 0 then 16 else bits) in
      if elements = UINT64_MAX then UINT64_MAX
      else let tail = (elements mod 8) * ucast bits;
               raw = lmb_size_add (lmb_size_mul (elements div 8) (ucast bits))
                       (tail div 8 + (if tail mod 8 \<noteq> 0 then 1 else 0))
           in if bits < 8 then lmb_size_add raw (raw div 5) else raw)"

definition lmb_expert_bytes_of :: "lmb_model_shape \<Rightarrow> u64" where
  "lmb_expert_bytes_of m =
     (if ms_experts m = 0 \<or> ms_moe_intermediate m = 0 then 0
      else lmb_weight_bytes (lmb_size_mul (ucast (ms_hidden m) * ucast (ms_moe_intermediate m)) 3)
             (ms_bits_per_weight m))"

definition shape_head_dim :: "lmb_model_shape \<Rightarrow> u64" where
  "shape_head_dim m = (if ms_heads m \<noteq> 0 then ucast (ms_hidden m) div ucast (ms_heads m) else 0)"

definition lmb_dense_layer_bytes :: "lmb_model_shape \<Rightarrow> u64" where
  "lmb_dense_layer_bytes m =
     (let head_dim = shape_head_dim m;
          kv = (if ms_kv_heads m \<noteq> 0 then ucast (ms_kv_heads m) * head_dim else ucast (ms_hidden m));
          attn = lmb_size_add (lmb_size_mul (ucast (ms_hidden m) * ucast (ms_hidden m)) 2)
                   (lmb_size_mul (lmb_size_mul (ucast (ms_hidden m)) kv) 2);
          ffn = (if ms_experts m \<noteq> 0 then 0
                 else lmb_size_mul (ucast (ms_hidden m) * ucast (ms_intermediate m)) 3)
      in lmb_weight_bytes (lmb_size_add attn ffn) (ms_bits_per_weight m))"

definition lmb_edge_bytes :: "lmb_model_shape \<Rightarrow> u64" where
  "lmb_edge_bytes m =
     (if ms_vocab m = 0 \<or> ms_hidden m = 0 then 0
      else lmb_weight_bytes (lmb_size_mul (ucast (ms_vocab m) * ucast (ms_hidden m)) 2)
             (ms_bits_per_weight m))"

text \<open>\<open>x ? x : d\<close> on 32-bit values, widened.\<close>

definition or_default :: "u32 \<Rightarrow> u32 \<Rightarrow> u32" where
  "or_default x d = (if x \<noteq> 0 then x else d)"

definition lmb_kv_bytes :: "lmb_model_shape \<Rightarrow> u32 \<Rightarrow> u32 \<Rightarrow> u32 \<Rightarrow> u64" where
  "lmb_kv_bytes m layers ctx sessions =
     (let head_dim = shape_head_dim m;
          per_tok = (if ms_kv_heads m \<noteq> 0 then lmb_size_mul (ucast (ms_kv_heads m) * head_dim) 2
                     else ucast (ms_hidden m) * 2)
      in lmb_size_mul (lmb_size_mul (lmb_size_mul (lmb_size_mul per_tok (ucast ctx)) (ucast layers))
           (ucast (or_default sessions 1))) 4)"

section \<open>Estimates\<close>

text \<open>The loop over the layers of an explicit memory contract.\<close>

definition layer_rows :: "lmb_layer_memory \<Rightarrow> u32 \<Rightarrow> u32" where
  "layer_rows l ctx =
     (if lm_state_context_limit l \<noteq> 0 \<and> ctx > lm_state_context_limit l
      then lm_state_context_limit l else ctx)"

definition layer_add :: "u32 \<Rightarrow> lmb_layer_memory \<Rightarrow> u64 \<times> u64 \<Rightarrow> u64 \<times> u64" where
  "layer_add ctx l st =
     (lmb_size_add (fst st) (lm_resident_bytes l),
      lmb_size_add (snd st) (lmb_size_add (lm_state_fixed_bytes l)
        (lmb_size_mul (lm_state_token_bytes l) (ucast (layer_rows l ctx)))))"

definition shape_range :: "lmb_model_shape \<Rightarrow> u32 \<Rightarrow> u32 \<Rightarrow> lmb_layer_memory list" where
  "shape_range m b e = take (unat e - unat b) (drop (unat b) (ms_memory m))"

definition estimate_contract :: "lmb_model_shape \<Rightarrow> u32 \<Rightarrow> u32 \<Rightarrow> u32 \<Rightarrow> u32 \<Rightarrow> lmb_range_cost" where
  "estimate_contract m b e ctx sessions =
     (let ctx = or_default ctx 4096 in
      if ms_memory_contract m \<noteq> 1 \<or> unat (ms_layers m) > LMB_PLAN_LAYER_MAX \<or>
         ms_max_context m = 0 \<or> ctx > ms_max_context m then range_cost_zero
      else let start = (ms_segment_fixed_bytes m,
                        lmb_size_add (ms_session_fixed_bytes m)
                          (lmb_size_mul (ms_session_token_bytes m) (ucast ctx)));
               (resident, state) = fold (layer_add ctx) (shape_range m b e) start;
               state = lmb_size_mul state (ucast (or_default sessions 1));
               scratch = lmb_size_add (ms_scratch_fixed_bytes m)
                           (lmb_size_mul (ms_scratch_token_bytes m) (ucast ctx))
           in \<lparr>rc_resident_bytes = resident, rc_working_set_bytes = resident, rc_state_bytes = state,
               rc_scratch_bytes = scratch,
               rc_ok = lmb_size_add resident (lmb_size_add state scratch) \<noteq> UINT64_MAX\<rparr>)"

definition estimate_history :: "lmb_model_shape \<Rightarrow> u32 \<Rightarrow> u32 \<Rightarrow> u32 \<Rightarrow> lmb_range_cost" where
  "estimate_history m n ctx sessions =
     (let dense = lmb_size_mul (lmb_dense_layer_bytes m) (ucast n);
          expert = lmb_expert_bytes_of m;
          all_experts = lmb_size_mul (lmb_size_mul expert (ucast (ms_experts m))) (ucast n);
          topk = or_default (ms_experts_per_tok m) 1;
          topk = (if topk > ms_experts m \<and> ms_experts m \<noteq> 0 then ms_experts m else topk);
          floor_experts = lmb_size_mul (lmb_size_mul expert (ucast topk)) (ucast n);
          state = lmb_kv_bytes m n (or_default ctx 4096) sessions;
          widest = (if ms_experts m \<noteq> 0 then ms_moe_intermediate m else ms_intermediate m);
          scratch = ucast widest * 4 * 8;
          resident = lmb_size_add dense all_experts;
          working = lmb_size_add dense floor_experts;
          live = lmb_size_add state scratch
      in \<lparr>rc_resident_bytes = resident, rc_working_set_bytes = working, rc_state_bytes = state,
          rc_scratch_bytes = scratch,
          rc_ok = (lmb_size_add resident live \<noteq> UINT64_MAX \<and> lmb_size_add working live \<noteq> UINT64_MAX)\<rparr>)"

definition lmb_estimate_segment :: "lmb_model_shape \<Rightarrow> u32 \<Rightarrow> u32 \<Rightarrow> u32 \<Rightarrow> u32 \<Rightarrow> lmb_range_cost" where
  "lmb_estimate_segment m b e ctx sessions =
     (if \<not> ms_sizing_verified m \<or> ms_layers m = 0 \<or> b \<ge> e \<or> e > ms_layers m \<or> ms_hidden m = 0
      then range_cost_zero
      else if ms_memory_contract m \<noteq> 0 then estimate_contract m b e ctx sessions
      else estimate_history m (e - b) ctx sessions)"

definition lmb_estimate_edge :: "lmb_model_shape \<Rightarrow> u32 \<Rightarrow> u32 \<Rightarrow> lmb_range_cost" where
  "lmb_estimate_edge m context_tokens sessions =
     (if \<not> ms_sizing_verified m \<or> ms_vocab m = 0 \<or> ms_hidden m = 0 then range_cost_zero
      else if ms_memory_contract m \<noteq> 0 then
        (let ctx = or_default context_tokens 4096 in
         if ms_memory_contract m \<noteq> 1 \<or> ms_max_context m = 0 \<or> ctx > ms_max_context m then range_cost_zero
         else let resident = ms_edge_resident_bytes m;
                  width = or_default (ms_boundary_width m) (ms_hidden m);
                  state = lmb_size_mul (lmb_size_mul (ucast ctx * ucast width) 4) (ucast (or_default sessions 1));
                  scratch = lmb_size_add (ms_edge_scratch_fixed_bytes m) (lmb_size_mul (ucast (ms_vocab m)) 16)
              in \<lparr>rc_resident_bytes = resident, rc_working_set_bytes = resident, rc_state_bytes = state,
                  rc_scratch_bytes = scratch,
                  rc_ok = lmb_size_add resident (lmb_size_add state scratch) \<noteq> UINT64_MAX\<rparr>)
      else
        (let resident = lmb_edge_bytes m;
             state = lmb_size_mul (lmb_size_mul (ucast (or_default context_tokens 4096) * ucast (ms_hidden m)) 4)
                       (ucast (or_default sessions 1))
         in \<lparr>rc_resident_bytes = resident, rc_working_set_bytes = resident, rc_state_bytes = state,
             rc_scratch_bytes = 0, rc_ok = lmb_size_add resident state \<noteq> UINT64_MAX\<rparr>))"

definition lmb_plan_state_of :: "lmb_model_shape \<Rightarrow> lmb_range_cost \<Rightarrow> u64 \<Rightarrow> lmb_plan_state" where
  "lmb_plan_state_of m cost budget_bytes =
     (if \<not> rc_ok cost then LMB_PLAN_UNRUNNABLE
      else let live = lmb_size_add (rc_state_bytes cost) (rc_scratch_bytes cost);
               resident = lmb_size_add (rc_resident_bytes cost) live;
               working = lmb_size_add (rc_working_set_bytes cost) live
           in if resident \<noteq> UINT64_MAX \<and> resident \<le> budget_bytes then LMB_PLAN_RESIDENT
              else if ms_disk_streaming m \<and> working \<noteq> UINT64_MAX \<and> working \<le> budget_bytes then LMB_PLAN_DISK
              else LMB_PLAN_UNRUNNABLE)"

section \<open>Exactness\<close>

text \<open>A size stands for a number: it is that number, or the sentinel.\<close>

definition rep :: "u64 \<Rightarrow> nat \<Rightarrow> bool" where
  "rep v n \<longleftrightarrow> v = UINT64_MAX \<or> unat v = n"

named_theorems rep_intros "exactness of saturating sizes"

lemma rep_unat [rep_intros]: "rep v (unat v)"
  by (simp add: rep_def)

lemma repD: "rep v n \<Longrightarrow> v \<noteq> UINT64_MAX \<Longrightarrow> unat v = n"
  by (simp add: rep_def)

lemma size_add_exact:
  "lmb_size_add a b \<noteq> UINT64_MAX \<Longrightarrow> a \<noteq> UINT64_MAX \<and> b \<noteq> UINT64_MAX \<and>
     unat (lmb_size_add a b) = unat a + unat b"
proof -
  assume ne: "lmb_size_add a b \<noteq> UINT64_MAX"
  have le: "\<not> UINT64_MAX - a < b" using ne by (auto simp: lmb_size_add_def)
  have "unat (UINT64_MAX - a) = 2 ^ 64 - 1 - unat a"
    by (subst unat_sub) (simp_all only: word_order.extremum unat_UINT_MAX)
  then have s: "unat a + unat b < 2 ^ 64"
    using le unat_u64_less [of a] by (simp add: word_less_nat_alt)
  then have u: "unat (lmb_size_add a b) = unat a + unat b"
    using le by (simp add: lmb_size_add_def unat_word_ariths)
  moreover have "unat (lmb_size_add a b) \<noteq> unat UINT64_MAX"
    using ne by (metis word_unat_eq_iff)
  ultimately show ?thesis using s by auto
qed

lemma size_mul_exact:
  "lmb_size_mul a b \<noteq> UINT64_MAX \<Longrightarrow> a \<noteq> UINT64_MAX \<and> b \<noteq> UINT64_MAX \<and>
     unat (lmb_size_mul a b) = unat a * unat b"
proof -
  assume ne: "lmb_size_mul a b \<noteq> UINT64_MAX"
  then have c: "a \<noteq> UINT64_MAX" "b \<noteq> UINT64_MAX" "\<not> (b \<noteq> 0 \<and> a > UINT64_MAX div b)"
    by (auto simp: lmb_size_mul_def split: if_splits)
  have "unat a * unat b \<le> 2 ^ 64 - 1"
  proof (cases "b = 0")
    case False
    with c(3) have "unat a \<le> (2 ^ 64 - 1) div unat b"
      by (simp only: word_less_nat_alt unat_div unat_UINT_MAX) simp
    then have "unat a * unat b \<le> (2 ^ 64 - 1) div unat b * unat b" by (rule mult_le_mono1)
    also have "\<dots> \<le> 2 ^ 64 - 1" by (rule div_times_less_eq_dividend)
    finally show ?thesis .
  qed simp
  then have "unat (a * b) = unat a * unat b" by (simp add: unat_word_ariths)
  with c show ?thesis by (auto simp: lmb_size_mul_def)
qed

lemma rep_add [rep_intros]: "rep a m \<Longrightarrow> rep b n \<Longrightarrow> rep (lmb_size_add a b) (m + n)"
  using size_add_exact [of a b] by (auto simp: rep_def)

lemma rep_mul [rep_intros]: "rep a m \<Longrightarrow> rep b n \<Longrightarrow> rep (lmb_size_mul a b) (m * n)"
  using size_mul_exact [of a b] by (auto simp: rep_def)

lemma rep_0 [rep_intros]: "rep 0 0" and rep_1: "rep 1 1"
  by (simp_all add: rep_def)

lemma rep_ucast [rep_intros]: "rep (ucast (x :: u32)) (unat x)"
  by (simp add: rep_def)

lemma rep_numeral [rep_intros]: "rep 2 2" "rep 3 3" "rep 4 4" "rep 5 5" "rep 16 16"
  by (simp_all add: rep_def)

lemma rep_div [rep_intros]: "rep a m \<Longrightarrow> a \<noteq> UINT64_MAX \<Longrightarrow> rep (a div d) (m div unat d)"
  by (auto simp: rep_def unat_div)

lemma unat_mult_u32:
  fixes x y :: u32
  shows "unat (ucast x * ucast y :: u64) = unat x * unat y"
proof -
  have "unat x * unat y \<le> 4294967295 * 4294967295"
    using unat_u32_less [of x] unat_u32_less [of y] by (intro mult_le_mono) simp_all
  then show ?thesis by (simp add: unat_word_ariths)
qed

lemma rep_mult_u32 [rep_intros]: "rep (ucast (x :: u32) * ucast (y :: u32)) (unat x * unat y)"
  by (simp add: rep_def unat_mult_u32)

section \<open>The exact formulas\<close>

definition weight_bytes :: "nat \<Rightarrow> nat \<Rightarrow> nat" where
  "weight_bytes elements bits =
     (let bits = (if bits = 0 then 16 else bits); raw = (elements * bits + 7) div 8
      in if bits < 8 then raw + raw div 5 else raw)"

lemma ceil_split: "(e * b + 7) div 8 = (e div 8) * b + ((e mod 8) * b div 8 + (if (e mod 8) * b mod 8 \<noteq> 0 then 1 else 0))"
  for e b :: nat
proof -
  have "e * b = 8 * ((e div 8) * b) + (e mod 8) * b"
    by (metis add_mult_distrib mult.assoc mult_div_mod_eq)
  then have "(e * b + 7) div 8 = (e div 8) * b + ((e mod 8) * b + 7) div 8"
    by (metis (no_types, lifting) add.assoc div_mult_self4 zero_neq_numeral)
  moreover have "(t + 7) div 8 = t div 8 + (if t mod 8 \<noteq> 0 then 1 else 0)" for t :: nat
    by presburger
  ultimately show ?thesis by simp
qed

lemma unat_numeral_8: "unat (8 :: u64) = 8"
  by simp

lemma rep_weight [rep_intros]:
  assumes "rep e n"
  shows "rep (lmb_weight_bytes e bits) (weight_bytes n (unat bits))"
proof (cases "e = UINT64_MAX")
  case True
  then show ?thesis by (simp add: lmb_weight_bytes_def rep_def Let_def)
next
  case False
  then have e: "unat e = n" using assms by (rule repD [rotated])
  define bb :: u32 where "bb = (if bits = 0 then 16 else bits)"
  let ?t = "(e mod 8) * ucast bb"
  have nb: "unat bb = (if unat bits = 0 then 16 else unat bits)" by (simp add: bb_def unat_eq_0)
  have "unat (e mod 8) \<le> 7" by (simp add: unat_mod)
  then have "unat (e mod 8) * unat bb < 2 ^ 64"
    using unat_u32_less [of bb] mult_le_mono [of "unat (e mod 8)" 7 "unat bb" 4294967296] by simp
  then have t: "unat ?t = (n mod 8) * unat bb"
    using e by (simp add: unat_word_ariths unat_mod)
  have t8: "?t mod 8 \<noteq> 0 \<longleftrightarrow> ((n mod 8) * unat bb) mod 8 \<noteq> 0"
  proof -
    have "unat (?t mod 8) = ((n mod 8) * unat bb) mod 8" by (simp only: unat_mod unat_numeral_8 t)
    moreover have "unat (?t mod 8) = 0 \<longleftrightarrow> ?t mod 8 = 0" by (rule unat_eq_0)
    ultimately show ?thesis by (simp only:)
  qed
  have lt: "unat ?t div 8 + 1 < 2 ^ 64" using unat_u64_less [of ?t] by simp
  have tail: "unat (?t div 8 + (if ?t mod 8 \<noteq> 0 then 1 else 0)) =
      (n mod 8) * unat bb div 8 + (if (n mod 8) * unat bb mod 8 \<noteq> 0 then 1 else 0)"
    using lt t t8 by (simp add: unat_word_ariths unat_div)
  have raw: "rep (lmb_size_add (lmb_size_mul (e div 8) (ucast bb)) (?t div 8 + (if ?t mod 8 \<noteq> 0 then 1 else 0)))
      ((n * unat bb + 7) div 8)" (is "rep ?raw _")
    unfolding ceil_split tail [symmetric]
    using e by (intro rep_intros) (simp add: rep_def unat_div)
  have five: "rep (lmb_size_add ?raw (?raw div 5)) ((n * unat bb + 7) div 8 + (n * unat bb + 7) div 8 div 5)"
  proof (cases "?raw = UINT64_MAX")
    case True
    then show ?thesis by (simp only: lmb_size_add_def rep_def) simp
  next
    case False
    with raw show ?thesis using rep_add [OF raw rep_div [OF raw False, of 5]] by simp
  qed
  have l: "lmb_weight_bytes e bits = (if bb < 8 then lmb_size_add ?raw (?raw div 5) else ?raw)"
    using False by (simp add: lmb_weight_bytes_def Let_def bb_def)
  have w: "weight_bytes n (unat bits) =
      (if bb < 8 then (n * unat bb + 7) div 8 + (n * unat bb + 7) div 8 div 5 else (n * unat bb + 7) div 8)"
    using nb by (simp add: weight_bytes_def Let_def word_less_nat_alt)
  show ?thesis unfolding l w using raw five by (simp only: split: if_split) simp
qed

text \<open>The four sizes of a range as numbers.\<close>

record range_need =
  rn_resident :: nat
  rn_working :: nat
  rn_state :: nat
  rn_scratch :: nat

definition nat_default :: "u32 \<Rightarrow> nat \<Rightarrow> nat" where
  "nat_default x d = (if x \<noteq> 0 then unat x else d)"

definition head_dim :: "lmb_model_shape \<Rightarrow> nat" where
  "head_dim m = (if ms_heads m \<noteq> 0 then unat (ms_hidden m) div unat (ms_heads m) else 0)"

definition dense_layer :: "lmb_model_shape \<Rightarrow> nat" where
  "dense_layer m =
     (let h = unat (ms_hidden m);
          kv = (if ms_kv_heads m \<noteq> 0 then unat (ms_kv_heads m) * head_dim m else h)
      in weight_bytes (h * h * 2 + h * kv * 2 + (if ms_experts m \<noteq> 0 then 0 else h * unat (ms_intermediate m) * 3))
           (unat (ms_bits_per_weight m)))"

definition expert_size :: "lmb_model_shape \<Rightarrow> nat" where
  "expert_size m =
     (if ms_experts m = 0 \<or> ms_moe_intermediate m = 0 then 0
      else weight_bytes (unat (ms_hidden m) * unat (ms_moe_intermediate m) * 3) (unat (ms_bits_per_weight m)))"

definition topk :: "lmb_model_shape \<Rightarrow> nat" where
  "topk m = (let k = nat_default (ms_experts_per_tok m) 1 in
     if k > unat (ms_experts m) \<and> ms_experts m \<noteq> 0 then unat (ms_experts m) else k)"

definition kv_per_token :: "lmb_model_shape \<Rightarrow> nat" where
  "kv_per_token m = (if ms_kv_heads m \<noteq> 0 then unat (ms_kv_heads m) * head_dim m * 2 else unat (ms_hidden m) * 2)"

definition history_need :: "lmb_model_shape \<Rightarrow> nat \<Rightarrow> u32 \<Rightarrow> u32 \<Rightarrow> range_need" where
  "history_need m n ctx sessions =
     \<lparr>rn_resident = dense_layer m * n + expert_size m * unat (ms_experts m) * n,
      rn_working = dense_layer m * n + expert_size m * topk m * n,
      rn_state = kv_per_token m * nat_default ctx 4096 * n * nat_default sessions 1 * 4,
      rn_scratch = unat (if ms_experts m \<noteq> 0 then ms_moe_intermediate m else ms_intermediate m) * 32\<rparr>"

definition contract_need :: "lmb_model_shape \<Rightarrow> u32 \<Rightarrow> u32 \<Rightarrow> u32 \<Rightarrow> u32 \<Rightarrow> range_need" where
  "contract_need m b e ctx sessions =
     (let ctx = or_default ctx 4096;
          resident = unat (ms_segment_fixed_bytes m) + (\<Sum>l\<leftarrow>shape_range m b e. unat (lm_resident_bytes l));
          state = unat (ms_session_fixed_bytes m) + unat (ms_session_token_bytes m) * unat ctx +
            (\<Sum>l\<leftarrow>shape_range m b e. unat (lm_state_fixed_bytes l) +
               unat (lm_state_token_bytes l) * unat (layer_rows l ctx))
      in \<lparr>rn_resident = resident, rn_working = resident, rn_state = state * nat_default sessions 1,
          rn_scratch = unat (ms_scratch_fixed_bytes m) + unat (ms_scratch_token_bytes m) * unat ctx\<rparr>)"

definition segment_need :: "lmb_model_shape \<Rightarrow> u32 \<Rightarrow> u32 \<Rightarrow> u32 \<Rightarrow> u32 \<Rightarrow> range_need" where
  "segment_need m b e ctx sessions =
     (if ms_memory_contract m \<noteq> 0 then contract_need m b e ctx sessions
      else history_need m (unat e - unat b) ctx sessions)"

text \<open>An accepted cost is the exact need, and its sums do not wrap.\<close>

definition cost_exact :: "lmb_range_cost \<Rightarrow> range_need \<Rightarrow> bool" where
  "cost_exact c r \<longleftrightarrow> unat (rc_resident_bytes c) = rn_resident r \<and>
     unat (rc_working_set_bytes c) = rn_working r \<and> unat (rc_state_bytes c) = rn_state r \<and>
     unat (rc_scratch_bytes c) = rn_scratch r \<and>
     rn_resident r + rn_state r + rn_scratch r < 2 ^ 64 - 1 \<and>
     rn_working r + rn_state r + rn_scratch r < 2 ^ 64 - 1"

lemma unat_less_max: "v \<noteq> UINT64_MAX \<Longrightarrow> unat v < 2 ^ 64 - 1"
proof -
  assume "v \<noteq> UINT64_MAX"
  then have "unat v \<noteq> unat UINT64_MAX" by (metis word_unat_eq_iff)
  then show ?thesis using unat_u64_less [of v] by simp
qed

lemma sum_exact:
  assumes "lmb_size_add r (lmb_size_add s t) \<noteq> UINT64_MAX" "rep r nr" "rep s ns" "rep t nt"
  shows "unat r = nr \<and> unat s = ns \<and> unat t = nt \<and> nr + ns + nt < 2 ^ 64 - 1"
proof -
  note a = size_add_exact [OF assms(1)]
  note b = size_add_exact [OF conjunct1 [OF conjunct2 [OF a]]]
  have "unat r = nr" "unat s = ns" "unat t = nt" using a b assms(2-4) by (simp_all add: repD)
  with a b unat_less_max [OF assms(1)] show ?thesis by (simp only:) simp
qed

lemma rep_default [rep_intros]: "rep (ucast (or_default x d)) (nat_default x (unat d))"
  by (simp add: rep_def or_default_def nat_default_def)

lemma rep_head_dim: "unat (shape_head_dim m) = head_dim m"
  by (simp add: shape_head_dim_def head_dim_def unat_div)

lemma head_dim_less: "head_dim m < 4294967296"
  using unat_u32_less [of "ms_hidden m"] by (auto simp: head_dim_def intro: le_less_trans [OF div_le_dividend])

lemma rep_kv_heads [rep_intros]: "rep (ucast (k :: u32) * shape_head_dim m) (unat k * head_dim m)"
proof -
  have "unat k * head_dim m \<le> 4294967295 * 4294967295"
    using unat_u32_less [of k] head_dim_less [of m] by (intro mult_le_mono) simp_all
  then show ?thesis by (simp add: rep_def unat_word_ariths rep_head_dim)
qed

lemma rep_if [rep_intros]: "(c \<Longrightarrow> rep a m) \<Longrightarrow> (\<not> c \<Longrightarrow> rep b n) \<Longrightarrow> rep (if c then a else b) (if c then m else n)"
  by simp

lemma rep_dense [rep_intros]: "rep (lmb_dense_layer_bytes m) (dense_layer m)"
  unfolding lmb_dense_layer_bytes_def dense_layer_def Let_def by (intro rep_intros)

lemma rep_expert [rep_intros]: "rep (lmb_expert_bytes_of m) (expert_size m)"
  unfolding lmb_expert_bytes_of_def expert_size_def by (intro rep_intros)

lemma rep_kv [rep_intros]:
  "rep (lmb_kv_bytes m n ctx sessions)
     (kv_per_token m * unat ctx * unat n * nat_default sessions 1 * 4)"
proof -
  have two: "unat (ucast (ms_hidden m) * 2 :: u64) = unat (ms_hidden m) * 2"
    using unat_u32_less [of "ms_hidden m"] by (simp add: unat_word_ariths)
  have d: "rep (ucast (or_default sessions 1)) (nat_default sessions 1)"
    using rep_default [of sessions 1] by simp
  show ?thesis
    unfolding lmb_kv_bytes_def kv_per_token_def Let_def
    by (intro rep_intros d) (simp add: rep_def two)
qed

lemma layers_exact:
  assumes "rep r nr" "rep s ns"
  shows "rep (fst (fold (layer_add ctx) ls (r, s))) (nr + (\<Sum>l\<leftarrow>ls. unat (lm_resident_bytes l))) \<and>
    rep (snd (fold (layer_add ctx) ls (r, s)))
      (ns + (\<Sum>l\<leftarrow>ls. unat (lm_state_fixed_bytes l) + unat (lm_state_token_bytes l) * unat (layer_rows l ctx)))"
  using assms
proof (induction ls arbitrary: r s nr ns)
  case Nil
  then show ?case by simp
next
  case (Cons l ls)
  have "rep (lmb_size_add r (lm_resident_bytes l)) (nr + unat (lm_resident_bytes l))"
    "rep (lmb_size_add s (lmb_size_add (lm_state_fixed_bytes l) (lmb_size_mul (lm_state_token_bytes l) (ucast (layer_rows l ctx)))))
      (ns + (unat (lm_state_fixed_bytes l) + unat (lm_state_token_bytes l) * unat (layer_rows l ctx)))"
    using Cons.prems by (auto intro!: rep_intros)
  from Cons.IH [OF this] show ?case by (simp add: layer_add_def add.assoc)
qed

lemma contract_exact:
  assumes "rc_ok (estimate_contract m b e ctx sessions)"
  shows "cost_exact (estimate_contract m b e ctx sessions) (contract_need m b e ctx sessions)"
proof -
  let ?ctx = "or_default ctx 4096"
  let ?r0 = "ms_segment_fixed_bytes m"
  let ?s0 = "lmb_size_add (ms_session_fixed_bytes m) (lmb_size_mul (ms_session_token_bytes m) (ucast ?ctx))"
  obtain r s where f: "fold (layer_add ?ctx) (shape_range m b e) (?r0, ?s0) = (r, s)" by fastforce
  let ?st = "lmb_size_mul s (ucast (or_default sessions 1))"
  let ?sc = "lmb_size_add (ms_scratch_fixed_bytes m) (lmb_size_mul (ms_scratch_token_bytes m) (ucast ?ctx))"
  have g: "\<not> (ms_memory_contract m \<noteq> 1 \<or> unat (ms_layers m) > LMB_PLAN_LAYER_MAX \<or>
      ms_max_context m = 0 \<or> ?ctx > ms_max_context m)"
    using assms by (simp add: estimate_contract_def range_cost_zero_def Let_def split: if_split_asm)
  have c: "estimate_contract m b e ctx sessions =
      \<lparr>rc_resident_bytes = r, rc_working_set_bytes = r, rc_state_bytes = ?st, rc_scratch_bytes = ?sc,
       rc_ok = lmb_size_add r (lmb_size_add ?st ?sc) \<noteq> UINT64_MAX\<rparr>"
    unfolding estimate_contract_def Let_def if_not_P [OF g] f prod.case by (rule refl)
  have ok: "lmb_size_add r (lmb_size_add ?st ?sc) \<noteq> UINT64_MAX"
    using assms by (simp add: c)
  have s0: "rep ?s0 (unat (ms_session_fixed_bytes m) + unat (ms_session_token_bytes m) * unat ?ctx)"
    by (intro rep_intros)
  have "rep ?r0 (unat ?r0)" by (rule rep_unat)
  note L = layers_exact [OF this s0, of ?ctx "shape_range m b e", unfolded f fst_conv snd_conv]
  have d: "rep (ucast (or_default sessions 1)) (nat_default sessions 1)"
    using rep_default [of sessions 1] by simp
  have sc: "rep ?sc (unat (ms_scratch_fixed_bytes m) + unat (ms_scratch_token_bytes m) * unat ?ctx)"
    by (intro rep_intros)
  show ?thesis
    using sum_exact [OF ok conjunct1 [OF L] rep_mul [OF conjunct2 [OF L] d] sc]
    unfolding c cost_exact_def contract_need_def Let_def by simp
qed

lemma history_exact:
  assumes "rc_ok (estimate_history m n ctx sessions)"
  shows "cost_exact (estimate_history m n ctx sessions) (history_need m (unat n) ctx sessions)"
proof -
  let ?d = "lmb_size_mul (lmb_dense_layer_bytes m) (ucast n)"
  let ?x = "lmb_expert_bytes_of m"
  let ?k = "if or_default (ms_experts_per_tok m) 1 > ms_experts m \<and> ms_experts m \<noteq> 0 then ms_experts m
            else or_default (ms_experts_per_tok m) 1"
  let ?r = "lmb_size_add ?d (lmb_size_mul (lmb_size_mul ?x (ucast (ms_experts m))) (ucast n))"
  let ?w = "lmb_size_add ?d (lmb_size_mul (lmb_size_mul ?x (ucast ?k)) (ucast n))"
  let ?s = "lmb_kv_bytes m n (or_default ctx 4096) sessions"
  let ?c = "ucast (if ms_experts m \<noteq> 0 then ms_moe_intermediate m else ms_intermediate m) * 4 * 8 :: u64"
  have c: "estimate_history m n ctx sessions =
      \<lparr>rc_resident_bytes = ?r, rc_working_set_bytes = ?w, rc_state_bytes = ?s, rc_scratch_bytes = ?c,
       rc_ok = (lmb_size_add ?r (lmb_size_add ?s ?c) \<noteq> UINT64_MAX \<and> lmb_size_add ?w (lmb_size_add ?s ?c) \<noteq> UINT64_MAX)\<rparr>"
    unfolding estimate_history_def Let_def by (rule refl)
  have ok: "lmb_size_add ?r (lmb_size_add ?s ?c) \<noteq> UINT64_MAX" "lmb_size_add ?w (lmb_size_add ?s ?c) \<noteq> UINT64_MAX"
    using assms unfolding c by simp_all
  have k: "unat ?k = topk m"
    by (simp add: topk_def nat_default_def or_default_def word_less_nat_alt Let_def)
  have r: "rep ?r (dense_layer m * unat n + expert_size m * unat (ms_experts m) * unat n)"
    by (intro rep_intros)
  have w: "rep ?w (dense_layer m * unat n + expert_size m * topk m * unat n)"
    unfolding k [symmetric] by (intro rep_intros)
  have s: "rep ?s (kv_per_token m * nat_default ctx 4096 * unat n * nat_default sessions 1 * 4)"
    using rep_kv [of m n "or_default ctx 4096" sessions] by (simp add: or_default_def nat_default_def split: if_splits)
  let ?wd = "if ms_experts m \<noteq> 0 then ms_moe_intermediate m else ms_intermediate m"
  have q: "rep ?c (unat ?wd * 32)"
    using unat_u32_less [of ?wd] unfolding rep_def by (simp add: unat_word_ariths)
  show ?thesis
    using sum_exact [OF ok(1) r s q] sum_exact [OF ok(2) w s q]
    unfolding c cost_exact_def history_need_def by simp
qed

lemma segment_exact:
  assumes "rc_ok (lmb_estimate_segment m b e ctx sessions)"
  shows "cost_exact (lmb_estimate_segment m b e ctx sessions) (segment_need m b e ctx sessions) \<and>
    b < e \<and> e \<le> ms_layers m \<and> ms_sizing_verified m"
proof -
  have g: "\<not> (\<not> ms_sizing_verified m \<or> ms_layers m = 0 \<or> b \<ge> e \<or> e > ms_layers m \<or> ms_hidden m = 0)"
    using assms by (simp add: lmb_estimate_segment_def range_cost_zero_def split: if_split_asm)
  have u: "unat (e - b) = unat e - unat b" using g by (intro unat_sub) (simp add: not_le less_imp_le)
  show ?thesis
    using assms contract_exact [of m b e ctx sessions] history_exact [of m "e - b" ctx sessions] g
    unfolding lmb_estimate_segment_def segment_need_def if_not_P [OF g] u
    by (cases "ms_memory_contract m = 0") (simp_all add: not_le not_less)
qed

section \<open>Edge and the fit decision\<close>

definition edge_need :: "lmb_model_shape \<Rightarrow> u32 \<Rightarrow> u32 \<Rightarrow> range_need" where
  "edge_need m ctx sessions =
     (let c = nat_default ctx 4096; k = nat_default sessions 1 in
      if ms_memory_contract m \<noteq> 0
      then \<lparr>rn_resident = unat (ms_edge_resident_bytes m), rn_working = unat (ms_edge_resident_bytes m),
             rn_state = c * nat_default (ms_boundary_width m) (unat (ms_hidden m)) * 4 * k,
             rn_scratch = unat (ms_edge_scratch_fixed_bytes m) + unat (ms_vocab m) * 16\<rparr>
      else let r = weight_bytes (unat (ms_vocab m) * unat (ms_hidden m) * 2) (unat (ms_bits_per_weight m))
        in \<lparr>rn_resident = r, rn_working = r, rn_state = c * unat (ms_hidden m) * 4 * k, rn_scratch = 0\<rparr>)"

lemma or_default_unat: "unat (or_default x d) = nat_default x (unat d)"
  by (simp add: or_default_def nat_default_def)

lemma rep_edge_state:
  fixes w :: u32
  shows "rep (lmb_size_mul (lmb_size_mul (ucast (or_default ctx 4096) * ucast w) 4) (ucast (or_default sessions 1)))
     (nat_default ctx 4096 * unat w * 4 * nat_default sessions 1)"
proof -
  have d: "rep (ucast (or_default sessions 1)) (nat_default sessions 1)"
    using rep_default [of sessions 1] by simp
  have "rep (ucast (or_default ctx 4096) * ucast w) (nat_default ctx 4096 * unat w)"
    using rep_mult_u32 [of "or_default ctx 4096" w] by (simp add: or_default_unat)
  then show ?thesis by (intro rep_intros d)
qed

lemma edge_exact:
  assumes "rc_ok (lmb_estimate_edge m ctx sessions)"
  shows "cost_exact (lmb_estimate_edge m ctx sessions) (edge_need m ctx sessions)"
proof -
  have g: "\<not> (\<not> ms_sizing_verified m \<or> ms_vocab m = 0 \<or> ms_hidden m = 0)"
    using assms by (simp add: lmb_estimate_edge_def range_cost_zero_def split: if_split_asm)
  let ?ctx = "or_default ctx 4096"
  show ?thesis
  proof (cases "ms_memory_contract m \<noteq> 0")
    case True
    let ?w = "or_default (ms_boundary_width m) (ms_hidden m)"
    let ?s = "lmb_size_mul (lmb_size_mul (ucast ?ctx * ucast ?w) 4) (ucast (or_default sessions 1))"
    let ?t = "lmb_size_add (ms_edge_scratch_fixed_bytes m) (lmb_size_mul (ucast (ms_vocab m)) 16)"
    let ?r = "ms_edge_resident_bytes m"
    have h: "\<not> (ms_memory_contract m \<noteq> 1 \<or> ms_max_context m = 0 \<or> ?ctx > ms_max_context m)"
      using assms g True by (simp add: lmb_estimate_edge_def range_cost_zero_def Let_def split: if_split_asm)
    have c: "lmb_estimate_edge m ctx sessions = \<lparr>rc_resident_bytes = ?r, rc_working_set_bytes = ?r,
        rc_state_bytes = ?s, rc_scratch_bytes = ?t, rc_ok = lmb_size_add ?r (lmb_size_add ?s ?t) \<noteq> UINT64_MAX\<rparr>"
      unfolding lmb_estimate_edge_def Let_def if_not_P [OF g] if_P [OF True] if_not_P [OF h] by (rule refl)
    have ok: "lmb_size_add ?r (lmb_size_add ?s ?t) \<noteq> UINT64_MAX" using assms unfolding c by simp
    have s: "rep ?s (nat_default ctx 4096 * nat_default (ms_boundary_width m) (unat (ms_hidden m)) * 4 * nat_default sessions 1)"
      using rep_edge_state [of ctx ?w sessions] by (simp add: or_default_unat)
    have t: "rep ?t (unat (ms_edge_scratch_fixed_bytes m) + unat (ms_vocab m) * 16)"
      by (intro rep_intros)
    show ?thesis
      using sum_exact [OF ok rep_unat s t] True unfolding c cost_exact_def edge_need_def Let_def by simp
  next
    case False
    let ?s = "lmb_size_mul (lmb_size_mul (ucast ?ctx * ucast (ms_hidden m)) 4) (ucast (or_default sessions 1))"
    let ?r = "lmb_edge_bytes m"
    have c: "lmb_estimate_edge m ctx sessions = \<lparr>rc_resident_bytes = ?r, rc_working_set_bytes = ?r,
        rc_state_bytes = ?s, rc_scratch_bytes = 0, rc_ok = lmb_size_add ?r ?s \<noteq> UINT64_MAX\<rparr>"
      unfolding lmb_estimate_edge_def Let_def if_not_P [OF g] if_not_P [OF False] by (rule refl)
    have ok: "lmb_size_add ?r ?s \<noteq> UINT64_MAX" using assms unfolding c by simp
    have z: "lmb_size_add ?s 0 = ?s" by (simp add: lmb_size_add_def)
    have "rep ?r (weight_bytes (unat (ms_vocab m) * unat (ms_hidden m) * 2) (unat (ms_bits_per_weight m)))"
    proof -
      have v: "\<not> (ms_vocab m = 0 \<or> ms_hidden m = 0)" using g by blast
      show ?thesis unfolding lmb_edge_bytes_def if_not_P [OF v] by (intro rep_intros)
    qed
    from sum_exact [OF _ this rep_edge_state rep_0, of ctx "ms_hidden m" sessions] ok False show ?thesis
      unfolding c cost_exact_def edge_need_def Let_def z by simp
  qed
qed

text \<open>What a range needs under each mode.\<close>

definition need_resident :: "range_need \<Rightarrow> nat" where
  "need_resident r = rn_resident r + rn_state r + rn_scratch r"

definition need_working :: "range_need \<Rightarrow> nat" where
  "need_working r = rn_working r + rn_state r + rn_scratch r"

lemma size_add_fits: "unat a + unat b < 2 ^ 64 \<Longrightarrow> unat (lmb_size_add a b) = unat a + unat b"
proof -
  assume s: "unat a + unat b < 2 ^ 64"
  have "unat (UINT64_MAX - a) = 2 ^ 64 - 1 - unat a"
    by (subst unat_sub) (simp_all only: word_order.extremum unat_UINT_MAX)
  then have "\<not> UINT64_MAX - a < b" using s by (simp add: word_less_nat_alt)
  with s show ?thesis by (simp add: lmb_size_add_def unat_word_ariths)
qed

lemma cost_sums:
  assumes "cost_exact c r"
  shows "unat (lmb_size_add (rc_resident_bytes c) (lmb_size_add (rc_state_bytes c) (rc_scratch_bytes c))) = need_resident r"
    "unat (lmb_size_add (rc_working_set_bytes c) (lmb_size_add (rc_state_bytes c) (rc_scratch_bytes c))) = need_working r"
    "need_resident r < 2 ^ 64 - 1" "need_working r < 2 ^ 64 - 1"
  using assms by (simp_all add: cost_exact_def need_resident_def need_working_def size_add_fits)

lemma not_max: "unat v < 2 ^ 64 - 1 \<Longrightarrow> v \<noteq> UINT64_MAX"
  by auto

lemma plan_state_exact:
  assumes "cost_exact c r" "rc_ok c"
  shows "lmb_plan_state_of m c budget =
    (if need_resident r \<le> unat budget then LMB_PLAN_RESIDENT
     else if ms_disk_streaming m \<and> need_working r \<le> unat budget then LMB_PLAN_DISK
     else LMB_PLAN_UNRUNNABLE)"
proof -
  let ?live = "lmb_size_add (rc_state_bytes c) (rc_scratch_bytes c)"
  let ?R = "lmb_size_add (rc_resident_bytes c) ?live" and ?W = "lmb_size_add (rc_working_set_bytes c) ?live"
  note S = cost_sums [OF assms(1)]
  have "?R \<noteq> UINT64_MAX" "?W \<noteq> UINT64_MAX" using S by (simp_all add: not_max)
  then show ?thesis
    using assms(2) unfolding lmb_plan_state_of_def Let_def by (simp add: word_le_nat_alt S)
qed

end
