(* ===== verification/Memory_Budget.thy ===== *)
theory Memory_Budget
  imports Planner
begin

text \<open>
  Admission of a range on one machine: the executable roles a node declares
  (\<^verbatim>\<open>src/planner/lumabri_runtime_roles.h\<close>) and the conservative reservation of
  \<^verbatim>\<open>lumabri_memory_budget.h\<close>, whose arithmetic saturates like the planner's.
\<close>

section \<open>Runtime roles\<close>

record lmb_runtime_roles =
  rr_known :: u32
  rr_segment :: bytes
  rr_edge :: bytes
  rr_hybrid :: bytes

abbreviation comma :: u8 where "comma \<equiv> 44"

definition role_char :: "u8 \<Rightarrow> bool" where
  "role_char b \<longleftrightarrow> (97 \<le> b \<and> b \<le> 122) \<or> (48 \<le> b \<and> b \<le> 57) \<or> b = 95"

fun role_list_scan :: "nat \<Rightarrow> bytes \<Rightarrow> bool" where
  "role_list_scan len [] = (len \<noteq> 0)"
| "role_list_scan len (b # s) =
     (if b = comma then (if len = 0 then False else role_list_scan 0 s)
      else if role_char b then (if len + 1 > 63 then False else role_list_scan (len + 1) s)
      else False)"

definition lmb_runtime_role_list_valid :: "bytes \<Rightarrow> bool" where
  "lmb_runtime_role_list_valid s \<longleftrightarrow> (if s = [] then True else role_list_scan 0 s)"

definition lmb_runtime_roles_valid :: "lmb_runtime_roles \<Rightarrow> bool" where
  "lmb_runtime_roles_valid r \<longleftrightarrow>
     rr_known r \<le> 1 \<and>
     (rr_known r \<noteq> 0 \<or> (c_str (rr_segment r) = [] \<and> c_str (rr_edge r) = [] \<and> c_str (rr_hybrid r) = [])) \<and>
     lmb_runtime_role_list_valid (c_str (rr_segment r)) \<and> lmb_runtime_role_list_valid (c_str (rr_edge r)) \<and>
     lmb_runtime_role_list_valid (c_str (rr_hybrid r))"

text \<open>The loop takes a field up to the next comma, then steps over the comma.\<close>

function role_has_from :: "bytes \<Rightarrow> bytes \<Rightarrow> bool" where
  "role_has_from ident s =
     (if s = [] then False
      else let field = takeWhile (\<lambda>b. b \<noteq> comma) s; rest = dropWhile (\<lambda>b. b \<noteq> comma) s in
        if ident = field then True else role_has_from ident (tl rest))"
  by pat_completeness auto

termination
proof (relation "measure (length \<circ> snd)", simp_all add: Let_def)
  fix s :: bytes
  assume "s \<noteq> []"
  have "length (dropWhile (\<lambda>b. b \<noteq> comma) s) \<le> length s" by (rule length_dropWhile_le)
  with \<open>s \<noteq> []\<close> show "length (dropWhile (\<lambda>b. b \<noteq> comma) s) - Suc 0 < length s"
    by (cases s) (auto intro: le_less_trans)
qed

declare role_has_from.simps [simp del]

definition lmb_runtime_role_has :: "bytes \<Rightarrow> bytes \<Rightarrow> bool" where
  "lmb_runtime_role_has lst ident \<longleftrightarrow> ident \<noteq> [] \<and> role_has_from ident lst"

definition lmb_runtime_role_allows :: "lmb_runtime_roles \<Rightarrow> bytes \<Rightarrow> bool \<Rightarrow> bool \<Rightarrow> bool" where
  "lmb_runtime_role_allows r ident edge hybrid \<longleftrightarrow>
     rr_known r = 0 \<or>
     (lmb_runtime_role_has (c_str (rr_segment r)) ident \<and>
      (\<not> edge \<or> lmb_runtime_role_has (c_str (rr_edge r)) ident) \<and>
      (\<not> hybrid \<or> lmb_runtime_role_has (c_str (rr_hybrid r)) ident))"

text \<open>The reference: the fields of a comma-separated list.\<close>

fun comma_fields :: "bytes \<Rightarrow> bytes list" where
  "comma_fields [] = [[]]"
| "comma_fields (b # s) = (if b = comma then [] # comma_fields s else (b # hd (comma_fields s)) # tl (comma_fields s))"

lemma fields_not_Nil [simp]: "comma_fields s \<noteq> []"
  by (induction s) auto

lemma fields_takeWhile:
  "comma_fields s = takeWhile (\<lambda>b. b \<noteq> comma) s #
     (case dropWhile (\<lambda>b. b \<noteq> comma) s of [] \<Rightarrow> [] | _ # r \<Rightarrow> comma_fields r)"
proof (induction s)
  case (Cons b s)
  then show ?case by (cases "b = comma") (auto split: list.splits)
qed simp

lemma role_has_fields: "ident \<noteq> [] \<Longrightarrow> role_has_from ident s \<longleftrightarrow> ident \<in> set (comma_fields s)"
proof (induction ident s rule: role_has_from.induct)
  case (1 ident s)
  let ?rest = "dropWhile (\<lambda>b. b \<noteq> comma) s" and ?f = "takeWhile (\<lambda>b. b \<noteq> comma) s"
  show ?case
  proof (cases "s = []")
    case True
    then show ?thesis using 1(2) by (simp add: role_has_from.simps)
  next
    case False
    show ?thesis
    proof (cases "ident = ?f")
      case True
      have "role_has_from ident s"
        unfolding role_has_from.simps [of ident s] Let_def if_not_P [OF False] if_P [OF True] by (rule TrueI)
      moreover have "ident \<in> set (comma_fields s)"
        unfolding True by (subst fields_takeWhile) simp
      ultimately show ?thesis by simp
    next
      case ne: False
      have IH: "role_has_from ident (tl ?rest) \<longleftrightarrow> ident \<in> set (comma_fields (tl ?rest))"
        using 1(1) [OF False refl refl ne 1(2)] .
      have "role_has_from ident s = role_has_from ident (tl ?rest)"
        using False ne by (simp add: role_has_from.simps [of ident s] Let_def)
      moreover have "ident \<in> set (comma_fields s) \<longleftrightarrow> ident \<in> set (comma_fields (tl ?rest))"
      proof (cases ?rest)
        case Nil
        have "comma_fields s = [?f]" by (subst fields_takeWhile) (simp only: Nil list.case)
        then show ?thesis using 1(2) ne unfolding Nil by simp
      next
        case (Cons a r)
        have "comma_fields s = ?f # comma_fields r" by (subst fields_takeWhile) (simp only: Cons list.case)
        then show ?thesis using ne unfolding Cons by simp
      qed
      ultimately show ?thesis using IH by simp
    qed
  qed
qed

lemma role_list_scan_fields:
  "length pre = len \<Longrightarrow> len \<le> 63 \<Longrightarrow> list_all role_char pre \<Longrightarrow>
   role_list_scan len s \<longleftrightarrow> (\<forall>f \<in> set (comma_fields s). list_all role_char f) \<and>
     hd (comma_fields s) @ pre \<noteq> [] \<and> len + length (hd (comma_fields s)) \<le> 63 \<and>
     (\<forall>f \<in> set (tl (comma_fields s)). f \<noteq> [] \<and> length f \<le> 63)"
proof (induction s arbitrary: len pre)
  case Nil
  then show ?case by auto
next
  case (Cons b s)
  obtain h t where f: "comma_fields s = h # t" by (cases "comma_fields s") auto
  show ?case
  proof (cases "b = comma")
    case True
    then show ?thesis using Cons.IH [of "[]" 0] Cons.prems f by auto
  next
    case False
    show ?thesis
    proof (cases "role_char b \<and> len + 1 \<le> 63")
      case True
      then show ?thesis using False Cons.IH [of "b # pre" "len + 1"] Cons.prems f by auto
    next
      case bad: False
      then show ?thesis using False f by auto
    qed
  qed
qed

section \<open>Reservations\<close>

abbreviation LMB_PREPARE_CACHE_BYTES :: u64 where "LMB_PREPARE_CACHE_BYTES \<equiv> 67108864"
abbreviation LMB_HOST_MAX_SESSIONS :: u32 where "LMB_HOST_MAX_SESSIONS \<equiv> 8"
abbreviation LMB_HOST_SESSION_BYTES :: u64 where "LMB_HOST_SESSION_BYTES \<equiv> 12582912"

record lmb_home_reservation =
  hr_segment_bytes :: u64
  hr_edge_bytes :: u64
  hr_total_bytes :: u64

record lmb_memory_evidence =
  ev_weights :: u64
  ev_state :: u64
  ev_scratch :: u64
  ev_overhead :: u64
  ev_reserved :: u64
  ev_reservation_complete :: bool

definition lmb_memory_evidence_of ::
  "lmb_model_shape \<Rightarrow> u32 \<Rightarrow> u32 \<Rightarrow> u32 \<Rightarrow> u32 \<Rightarrow> bool \<Rightarrow> u64 \<Rightarrow> lmb_memory_evidence option" where
  "lmb_memory_evidence_of shape b e ctx sessions runs_edge reserved =
     (let c = lmb_estimate_segment shape b e ctx sessions;
          c = (if runs_edge then
                 let edge = lmb_estimate_edge shape ctx sessions
                 in c\<lparr>rc_ok := rc_ok c \<and> rc_ok edge,
                      rc_resident_bytes := lmb_size_add (rc_resident_bytes c) (rc_resident_bytes edge),
                      rc_state_bytes := lmb_size_add (rc_state_bytes c) (rc_state_bytes edge),
                      rc_scratch_bytes := lmb_size_add (rc_scratch_bytes c) (rc_scratch_bytes edge)\<rparr>
               else c);
          total_bytes = lmb_size_add (rc_resident_bytes c) (lmb_size_add (rc_state_bytes c) (rc_scratch_bytes c))
      in if \<not> rc_ok c \<or> total_bytes = UINT64_MAX \<or> reserved = UINT64_MAX then None
         else Some \<lparr>ev_weights = rc_resident_bytes c, ev_state = rc_state_bytes c,
                ev_scratch = rc_scratch_bytes c,
                ev_overhead = (if reserved \<ge> total_bytes then reserved - total_bytes else 0),
                ev_reserved = reserved, ev_reservation_complete = (reserved \<ge> total_bytes)\<rparr>)"

definition lmb_budget_add :: "u64 \<Rightarrow> u64 \<Rightarrow> u64" where
  "lmb_budget_add a b = lmb_size_add a b"

definition lmb_budget_mib :: "u64 \<Rightarrow> u64" where
  "lmb_budget_mib n =
     (let mask = push_bit 20 1 - 1; rounded = lmb_budget_add n mask
      in if rounded = UINT64_MAX then UINT64_MAX else rounded AND NOT mask)"

definition lmb_process_budget :: "u64 \<Rightarrow> u64 \<Rightarrow> u64 \<Rightarrow> u64 option" where
  "lmb_process_budget requested available reserve =
     (if available = 0 \<or> available = UINT64_MAX \<or> available \<le> reserve then None
      else let usable = available - reserve
           in Some (if requested \<noteq> 0 \<and> requested < usable then requested else usable))"

definition lmb_checkpoint_floor :: "u64 \<Rightarrow> u32 \<Rightarrow> u32 \<Rightarrow> u32 \<Rightarrow> u64" where
  "lmb_checkpoint_floor n layers b e =
     (if n = 0 \<or> layers = 0 \<or> b \<ge> e \<or> e > layers then UINT64_MAX
      else let count = ucast (e - b);
               share = n div ucast layers * count + (n mod ucast layers) * count div ucast layers
           in lmb_budget_add share (n div 20))"

definition segment_budget :: "lmb_range_cost \<Rightarrow> u64 \<Rightarrow> u64" where
  "segment_budget c floor =
     (let live = lmb_budget_add (rc_state_bytes c) (rc_scratch_bytes c);
          guarded = lmb_budget_add (lmb_budget_add floor (push_bit 20 128)) live;
          described = lmb_budget_add (rc_resident_bytes c) live
      in lmb_budget_mib (lmb_budget_add (if guarded > described then guarded else described) LMB_PREPARE_CACHE_BYTES))"

definition edge_budget :: "lmb_range_cost \<Rightarrow> u32 \<Rightarrow> u64" where
  "edge_budget c sessions =
     (let cost = lmb_budget_add (rc_resident_bytes c) (lmb_budget_add (rc_state_bytes c) (rc_scratch_bytes c));
          cost = (if sessions > 1
             then lmb_budget_add cost (lmb_size_mul (ucast sessions) LMB_HOST_SESSION_BYTES) else cost)
      in lmb_budget_mib (lmb_budget_add (lmb_budget_add cost (push_bit 20 64)) LMB_PREPARE_CACHE_BYTES))"

definition lmb_home_reservation_sessions ::
  "lmb_model_shape \<Rightarrow> u64 \<Rightarrow> u32 \<Rightarrow> u32 \<Rightarrow> u32 \<Rightarrow> u32 \<Rightarrow> bool \<Rightarrow> lmb_home_reservation option" where
  "lmb_home_reservation_sessions shape checkpoint_bytes b e ctx sessions runs_edge =
     (if sessions = 0 \<or> sessions > LMB_HOST_MAX_SESSIONS then None
      else let segment = lmb_estimate_segment shape b e ctx sessions in
        if \<not> rc_ok segment then None
        else let segment_bytes = segment_budget segment (lmb_checkpoint_floor checkpoint_bytes (ms_layers shape) b e);
                 edge = lmb_estimate_edge shape ctx sessions
             in if runs_edge \<and> \<not> rc_ok edge then None
                else let edge_bytes = (if runs_edge then edge_budget edge sessions else 0);
                         total_bytes = lmb_budget_add segment_bytes edge_bytes
                     in if segment_bytes = UINT64_MAX \<or> edge_bytes = UINT64_MAX \<or> total_bytes = UINT64_MAX then None
                        else Some \<lparr>hr_segment_bytes = segment_bytes, hr_edge_bytes = edge_bytes,
                               hr_total_bytes = total_bytes\<rparr>)"

definition lmb_home_reservation_one ::
  "lmb_model_shape \<Rightarrow> u64 \<Rightarrow> u32 \<Rightarrow> u32 \<Rightarrow> u32 \<Rightarrow> bool \<Rightarrow> lmb_home_reservation option" where
  "lmb_home_reservation_one shape checkpoint_bytes b e ctx runs_edge =
     lmb_home_reservation_sessions shape checkpoint_bytes b e ctx 1 runs_edge"

section \<open>Exact reservations\<close>

text \<open>Rounding up to a mebibyte.\<close>

definition mib_up :: "nat \<Rightarrow> nat" where
  "mib_up n = (n + (2 ^ 20 - 1)) div 2 ^ 20 * 2 ^ 20"

lemma mib_up_bounds: "n \<le> mib_up n" "mib_up n < n + 2 ^ 20" "2 ^ 20 dvd mib_up n"
proof -
  let ?d = "(n + (2 ^ 20 - 1)) div 2 ^ 20" and ?r = "(n + (2 ^ 20 - 1)) mod 2 ^ 20"
  have "?d * 2 ^ 20 + ?r = n + (2 ^ 20 - 1)" by (rule div_mult_mod_eq)
  moreover have "?r < 2 ^ 20" by simp
  ultimately show "n \<le> mib_up n" "mib_up n < n + 2 ^ 20" unfolding mib_up_def by linarith+
  show "2 ^ 20 dvd mib_up n" by (simp add: mib_up_def)
qed

lemma unat_and_not_mask:
  fixes x :: u64
  shows "unat (x AND NOT (push_bit 20 1 - 1)) = unat x div 2 ^ 20 * 2 ^ 20"
proof -
  have m: "push_bit 20 1 - 1 = (mask 20 :: u64)" by (simp add: mask_eq_exp_minus_1 push_bit_eq_mult)
  have "x AND NOT (mask 20) = push_bit 20 (drop_bit 20 x)"
    by (rule bit_word_eqI) (auto simp: bit_simps)
  moreover have "unat (push_bit 20 (drop_bit 20 x)) = unat x div 2 ^ 20 * 2 ^ 20"
  proof -
    have "unat (drop_bit 20 x) = unat x div 2 ^ 20" by (simp add: drop_bit_eq_div unat_div)
    moreover have "unat x div 2 ^ 20 * 2 ^ 20 \<le> unat x" by (rule div_times_less_eq_dividend)
    ultimately show ?thesis
      using unat_u64_less [of x] by (simp add: push_bit_eq_mult unat_word_ariths)
  qed
  ultimately show ?thesis unfolding m by simp
qed

lemma rep_budget_add [rep_intros]: "rep a m \<Longrightarrow> rep b n \<Longrightarrow> rep (lmb_budget_add a b) (m + n)"
  unfolding lmb_budget_add_def by (rule rep_add)

lemma rep_mib [rep_intros]:
  assumes "rep v n"
  shows "rep (lmb_budget_mib v) (mib_up n)"
proof (cases "lmb_budget_add v (push_bit 20 1 - 1) = UINT64_MAX")
  case True
  then show ?thesis by (simp only: lmb_budget_mib_def Let_def rep_def) simp
next
  case False
  have "unat (push_bit 20 1 - 1 :: u64) = 2 ^ 20 - 1" by (simp add: push_bit_eq_mult)
  then have "rep (push_bit 20 1 - 1) (2 ^ 20 - 1)" by (simp add: rep_def)
  from repD [OF rep_budget_add [OF assms this] False]
  have "unat (lmb_budget_add v (push_bit 20 1 - 1)) = n + (2 ^ 20 - 1)" .
  then have "unat (lmb_budget_mib v) = mib_up n"
    using False unfolding lmb_budget_mib_def Let_def by (simp only: if_False unat_and_not_mask mib_up_def)
  then show ?thesis by (simp add: rep_def)
qed

definition checkpoint_floor :: "nat \<Rightarrow> nat \<Rightarrow> nat \<Rightarrow> nat" where
  "checkpoint_floor n layers count = n * count div layers + n div 20"

lemma share_split:
  assumes "0 < (l :: nat)"
  shows "n * c div l = n div l * c + (n mod l) * c div l"
proof -
  have "n * c = l * (n div l * c) + (n mod l) * c"
    by (metis add_mult_distrib mult.assoc mult_div_mod_eq)
  then show ?thesis using assms by simp
qed

lemma floor_share:
  assumes "\<not> (n = 0 \<or> layers = 0 \<or> b \<ge> e \<or> e > layers)"
  shows "lmb_checkpoint_floor n layers b e =
      lmb_budget_add (n div ucast layers * ucast (e - b) + (n mod ucast layers) * ucast (e - b) div ucast layers) (n div 20)"
    and "unat (n div ucast layers * ucast (e - b) + (n mod ucast layers) * ucast (e - b) div ucast layers) =
      unat n * (unat e - unat b) div unat layers"
proof -
  show "lmb_checkpoint_floor n layers b e =
      lmb_budget_add (n div ucast layers * ucast (e - b) + (n mod ucast layers) * ucast (e - b) div ucast layers) (n div 20)"
    unfolding lmb_checkpoint_floor_def if_not_P [OF assms] Let_def by (rule refl)
  let ?l = "unat layers" and ?c = "unat e - unat b"
  have l: "0 < ?l" using assms by (simp add: unat_gt_0)
  have c: "?c \<le> ?l" using assms by (auto simp: word_le_nat_alt word_less_nat_alt not_le not_less)
  have cu: "unat (ucast (e - b) :: u64) = ?c"
    using assms by (simp add: unat_sub not_le less_imp_le)
  have "unat n div ?l * ?c \<le> unat n div ?l * ?l" using c by (rule mult_le_mono2)
  also have le: "unat n div ?l * ?l \<le> unat n" by (rule div_times_less_eq_dividend)
  finally have a: "unat (n div ucast layers * ucast (e - b)) = unat n div ?l * ?c"
    using unat_u64_less [of n] cu unat_mult_exact [of "n div ucast layers" "ucast (e - b)"]
    by (simp add: unat_div)
  have "unat n mod ?l * ?c \<le> 4294967295 * 4294967295"
    using mod_less_divisor [OF l, of "unat n"] unat_u32_less [of layers] c by (intro mult_le_mono) simp_all
  then have m: "unat ((n mod ucast layers) * ucast (e - b)) = unat n mod ?l * ?c"
    using cu unat_mult_exact [of "n mod ucast layers" "ucast (e - b)"] by (simp add: unat_mod)
  have "unat n div ?l * ?c + unat n mod ?l * ?c div ?l = unat n * ?c div ?l" by (rule share_split [OF l, symmetric])
  also have "\<dots> \<le> unat n * ?l div ?l" using c by (intro div_le_mono mult_le_mono2)
  also have "\<dots> = unat n" using l by simp
  finally have "unat n div ?l * ?c + unat n mod ?l * ?c div ?l < 2 ^ 64" using unat_u64_less [of n] by simp
  then show "unat (n div ucast layers * ucast (e - b) + (n mod ucast layers) * ucast (e - b) div ucast layers) =
      unat n * ?c div ?l"
    unfolding share_split [OF l, of "unat n" ?c] using a m by (simp add: unat_word_ariths unat_div)
qed

lemma floor_exact:
  assumes "\<not> (n = 0 \<or> layers = 0 \<or> b \<ge> e \<or> e > layers)"
  shows "rep (lmb_checkpoint_floor n layers b e) (checkpoint_floor (unat n) (unat layers) (unat e - unat b))"
proof -
  have "rep (n div 20) (unat n div 20)" by (simp add: rep_def unat_div)
  then show ?thesis
    unfolding floor_share(1) [OF assms] checkpoint_floor_def floor_share(2) [OF assms, symmetric]
      lmb_budget_add_def
    by (intro rep_intros)
qed

lemma budget_add_exact:
  "lmb_budget_add a b \<noteq> UINT64_MAX \<Longrightarrow> a \<noteq> UINT64_MAX \<and> b \<noteq> UINT64_MAX \<and>
     unat (lmb_budget_add a b) = unat a + unat b"
  unfolding lmb_budget_add_def by (rule size_add_exact)

text \<open>The reservation of a range as numbers.\<close>

definition segment_reservation :: "lmb_model_shape \<Rightarrow> u64 \<Rightarrow> u32 \<Rightarrow> u32 \<Rightarrow> u32 \<Rightarrow> u32 \<Rightarrow> nat" where
  "segment_reservation m checkpoint_bytes b e ctx sessions =
     (let r = segment_need m b e ctx sessions; live = rn_state r + rn_scratch r
      in mib_up (max (checkpoint_floor (unat checkpoint_bytes) (unat (ms_layers m)) (unat e - unat b) + 134217728 + live)
                     (rn_resident r + live) + 67108864))"

definition edge_reservation :: "lmb_model_shape \<Rightarrow> u32 \<Rightarrow> u32 \<Rightarrow> nat" where
  "edge_reservation m ctx sessions =
     mib_up (need_resident (edge_need m ctx sessions) +
       (if unat sessions > 1 then unat sessions * 12582912 else 0) + 67108864 + 67108864)"

lemma rep_max:
  assumes "rep a m" "rep b n"
  shows "rep (if a > b then a else b) (max m n)"
proof -
  have top: "v = UINT64_MAX" if "\<not> v < UINT64_MAX" for v :: u64
    using that by (metis word_order.not_eq_extremum)
  show ?thesis
  proof (cases "a = UINT64_MAX \<or> b = UINT64_MAX")
    case True
    then have "(if a > b then a else b) = UINT64_MAX" using top [of a] top [of b] by auto
    then show ?thesis by (simp add: rep_def)
  next
    case False
    then have "unat a = m" "unat b = n" using assms by (simp_all add: repD)
    then show ?thesis by (auto simp: rep_def word_less_nat_alt max_def)
  qed
qed

lemma rep_cache: "rep LMB_PREPARE_CACHE_BYTES 67108864" "rep (push_bit 20 128) 134217728"
  "rep (push_bit 20 64) 67108864" "rep LMB_HOST_SESSION_BYTES 12582912"
  by (simp_all add: rep_def push_bit_eq_mult)

lemma rep_live:
  assumes "cost_exact c r"
  shows "rep (lmb_budget_add (rc_state_bytes c) (rc_scratch_bytes c)) (rn_state r + rn_scratch r)"
    "rep (rc_resident_bytes c) (rn_resident r)"
proof -
  have "rep (rc_state_bytes c) (rn_state r)" "rep (rc_scratch_bytes c) (rn_scratch r)"
    using assms by (simp_all add: rep_def cost_exact_def)
  then show "rep (lmb_budget_add (rc_state_bytes c) (rc_scratch_bytes c)) (rn_state r + rn_scratch r)"
    by (intro rep_intros)
  show "rep (rc_resident_bytes c) (rn_resident r)" using assms by (simp add: rep_def cost_exact_def)
qed

lemma reservation_SomeD:
  assumes "lmb_home_reservation_sessions m ck b e ctx sessions runs_edge = Some r"
  shows "sessions \<noteq> 0 \<and> sessions \<le> LMB_HOST_MAX_SESSIONS \<and> rc_ok (lmb_estimate_segment m b e ctx sessions) \<and>
    hr_segment_bytes r = segment_budget (lmb_estimate_segment m b e ctx sessions)
      (lmb_checkpoint_floor ck (ms_layers m) b e) \<and>
    (if runs_edge then rc_ok (lmb_estimate_edge m ctx sessions) \<and>
       hr_edge_bytes r = edge_budget (lmb_estimate_edge m ctx sessions) sessions
     else hr_edge_bytes r = 0) \<and>
    hr_total_bytes r = lmb_budget_add (hr_segment_bytes r) (hr_edge_bytes r) \<and> hr_total_bytes r \<noteq> UINT64_MAX"
  using assms
  by (auto simp: lmb_home_reservation_sessions_def Let_def not_less split: if_split_asm)

lemma segment_budget_exact:
  assumes "rc_ok (lmb_estimate_segment m b e ctx sessions)"
  shows "rep (segment_budget (lmb_estimate_segment m b e ctx sessions) (lmb_checkpoint_floor ck (ms_layers m) b e))
    (segment_reservation m ck b e ctx sessions)"
proof -
  let ?c = "lmb_estimate_segment m b e ctx sessions" and ?r = "segment_need m b e ctx sessions"
  let ?f = "lmb_checkpoint_floor ck (ms_layers m) b e"
  note C = segment_exact [OF assms]
  note L = rep_live [OF conjunct1 [OF C]]
  show ?thesis
  proof (cases "ck = 0")
    case True
    then have "?f = UINT64_MAX" by (simp add: lmb_checkpoint_floor_def)
    then have "rep ?f n" for n by (simp add: rep_def)
    then show ?thesis
      unfolding segment_budget_def segment_reservation_def Let_def
      by (intro rep_intros rep_max L rep_cache)
  next
    case False
    then have "\<not> (ck = 0 \<or> ms_layers m = 0 \<or> b \<ge> e \<or> e > ms_layers m)"
      using C by (auto simp: word_less_nat_alt word_le_nat_alt)
    note F = floor_exact [OF this]
    show ?thesis
      unfolding segment_budget_def segment_reservation_def Let_def
      by (intro rep_intros rep_max L rep_cache F)
  qed
qed

lemma edge_budget_exact:
  assumes "rc_ok (lmb_estimate_edge m ctx sessions)"
  shows "rep (edge_budget (lmb_estimate_edge m ctx sessions) sessions) (edge_reservation m ctx sessions)"
proof -
  note L = rep_live [OF edge_exact [OF assms]]
  have nr: "need_resident r = rn_resident r + (rn_state r + rn_scratch r)" for r
    by (simp add: need_resident_def)
  have "rep (if sessions > 1
       then lmb_budget_add (lmb_budget_add (rc_resident_bytes (lmb_estimate_edge m ctx sessions))
          (lmb_budget_add (rc_state_bytes (lmb_estimate_edge m ctx sessions))
             (rc_scratch_bytes (lmb_estimate_edge m ctx sessions))))
          (lmb_size_mul (ucast sessions) LMB_HOST_SESSION_BYTES)
       else lmb_budget_add (rc_resident_bytes (lmb_estimate_edge m ctx sessions))
          (lmb_budget_add (rc_state_bytes (lmb_estimate_edge m ctx sessions))
             (rc_scratch_bytes (lmb_estimate_edge m ctx sessions))))
     (need_resident (edge_need m ctx sessions) + (if unat sessions > 1 then unat sessions * 12582912 else 0))"
    (is "rep ?cost _")
  proof (cases "sessions > 1")
    case True
    then have u: "unat sessions > 1" by (simp add: word_less_nat_alt)
    show ?thesis
      unfolding nr if_P [OF True] if_P [OF u]
      by (intro rep_intros L rep_cache)
  next
    case False
    then have u: "\<not> unat sessions > 1" by (simp add: word_less_nat_alt)
    show ?thesis
      unfolding nr if_not_P [OF False] if_not_P [OF u] add_0_right
      by (intro rep_intros L)
  qed
  then show ?thesis
    unfolding edge_budget_def edge_reservation_def Let_def by (intro rep_intros rep_cache)
qed

lemma reservation_parts:
  assumes "lmb_home_reservation_sessions m ck b e ctx sessions runs_edge = Some r"
  shows "unat (hr_segment_bytes r) = segment_reservation m ck b e ctx sessions \<and>
    unat (hr_edge_bytes r) = (if runs_edge then edge_reservation m ctx sessions else 0) \<and>
    unat (hr_total_bytes r) = unat (hr_segment_bytes r) + unat (hr_edge_bytes r)"
proof -
  note R = reservation_SomeD [OF assms]
  have tot: "hr_total_bytes r = lmb_budget_add (hr_segment_bytes r) (hr_edge_bytes r)" "hr_total_bytes r \<noteq> UINT64_MAX"
    and ok: "rc_ok (lmb_estimate_segment m b e ctx sessions)"
    and seg: "hr_segment_bytes r = segment_budget (lmb_estimate_segment m b e ctx sessions)
      (lmb_checkpoint_floor ck (ms_layers m) b e)"
    using R by blast+
  have A: "hr_segment_bytes r \<noteq> UINT64_MAX" "hr_edge_bytes r \<noteq> UINT64_MAX"
    "unat (hr_total_bytes r) = unat (hr_segment_bytes r) + unat (hr_edge_bytes r)"
    using budget_add_exact [OF tot(2) [unfolded tot(1)]] tot(1) by simp_all
  have "rep (hr_segment_bytes r) (segment_reservation m ck b e ctx sessions)"
    unfolding seg by (rule segment_budget_exact [OF ok])
  moreover have "unat (hr_edge_bytes r) = (if runs_edge then edge_reservation m ctx sessions else 0)"
  proof (cases runs_edge)
    case True
    then have "rep (hr_edge_bytes r) (edge_reservation m ctx sessions)"
      using edge_budget_exact [of m ctx sessions] R by simp
    with A(2) True show ?thesis by (simp add: repD)
  next
    case False
    with R show ?thesis by simp
  qed
  ultimately show ?thesis using A by (simp add: repD)
qed

end
