(* ===== verification/Cluster.thy ===== *)
theory Cluster
  imports Memory_Budget
begin

text \<open>
  Placement of a model on the computers of a household, \<^verbatim>\<open>lumabri_cluster.h\<close>: the proportional
  split, the check of a split against process budgets, the bounded greedy search and the effect of
  one more machine. A node is named by its index; \<open>nslices\<close> is the length of the slice list. The
  display fields \<open>ready_seconds\<close> and \<open>rtt_ms\<close> (floating point, decided by nothing) are left out.
\<close>

section \<open>Data\<close>

abbreviation LMB_CLUSTER_MAX_NODES :: nat where "LMB_CLUSTER_MAX_NODES \<equiv> 32"

record lmb_cluster_node =
  cn_name :: bytes
  cn_addr :: bytes
  cn_ram_budget_bytes :: u64
  cn_vram_budget_bytes :: u64
  cn_disk_read_bps :: u64
  cn_lan_bps :: u64
  cn_gpu_backends :: u32
  cn_threads :: u32
  cn_has_checkpoint :: bool
  cn_roles :: lmb_runtime_roles

record lmb_slice =
  sl_node :: nat
  sl_layer_begin :: u32
  sl_layer_end :: u32
  sl_state :: lmb_plan_state
  sl_bytes_resident :: u64
  sl_bytes_to_fetch :: u64

datatype lmb_plan_goal = LMB_GOAL_ONE_SESSION | LMB_GOAL_THROUGHPUT

record lmb_cluster_plan =
  pl_state :: lmb_plan_state
  pl_goal :: lmb_plan_goal
  pl_hybrid :: u32
  pl_slices :: "lmb_slice list"
  pl_edge_node :: nat
  pl_missing_bytes :: u64
  pl_missing_nodes :: u32
  pl_fetch_bytes :: u64
  pl_ready_known :: bool
  pl_sessions :: u32
  pl_data_available :: bool

definition plan_empty :: "lmb_plan_goal \<Rightarrow> u32 \<Rightarrow> bool \<Rightarrow> lmb_cluster_plan" where
  "plan_empty goal sessions data_available =
     \<lparr>pl_state = LMB_PLAN_UNRUNNABLE, pl_goal = goal, pl_hybrid = 0, pl_slices = [], pl_edge_node = 0,
      pl_missing_bytes = 0, pl_missing_nodes = 0, pl_fetch_bytes = 0, pl_ready_known = False,
      pl_sessions = sessions, pl_data_available = data_available\<rparr>"

section \<open>The proportional split\<close>

text \<open>The node with most memory among those that may and can hold Edge; the first of equals.\<close>

definition edge_better :: "lmb_model_shape \<Rightarrow> u64 \<Rightarrow> lmb_cluster_node list \<Rightarrow> nat \<Rightarrow> nat option \<Rightarrow> nat option" where
  "edge_better m need_edge nodes i best =
     (if \<not> lmb_runtime_role_allows (cn_roles (nodes ! i)) (c_str (ms_segment_id m)) True False then best
      else let room = cn_ram_budget_bytes (nodes ! i) in
        if room < need_edge then best
        else case best of None \<Rightarrow> Some i
          | Some b \<Rightarrow> if room > cn_ram_budget_bytes (nodes ! b) then Some i else Some b)"

definition plan_best_edge :: "lmb_model_shape \<Rightarrow> u64 \<Rightarrow> lmb_cluster_node list \<Rightarrow> nat option" where
  "plan_best_edge m need_edge nodes = fold (edge_better m need_edge nodes) [0..<length nodes] None"

definition plan_effective :: "lmb_model_shape \<Rightarrow> u64 \<Rightarrow> nat \<Rightarrow> lmb_cluster_node list \<Rightarrow> nat \<Rightarrow> u64" where
  "plan_effective m need_edge best nodes i =
     (let budget = cn_ram_budget_bytes (nodes ! i);
          budget = (if \<not> lmb_runtime_role_allows (cn_roles (nodes ! i)) (c_str (ms_segment_id m)) False False
                    then 0 else budget)
      in if i = best then budget - need_edge else budget)"

record plan_progress =
  pp_assigned :: u32
  pp_whole_resident :: u64
  pp_slices :: "lmb_slice list"
  pp_missing :: u64
  pp_fetch :: u64

text \<open>One slice of \<open>take\<close> layers on node \<open>i\<close>; \<open>None\<close> when a size cannot be answered.\<close>

definition plan_slice ::
  "lmb_model_shape \<Rightarrow> lmb_cluster_node list \<Rightarrow> u32 \<Rightarrow> u32 \<Rightarrow> nat \<Rightarrow> u64 \<Rightarrow> u32 \<Rightarrow> plan_progress \<Rightarrow> plan_progress option" where
  "plan_slice m nodes ctx sessions i budget layers p =
     (let c = lmb_estimate_segment m (pp_assigned p) (pp_assigned p + layers) ctx sessions in
      if \<not> rc_ok c then None
      else let live = lmb_size_add (rc_state_bytes c) (rc_scratch_bytes c);
               state = lmb_plan_state_of m c budget;
               weights = (if state = LMB_PLAN_DISK then rc_working_set_bytes c else rc_resident_bytes c);
               fetch = (if cn_has_checkpoint (nodes ! i) then 0 else weights);
               s = \<lparr>sl_node = i, sl_layer_begin = pp_assigned p, sl_layer_end = pp_assigned p + layers,
                    sl_state = state, sl_bytes_resident = weights + live, sl_bytes_to_fetch = fetch\<rparr>;
               need = (if ms_disk_streaming m then rc_working_set_bytes c + live else rc_resident_bytes c + live);
               missing = (if state = LMB_PLAN_UNRUNNABLE
                 then lmb_size_add (pp_missing p) (if need > budget then need - budget else 0) else pp_missing p);
               whole = lmb_size_add (pp_whole_resident p) (rc_resident_bytes c + live);
               fetched = lmb_size_add (pp_fetch p) fetch
           in if whole = UINT64_MAX \<or> missing = UINT64_MAX \<or> fetched = UINT64_MAX then None
              else Some \<lparr>pp_assigned = pp_assigned p + layers, pp_whole_resident = whole,
                     pp_slices = pp_slices p @ [s], pp_missing = missing, pp_fetch = fetched\<rparr>)"

fun plan_assign ::
  "lmb_model_shape \<Rightarrow> lmb_cluster_node list \<Rightarrow> u32 \<Rightarrow> u32 \<Rightarrow> u64 \<Rightarrow> nat \<Rightarrow> (nat \<times> u64) list \<Rightarrow> plan_progress \<Rightarrow>
   plan_progress option" where
  "plan_assign m nodes ctx sessions total_budget last_usable [] p = Some p"
| "plan_assign m nodes ctx sessions total_budget last_usable ((i, budget) # rest) p =
     (if \<not> pp_assigned p < ms_layers m then Some p
      else if budget = 0 then plan_assign m nodes ctx sessions total_budget last_usable rest p
      else let scaled = lmb_size_mul (ucast (ms_layers m)) budget in
        if scaled = UINT64_MAX then None
        else let layers = ucast (scaled div total_budget);
                 layers = (if i = last_usable then ms_layers m - pp_assigned p else layers)
             in if layers = 0 then plan_assign m nodes ctx sessions total_budget last_usable rest p
                else let layers = (if layers > ms_layers m - pp_assigned p then ms_layers m - pp_assigned p else layers)
                     in plan_slice m nodes ctx sessions i budget layers p \<bind>
                        plan_assign m nodes ctx sessions total_budget last_usable rest)"

definition plan_worst :: "lmb_slice list \<Rightarrow> lmb_plan_state" where
  "plan_worst slices =
     (if list_ex (\<lambda>s. sl_state s = LMB_PLAN_UNRUNNABLE) slices then LMB_PLAN_UNRUNNABLE
      else if list_ex (\<lambda>s. sl_state s = LMB_PLAN_DISK) slices then LMB_PLAN_DISK else LMB_PLAN_RESIDENT)"

text \<open>How many machines of the average size the missing bytes are.\<close>

definition plan_missing_nodes :: "u64 \<Rightarrow> u64 \<Rightarrow> u32" where
  "plan_missing_nodes missing average =
     (let additional = (if average \<noteq> 0 then missing div average + (if missing mod average \<noteq> 0 then 1 else 0) else 0)
      in if additional > ucast UINT32_MAX then UINT32_MAX else ucast additional)"

definition lmb_plan_cluster_source ::
  "lmb_model_shape \<Rightarrow> lmb_cluster_node list \<Rightarrow> u32 \<Rightarrow> u32 \<Rightarrow> lmb_plan_goal \<Rightarrow> bool \<Rightarrow> lmb_cluster_plan option" where
  "lmb_plan_cluster_source m nodes ctx sessions goal external_checkpoint =
     (if ms_layers m = 0 \<or> nodes = [] \<or> length nodes > LMB_CLUSTER_MAX_NODES then None
      else let edge = lmb_estimate_edge m ctx sessions in
      if \<not> rc_ok edge then None
      else let need_edge = lmb_size_add (rc_resident_bytes edge)
                             (lmb_size_add (rc_state_bytes edge) (rc_scratch_bytes edge)) in
      if need_edge = UINT64_MAX then None
      else case plan_best_edge m need_edge nodes of None \<Rightarrow> None
      | Some best \<Rightarrow>
        let effective = map (plan_effective m need_edge best nodes) [0..<length nodes];
            total_budget = fold (\<lambda>b acc. lmb_size_add acc b) effective 0;
            last_usable = fold (\<lambda>(i, b) acc. if b \<noteq> 0 then i else acc) (zip [0..<length nodes] effective) 0;
            data_available = (external_checkpoint \<or> list_ex cn_has_checkpoint nodes)
        in if total_budget = 0 \<or> total_budget = UINT64_MAX then None
        else case plan_assign m nodes ctx sessions total_budget last_usable (zip [0..<length nodes] effective)
               \<lparr>pp_assigned = 0, pp_whole_resident = 0, pp_slices = [], pp_missing = 0, pp_fetch = 0\<rparr> of
          None \<Rightarrow> None
        | Some p \<Rightarrow>
          if pp_assigned p < ms_layers m then None
          else let state = (if data_available then plan_worst (pp_slices p) else LMB_PLAN_UNRUNNABLE);
                   missing = (if data_available then pp_missing p
                              else lmb_size_add (pp_whole_resident p) (rc_resident_bytes edge))
               in if \<not> data_available \<and> missing = UINT64_MAX then None
                  else Some ((plan_empty goal (or_default sessions 1) data_available)\<lparr>
                         pl_state := state, pl_slices := pp_slices p, pl_edge_node := best,
                         pl_missing_bytes := missing,
                         pl_missing_nodes := (if state = LMB_PLAN_UNRUNNABLE \<and> missing \<noteq> 0
                           then plan_missing_nodes missing (total_budget div of_nat (length nodes)) else 0),
                         pl_fetch_bytes := pp_fetch p,
                         pl_ready_known := list_all (\<lambda>s. sl_bytes_to_fetch s = 0 \<or>
                           cn_lan_bps (nodes ! sl_node s) \<noteq> 0) (pp_slices p)\<rparr>))"

definition lmb_plan_cluster ::
  "lmb_model_shape \<Rightarrow> lmb_cluster_node list \<Rightarrow> u32 \<Rightarrow> u32 \<Rightarrow> lmb_plan_goal \<Rightarrow> lmb_cluster_plan option" where
  "lmb_plan_cluster m nodes ctx sessions goal = lmb_plan_cluster_source m nodes ctx sessions goal False"


section \<open>A split against process budgets\<close>

definition lmb_home_hybrid_extra :: "lmb_model_shape \<Rightarrow> u64" where
  "lmb_home_hybrid_extra s =
     (let floats = lmb_size_add (lmb_size_mul (ucast (ms_hidden s)) (ucast (ms_experts_per_tok s) + 2))
                     (lmb_size_mul 2 (ucast (ms_moe_intermediate s)));
          scratch = lmb_size_add (lmb_size_mul floats 4) (lmb_size_mul 16 (ucast (ms_moe_intermediate s)))
      in lmb_size_add (push_bit 20 8) scratch)"

record budget_progress =
  bp_next :: u32
  bp_edges :: nat
  bp_missing :: u64
  bp_done :: "lmb_slice list"

definition olmoe_id :: bytes where
  "olmoe_id = [111, 108, 109, 111, 101]"

text \<open>The layout a slice of a hybrid plan must have, by its position \<open>i\<close>.\<close>

definition hybrid_slice_ok :: "lmb_model_shape \<Rightarrow> nat \<Rightarrow> lmb_cluster_plan \<Rightarrow> nat \<Rightarrow> lmb_slice \<Rightarrow> lmb_slice list \<Rightarrow> bool" where
  "hybrid_slice_ok shape count plan i s before \<longleftrightarrow>
     \<not> (pl_hybrid plan \<noteq> 1 \<or> c_str (ms_segment_id shape) \<noteq> olmoe_id \<or>
        ms_experts_per_tok shape < 2 \<or> length (pl_slices plan) \<noteq> count \<or> count < 2 \<or>
        (i = 0 \<and> (sl_node s \<noteq> pl_edge_node plan \<or> sl_layer_begin s \<noteq> 0 \<or> sl_layer_end s \<noteq> ms_layers shape)) \<or>
        (i \<noteq> 0 \<and> sl_node s = pl_edge_node plan) \<or>
        (i > 1 \<and> sl_layer_begin s < sl_layer_end (before ! (i - 1))))"

definition budget_slice ::
  "lmb_model_shape \<Rightarrow> u64 \<Rightarrow> lmb_cluster_node list \<Rightarrow> u32 \<Rightarrow> lmb_cluster_plan \<Rightarrow> lmb_slice \<Rightarrow> budget_progress \<Rightarrow>
   budget_progress option" where
  "budget_slice shape checkpoint_bytes nodes ctx plan s p =
     (if sl_node s \<ge> length nodes \<or> (pl_hybrid plan = 0 \<and> sl_layer_begin s \<noteq> bp_next p) then None
      else if pl_hybrid plan \<noteq> 0 \<and>
        \<not> hybrid_slice_ok shape (length nodes) plan (length (bp_done p)) s (bp_done p) then None
      else if list_ex (\<lambda>d. sl_node d = sl_node s) (bp_done p) then None
      else let edge = (sl_node s = pl_edge_node plan); node = nodes ! sl_node s in
        if \<not> lmb_runtime_role_allows (cn_roles node) (c_str (ms_segment_id shape)) edge (pl_hybrid plan \<noteq> 0) then None
        else case lmb_home_reservation_sessions shape checkpoint_bytes (sl_layer_begin s) (sl_layer_end s) ctx
                    (pl_sessions plan) edge of
            None \<Rightarrow> None
          | Some r \<Rightarrow>
              let total_bytes = (if pl_hybrid plan \<noteq> 0
                    then lmb_budget_add (hr_total_bytes r) (lmb_home_hybrid_extra shape) else hr_total_bytes r);
                  fits = (total_bytes \<le> cn_ram_budget_bytes node)
              in Some \<lparr>bp_next = sl_layer_end s, bp_edges = bp_edges p + (if edge then 1 else 0),
                   bp_missing = (if fits then bp_missing p
                     else lmb_budget_add (bp_missing p) (total_bytes - cn_ram_budget_bytes node)),
                   bp_done = bp_done p @
                     [s\<lparr>sl_bytes_resident := total_bytes,
                        sl_state := (if fits then LMB_PLAN_RESIDENT else LMB_PLAN_UNRUNNABLE)\<rparr>]\<rparr>)"

fun budget_slices ::
  "lmb_model_shape \<Rightarrow> u64 \<Rightarrow> lmb_cluster_node list \<Rightarrow> u32 \<Rightarrow> lmb_cluster_plan \<Rightarrow> lmb_slice list \<Rightarrow> budget_progress \<Rightarrow>
   budget_progress option" where
  "budget_slices shape checkpoint_bytes nodes ctx plan [] p = Some p"
| "budget_slices shape checkpoint_bytes nodes ctx plan (s # ss) p =
     budget_slice shape checkpoint_bytes nodes ctx plan s p \<bind>
     budget_slices shape checkpoint_bytes nodes ctx plan ss"

definition lmb_home_plan_budgets ::
  "lmb_model_shape \<Rightarrow> u64 \<Rightarrow> lmb_cluster_node list \<Rightarrow> u32 \<Rightarrow> lmb_cluster_plan \<Rightarrow> lmb_cluster_plan option" where
  "lmb_home_plan_budgets shape checkpoint_bytes nodes ctx plan =
     (if nodes = [] \<or> length nodes > LMB_CLUSTER_MAX_NODES \<or> pl_slices plan = [] \<or>
         length (pl_slices plan) > length nodes \<or> pl_edge_node plan \<ge> length nodes \<or>
         pl_sessions plan = 0 \<or> pl_sessions plan > LMB_HOST_MAX_SESSIONS \<or> \<not> pl_data_available plan then None
      else case budget_slices shape checkpoint_bytes nodes ctx plan (pl_slices plan)
             \<lparr>bp_next = 0, bp_edges = 0, bp_missing = 0, bp_done = []\<rparr> of
          None \<Rightarrow> None
        | Some p \<Rightarrow>
            let total_budget = fold (\<lambda>n acc. lmb_budget_add acc (cn_ram_budget_bytes n)) nodes 0;
                average = total_budget div of_nat (length nodes);
                missing = bp_missing p
            in if (pl_hybrid plan = 0 \<and> bp_next p \<noteq> ms_layers shape) \<or> bp_edges p \<noteq> 1 then None
               else Some (plan\<lparr>pl_slices := bp_done p, pl_missing_bytes := missing,
                      pl_missing_nodes := (if missing \<noteq> 0 \<and> average \<noteq> 0 then plan_missing_nodes missing average else 0),
                      pl_state := (if missing \<noteq> 0 then LMB_PLAN_UNRUNNABLE else LMB_PLAN_RESIDENT)\<rparr>))"

section \<open>The bounded search\<close>

text \<open>Insertion into \<open>order\<close> behind its first element, the owner: the new node moves before every
  later one that has strictly more (ascending) or strictly less (descending) memory.\<close>

definition order_insert :: "lmb_cluster_node list \<Rightarrow> bool \<Rightarrow> nat \<Rightarrow> nat list \<Rightarrow> nat list" where
  "order_insert nodes ascending i rest =
     (let moves = (\<lambda>j. if ascending
            then cn_ram_budget_bytes (nodes ! j) > cn_ram_budget_bytes (nodes ! i)
            else cn_ram_budget_bytes (nodes ! j) < cn_ram_budget_bytes (nodes ! i))
      in rev (dropWhile moves (rev rest)) @ i # rev (takeWhile moves (rev rest)))"

definition search_order :: "lmb_cluster_node list \<Rightarrow> nat \<Rightarrow> bool \<Rightarrow> nat list" where
  "search_order nodes owner ascending =
     owner # fold (\<lambda>i rest. if i \<noteq> owner then order_insert nodes ascending i rest else rest) [0..<length nodes] []"

definition slice_fits ::
  "lmb_model_shape \<Rightarrow> u64 \<Rightarrow> u32 \<Rightarrow> u32 \<Rightarrow> bool \<Rightarrow> u64 \<Rightarrow> u32 \<Rightarrow> u32 \<Rightarrow> bool" where
  "slice_fits shape checkpoint_bytes ctx sessions edge budget b e =
     (case lmb_home_reservation_sessions shape checkpoint_bytes b e ctx sessions edge of
        None \<Rightarrow> False | Some r \<Rightarrow> hr_total_bytes r \<le> budget)"

definition bisect_mid :: "u32 \<Rightarrow> u32 \<Rightarrow> u32" where
  "bisect_mid lo hi = lo + (hi - lo) div 2 + (hi - lo) mod 2"

lemma bisect_mid_bounds:
  assumes "lo < hi"
  shows "lo < bisect_mid lo hi \<and> bisect_mid lo hi \<le> hi \<and>
    unat (bisect_mid lo hi) = unat lo + (unat hi - unat lo + 1) div 2 \<and>
    unat (bisect_mid lo hi - 1) = unat lo + (unat hi - unat lo + 1) div 2 - 1"
proof -
  define d where "d = unat hi - unat lo"
  have lt: "unat lo < unat hi" using assms by (simp only: word_less_nat_alt)
  have u: "unat (hi - lo) = d" unfolding d_def using assms by (intro unat_sub) simp
  have hi: "unat hi = unat lo + d" and pos: "0 < d" using lt by (simp_all add: d_def)
  define h where "h = (d + 1) div 2"
  have h: "d div 2 + d mod 2 = h" "h \<le> d" "0 < h" using pos unfolding h_def by presburger+
  have small: "unat lo + h < 4294967296" using h(2) hi unat_u32_less [of hi] by linarith
  have "unat ((hi - lo) div 2) = d div 2" "unat ((hi - lo) mod 2) = d mod 2"
    by (simp_all only: unat_div unat_mod u) simp_all
  then have m: "unat (bisect_mid lo hi) = unat lo + h"
    using small h(1) unfolding bisect_mid_def by (simp add: unat_word_ariths)
  have "1 \<le> bisect_mid lo hi" using m h(3) by (simp add: word_le_nat_alt)
  then have "unat (bisect_mid lo hi - 1) = unat lo + h - 1" using m by (simp add: unat_sub)
  then show ?thesis using m h hi unfolding h_def d_def [symmetric]
    by (simp add: word_less_nat_alt word_le_nat_alt)
qed

function bisect :: "(u32 \<Rightarrow> bool) \<Rightarrow> u32 \<Rightarrow> u32 \<Rightarrow> u32" where
  "bisect fits lo hi =
     (if lo < hi
      then let mid = bisect_mid lo hi in if fits mid then bisect fits mid hi else bisect fits lo (mid - 1)
      else lo)"
  by pat_completeness auto

termination
proof (relation "measure (\<lambda>(_, lo, hi). unat hi - unat lo)", goal_cases)
  case (2 fits lo hi mid)
  then show ?case using bisect_mid_bounds [of lo hi] by (auto simp: word_less_nat_alt)
next
  case (3 fits lo hi mid)
  then have "lo < hi" "mid = bisect_mid lo hi" by simp_all
  with bisect_mid_bounds [of lo hi] show ?case by (simp add: word_less_nat_alt)
qed simp

declare bisect.simps [simp del]

text \<open>One pass over the order: \<open>None\<close> when the owner would get no layer.\<close>

fun search_slices ::
  "lmb_model_shape \<Rightarrow> u64 \<Rightarrow> lmb_cluster_node list \<Rightarrow> u32 \<Rightarrow> u32 \<Rightarrow> nat \<Rightarrow> nat list \<Rightarrow> u32 \<Rightarrow> lmb_slice list \<Rightarrow>
   u32 \<times> lmb_slice list" where
  "search_slices shape checkpoint_bytes nodes ctx sessions owner [] next_layer slices = (next_layer, slices)"
| "search_slices shape checkpoint_bytes nodes ctx sessions owner (nd # nds) next_layer slices =
     (if \<not> next_layer < ms_layers shape then (next_layer, slices)
      else if \<not> lmb_runtime_role_allows (cn_roles (nodes ! nd)) (c_str (ms_segment_id shape)) (nd = owner) False
      then search_slices shape checkpoint_bytes nodes ctx sessions owner nds next_layer slices
      else let lo = bisect (slice_fits shape checkpoint_bytes ctx sessions (nd = owner)
                      (cn_ram_budget_bytes (nodes ! nd)) next_layer) next_layer (ms_layers shape)
           in if lo = next_layer
              then (if nd = owner then (next_layer, slices)
                    else search_slices shape checkpoint_bytes nodes ctx sessions owner nds next_layer slices)
              else search_slices shape checkpoint_bytes nodes ctx sessions owner nds lo
                     (slices @ [\<lparr>sl_node = nd, sl_layer_begin = next_layer, sl_layer_end = lo,
                        sl_state = LMB_PLAN_RESIDENT, sl_bytes_resident = 0, sl_bytes_to_fetch = 0\<rparr>]))"

text \<open>The weights each slice must receive; \<open>None\<close> is the early \<open>return -1\<close>.\<close>

definition slice_fetch ::
  "lmb_model_shape \<Rightarrow> lmb_cluster_node list \<Rightarrow> u32 \<Rightarrow> nat \<Rightarrow> lmb_slice \<Rightarrow> u64 option" where
  "slice_fetch shape nodes ctx owner s =
     (let cost = lmb_estimate_segment shape (sl_layer_begin s) (sl_layer_end s) ctx 1 in
      if \<not> rc_ok cost then None
      else if sl_node s = owner
      then (let edge = lmb_estimate_edge shape ctx 1 in
            if \<not> rc_ok edge then None else Some (lmb_size_add (rc_resident_bytes cost) (rc_resident_bytes edge)))
      else Some (rc_resident_bytes cost))"

fun fetch_slices ::
  "lmb_model_shape \<Rightarrow> lmb_cluster_node list \<Rightarrow> u32 \<Rightarrow> nat \<Rightarrow> lmb_slice list \<Rightarrow> u64 \<times> bool \<Rightarrow>
   (lmb_slice list \<times> u64 \<times> bool) option" where
  "fetch_slices shape nodes ctx owner [] st = Some ([], st)"
| "fetch_slices shape nodes ctx owner (s # ss) (fetch_bytes, known) =
     (if cn_has_checkpoint (nodes ! sl_node s)
      then map_option (\<lambda>(ss', st). (s # ss', st)) (fetch_slices shape nodes ctx owner ss (fetch_bytes, known))
      else case slice_fetch shape nodes ctx owner s of None \<Rightarrow> None
        | Some f \<Rightarrow>
            let fetch_bytes = lmb_size_add fetch_bytes f in
            if fetch_bytes = UINT64_MAX then None
            else map_option (\<lambda>(ss', st). (s\<lparr>sl_bytes_to_fetch := f\<rparr> # ss', st))
                   (fetch_slices shape nodes ctx owner ss
                      (fetch_bytes, if f \<noteq> 0 \<and> cn_lan_bps (nodes ! sl_node s) = 0 then False else known)))"

text \<open>One candidate (owner, direction): \<open>None\<close> is \<open>continue\<close>, \<open>Some None\<close> is \<open>return -1\<close>.\<close>

definition search_candidate ::
  "lmb_model_shape \<Rightarrow> u64 \<Rightarrow> lmb_cluster_node list \<Rightarrow> u32 \<Rightarrow> u32 \<Rightarrow> lmb_plan_goal \<Rightarrow> nat \<Rightarrow> bool \<Rightarrow>
   lmb_cluster_plan option option" where
  "search_candidate shape checkpoint_bytes nodes ctx sessions goal owner ascending =
     (let (next_layer, slices) = search_slices shape checkpoint_bytes nodes ctx sessions owner
            (search_order nodes owner ascending) 0 []
      in if next_layer \<noteq> ms_layers shape then None
         else case lmb_home_plan_budgets shape checkpoint_bytes nodes ctx
                ((plan_empty goal sessions True)\<lparr>pl_state := LMB_PLAN_RESIDENT, pl_edge_node := owner,
                   pl_slices := slices\<rparr>) of
             None \<Rightarrow> None
           | Some candidate \<Rightarrow>
               if pl_state candidate \<noteq> LMB_PLAN_RESIDENT then None
               else Some (map_option (\<lambda>(ss, fetch_bytes, known).
                        candidate\<lparr>pl_slices := ss, pl_fetch_bytes := fetch_bytes, pl_ready_known := known\<rparr>)
                      (fetch_slices shape nodes ctx owner (pl_slices candidate) (pl_fetch_bytes candidate, True))))"

fun search_plans ::
  "lmb_model_shape \<Rightarrow> u64 \<Rightarrow> lmb_cluster_node list \<Rightarrow> u32 \<Rightarrow> u32 \<Rightarrow> lmb_plan_goal \<Rightarrow> (nat \<times> bool) list \<Rightarrow>
   lmb_cluster_plan option option" where
  "search_plans shape checkpoint_bytes nodes ctx sessions goal [] = None"
| "search_plans shape checkpoint_bytes nodes ctx sessions goal ((owner, ascending) # rest) =
     (if \<not> lmb_runtime_role_allows (cn_roles (nodes ! owner)) (c_str (ms_segment_id shape)) True False
      then search_plans shape checkpoint_bytes nodes ctx sessions goal rest
      else case search_candidate shape checkpoint_bytes nodes ctx sessions goal owner ascending of
          None \<Rightarrow> search_plans shape checkpoint_bytes nodes ctx sessions goal rest
        | Some r \<Rightarrow> Some r)"

text \<open>The return code (\<open>True\<close> for 0) and the plan left in \<open>out\<close>.\<close>

definition lmb_home_plan_source ::
  "lmb_model_shape \<Rightarrow> u64 \<Rightarrow> lmb_cluster_node list \<Rightarrow> u32 \<Rightarrow> u32 \<Rightarrow> lmb_plan_goal \<Rightarrow> bool \<Rightarrow>
   bool \<times> lmb_cluster_plan" where
  "lmb_home_plan_source shape checkpoint_bytes nodes ctx sessions goal external_checkpoint =
     (let out = plan_empty goal sessions False in
      if checkpoint_bytes = 0 \<or> nodes = [] \<or> length nodes > LMB_CLUSTER_MAX_NODES \<or> sessions = 0 \<or>
         sessions > LMB_HOST_MAX_SESSIONS then (False, out)
      else let original = lmb_plan_cluster_source shape nodes ctx sessions goal external_checkpoint \<bind>
                 lmb_home_plan_budgets shape checkpoint_bytes nodes ctx;
               out = (case original of None \<Rightarrow> out | Some p \<Rightarrow> p)
           in if original \<noteq> None \<and> pl_state out = LMB_PLAN_RESIDENT then (True, out)
              else if \<not> (external_checkpoint \<or> list_ex cn_has_checkpoint nodes) \<or> ms_layers shape = 0 \<or>
                \<not> ms_sizing_verified shape then (False, out)
              else case search_plans shape checkpoint_bytes nodes ctx sessions goal
                     [(owner, ascending). owner \<leftarrow> [0..<length nodes], ascending \<leftarrow> [False, True]] of
                  None \<Rightarrow> (original \<noteq> None, out)
                | Some None \<Rightarrow> (False, out)
                | Some (Some p) \<Rightarrow> (True, p))"

section \<open>The effect of one more machine\<close>

datatype node_reason = NO_MACHINES | STILL_DOES_NOT_FIT | COMPLETES_COVERAGE | REDUCES_MISSING | ADDS_CAPACITY

record lmb_node_effect =
  ne_makes_runnable :: bool
  ne_missing_delta :: int
  ne_enters_critical_path :: bool
  ne_reason :: node_reason

definition lmb_node_effect_of ::
  "lmb_model_shape \<Rightarrow> lmb_cluster_node list \<Rightarrow> u32 \<Rightarrow> u32 \<Rightarrow> lmb_plan_goal \<Rightarrow> lmb_node_effect" where
  "lmb_node_effect_of m nodes ctx sessions goal =
     (let e = \<lparr>ne_makes_runnable = False, ne_missing_delta = 0, ne_enters_critical_path = False,
               ne_reason = NO_MACHINES\<rparr> in
      if nodes = [] then e
      else let before = (if length nodes > 1 then lmb_plan_cluster m (butlast nodes) ctx sessions goal else None)
           in case lmb_plan_cluster m nodes ctx sessions goal of
                None \<Rightarrow> e\<lparr>ne_reason := STILL_DOES_NOT_FIT\<rparr>
              | Some after \<Rightarrow>
                  let missing = (\<lambda>p. sint (pl_missing_bytes p)) in
                  case before of
                    Some b \<Rightarrow>
                      if pl_state b = LMB_PLAN_UNRUNNABLE
                      then (if pl_state after \<noteq> LMB_PLAN_UNRUNNABLE
                            then e\<lparr>ne_makes_runnable := True, ne_enters_critical_path := True,
                                   ne_reason := COMPLETES_COVERAGE, ne_missing_delta := missing b\<rparr>
                            else e\<lparr>ne_missing_delta := missing b - missing after, ne_reason := REDUCES_MISSING\<rparr>)
                      else e\<lparr>ne_reason := ADDS_CAPACITY\<rparr>
                  | None \<Rightarrow>
                      (if pl_state after \<noteq> LMB_PLAN_UNRUNNABLE
                       then e\<lparr>ne_makes_runnable := True, ne_enters_critical_path := True,
                              ne_reason := COMPLETES_COVERAGE\<rparr>
                       else e\<lparr>ne_reason := REDUCES_MISSING\<rparr>))"

end
