(* ===== verification/Cluster_Search.thy ===== *)
theory Cluster_Search
  imports Cluster
begin

text \<open>
  The bisection of the placement search finds the largest range that fits. The loop is right for any
  predicate that a shorter range keeps; reservations are such a predicate because every saturating
  operation of the planner is monotone.
\<close>

section \<open>Bisection\<close>

locale range_fit =
  fixes fits :: "u32 \<Rightarrow> bool" and lo hi :: u32
  assumes shorter: "lo < a \<Longrightarrow> a \<le> b \<Longrightarrow> b \<le> hi \<Longrightarrow> fits b \<Longrightarrow> fits a"
begin

lemma bisect_between:
  "lo \<le> l \<Longrightarrow> l \<le> h \<Longrightarrow> h \<le> hi \<Longrightarrow> l = lo \<or> fits l \<Longrightarrow> (\<And>e. h < e \<Longrightarrow> e \<le> hi \<Longrightarrow> \<not> fits e) \<Longrightarrow>
   l \<le> bisect fits l h \<and> bisect fits l h \<le> h \<and> (bisect fits l h = lo \<or> fits (bisect fits l h)) \<and>
   (\<forall>e. bisect fits l h < e \<longrightarrow> e \<le> hi \<longrightarrow> \<not> fits e)"
proof (induction "unat h - unat l" arbitrary: l h rule: less_induct)
  case less
  show ?case
  proof (cases "l < h")
    case False
    then have "l = h" using less.prems by simp
    then show ?thesis using less.prems by (simp add: bisect.simps [of fits])
  next
    case True
    let ?m = "bisect_mid l h"
    have B: "l < ?m" "?m \<le> h" "unat ?m = unat l + (unat h - unat l + 1) div 2"
      "unat (?m - 1) = unat l + (unat h - unat l + 1) div 2 - 1"
      using bisect_mid_bounds [OF True] by blast+
    define k where "k = (unat h - unat l + 1) div 2"
    have lt: "unat l < unat h" using True by (simp only: word_less_nat_alt)
    then have k: "0 < k" "unat l + k \<le> unat h" unfolding k_def by presburger+
    note K = B(3,4) [folded k_def]
    show ?thesis
    proof (cases "fits ?m")
      case fit: True
      have "unat h - unat ?m < unat h - unat l" unfolding K(1) using k by linarith
      note IH = less.hyps [OF this _ B(2) less.prems(3) disjI2 [OF fit] less.prems(5)]
      have eq: "bisect fits l h = bisect fits ?m h" using True fit by (subst bisect.simps) (simp only: Let_def if_True if_False)
      have "lo \<le> ?m" using less.prems(1) B(1) by simp
      note IH = IH [OF this]
      have "l \<le> bisect fits ?m h" using IH B(1) by (meson less_imp_le order_trans)
      with IH show ?thesis unfolding eq by blast
    next
      case no: False
      have m1: "l \<le> ?m - 1" "?m - 1 \<le> h" "unat (?m - 1) - unat l < unat h - unat l"
        "\<And>e. ?m - 1 < e \<Longrightarrow> ?m \<le> e"
        unfolding word_less_nat_alt word_le_nat_alt K using k by linarith+
      have no': "\<not> fits e" if "?m - 1 < e" "e \<le> hi" for e
        using no shorter [of ?m e] m1(4) [OF that(1)] that(2) B(1) less.prems(1) by (meson le_less_trans)
      have "?m - 1 \<le> hi" using m1(2) less.prems(3) by (rule order_trans)
      note IH = less.hyps [OF m1(3) less.prems(1) m1(1) this less.prems(4) no']
      have eq: "bisect fits l h = bisect fits l (?m - 1)" using True no by (subst bisect.simps) (simp only: Let_def if_True if_False)
      have "bisect fits l (?m - 1) \<le> h" using conjunct1 [OF conjunct2 [OF IH]] m1(2) by (rule order_trans)
      with IH show ?thesis unfolding eq by blast
    qed
  qed
qed

lemma bisect_largest:
  assumes "lo \<le> hi"
  shows "lo \<le> bisect fits lo hi \<and> bisect fits lo hi \<le> hi \<and> (bisect fits lo hi \<noteq> lo \<longrightarrow> fits (bisect fits lo hi)) \<and>
    (\<forall>e. bisect fits lo hi < e \<longrightarrow> e \<le> hi \<longrightarrow> \<not> fits e)"
proof -
  have "\<not> fits e" if "hi < e" "e \<le> hi" for e using that by simp
  from bisect_between [OF order_refl assms order_refl _ this] show ?thesis by auto
qed

end

section \<open>Monotone sizes\<close>

named_theorems mono_intros "monotone saturating sizes"

lemma le_UINT_MAX: "(v :: u64) \<le> UINT64_MAX"
  by (simp only: word_order.extremum)

lemma size_add_mono [mono_intros]:
  assumes "a \<le> a'" "b \<le> b'"
  shows "lmb_size_add a b \<le> lmb_size_add a' b'"
proof (cases "lmb_size_add a' b' = UINT64_MAX")
  case True
  then show ?thesis by (simp only: le_UINT_MAX)
next
  case False
  note X = size_add_exact [OF False]
  have s: "unat a + unat b \<le> unat a' + unat b'" using assms by (simp add: word_le_nat_alt add_mono)
  moreover have "unat a' + unat b' < 2 ^ 64" using X unat_u64_less [of "lmb_size_add a' b'"] by simp
  ultimately have "unat (lmb_size_add a b) = unat a + unat b" by (intro size_add_fits) simp
  with s X show ?thesis by (simp add: word_le_nat_alt)
qed

lemma size_mul_fits:
  assumes "a \<noteq> UINT64_MAX" "b \<noteq> UINT64_MAX" "unat a * unat b < 2 ^ 64"
  shows "unat (lmb_size_mul a b) = unat a * unat b"
proof -
  have "\<not> (b \<noteq> 0 \<and> a > UINT64_MAX div b)"
  proof
    assume "b \<noteq> 0 \<and> a > UINT64_MAX div b"
    then have "0 < unat b" "unat UINT64_MAX div unat b < unat a"
      by (simp_all only: word_less_nat_alt unat_div unat_gt_0) simp_all
    then have "unat UINT64_MAX < unat a * unat b" by (simp add: div_less_iff_less_mult)
    with assms(3) show False by (simp only: unat_UINT_MAX)
  qed
  then have "lmb_size_mul a b = a * b" using assms(1,2) by (simp only: lmb_size_mul_def simp_thms if_False)
  then show ?thesis using assms(3) by (simp add: unat_word_ariths)
qed

lemma size_mul_mono [mono_intros]:
  assumes "a \<le> a'" "b \<le> b'"
  shows "lmb_size_mul a b \<le> lmb_size_mul a' b'"
proof (cases "lmb_size_mul a' b' = UINT64_MAX")
  case True
  then show ?thesis by (simp only: le_UINT_MAX)
next
  case False
  note X = size_mul_exact [OF False]
  have s: "unat a * unat b \<le> unat a' * unat b'" using assms by (simp add: word_le_nat_alt mult_le_mono)
  moreover have "unat a' * unat b' < 2 ^ 64" using X unat_u64_less [of "lmb_size_mul a' b'"] by simp
  moreover have "a \<noteq> UINT64_MAX" "b \<noteq> UINT64_MAX" using X assms by (metis le_UINT_MAX order_antisym)+
  ultimately have "unat (lmb_size_mul a b) = unat a * unat b" by (intro size_mul_fits) simp_all
  with s X show ?thesis by (simp add: word_le_nat_alt)
qed

lemma size_add_ge: "a \<le> lmb_size_add a b"
proof (cases "lmb_size_add a b = UINT64_MAX")
  case True
  then show ?thesis by (simp only: le_UINT_MAX)
next
  case False
  from size_add_exact [OF False] show ?thesis by (simp add: word_le_nat_alt)
qed

lemma budget_add_mono [mono_intros]: "a \<le> a' \<Longrightarrow> b \<le> b' \<Longrightarrow> lmb_budget_add a b \<le> lmb_budget_add a' b'"
  unfolding lmb_budget_add_def by (rule size_add_mono)

lemma budget_mib_mono [mono_intros]:
  assumes "a \<le> b"
  shows "lmb_budget_mib a \<le> lmb_budget_mib b"
proof -
  let ?m = "push_bit 20 1 - 1 :: u64"
  have le: "lmb_budget_add a ?m \<le> lmb_budget_add b ?m" using assms by (intro mono_intros) simp_all
  show ?thesis
  proof (cases "lmb_budget_add b ?m = UINT64_MAX")
    case True
    then have "lmb_budget_mib b = UINT64_MAX" unfolding lmb_budget_mib_def Let_def by (simp only: if_True simp_thms)
    then show ?thesis by (simp only: le_UINT_MAX)
  next
    case False
    then have na: "lmb_budget_add a ?m \<noteq> UINT64_MAX" using le by (metis le_UINT_MAX order_antisym)
    show ?thesis
      unfolding lmb_budget_mib_def Let_def if_not_P [OF False] if_not_P [OF na] word_le_nat_alt unat_and_not_mask
      using le by (intro mult_le_mono1 div_le_mono) (simp add: word_le_nat_alt)
  qed
qed

lemma max_mono_word [mono_intros]:
  "a \<le> a' \<Longrightarrow> b \<le> b' \<Longrightarrow> (if a > b then a else b) \<le> (if a' > b' then a' else b')" for a :: u64
  by auto

lemma fold_add_grows:
  "fst st \<le> fst (fold (layer_add ctx) ls st) \<and> snd st \<le> snd (fold (layer_add ctx) ls st)"
proof (induction ls arbitrary: st)
  case (Cons l ls)
  show ?case
    using Cons.IH [of "layer_add ctx l st"] size_add_ge [of "fst st" "lm_resident_bytes l"]
      size_add_ge [of "snd st"] by (auto simp: layer_add_def intro: order_trans)
qed simp

section \<open>Reservations are monotone in the range\<close>

definition range_cost_le :: "lmb_range_cost \<Rightarrow> lmb_range_cost \<Rightarrow> bool" where
  "range_cost_le c d \<longleftrightarrow> rc_resident_bytes c \<le> rc_resident_bytes d \<and>
     rc_state_bytes c \<le> rc_state_bytes d \<and> rc_scratch_bytes c \<le> rc_scratch_bytes d \<and>
     (rc_ok d \<longrightarrow> rc_ok c)"

lemma ok_mono: "a \<le> (a' :: u64) \<Longrightarrow> a' \<noteq> UINT64_MAX \<Longrightarrow> a \<noteq> UINT64_MAX"
  by (metis le_UINT_MAX order_antisym)

lemma shape_range_extend:
  assumes "b \<le> e" "e \<le> e'"
  shows "\<exists>more. shape_range m b e' = shape_range m b e @ more"
proof -
  have "unat e' - unat b = (unat e - unat b) + (unat e' - unat e)"
    using assms by (simp add: word_le_nat_alt)
  then show ?thesis unfolding shape_range_def by (simp add: take_add)
qed

lemma contract_mono:
  assumes "b \<le> e" "e \<le> e'"
  shows "range_cost_le (estimate_contract m b e ctx sessions) (estimate_contract m b e' ctx sessions)"
proof -
  let ?ctx = "or_default ctx 4096"
  let ?st = "(ms_segment_fixed_bytes m, lmb_size_add (ms_session_fixed_bytes m)
      (lmb_size_mul (ms_session_token_bytes m) (ucast ?ctx)))"
  obtain more where more: "shape_range m b e' = shape_range m b e @ more"
    using shape_range_extend [OF assms] by blast
  obtain r s where f: "fold (layer_add ?ctx) (shape_range m b e) ?st = (r, s)" by fastforce
  obtain r' s' where f': "fold (layer_add ?ctx) (shape_range m b e') ?st = (r', s')" by fastforce
  have "fold (layer_add ?ctx) more (r, s) = (r', s')" using f f' by (simp add: more)
  then have le: "r \<le> r'" "s \<le> s'" using fold_add_grows [of "(r, s)" ?ctx more] by simp_all
  let ?k = "ucast (or_default sessions 1) :: u64"
  have k: "lmb_size_mul s ?k \<le> lmb_size_mul s' ?k" using le(2) by (intro mono_intros) simp_all
  have "lmb_size_add r (lmb_size_add (lmb_size_mul s ?k) t) \<le> lmb_size_add r' (lmb_size_add (lmb_size_mul s' ?k) t)" for t
    by (intro size_add_mono le(1) k order_refl)
  note okk = ok_mono [OF this]
  show ?thesis
  proof (cases "ms_memory_contract m \<noteq> 1 \<or> unat (ms_layers m) > LMB_PLAN_LAYER_MAX \<or> ms_max_context m = 0 \<or>
      ?ctx > ms_max_context m")
    case True
    then show ?thesis unfolding estimate_contract_def Let_def if_P [OF True] by (simp add: range_cost_le_def)
  next
    case False
    show ?thesis
      unfolding estimate_contract_def Let_def if_not_P [OF False] f f' prod.case range_cost_le_def
        lmb_range_cost.select_convs
      by (intro conjI impI le k order_refl) (erule okk)
  qed
qed

lemma history_mono:
  assumes "n \<le> n'"
  shows "range_cost_le (estimate_history m n ctx sessions) (estimate_history m n' ctx sessions)"
proof -
  have u: "(ucast n :: u64) \<le> ucast n'" using assms by (simp add: word_le_nat_alt)
  have m1: "lmb_size_mul a (ucast n) \<le> lmb_size_mul a (ucast n')" for a using u by (intro mono_intros) simp_all
  have kv: "lmb_kv_bytes m n c sessions \<le> lmb_kv_bytes m n' c sessions" for c
    unfolding lmb_kv_bytes_def Let_def using u by (intro mono_intros) simp_all
  have res: "lmb_size_add (lmb_size_mul a (ucast n)) (lmb_size_mul b (ucast n)) \<le>
      lmb_size_add (lmb_size_mul a (ucast n')) (lmb_size_mul b (ucast n'))" for a b
    by (intro size_add_mono m1)
  have live: "lmb_size_add (lmb_kv_bytes m n c sessions) t \<le> lmb_size_add (lmb_kv_bytes m n' c sessions) t" for c t
    by (intro size_add_mono kv) simp
  note ok = ok_mono [OF size_add_mono [OF res live]]
  show ?thesis
    unfolding range_cost_le_def estimate_history_def Let_def
      lmb_range_cost.select_convs
    by (intro conjI impI; (rule res kv order_refl | elim conjE, erule ok))
qed

lemma segment_mono:
  assumes "b < e" "e \<le> e'" "e' \<le> ms_layers m"
  shows "range_cost_le (lmb_estimate_segment m b e ctx sessions) (lmb_estimate_segment m b e' ctx sessions)"
proof -
  have b: "b < e'" "e \<le> ms_layers m" using assms by auto
  have "unat (e - b) \<le> unat (e' - b)"
    using assms(2) unat_sub [OF less_imp_le [OF assms(1)]] unat_sub [OF less_imp_le [OF b(1)]]
    by (simp add: word_le_nat_alt)
  then have n: "e - b \<le> e' - b" by (simp only: word_le_nat_alt)
  show ?thesis
  proof (cases "\<not> ms_sizing_verified m \<or> ms_layers m = 0 \<or> ms_hidden m = 0")
    case True
    then show ?thesis by (auto simp: lmb_estimate_segment_def range_cost_le_def)
  next
    case False
    then have g: "\<not> (\<not> ms_sizing_verified m \<or> ms_layers m = 0 \<or> b \<ge> e \<or> e > ms_layers m \<or> ms_hidden m = 0)"
      and g': "\<not> (\<not> ms_sizing_verified m \<or> ms_layers m = 0 \<or> b \<ge> e' \<or> e' > ms_layers m \<or> ms_hidden m = 0)"
      using assms b by auto
    show ?thesis
      unfolding lmb_estimate_segment_def if_not_P [OF g] if_not_P [OF g']
      using contract_mono [OF less_imp_le [OF assms(1)] assms(2), of m ctx sessions] history_mono [OF n, of m ctx sessions]
      by simp
  qed
qed

lemma checkpoint_floor_mono:
  assumes "b < e" "e \<le> e'" "e' \<le> layers"
  shows "lmb_checkpoint_floor n layers b e \<le> lmb_checkpoint_floor n layers b e'"
proof (cases "n = 0 \<or> layers = 0")
  case True
  then have "lmb_checkpoint_floor n layers b e' = UINT64_MAX" by (auto simp: lmb_checkpoint_floor_def)
  then show ?thesis by (simp only: le_UINT_MAX)
next
  case False
  have g': "\<not> (n = 0 \<or> layers = 0 \<or> b \<ge> e' \<or> e' > layers)" and g: "\<not> (n = 0 \<or> layers = 0 \<or> b \<ge> e \<or> e > layers)"
    using assms False by auto
  have le: "unat n * (unat e - unat b) div unat layers \<le> unat n * (unat e' - unat b) div unat layers"
    using assms(2) by (intro div_le_mono mult_le_mono2 diff_le_mono) (simp add: word_le_nat_alt)
  show ?thesis
    unfolding floor_share(1) [OF g] floor_share(1) [OF g']
    by (intro budget_add_mono order_refl, unfold word_le_nat_alt floor_share(2) [OF g] floor_share(2) [OF g'], rule le)
qed

lemma slice_fits_mono:
  assumes "b < e" "e \<le> e'" "e' \<le> ms_layers m" "slice_fits m ck ctx sessions edge budget b e'"
  shows "slice_fits m ck ctx sessions edge budget b e"
proof -
  let ?s = "lmb_estimate_segment m b e ctx sessions" and ?s' = "lmb_estimate_segment m b e' ctx sessions"
  let ?f = "lmb_checkpoint_floor ck (ms_layers m) b e" and ?f' = "lmb_checkpoint_floor ck (ms_layers m) b e'"
  note S = segment_mono [OF assms(1-3), of ctx sessions, unfolded range_cost_le_def]
  from assms(4) obtain r where r: "lmb_home_reservation_sessions m ck b e' ctx sessions edge = Some r"
    "hr_total_bytes r \<le> budget" by (auto simp: slice_fits_def split: option.splits)
  note R = reservation_SomeD [OF r(1)]
  have seg: "segment_budget ?s ?f \<le> segment_budget ?s' ?f'"
    unfolding segment_budget_def Let_def using S checkpoint_floor_mono [OF assms(1-3), of ck]
    by (intro mono_intros) simp_all
  let ?x = "if edge then edge_budget (lmb_estimate_edge m ctx sessions) sessions else 0"
  have tot: "lmb_budget_add (segment_budget ?s ?f) ?x \<le> hr_total_bytes r"
    using R seg by (auto intro: mono_intros split: if_splits)
  have top: "lmb_budget_add (segment_budget ?s ?f) ?x \<noteq> UINT64_MAX"
    using R by (intro ok_mono [OF tot]) blast
  note parts = budget_add_exact [OF top]
  have "lmb_home_reservation_sessions m ck b e ctx sessions edge =
      Some \<lparr>hr_segment_bytes = segment_budget ?s ?f, hr_edge_bytes = ?x,
            hr_total_bytes = lmb_budget_add (segment_budget ?s ?f) ?x\<rparr>"
    using R S parts top by (auto simp: lmb_home_reservation_sessions_def Let_def not_less split: if_splits)
  then show ?thesis using tot r(2) by (simp add: slice_fits_def)
qed

interpretation slice_range: range_fit "slice_fits m ck ctx sessions edge budget b" b "ms_layers m"
  for m ck ctx sessions edge budget b
  by unfold_locales (rule slice_fits_mono)

text \<open>A model of three equal layers of 100 MiB.\<close>

definition three_layers :: lmb_model_shape where
  "three_layers = \<lparr>ms_model_type = [], ms_segment_id = [], ms_layers = 3, ms_hidden = 8, ms_intermediate = 0,
     ms_moe_intermediate = 0, ms_experts = 0, ms_experts_per_tok = 0, ms_heads = 1, ms_kv_heads = 1,
     ms_vocab = 16, ms_bits_per_weight = 16, ms_disk_streaming = False, ms_sizing_verified = True,
     ms_memory_contract = 1, ms_max_context = 4096, ms_boundary_width = 0, ms_edge_resident_bytes = 1048576,
     ms_edge_scratch_fixed_bytes = 0, ms_segment_fixed_bytes = 0, ms_session_fixed_bytes = 0,
     ms_session_token_bytes = 0, ms_scratch_fixed_bytes = 0, ms_scratch_token_bytes = 0,
     ms_memory = replicate 3 \<lparr>lm_resident_bytes = 104857600, lm_state_fixed_bytes = 0,
       lm_state_token_bytes = 0, lm_state_context_limit = 0\<rparr>\<rparr>"

text \<open>For every node, the end the search gives it is the largest end whose reservation fits the
  node's memory: the bisection ends, stays in range, fits when it gives any layer, and nothing
  longer fits.\<close>

lemma slice_end_largest:
  assumes "next_layer \<le> ms_layers m"
  shows "let e = bisect (slice_fits m ck ctx sessions edge budget next_layer) next_layer (ms_layers m) in
    next_layer \<le> e \<and> e \<le> ms_layers m \<and>
    (e \<noteq> next_layer \<longrightarrow> slice_fits m ck ctx sessions edge budget next_layer e) \<and>
    (\<forall>longer. e < longer \<longrightarrow> longer \<le> ms_layers m \<longrightarrow> \<not> slice_fits m ck ctx sessions edge budget next_layer longer)"
  unfolding Let_def by (rule slice_range.bisect_largest [OF assms])

lemma slice_end_largest_witness:
  "bisect (slice_fits three_layers 314572800 128 1 False 471859200 0) 0 3 = 2 \<and>
   \<not> slice_fits three_layers 314572800 128 1 False 471859200 0 3"
proof -
  have b: "bisect (slice_fits three_layers 314572800 128 1 False 471859200 0) 0 (ms_layers three_layers) = 2"
    by code_simp
  have l: "ms_layers three_layers = 3" by (simp add: three_layers_def)
  have "(0 :: u32) \<le> ms_layers three_layers" by simp
  note T = slice_end_largest [OF this, of 314572800 128 1 False 471859200, unfolded Let_def b l]
  have "(2 :: u32) < 3" "(3 :: u32) \<le> 3" by (simp_all add: word_less_nat_alt)
  with T b l show ?thesis by simp
qed
end
