(* ===== verification/Planner_Claims.thy ===== *)
theory Planner_Claims
  imports Cluster_Search
begin

text \<open>
  What the sizing and admission arithmetic promises, over exact numbers: accepted estimates and
  reservations never wrapped, and the role lists are read field by field.
\<close>

text \<open>C28: An estimate the planner accepts is the exact cost of the range, with nothing wrapped or
  saturated, and the fit decision for any budget is the exact comparison: resident when the whole
  range fits, from disk when the format streams and the working set fits, otherwise unrunnable.\<close>

theorem plan_fit_exact:
  assumes "rc_ok (lmb_estimate_segment m b e ctx sessions)"
  shows "cost_exact (lmb_estimate_segment m b e ctx sessions) (segment_need m b e ctx sessions) \<and>
    b < e \<and> e \<le> ms_layers m \<and>
    lmb_plan_state_of m (lmb_estimate_segment m b e ctx sessions) budget =
      (if need_resident (segment_need m b e ctx sessions) \<le> unat budget then LMB_PLAN_RESIDENT
       else if ms_disk_streaming m \<and> need_working (segment_need m b e ctx sessions) \<le> unat budget then LMB_PLAN_DISK
       else LMB_PLAN_UNRUNNABLE)"
  using segment_exact [OF assms] plan_state_exact [OF conjunct1 [OF segment_exact [OF assms]] assms] by blast

lemma plan_fit_exact_witness:
  "rc_ok (lmb_estimate_segment three_layers 0 2 128 1) \<and>
   lmb_plan_state_of three_layers (lmb_estimate_segment three_layers 0 2 128 1) 209715200 = LMB_PLAN_RESIDENT \<and>
   need_resident (segment_need three_layers 0 2 128 1) = 209715200"
proof -
  have ok: "rc_ok (lmb_estimate_segment three_layers 0 2 128 1)" by code_simp
  have n: "need_resident (segment_need three_layers 0 2 128 1) = 209715200"
    by (simp add: three_layers_def segment_need_def contract_need_def need_resident_def shape_range_def
        nat_default_def Let_def sum_list_replicate)
  show ?thesis using plan_fit_exact [OF ok, of 209715200] ok n by simp
qed

text \<open>The reservation of a range is exact: each process budget is its formula over the exact needs,
  a whole number of mebibytes, and the total is their sum; the guard keeps at least the
  checkpoint's proportional share plus a twentieth of it for the range.\<close>

lemma reservation_exact:
  assumes "lmb_home_reservation_sessions m ck b e ctx sessions runs_edge = Some r"
  shows "unat (hr_segment_bytes r) = segment_reservation m ck b e ctx sessions \<and>
    unat (hr_edge_bytes r) = (if runs_edge then edge_reservation m ctx sessions else 0) \<and>
    unat (hr_total_bytes r) = unat (hr_segment_bytes r) + unat (hr_edge_bytes r) \<and>
    2 ^ 20 dvd unat (hr_total_bytes r) \<and>
    unat ck * (unat e - unat b) div unat (ms_layers m) + unat ck div 20 +
      rn_state (segment_need m b e ctx sessions) + rn_scratch (segment_need m b e ctx sessions) \<le> unat (hr_segment_bytes r) \<and>
    need_resident (segment_need m b e ctx sessions) \<le> unat (hr_segment_bytes r)"
proof -
  note R = reservation_parts [OF assms]
  have "2 ^ 20 dvd segment_reservation m ck b e ctx sessions" "2 ^ 20 dvd edge_reservation m ctx sessions"
    unfolding segment_reservation_def edge_reservation_def Let_def by (rule mib_up_bounds)+
  then have d: "2 ^ 20 dvd unat (hr_total_bytes r)" using R by (auto intro: dvd_add)
  let ?n = "segment_need m b e ctx sessions"
  have "max (checkpoint_floor (unat ck) (unat (ms_layers m)) (unat e - unat b) + 134217728 + (rn_state ?n + rn_scratch ?n))
      (rn_resident ?n + (rn_state ?n + rn_scratch ?n)) + 67108864 \<le> segment_reservation m ck b e ctx sessions"
    unfolding segment_reservation_def Let_def by (rule mib_up_bounds)
  then have "checkpoint_floor (unat ck) (unat (ms_layers m)) (unat e - unat b) + (rn_state ?n + rn_scratch ?n)
        \<le> segment_reservation m ck b e ctx sessions"
    "need_resident ?n \<le> segment_reservation m ck b e ctx sessions"
    unfolding need_resident_def by linarith+
  then show ?thesis using R d by (simp add: checkpoint_floor_def)
qed

lemma reservation_exact_witness:
  "\<exists>r. lmb_home_reservation_sessions three_layers 314572800 0 2 128 1 True = Some r \<and>
     unat (hr_total_bytes r) = 563085312 \<and> (2 :: nat) ^ 20 dvd 563085312"
proof -
  have "map_option hr_total_bytes (lmb_home_reservation_sessions three_layers 314572800 0 2 128 1 True) = Some 563085312"
    by code_simp
  then obtain r where r: "lmb_home_reservation_sessions three_layers 314572800 0 2 128 1 True = Some r"
    and t: "unat (hr_total_bytes r) = 563085312" by auto
  from reservation_exact [OF r] r t show ?thesis by auto
qed

text \<open>The role scanner is the comma-separated list it reads: an adapter is granted a role when its
  name is a field of the list, never by a prefix or a substring, and a list is valid when it is
  empty or every field is a non-empty name of at most 63 characters.\<close>

lemma role_lists_are_fields:
  "(lmb_runtime_role_has lst ident \<longleftrightarrow> ident \<noteq> [] \<and> ident \<in> set (comma_fields lst)) \<and>
   (lmb_runtime_role_list_valid lst \<longleftrightarrow>
      lst = [] \<or> list_all (\<lambda>f. 0 < length f \<and> length f \<le> 63 \<and> list_all role_char f) (comma_fields lst))"
proof
  show "lmb_runtime_role_has lst ident \<longleftrightarrow> ident \<noteq> [] \<and> ident \<in> set (comma_fields lst)"
    using role_has_fields [of ident lst] by (auto simp: lmb_runtime_role_has_def)
  obtain h t where f: "comma_fields lst = h # t" by (cases "comma_fields lst") auto
  show "lmb_runtime_role_list_valid lst \<longleftrightarrow>
      lst = [] \<or> list_all (\<lambda>f. 0 < length f \<and> length f \<le> 63 \<and> list_all role_char f) (comma_fields lst)"
    using role_list_scan_fields [of "[]" 0 lst] f by (auto simp: lmb_runtime_role_list_valid_def list_all_iff)
qed

text \<open>A process budget never reaches into the system reserve, never exceeds an explicit ceiling and
  is never zero, which the runtime would read as unlimited.\<close>

lemma process_budget_bounds:
  assumes "lmb_process_budget requested available reserve = Some budget"
  shows "0 < unat budget \<and> unat budget + unat reserve \<le> unat available \<and>
    (requested \<noteq> 0 \<longrightarrow> budget \<le> requested)"
proof -
  have g: "\<not> (available = 0 \<or> available = UINT64_MAX \<or> available \<le> reserve)"
    and b: "budget = (if requested \<noteq> 0 \<and> requested < available - reserve then requested else available - reserve)"
    using assms by (auto simp: lmb_process_budget_def Let_def split: if_split_asm)
  have lt: "reserve < available" using g by (simp add: not_le)
  then have u: "unat (available - reserve) = unat available - unat reserve" "unat reserve < unat available"
    by (simp_all add: unat_sub less_imp_le word_less_nat_alt)
  show ?thesis
  proof (cases "requested \<noteq> 0 \<and> requested < available - reserve")
    case True
    then have "0 < unat requested" "unat requested < unat (available - reserve)"
      by (simp_all add: unat_gt_0 word_less_nat_alt)
    then show ?thesis using True b u by simp
  next
    case False
    then have "budget = available - reserve" "requested \<noteq> 0 \<longrightarrow> available - reserve \<le> requested"
      unfolding b if_not_P [OF False] using False by auto
    then show ?thesis using u by simp
  qed
qed

lemma process_budget_bounds_witness:
  "lmb_process_budget 0 8589934592 2147483648 = Some 6442450944 \<and> 0 < (6442450944 :: nat)"
proof -
  have "lmb_process_budget 0 8589934592 2147483648 = Some 6442450944" by code_simp
  from process_budget_bounds [OF this] this show ?thesis by simp
qed

end
