(* ===== verification/Cluster_Plan.thy ===== *)
theory Cluster_Plan
  imports Cluster_Search
begin

text \<open>
  What an accepted plan promises: its slices tile the layers of the model, on distinct computers, one
  of which runs Edge, and each computer holds what its slice exactly needs.
\<close>

section \<open>Slices that tile a range\<close>

fun tiles :: "u32 \<Rightarrow> u32 \<Rightarrow> lmb_slice list \<Rightarrow> bool" where
  "tiles a z [] \<longleftrightarrow> a = z"
| "tiles a z (s # ss) \<longleftrightarrow> sl_layer_begin s = a \<and> a < sl_layer_end s \<and> tiles (sl_layer_end s) z ss"

lemma tiles_le: "tiles a z ss \<Longrightarrow> a \<le> z"
  by (induction ss arbitrary: a) (auto intro: less_imp_le order_trans)

lemma tiles_snoc [simp]:
  "tiles a z (ss @ [s]) \<longleftrightarrow> tiles a (sl_layer_begin s) ss \<and> sl_layer_begin s < sl_layer_end s \<and> sl_layer_end s = z"
  by (induction ss arbitrary: a) auto

lemma tiles_map:
  assumes "\<And>s. s \<in> set ss \<Longrightarrow> sl_layer_begin (f s) = sl_layer_begin s \<and> sl_layer_end (f s) = sl_layer_end s"
  shows "tiles a z (map f ss) \<longleftrightarrow> tiles a z ss"
  using assms by (induction ss arbitrary: a) auto

definition holds_layer :: "u32 \<Rightarrow> lmb_slice \<Rightarrow> bool" where
  "holds_layer l s \<longleftrightarrow> sl_layer_begin s \<le> l \<and> l < sl_layer_end s"

lemma tiles_outside: "tiles a z ss \<Longrightarrow> l < a \<Longrightarrow> s \<in> set ss \<Longrightarrow> \<not> holds_layer l s"
proof (induction ss arbitrary: a)
  case (Cons t ss)
  then have "l < sl_layer_end t" by (auto intro: less_trans)
  with Cons show ?case by (auto simp: holds_layer_def)
qed simp

lemma tiles_cover:
  "tiles a z ss \<Longrightarrow> a \<le> l \<Longrightarrow> l < z \<Longrightarrow> length (filter (holds_layer l) ss) = 1"
proof (induction ss arbitrary: a)
  case Nil
  then show ?case by simp
next
  case (Cons s ss)
  show ?case
  proof (cases "l < sl_layer_end s")
    case True
    have "filter (holds_layer l) ss = []"
      using tiles_outside [of _ z ss l] Cons.prems(1) True by (auto simp: filter_empty_conv)
    moreover have "holds_layer l s" using Cons.prems True by (simp add: holds_layer_def)
    ultimately show ?thesis by simp
  next
    case False
    then have "\<not> holds_layer l s" by (simp add: holds_layer_def)
    then show ?thesis using False Cons.IH [of "sl_layer_end s"] Cons.prems by simp
  qed
qed

section \<open>The proportional split\<close>

text \<open>What the pass keeps: the slices tile the layers handed out, on nodes of rising index before the
  ones still to come, and each one's state is the exact fit decision against its share of memory.\<close>

definition slice_decided :: "lmb_model_shape \<Rightarrow> u32 \<Rightarrow> u32 \<Rightarrow> (nat \<Rightarrow> u64) \<Rightarrow> lmb_slice \<Rightarrow> bool" where
  "slice_decided m ctx sessions room s \<longleftrightarrow>
     (let r = segment_need m (sl_layer_begin s) (sl_layer_end s) ctx sessions in
      sl_state s = (if need_resident r \<le> unat (room (sl_node s)) then LMB_PLAN_RESIDENT
        else if ms_disk_streaming m \<and> need_working r \<le> unat (room (sl_node s)) then LMB_PLAN_DISK
        else LMB_PLAN_UNRUNNABLE))"

definition split_inv :: "lmb_model_shape \<Rightarrow> u32 \<Rightarrow> u32 \<Rightarrow> (nat \<Rightarrow> u64) \<Rightarrow> nat \<Rightarrow> plan_progress \<Rightarrow> bool" where
  "split_inv m ctx sessions room bound p \<longleftrightarrow>
     tiles 0 (pp_assigned p) (pp_slices p) \<and> pp_assigned p \<le> ms_layers m \<and>
     sorted_wrt (<) (map sl_node (pp_slices p)) \<and>
     (\<forall>s \<in> set (pp_slices p). sl_node s < bound \<and> room (sl_node s) \<noteq> 0 \<and>
        slice_decided m ctx sessions room s)"

lemma split_inv_slice:
  assumes "plan_slice m nodes ctx sessions i budget layers p = Some q" "split_inv m ctx sessions room i p"
    "room i = budget" "budget \<noteq> 0"
  shows "split_inv m ctx sessions room (Suc i) q"
proof -
  let ?c = "lmb_estimate_segment m (pp_assigned p) (pp_assigned p + layers) ctx sessions"
  have ok: "rc_ok ?c"
  proof (rule ccontr)
    assume "\<not> rc_ok ?c"
    then have "plan_slice m nodes ctx sessions i budget layers p = None" by (simp add: plan_slice_def Let_def)
    with assms(1) show False by simp
  qed
  obtain s where q: "pp_slices q = pp_slices p @ [s]" "pp_assigned q = pp_assigned p + layers"
    and s: "sl_node s = i" "sl_layer_begin s = pp_assigned p" "sl_layer_end s = pp_assigned p + layers"
      "sl_state s = lmb_plan_state_of m ?c budget"
    using assms(1) ok unfolding plan_slice_def Let_def by (auto split: if_split_asm)
  note E = segment_exact [OF ok]
  have "slice_decided m ctx sessions room s"
    unfolding slice_decided_def Let_def s assms(3)
    by (rule plan_state_exact [OF conjunct1 [OF E] ok])
  then show ?thesis
    using assms(2-4) E s q unfolding split_inv_def
    by (auto simp: sorted_wrt_append intro: less_SucI)
qed

lemma split_inv_mono: "split_inv m ctx sessions room i p \<Longrightarrow> i \<le> j \<Longrightarrow> split_inv m ctx sessions room j p"
  unfolding split_inv_def by auto

lemma plan_assign_cases:
  assumes "plan_assign m nodes ctx sessions tb final ((i, b) # work) p = Some q"
  shows "q = p \<or> plan_assign m nodes ctx sessions tb final work p = Some q \<or>
    (b \<noteq> 0 \<and> (\<exists>layers p'. plan_slice m nodes ctx sessions i b layers p = Some p' \<and>
       plan_assign m nodes ctx sessions tb final work p' = Some q))"
proof (cases "pp_assigned p < ms_layers m \<and> b \<noteq> 0")
  case True
  then show ?thesis
    using assms unfolding plan_assign.simps Let_def
    by (simp only: split: if_split_asm) (auto simp only: bind_eq_Some_conv)
next
  case False
  then show ?thesis using assms by (simp only: plan_assign.simps split: if_split_asm) simp_all
qed

lemma split_inv_assign:
  "plan_assign m nodes ctx sessions tb final work p = Some q \<Longrightarrow> split_inv m ctx sessions room i p \<Longrightarrow>
   map fst work = [i..<n] \<Longrightarrow> i \<le> n \<Longrightarrow> (\<And>j b. (j, b) \<in> set work \<Longrightarrow> room j = b) \<Longrightarrow>
   split_inv m ctx sessions room n q"
proof (induction work arbitrary: i p)
  case Nil
  then show ?case by (auto dest: split_inv_mono)
next
  case (Cons w work)
  obtain j b where w: "w = (j, b)" by (cases w)
  then have i: "j = i" "i < n" "map fst work = [Suc i..<n]" 
    using Cons.prems(3) [symmetric] by (auto simp: upt_eq_Cons_conv)
  have rb: "room i = b" using Cons.prems(5) [of j b] w i by simp
  note IH = Cons.IH [OF _ _ i(3) Suc_leI [OF i(2)] Cons.prems(5)]
  have up: "split_inv m ctx sessions room (Suc i) p" using Cons.prems(2) by (rule split_inv_mono) simp
  let ?rest = "plan_assign m nodes ctx sessions tb final work"
  consider (skip) "?rest p = Some q" | (full) "q = p"
    | (slice) layers p' where "plan_slice m nodes ctx sessions i b layers p = Some p'" "?rest p' = Some q" "b \<noteq> 0"
    using plan_assign_cases [OF Cons.prems(1) [unfolded w i]] by blast
  then show ?case
  proof cases
    case skip
    then show ?thesis by (rule IH [OF _ up]) simp
  next
    case full
    then show ?thesis using split_inv_mono [OF Cons.prems(2) Cons.prems(4)] by simp
  next
    case slice
    show ?thesis by (rule IH [OF slice(2) split_inv_slice [OF slice(1) Cons.prems(2) rb slice(3)]]) simp
  qed
qed

section \<open>The owner of Edge\<close>

definition can_edge :: "lmb_model_shape \<Rightarrow> u64 \<Rightarrow> lmb_cluster_node \<Rightarrow> bool" where
  "can_edge m need n \<longleftrightarrow>
     lmb_runtime_role_allows (cn_roles n) (c_str (ms_segment_id m)) True False \<and> need \<le> cn_ram_budget_bytes n"

lemma edge_fold:
  "case fold (edge_better m need nodes) [0..<n] None of
     None \<Rightarrow> \<forall>i < n. \<not> can_edge m need (nodes ! i)
   | Some b \<Rightarrow> b < n \<and> can_edge m need (nodes ! b) \<and>
       (\<forall>i < n. can_edge m need (nodes ! i) \<longrightarrow> cn_ram_budget_bytes (nodes ! i) \<le> cn_ram_budget_bytes (nodes ! b))"
proof (induction n)
  case (Suc n)
  let ?f = "fold (edge_better m need nodes) [0..<n] None"
  have step: "fold (edge_better m need nodes) [0..<Suc n] None = edge_better m need nodes n ?f" by simp
  have better: "edge_better m need nodes n o' =
      (if \<not> can_edge m need (nodes ! n) then o' else case o' of None \<Rightarrow> Some n
        | Some b \<Rightarrow> if cn_ram_budget_bytes (nodes ! n) > cn_ram_budget_bytes (nodes ! b) then Some n else Some b)" for o'
    by (auto simp: edge_better_def can_edge_def Let_def not_less not_le)
  show ?case
  proof (cases ?f)
    case None
    then show ?thesis using Suc.IH unfolding step better by (auto simp: less_Suc_eq)
  next
    case (Some b)
    then show ?thesis using Suc.IH unfolding step better
      by (auto simp: less_Suc_eq not_less intro: less_imp_le order_trans)
  qed
qed simp

lemma best_edge:
  assumes "plan_best_edge m need nodes = Some b"
  shows "b < length nodes \<and> can_edge m need (nodes ! b) \<and>
    (\<forall>n \<in> set nodes. can_edge m need n \<longrightarrow> cn_ram_budget_bytes n \<le> cn_ram_budget_bytes (nodes ! b))"
  using edge_fold [where m = m and need = need and nodes = nodes and n = "length nodes"] assms
  unfolding plan_best_edge_def by (auto simp: all_set_conv_all_nth)

lemma role_allows_edge: "lmb_runtime_role_allows r i True h \<Longrightarrow> lmb_runtime_role_allows r i False h"
  by (auto simp: lmb_runtime_role_allows_def)

definition edge_share :: "lmb_model_shape \<Rightarrow> u32 \<Rightarrow> u32 \<Rightarrow> nat \<Rightarrow> nat \<Rightarrow> nat" where
  "edge_share m ctx sessions best i = (if i = best then need_resident (edge_need m ctx sessions) else 0)"

lemma plan_worst_resident: "plan_worst ss = LMB_PLAN_RESIDENT \<Longrightarrow> s \<in> set ss \<Longrightarrow> sl_state s = LMB_PLAN_RESIDENT"
  by (cases "sl_state s") (auto simp: plan_worst_def list_ex_iff split: if_split_asm)

lemma plan_cluster_parts:
  assumes "lmb_plan_cluster_source m nodes ctx sessions goal ext = Some p"
  obtains need q where "rc_ok (lmb_estimate_edge m ctx sessions)"
    "need = lmb_size_add (rc_resident_bytes (lmb_estimate_edge m ctx sessions))
       (lmb_size_add (rc_state_bytes (lmb_estimate_edge m ctx sessions)) (rc_scratch_bytes (lmb_estimate_edge m ctx sessions)))"
    "plan_best_edge m need nodes = Some (pl_edge_node p)"
    "pl_slices p = pp_slices q" "split_inv m ctx sessions (plan_effective m need (pl_edge_node p) nodes) (length nodes) q"
    "pp_assigned q = ms_layers m" "pl_hybrid p = 0" "pl_sessions p = or_default sessions 1"
    "pl_data_available p = (ext \<or> list_ex cn_has_checkpoint nodes)"
    "pl_state p = LMB_PLAN_RESIDENT \<longrightarrow> pl_data_available p \<and> plan_worst (pp_slices q) = LMB_PLAN_RESIDENT"
proof -
  let ?e = "lmb_estimate_edge m ctx sessions"
  let ?need = "lmb_size_add (rc_resident_bytes ?e) (lmb_size_add (rc_state_bytes ?e) (rc_scratch_bytes ?e))"
  have ok: "rc_ok ?e" using assms unfolding lmb_plan_cluster_source_def Let_def by (auto split: if_split_asm)
  obtain best where best: "plan_best_edge m ?need nodes = Some best"
    using assms unfolding lmb_plan_cluster_source_def Let_def by (auto split: if_split_asm option.split_asm)
  let ?eff = "map (plan_effective m ?need best nodes) [0..<length nodes]"
  let ?start = "\<lparr>pp_assigned = 0, pp_whole_resident = 0, pp_slices = [], pp_missing = 0, pp_fetch = 0\<rparr>"
  let ?work = "zip [0..<length nodes] ?eff"
  obtain tb final q where q: "plan_assign m nodes ctx sessions tb final ?work ?start = Some q"
    and as: "\<not> pp_assigned q < ms_layers m"
    and p: "pl_slices p = pp_slices q" "pl_edge_node p = best" "pl_hybrid p = 0" "pl_sessions p = or_default sessions 1"
      "pl_data_available p = (ext \<or> list_ex cn_has_checkpoint nodes)"
      "pl_state p = (if ext \<or> list_ex cn_has_checkpoint nodes then plan_worst (pp_slices q) else LMB_PLAN_UNRUNNABLE)"
    using assms best unfolding lmb_plan_cluster_source_def Let_def plan_empty_def
    by (auto split: if_split_asm option.split_asm)
  have start: "split_inv m ctx sessions (plan_effective m ?need best nodes) 0 ?start"
    by (simp add: split_inv_def)
  have "split_inv m ctx sessions (plan_effective m ?need best nodes) (length nodes) q"
    by (rule split_inv_assign [OF q start]) (auto simp: in_set_zip)
  then show ?thesis
    using that [of ?need q] ok best p as by (auto simp: split_inv_def split: if_splits)
qed

text \<open>The room of a node is what its memory leaves beside Edge.\<close>

lemma effective_room:
  assumes "rc_ok (lmb_estimate_edge m ctx sessions)"
    "need = lmb_size_add (rc_resident_bytes (lmb_estimate_edge m ctx sessions))
       (lmb_size_add (rc_state_bytes (lmb_estimate_edge m ctx sessions)) (rc_scratch_bytes (lmb_estimate_edge m ctx sessions)))"
    "can_edge m need (nodes ! best)"
    "plan_effective m need best nodes i \<noteq> 0"
  shows "unat (plan_effective m need best nodes i) + edge_share m ctx sessions best i = unat (cn_ram_budget_bytes (nodes ! i)) \<and>
    lmb_runtime_role_allows (cn_roles (nodes ! i)) (c_str (ms_segment_id m)) (i = best) False"
proof -
  have n: "unat need = need_resident (edge_need m ctx sessions)"
    unfolding assms(2) by (rule cost_sums(1) [OF edge_exact [OF assms(1)]])
  show ?thesis
  proof (cases "i = best")
    case True
    with assms(3) have r: "lmb_runtime_role_allows (cn_roles (nodes ! i)) (c_str (ms_segment_id m)) True False"
      "need \<le> cn_ram_budget_bytes (nodes ! i)" by (simp_all add: can_edge_def)
    then show ?thesis
      using True role_allows_edge [OF r(1)] n [symmetric]
      by (simp add: plan_effective_def edge_share_def unat_sub word_le_nat_alt)
  next
    case False
    then show ?thesis
      using assms(4) by (auto simp: plan_effective_def edge_share_def Let_def split: if_splits)
  qed
qed

lemma sorted_distinct_nodes: "sorted_wrt (<) (map f xs) \<Longrightarrow> distinct (map f xs)" for f :: "'a \<Rightarrow> nat"
  by (simp add: strict_sorted_iff)

section \<open>Concrete plans\<close>

definition house_node :: "u64 \<Rightarrow> bool \<Rightarrow> lmb_cluster_node" where
  "house_node ram checkpoint = \<lparr>cn_name = [], cn_addr = [], cn_ram_budget_bytes = ram, cn_vram_budget_bytes = 0,
     cn_disk_read_bps = 0, cn_lan_bps = 1000, cn_gpu_backends = 0, cn_threads = 4, cn_has_checkpoint = checkpoint,
     cn_roles = \<lparr>rr_known = 0, rr_segment = [], rr_edge = [], rr_hybrid = []\<rparr>\<rparr>"

text \<open>560 MiB and 320 MiB: the proportional split gives the second node two layers it cannot hold, the
  search gives it one.\<close>

definition house :: "lmb_cluster_node list" where
  "house = [house_node 587202560 True, house_node 335544320 False]"

text \<open>C27: An accepted proportional split hands every layer of the model to exactly one slice, in order
  and on distinct computers; Edge goes to the computer with most memory among those that may and
  can hold it; and a plan called resident is one where the exact resident need of each slice, plus
  Edge on its owner, is within that computer's memory, its declared roles allow it, and somebody has
  the weights.\<close>

theorem plan_cluster_sound:
  assumes "lmb_plan_cluster_source m nodes ctx sessions goal external_checkpoint = Some p"
  shows "tiles 0 (ms_layers m) (pl_slices p) \<and>
    (\<forall>l < ms_layers m. length (filter (holds_layer l) (pl_slices p)) = 1) \<and>
    distinct (map sl_node (pl_slices p)) \<and>
    pl_edge_node p < length nodes \<and>
    need_resident (edge_need m ctx sessions) \<le> unat (cn_ram_budget_bytes (nodes ! pl_edge_node p)) \<and>
    (\<forall>n \<in> set nodes. lmb_runtime_role_allows (cn_roles n) (c_str (ms_segment_id m)) True False \<longrightarrow>
       cn_ram_budget_bytes n \<le> cn_ram_budget_bytes (nodes ! pl_edge_node p)) \<and>
    (\<forall>s \<in> set (pl_slices p). sl_node s < length nodes \<and>
       lmb_runtime_role_allows (cn_roles (nodes ! sl_node s)) (c_str (ms_segment_id m)) (sl_node s = pl_edge_node p) False \<and>
       (pl_state p = LMB_PLAN_RESIDENT \<longrightarrow>
          need_resident (segment_need m (sl_layer_begin s) (sl_layer_end s) ctx sessions) +
            edge_share m ctx sessions (pl_edge_node p) (sl_node s) \<le> unat (cn_ram_budget_bytes (nodes ! sl_node s)))) \<and>
    (pl_state p = LMB_PLAN_RESIDENT \<longrightarrow> external_checkpoint \<or> (\<exists>n \<in> set nodes. cn_has_checkpoint n))"
proof -
  obtain need q where X: "rc_ok (lmb_estimate_edge m ctx sessions)"
    "need = lmb_size_add (rc_resident_bytes (lmb_estimate_edge m ctx sessions))
       (lmb_size_add (rc_state_bytes (lmb_estimate_edge m ctx sessions)) (rc_scratch_bytes (lmb_estimate_edge m ctx sessions)))"
    "plan_best_edge m need nodes = Some (pl_edge_node p)" "pl_slices p = pp_slices q"
    "split_inv m ctx sessions (plan_effective m need (pl_edge_node p) nodes) (length nodes) q"
    "pp_assigned q = ms_layers m" "pl_hybrid p = 0" "pl_sessions p = or_default sessions 1"
    "pl_data_available p = (external_checkpoint \<or> list_ex cn_has_checkpoint nodes)"
    "pl_state p = LMB_PLAN_RESIDENT \<longrightarrow> pl_data_available p \<and> plan_worst (pp_slices q) = LMB_PLAN_RESIDENT"
    using assms by (rule plan_cluster_parts)
  note B = best_edge [OF X(3)]
  let ?room = "plan_effective m need (pl_edge_node p) nodes"
  have t: "tiles 0 (ms_layers m) (pl_slices p)" and srt: "sorted_wrt (<) (map sl_node (pl_slices p))"
    using X(4-6) by (simp_all add: split_inv_def)
  have n: "unat need = need_resident (edge_need m ctx sessions)"
    unfolding X(2) by (rule cost_sums(1) [OF edge_exact [OF X(1)]])
  have each: "sl_node s < length nodes \<and>
       lmb_runtime_role_allows (cn_roles (nodes ! sl_node s)) (c_str (ms_segment_id m)) (sl_node s = pl_edge_node p) False \<and>
       (pl_state p = LMB_PLAN_RESIDENT \<longrightarrow>
          need_resident (segment_need m (sl_layer_begin s) (sl_layer_end s) ctx sessions) +
            edge_share m ctx sessions (pl_edge_node p) (sl_node s) \<le> unat (cn_ram_budget_bytes (nodes ! sl_node s)))"
    if s: "s \<in> set (pl_slices p)" for s
  proof -
    have S: "sl_node s < length nodes" "?room (sl_node s) \<noteq> 0" "slice_decided m ctx sessions ?room s"
      using s X(4,5) by (simp_all add: split_inv_def)
    note R = effective_room [OF X(1,2) conjunct1 [OF conjunct2 [OF B]] S(2)]
    have "sl_state s = LMB_PLAN_RESIDENT \<longrightarrow>
        need_resident (segment_need m (sl_layer_begin s) (sl_layer_end s) ctx sessions) \<le> unat (?room (sl_node s))"
      using S(3) by (simp add: slice_decided_def Let_def split: if_splits)
    moreover have "pl_state p = LMB_PLAN_RESIDENT \<longrightarrow> sl_state s = LMB_PLAN_RESIDENT"
      using X(10) plan_worst_resident [of "pp_slices q" s] s X(4) by auto
    ultimately show ?thesis using R S(1) by (auto simp flip: R [THEN conjunct1])
  qed
  have most: "cn_ram_budget_bytes x \<le> cn_ram_budget_bytes (nodes ! pl_edge_node p)"
    if "x \<in> set nodes" "lmb_runtime_role_allows (cn_roles x) (c_str (ms_segment_id m)) True False" for x
    using B that by (cases "need \<le> cn_ram_budget_bytes x") (auto simp: can_edge_def not_le intro: less_imp_le order_trans)
  have "\<forall>l < ms_layers m. length (filter (holds_layer l) (pl_slices p)) = 1"
    using tiles_cover [OF t] by simp
  then show ?thesis
    using t sorted_distinct_nodes [OF srt] B n each most X(9,10) by (auto simp: can_edge_def word_le_nat_alt list_ex_iff)
qed

lemma plan_cluster_sound_witness:
  "\<exists>p. lmb_plan_cluster_source three_layers house 128 1 LMB_GOAL_ONE_SESSION False = Some p \<and>
     distinct (map sl_node (pl_slices p)) \<and> (\<forall>l < 3. length (filter (holds_layer l) (pl_slices p)) = 1) \<and>
     map (\<lambda>s. (sl_node s, sl_layer_begin s, sl_layer_end s)) (pl_slices p) = [(0, 0, 1), (1, 1, 3)]"
proof -
  have "lmb_plan_cluster_source three_layers house 128 1 LMB_GOAL_ONE_SESSION False \<noteq> None \<and>
      map (\<lambda>s. (sl_node s, sl_layer_begin s, sl_layer_end s))
        (pl_slices (the (lmb_plan_cluster_source three_layers house 128 1 LMB_GOAL_ONE_SESSION False))) =
      [(0, 0, 1), (1, 1, 3)]"
    by code_simp
  then obtain p where p: "lmb_plan_cluster_source three_layers house 128 1 LMB_GOAL_ONE_SESSION False = Some p"
    and m: "map (\<lambda>s. (sl_node s, sl_layer_begin s, sl_layer_end s)) (pl_slices p) = [(0, 0, 1), (1, 1, 3)]"
    by auto
  have l: "ms_layers three_layers = 3" by (simp add: three_layers_def)
  note T = plan_cluster_sound [OF p, unfolded l]
  show ?thesis
    by (intro exI [of _ p] conjI p m T [THEN conjunct2, THEN conjunct1] T [THEN conjunct2, THEN conjunct2, THEN conjunct1])
qed

section \<open>A split against process budgets\<close>

text \<open>What a checked slice is: a node that may run it, the exact reservation, and the decision.\<close>

definition slice_exact_need :: "lmb_model_shape \<Rightarrow> u64 \<Rightarrow> u32 \<Rightarrow> lmb_cluster_plan \<Rightarrow> lmb_slice \<Rightarrow> nat" where
  "slice_exact_need m ck ctx p s =
     segment_reservation m ck (sl_layer_begin s) (sl_layer_end s) ctx (pl_sessions p) +
     (if sl_node s = pl_edge_node p then edge_reservation m ctx (pl_sessions p) else 0)"

definition slice_checked ::
  "lmb_model_shape \<Rightarrow> u64 \<Rightarrow> lmb_cluster_node list \<Rightarrow> u32 \<Rightarrow> lmb_cluster_plan \<Rightarrow> lmb_slice \<Rightarrow> bool" where
  "slice_checked m ck nodes ctx p s \<longleftrightarrow>
     sl_node s < length nodes \<and>
     lmb_runtime_role_allows (cn_roles (nodes ! sl_node s)) (c_str (ms_segment_id m)) (sl_node s = pl_edge_node p) False \<and>
     unat (sl_bytes_resident s) = slice_exact_need m ck ctx p s \<and>
     sl_state s = (if slice_exact_need m ck ctx p s \<le> unat (cn_ram_budget_bytes (nodes ! sl_node s))
       then LMB_PLAN_RESIDENT else LMB_PLAN_UNRUNNABLE)"

definition slice_deficit ::
  "lmb_model_shape \<Rightarrow> u64 \<Rightarrow> lmb_cluster_node list \<Rightarrow> u32 \<Rightarrow> lmb_cluster_plan \<Rightarrow> lmb_slice \<Rightarrow> nat" where
  "slice_deficit m ck nodes ctx p s =
     slice_exact_need m ck ctx p s - unat (cn_ram_budget_bytes (nodes ! sl_node s))"

definition budget_inv ::
  "lmb_model_shape \<Rightarrow> u64 \<Rightarrow> lmb_cluster_node list \<Rightarrow> u32 \<Rightarrow> lmb_cluster_plan \<Rightarrow> budget_progress \<Rightarrow> bool" where
  "budget_inv m ck nodes ctx plan p \<longleftrightarrow>
     tiles 0 (bp_next p) (bp_done p) \<and> distinct (map sl_node (bp_done p)) \<and>
     (\<forall>s \<in> set (bp_done p). slice_checked m ck nodes ctx plan s) \<and>
     bp_edges p = length (filter (\<lambda>s. sl_node s = pl_edge_node plan) (bp_done p)) \<and>
     rep (bp_missing p) (\<Sum>s\<leftarrow>bp_done p. slice_deficit m ck nodes ctx plan s)"

lemma slice_need_update [simp]:
  "slice_exact_need m ck ctx p (s\<lparr>sl_bytes_resident := x, sl_state := y\<rparr>) = slice_exact_need m ck ctx p s"
  "slice_deficit m ck nodes ctx p (s\<lparr>sl_bytes_resident := x, sl_state := y\<rparr>) = slice_deficit m ck nodes ctx p s"
  by (simp_all add: slice_exact_need_def slice_deficit_def)

lemma budget_slice_SomeD:
  assumes "budget_slice m ck nodes ctx plan s p = Some q" "pl_hybrid plan = 0"
  shows "\<exists>r. let node = nodes ! sl_node s; edge = (sl_node s = pl_edge_node plan);
      fits = (hr_total_bytes r \<le> cn_ram_budget_bytes node) in
    sl_node s < length nodes \<and> sl_layer_begin s = bp_next p \<and> sl_node s \<notin> sl_node ` set (bp_done p) \<and>
    lmb_runtime_role_allows (cn_roles node) (c_str (ms_segment_id m)) edge False \<and>
    lmb_home_reservation_sessions m ck (sl_layer_begin s) (sl_layer_end s) ctx (pl_sessions plan) edge = Some r \<and>
    q = \<lparr>bp_next = sl_layer_end s, bp_edges = bp_edges p + (if edge then 1 else 0),
         bp_missing = (if fits then bp_missing p
           else lmb_budget_add (bp_missing p) (hr_total_bytes r - cn_ram_budget_bytes node)),
         bp_done = bp_done p @ [s\<lparr>sl_bytes_resident := hr_total_bytes r,
           sl_state := (if fits then LMB_PLAN_RESIDENT else LMB_PLAN_UNRUNNABLE)\<rparr>]\<rparr>"
  using assms unfolding budget_slice_def Let_def
  by (simp only: simp_thms not_le split: if_split_asm option.split_asm) (auto simp: list_ex_iff)

lemma budget_slice_inv:
  assumes "budget_slice m ck nodes ctx plan s p = Some q" "pl_hybrid plan = 0" "budget_inv m ck nodes ctx plan p"
  shows "budget_inv m ck nodes ctx plan q"
proof -
  let ?node = "nodes ! sl_node s" and ?edge = "sl_node s = pl_edge_node plan"
  obtain r where B: "sl_node s < length nodes" "sl_layer_begin s = bp_next p" "sl_node s \<notin> sl_node ` set (bp_done p)"
    "lmb_runtime_role_allows (cn_roles ?node) (c_str (ms_segment_id m)) ?edge False"
    and r: "lmb_home_reservation_sessions m ck (sl_layer_begin s) (sl_layer_end s) ctx (pl_sessions plan) ?edge = Some r"
    and q: "q = \<lparr>bp_next = sl_layer_end s, bp_edges = bp_edges p + (if ?edge then 1 else 0),
         bp_missing = (if hr_total_bytes r \<le> cn_ram_budget_bytes ?node then bp_missing p
           else lmb_budget_add (bp_missing p) (hr_total_bytes r - cn_ram_budget_bytes ?node)),
         bp_done = bp_done p @ [s\<lparr>sl_bytes_resident := hr_total_bytes r,
           sl_state := (if hr_total_bytes r \<le> cn_ram_budget_bytes ?node then LMB_PLAN_RESIDENT else LMB_PLAN_UNRUNNABLE)\<rparr>]\<rparr>"
    using budget_slice_SomeD [OF assms(1,2)] unfolding Let_def by blast
  have tot: "unat (hr_total_bytes r) = slice_exact_need m ck ctx plan s"
    using reservation_parts [OF r] by (simp add: slice_exact_need_def)
  have lt: "sl_layer_begin s < sl_layer_end s"
    using reservation_SomeD [OF r] segment_exact [of m "sl_layer_begin s" "sl_layer_end s" ctx "pl_sessions plan"] by blast
  have fits: "hr_total_bytes r \<le> cn_ram_budget_bytes ?node \<longleftrightarrow>
      slice_exact_need m ck ctx plan s \<le> unat (cn_ram_budget_bytes ?node)"
    by (simp only: word_le_nat_alt tot)
  let ?t = "s\<lparr>sl_bytes_resident := hr_total_bytes r,
      sl_state := (if hr_total_bytes r \<le> cn_ram_budget_bytes ?node then LMB_PLAN_RESIDENT else LMB_PLAN_UNRUNNABLE)\<rparr>"
  have checked: "slice_checked m ck nodes ctx plan ?t"
    unfolding slice_checked_def slice_need_update using B tot fits by simp
  have missing: "rep (bp_missing q) (\<Sum>x\<leftarrow>bp_done q. slice_deficit m ck nodes ctx plan x)"
  proof (cases "hr_total_bytes r \<le> cn_ram_budget_bytes ?node")
    case True
    then have "slice_deficit m ck nodes ctx plan s = 0" using fits by (simp add: slice_deficit_def)
    then show ?thesis using assms(3) True by (simp add: q budget_inv_def)
  next
    case False
    then have "unat (hr_total_bytes r - cn_ram_budget_bytes ?node) = slice_deficit m ck nodes ctx plan s"
      using tot by (simp add: slice_deficit_def unat_sub)
    then have "rep (hr_total_bytes r - cn_ram_budget_bytes ?node) (slice_deficit m ck nodes ctx plan s)"
      by (simp add: rep_def)
    from rep_budget_add [OF _ this] show ?thesis
      using assms(3) False by (simp add: q budget_inv_def)
  qed
  show ?thesis
    using assms(3) B(2,3) checked missing lt by (auto simp: budget_inv_def q)
qed

lemma budget_slices_inv:
  "budget_slices m ck nodes ctx plan ss p = Some q \<Longrightarrow> pl_hybrid plan = 0 \<Longrightarrow> budget_inv m ck nodes ctx plan p \<Longrightarrow>
   budget_inv m ck nodes ctx plan q"
  by (induction ss arbitrary: p) (auto simp: bind_eq_Some_conv intro: budget_slice_inv)

definition plan_checked :: "lmb_model_shape \<Rightarrow> u64 \<Rightarrow> lmb_cluster_node list \<Rightarrow> u32 \<Rightarrow> lmb_cluster_plan \<Rightarrow> bool" where
  "plan_checked m ck nodes ctx p \<longleftrightarrow>
     tiles 0 (ms_layers m) (pl_slices p) \<and> distinct (map sl_node (pl_slices p)) \<and>
     length (filter (\<lambda>s. sl_node s = pl_edge_node p) (pl_slices p)) = 1 \<and>
     (\<forall>s \<in> set (pl_slices p). slice_checked m ck nodes ctx p s) \<and>
     rep (pl_missing_bytes p) (\<Sum>s\<leftarrow>pl_slices p. slice_deficit m ck nodes ctx p s) \<and>
     pl_state p = (if pl_missing_bytes p \<noteq> 0 then LMB_PLAN_UNRUNNABLE else LMB_PLAN_RESIDENT)"

lemma plan_need_update [simp]:
  "slice_exact_need m ck ctx (p\<lparr>pl_slices := a, pl_missing_bytes := b, pl_missing_nodes := c, pl_state := d\<rparr>) =
   slice_exact_need m ck ctx p"
  "slice_exact_need m ck ctx (p\<lparr>pl_slices := a, pl_fetch_bytes := e, pl_ready_known := f\<rparr>) = slice_exact_need m ck ctx p"
  by (simp_all add: slice_exact_need_def fun_eq_iff)

lemma plan_budgets_sound:
  assumes "lmb_home_plan_budgets m ck nodes ctx plan = Some p" "pl_hybrid plan = 0"
  shows "plan_checked m ck nodes ctx p \<and> pl_data_available plan \<and>
    pl_data_available p \<and> pl_edge_node p = pl_edge_node plan \<and> pl_sessions p = pl_sessions plan"
proof -
  let ?start = "\<lparr>bp_next = 0, bp_edges = 0, bp_missing = 0, bp_done = []\<rparr>"
  obtain q nn where q: "budget_slices m ck nodes ctx plan (pl_slices plan) ?start = Some q"
    and g: "bp_next q = ms_layers m" "bp_edges q = 1" "pl_data_available plan"
    and p: "p = plan\<lparr>pl_slices := bp_done q, pl_missing_bytes := bp_missing q, pl_missing_nodes := nn,
      pl_state := (if bp_missing q \<noteq> 0 then LMB_PLAN_UNRUNNABLE else LMB_PLAN_RESIDENT)\<rparr>"
    using assms unfolding lmb_home_plan_budgets_def Let_def
    by (simp only: simp_thms split: if_split_asm option.split_asm) auto
  have "budget_inv m ck nodes ctx plan ?start" by (simp add: budget_inv_def rep_def)
  from budget_slices_inv [OF q assms(2) this] show ?thesis
    using g unfolding p plan_checked_def budget_inv_def slice_checked_def slice_deficit_def
    by simp
qed

section \<open>The search\<close>

lemma fetch_slices_keep:
  "fetch_slices m nodes ctx owner ss st = Some (ts, r) \<Longrightarrow>
   \<exists>f. ts = map (\<lambda>(s, b). s\<lparr>sl_bytes_to_fetch := b\<rparr>) (zip ss f) \<and> length f = length ss"
proof (induction ss arbitrary: st ts r)
  case (Cons s ss)
  obtain a k where st: "st = (a, k)" by (cases st)
  from Cons.prems obtain st' ts' b where X: "fetch_slices m nodes ctx owner ss st' = Some (ts', r)"
    "ts = s\<lparr>sl_bytes_to_fetch := b\<rparr> # ts'"
    unfolding st
    by (auto simp: Let_def split: if_split_asm option.split_asm intro: that [of _ _ "sl_bytes_to_fetch s"])
  from Cons.IH [OF X(1)] obtain f where
    "ts' = map (\<lambda>(s, b). s\<lparr>sl_bytes_to_fetch := b\<rparr>) (zip ss f)" "length f = length ss" by blast
  with X(2) show ?case by (intro exI [of _ "b # f"]) simp
qed simp

lemma tiles_fetch:
  "length f = length ss \<Longrightarrow> tiles a z (map (\<lambda>(s, b). s\<lparr>sl_bytes_to_fetch := b\<rparr>) (zip ss f)) = tiles a z ss"
  by (induction f ss arbitrary: a rule: list_induct2) simp_all

lemma map_fetch:
  assumes "length f = length ss" "\<And>s b. g (s\<lparr>sl_bytes_to_fetch := b\<rparr>) = g s"
  shows "map g (map (\<lambda>(s, b). s\<lparr>sl_bytes_to_fetch := b\<rparr>) (zip ss f)) = map g ss"
  using assms by (induction f ss rule: list_induct2) simp_all

lemma slice_fetch_update [simp]:
  "slice_exact_need m ck ctx p (s\<lparr>sl_bytes_to_fetch := x\<rparr>) = slice_exact_need m ck ctx p s"
  "slice_deficit m ck nodes ctx p (s\<lparr>sl_bytes_to_fetch := x\<rparr>) = slice_deficit m ck nodes ctx p s"
  "slice_checked m ck nodes ctx p (s\<lparr>sl_bytes_to_fetch := x\<rparr>) = slice_checked m ck nodes ctx p s"
  by (simp_all add: slice_exact_need_def slice_deficit_def slice_checked_def)

lemma plan_checked_fetch:
  assumes "plan_checked m ck nodes ctx p" "length f = length (pl_slices p)"
  shows "plan_checked m ck nodes ctx (p\<lparr>pl_slices := map (\<lambda>(s, b). s\<lparr>sl_bytes_to_fetch := b\<rparr>) (zip (pl_slices p) f),
    pl_fetch_bytes := x, pl_ready_known := y\<rparr>)"
proof -
  let ?ts = "map (\<lambda>(s, b). s\<lparr>sl_bytes_to_fetch := b\<rparr>) (zip (pl_slices p) f)"
  have len: "length (filter P xs) = sum_list (map (\<lambda>x. if P x then 1 else 0) xs)" for P and xs :: "lmb_slice list"
    by (induction xs) auto
  have m: "map sl_node ?ts = map sl_node (pl_slices p)"
    "map (\<lambda>s. if sl_node s = e then 1 else 0 :: nat) ?ts = map (\<lambda>s. if sl_node s = e then 1 else 0) (pl_slices p)"
    "map (slice_checked m ck nodes ctx p) ?ts = map (slice_checked m ck nodes ctx p) (pl_slices p)"
    "map (slice_deficit m ck nodes ctx p) ?ts = map (slice_deficit m ck nodes ctx p) (pl_slices p)" for e
    by (rule map_fetch [OF assms(2)], simp)+
  have up: "slice_checked m ck nodes ctx (p\<lparr>pl_slices := a, pl_fetch_bytes := x, pl_ready_known := y\<rparr>) =
      slice_checked m ck nodes ctx p"
    "slice_deficit m ck nodes ctx (p\<lparr>pl_slices := a, pl_fetch_bytes := x, pl_ready_known := y\<rparr>) =
      slice_deficit m ck nodes ctx p" for a
    by (simp_all add: slice_checked_def slice_deficit_def fun_eq_iff)
  show ?thesis
    using assms(1) unfolding plan_checked_def up
    by (simp add: tiles_fetch [OF assms(2)] m len del: map_map)
       (auto dest: set_zip_leftD)
qed

lemma search_plans_SomeD:
  "search_plans m ck nodes ctx sessions goal cs = Some r \<Longrightarrow>
   \<exists>owner ascending. search_candidate m ck nodes ctx sessions goal owner ascending = Some r"
proof (induction cs)
  case (Cons c cs)
  then show ?case by (cases c) (auto split: if_split_asm option.split_asm)
qed simp

lemma search_candidate_sound:
  assumes "search_candidate m ck nodes ctx sessions goal owner ascending = Some (Some p)"
  shows "plan_checked m ck nodes ctx p \<and> pl_state p = LMB_PLAN_RESIDENT \<and> pl_sessions p = sessions"
proof -
  obtain slices cand ss fb known where
    b: "lmb_home_plan_budgets m ck nodes ctx ((plan_empty goal sessions True)\<lparr>pl_state := LMB_PLAN_RESIDENT,
          pl_edge_node := owner, pl_slices := slices\<rparr>) = Some cand"
    and res: "pl_state cand = LMB_PLAN_RESIDENT"
    and f: "fetch_slices m nodes ctx owner (pl_slices cand) (pl_fetch_bytes cand, True) = Some (ss, fb, known)"
    and p: "p = cand\<lparr>pl_slices := ss, pl_fetch_bytes := fb, pl_ready_known := known\<rparr>"
    using assms unfolding search_candidate_def Let_def
    by (auto split: prod.split_asm if_split_asm option.split_asm)
  note C = plan_budgets_sound [OF b]
  obtain bs where bs: "ss = map (\<lambda>(s, b). s\<lparr>sl_bytes_to_fetch := b\<rparr>) (zip (pl_slices cand) bs)"
    "length bs = length (pl_slices cand)" using fetch_slices_keep [OF f] by blast
  have "plan_checked m ck nodes ctx p"
    unfolding p bs(1) by (rule plan_checked_fetch [OF _ bs(2)]) (use C in \<open>simp add: plan_empty_def\<close>)
  then show ?thesis using C res by (simp add: p plan_empty_def)
qed

lemma plan_checked_resident:
  assumes "plan_checked m ck nodes ctx p" "pl_state p = LMB_PLAN_RESIDENT" "s \<in> set (pl_slices p)"
  shows "slice_exact_need m ck ctx p s \<le> unat (cn_ram_budget_bytes (nodes ! sl_node s))"
proof -
  have z: "pl_missing_bytes p = 0" using assms(1,2) by (auto simp: plan_checked_def split: if_splits)
  then have "(\<Sum>s\<leftarrow>pl_slices p. slice_deficit m ck nodes ctx p s) = 0"
    using assms(1) by (auto simp: plan_checked_def rep_def)
  then have "slice_deficit m ck nodes ctx p s = 0" using assms(3) by auto
  then show ?thesis by (simp add: slice_deficit_def)
qed

text \<open>C22: Whatever plan the household planner accepts, the proportional one or one the bounded search
  found, its slices tile the model on distinct computers, exactly one of which is the Edge owner;
  every computer's roles allow its slice; the bytes and the state of each slice are the exact
  reservation and its comparison with that computer's memory; the missing bytes are the exact sum of
  the deficits or saturated. In a plan called resident every reservation fits, and some source has
  the checkpoint. Every layer is held once.\<close>

theorem home_plan_sound:
  assumes "lmb_home_plan_source m ck nodes ctx sessions goal external_checkpoint = (True, p)"
  shows "plan_checked m ck nodes ctx p \<and>
    (\<forall>l < ms_layers m. length (filter (holds_layer l) (pl_slices p)) = 1) \<and>
    (external_checkpoint \<or> (\<exists>n \<in> set nodes. cn_has_checkpoint n)) \<and> pl_sessions p = sessions \<and>
    (pl_state p = LMB_PLAN_RESIDENT \<longrightarrow>
       (\<forall>s \<in> set (pl_slices p). slice_exact_need m ck ctx p s \<le> unat (cn_ram_budget_bytes (nodes ! sl_node s))))"
proof -
  let ?original = "lmb_plan_cluster_source m nodes ctx sessions goal external_checkpoint \<bind>
      lmb_home_plan_budgets m ck nodes ctx"
  have s0: "sessions \<noteq> 0" using assms by (auto simp: lmb_home_plan_source_def Let_def split: if_split_asm)
  have "?original = Some p \<or> ((external_checkpoint \<or> list_ex cn_has_checkpoint nodes) \<and>
      (\<exists>owner ascending. search_candidate m ck nodes ctx sessions goal owner ascending = Some (Some p)))"
    using assms search_plans_SomeD [of m ck nodes ctx sessions goal]
    unfolding lmb_home_plan_source_def Let_def
    by (simp only: prod.inject simp_thms split: if_split_asm option.split_asm) blast+
  then have "plan_checked m ck nodes ctx p \<and> pl_sessions p = sessions \<and>
      (external_checkpoint \<or> list_ex cn_has_checkpoint nodes)"
  proof (elim disjE conjE exE)
    assume "?original = Some p"
    then obtain c where c: "lmb_plan_cluster_source m nodes ctx sessions goal external_checkpoint = Some c"
      and b: "lmb_home_plan_budgets m ck nodes ctx c = Some p" by (auto simp: bind_eq_Some_conv)
    from c obtain need q where X: "pl_hybrid c = 0" "pl_sessions c = or_default sessions 1"
      "pl_data_available c = (external_checkpoint \<or> list_ex cn_has_checkpoint nodes)"
      by (rule plan_cluster_parts)
    from plan_budgets_sound [OF b X(1)] X s0 show ?thesis by (simp add: or_default_def)
  qed (use search_candidate_sound in blast)+
  moreover have "tiles 0 (ms_layers m) (pl_slices p)" using calculation by (simp add: plan_checked_def)
  ultimately show ?thesis
    using plan_checked_resident tiles_cover [of 0 "ms_layers m" "pl_slices p"] by (auto simp: list_ex_iff)
qed

lemma home_plan_sound_witness:
  "\<exists>p. lmb_home_plan_source three_layers 314572800 house 128 1 LMB_GOAL_ONE_SESSION False = (True, p) \<and>
     pl_state p = LMB_PLAN_RESIDENT \<and> plan_checked three_layers 314572800 house 128 p \<and>
     map (\<lambda>s. (sl_node s, sl_layer_begin s, sl_layer_end s)) (pl_slices p) = [(0, 0, 2), (1, 2, 3)]"
proof -
  let ?r = "lmb_home_plan_source three_layers 314572800 house 128 1 LMB_GOAL_ONE_SESSION False"
  let ?view = "\<lambda>p. (pl_state p, map (\<lambda>s. (sl_node s, sl_layer_begin s, sl_layer_end s)) (pl_slices p))"
  have "map_prod (\<lambda>b. b) ?view ?r = (True, LMB_PLAN_RESIDENT, [(0, 0, 2), (1, 2, 3)])"
    by code_simp
  then obtain p where p: "?r = (True, p)" and m: "pl_state p = LMB_PLAN_RESIDENT"
      "map (\<lambda>s. (sl_node s, sl_layer_begin s, sl_layer_end s)) (pl_slices p) = [(0, 0, 2), (1, 2, 3)]"
    by (cases ?r) simp
  show ?thesis by (intro exI [of _ p] conjI p m) (use home_plan_sound [OF p] in \<open>simp only: simp_thms\<close>)
qed

end
