(* ===== verification/Compute_Broker.thy ===== *)
theory Compute_Broker
  imports Lumabri_Prelude
begin

text \<open>
  The permit broker of \<^verbatim>\<open>src/runtime/lumabri_compute_broker.h\<close>: one thread serves up to 32 local connections,
  each asking for the machine's single compute permit. A round of \<^verbatim>\<open>lmb_compute_serve\<close> is one step of
  the model: poll, accept, the scan over the clients, and the grant. What the kernel answers in a round
  (readiness, received bytes, the accepted descriptor, whether the grant byte went out) and the clock
  are the input of the step.
\<close>

section \<open>The code\<close>

abbreviation LMB_COMPUTE_PENDING_MAX :: nat where "LMB_COMPUTE_PENDING_MAX \<equiv> 32"

record LmbComputeClient =
  cc_fd :: "nat option"
  cc_state :: nat
  cc_request :: bytes
  cc_ticket :: u64
  cc_deadline :: u64

definition lmb_compute_drop :: LmbComputeClient where
  "lmb_compute_drop = \<lparr>cc_fd = None, cc_state = 0, cc_request = [], cc_ticket = 0, cc_deadline = 0\<rparr>"

record LmbComputeBroker =
  cb_clients :: "LmbComputeClient list"
  cb_ticket :: u64
  cb_queued :: u32
  cb_active :: u32
  cb_grants :: u64

datatype recv_result = RecvAgain | RecvClosed | RecvBytes bytes

record client_events =
  ev_hup :: bool
  ev_in :: "recv_result option"

record broker_round =
  br_now :: u64
  br_accept :: "(nat \<times> bool) option"
  br_events :: "nat \<Rightarrow> client_events"
  br_sent :: bool

text \<open>Before the loop: every slot is free.\<close>

definition compute_serve_start :: LmbComputeBroker where
  "compute_serve_start =
     \<lparr>cb_clients = replicate LMB_COMPUTE_PENDING_MAX lmb_compute_drop, cb_ticket = 0, cb_queued = 0, cb_active = 0, cb_grants = 0\<rparr>"

text \<open>An accepted descriptor that could be prepared and belongs to the same user takes the first free slot;
  without one it is closed.\<close>

fun accept_into :: "nat \<Rightarrow> u64 \<Rightarrow> LmbComputeClient list \<Rightarrow> LmbComputeClient list" where
  "accept_into fd now [] = []"
| "accept_into fd now (c # cs) =
     (if cc_fd c = None then c\<lparr>cc_fd := Some fd, cc_deadline := now + 2000\<rparr> # cs else c # accept_into fd now cs)"

definition serve_accept :: "broker_round \<Rightarrow> LmbComputeClient list \<Rightarrow> LmbComputeClient list" where
  "serve_accept r cs =
     (case br_accept r of Some (fd, True) \<Rightarrow> accept_into fd (br_now r) cs | _ \<Rightarrow> cs)"

definition request_wait :: "bytes \<Rightarrow> u32" where
  "request_wait req = fold (\<lambda>j wait. wait OR push_bit (8 * j) (ucast (req ! (4 + j)))) [0..<4] 0"

text \<open>What the input of one client does: the client afterwards and the last ticket.\<close>

definition serve_input :: "broker_round \<Rightarrow> recv_result \<Rightarrow> LmbComputeClient \<Rightarrow> u64 \<Rightarrow> LmbComputeClient \<times> u64" where
  "serve_input r rc c ticket =
     (if cc_state c \<noteq> 0 then (lmb_compute_drop, ticket)
      else case rc of
        RecvAgain \<Rightarrow> (c, ticket)
      | RecvClosed \<Rightarrow> (lmb_compute_drop, ticket)
      | RecvBytes b \<Rightarrow>
          let b = take (8 - length (cc_request c)) b
          in if b = [] then (lmb_compute_drop, ticket)
             else let c = c\<lparr>cc_request := cc_request c @ b\<rparr>
                  in if length (cc_request c) = 8
                     then let wait = request_wait (cc_request c)
                          in if take 4 (cc_request c) \<noteq> [0x4C, 0x43, 0x50, 1] \<or> wait = 0 \<or> wait > 300000 \<or> ticket = UINT64_MAX
                             then (lmb_compute_drop, ticket)
                             else (c\<lparr>cc_state := 1, cc_ticket := ticket + 1, cc_deadline := br_now r + ucast wait\<rparr>, ticket + 1)
                     else (c, ticket))"

definition serve_client :: "broker_round \<Rightarrow> client_events \<Rightarrow> LmbComputeClient \<Rightarrow> u64 \<Rightarrow> LmbComputeClient \<times> u64" where
  "serve_client r ev c ticket =
     (if cc_fd c = None then (c, ticket)
      else if ev_hup ev \<or> cc_state c \<noteq> 2 \<and> br_now r \<ge> cc_deadline c then (lmb_compute_drop, ticket)
      else case ev_in ev of None \<Rightarrow> (c, ticket) | Some rc \<Rightarrow> serve_input r rc c ticket)"

definition quiet :: client_events where
  "quiet = \<lparr>ev_hup = False, ev_in = None\<rparr>"

text \<open>The scan: client \<open>i\<close> sees the events of its descriptor only when poll was asked about that descriptor.\<close>

fun serve_scan :: "broker_round \<Rightarrow> nat option list \<Rightarrow> nat \<Rightarrow> LmbComputeClient list \<Rightarrow> u64 \<Rightarrow> LmbComputeClient list \<times> u64" where
  "serve_scan r polled i [] ticket = ([], ticket)"
| "serve_scan r polled i (c # cs) ticket =
     (let (c, ticket) = serve_client r (if polled ! i = cc_fd c then br_events r i else quiet) c ticket;
          (cs, ticket) = serve_scan r polled (i + 1) cs ticket
      in (c # cs, ticket))"

text \<open>\<open>first\<close>: the queued client with the smallest ticket.\<close>

fun serve_first :: "nat \<Rightarrow> LmbComputeClient list \<Rightarrow> (nat \<times> u64) option \<Rightarrow> (nat \<times> u64) option" where
  "serve_first i [] first = first"
| "serve_first i (c # cs) first =
     serve_first (i + 1) cs
       (if cc_state c = 1 \<and> (case first of None \<Rightarrow> True | Some (_, t) \<Rightarrow> cc_ticket c < t) then Some (i, cc_ticket c) else first)"

definition lmb_compute_round :: "broker_round \<Rightarrow> LmbComputeBroker \<Rightarrow> LmbComputeBroker" where
  "lmb_compute_round r b =
     (let polled = map cc_fd (cb_clients b);
          (cs, ticket) = serve_scan r polled 0 (serve_accept r (cb_clients b)) (cb_ticket b);
          active = list_ex (\<lambda>c. cc_state c = 2) cs;
          queued = of_nat (length (filter (\<lambda>c. cc_state c = 1) cs)) :: u32;
          first = serve_first 0 cs None
      in case (active, first) of
           (False, Some (i, _)) \<Rightarrow>
             if br_sent r
             then b\<lparr>cb_clients := cs[i := (cs ! i)\<lparr>cc_state := 2\<rparr>], cb_ticket := ticket, cb_queued := queued - 1,
                    cb_active := 1, cb_grants := cb_grants b + 1\<rparr>
             else b\<lparr>cb_clients := cs[i := lmb_compute_drop], cb_ticket := ticket, cb_queued := queued - 1, cb_active := 0\<rparr>
         | _ \<Rightarrow> b\<lparr>cb_clients := cs, cb_ticket := ticket, cb_queued := queued, cb_active := (if active then 1 else 0)\<rparr>)"

text \<open>When the broker stops, every connection is closed and with it every permit.\<close>

definition compute_serve_stop :: "LmbComputeBroker \<Rightarrow> LmbComputeBroker" where
  "compute_serve_stop b = b\<lparr>cb_clients := map (\<lambda>_. lmb_compute_drop) (cb_clients b), cb_queued := 0, cb_active := 0\<rparr>"

text \<open>What is left of a waiting budget.\<close>

definition lmb_compute_remaining :: "u64 \<Rightarrow> u64 \<Rightarrow> u32 \<Rightarrow> u32" where
  "lmb_compute_remaining now began budget =
     (if now < began \<or> now - began \<ge> ucast budget then 0 else budget - ucast (now - began))"


section \<open>The scan\<close>

definition live :: "LmbComputeClient list \<Rightarrow> LmbComputeClient list" where
  "live cs = filter (\<lambda>c. cc_state c \<noteq> 0) cs"

lemma live_simps [simp]:
  "live [] = []" "live (c # cs) = (if cc_state c \<noteq> 0 then c # live cs else live cs)"
  by (simp_all add: live_def)

lemma set_live: "c \<in> set (live cs) \<longleftrightarrow> c \<in> set cs \<and> cc_state c \<noteq> 0"
  by (auto simp: live_def)

text \<open>One client: it stays, or is dropped, or collects input, or its request is complete and takes the next
  ticket.\<close>

lemma serve_client_cases:
  assumes "serve_client r ev c t = (c', t')"
  obtains (same) "c' = c" "t' = t"
  | (drop) "c' = lmb_compute_drop" "t' = t"
  | (input) b where "c' = c\<lparr>cc_request := b\<rparr>" "cc_state c = 0" "cc_fd c \<noteq> None" "t' = t"
  | (queue) "cc_state c' = 1" "cc_state c = 0" "cc_fd c' \<noteq> None" "cc_ticket c' = t + 1" "t' = t + 1" "t \<noteq> UINT64_MAX"
proof (cases "cc_fd c = None \<or> ev_hup ev \<or> cc_state c \<noteq> 2 \<and> br_now r \<ge> cc_deadline c \<or> ev_in ev = None")
  case True
  then have "c' = c \<and> t' = t \<or> c' = lmb_compute_drop \<and> t' = t"
    using assms by (auto simp: serve_client_def split: if_splits)
  then show ?thesis using same drop by blast
next
  case False
  then obtain rc where rc: "ev_in ev = Some rc" by auto
  with False assms have inp: "serve_input r rc c t = (c', t')" by (auto simp: serve_client_def)
  show ?thesis
  proof (cases "cc_state c = 0 \<and> (\<exists>b. rc = RecvBytes b)")
    case False
    then have "c' = c \<and> t' = t \<or> c' = lmb_compute_drop \<and> t' = t"
      using inp by (cases rc) (auto simp: serve_input_def split: if_splits)
    then show ?thesis using same drop by blast
  next
    case True
    then obtain b where b: "cc_state c = 0" "rc = RecvBytes b" by auto
    let ?b = "take (8 - length (cc_request c)) b"
    let ?c = "c\<lparr>cc_request := cc_request c @ ?b\<rparr>"
    let ?q = "?c\<lparr>cc_state := 1, cc_ticket := t + 1, cc_deadline := br_now r + ucast (request_wait (cc_request ?c))\<rparr>"
    have fd: "cc_fd c \<noteq> None" using False by simp
    have "serve_input r rc c t = (lmb_compute_drop, t) \<or> serve_input r rc c t = (?c, t) \<or>
        t \<noteq> UINT64_MAX \<and> serve_input r rc c t = (?q, t + 1)"
      unfolding serve_input_def b recv_result.case Let_def using b(1) by (simp only: simp_thms if_False split: if_split) blast
    then consider "c' = lmb_compute_drop \<and> t' = t" | "c' = ?c \<and> t' = t" | "c' = ?q" "t' = t + 1" "t \<noteq> UINT64_MAX"
      unfolding inp by blast
    then show ?thesis
    proof cases
      case 1
      then show ?thesis using drop by blast
    next
      case 2
      then show ?thesis using input b(1) fd by blast
    next
      case 3
      then show ?thesis using fd b(1) by (intro queue) simp_all
    qed
  qed
qed

definition tickets_ok :: "u64 \<Rightarrow> LmbComputeClient list \<Rightarrow> bool" where
  "tickets_ok t cs \<longleftrightarrow> distinct (map cc_ticket (live cs)) \<and> (\<forall>c \<in> set (live cs). cc_ticket c \<le> t)"

definition slots_ok :: "LmbComputeClient list \<Rightarrow> bool" where
  "slots_ok cs \<longleftrightarrow> (\<forall>c \<in> set cs. cc_state c \<le> 2 \<and> (cc_fd c = None \<longrightarrow> cc_state c = 0))"

lemma next_ticket: "t \<noteq> UINT64_MAX \<Longrightarrow> t < t + (1 :: u64)"
proof -
  assume "t \<noteq> UINT64_MAX"
  then have "t < UINT64_MAX" by (simp add: order_less_le)
  then have "unat t < unat UINT64_MAX" by (simp only: word_less_nat_alt)
  moreover have "unat UINT64_MAX = 18446744073709551615" by (subst unsigned_minus_1_eq_mask) (simp add: mask_eq_exp_minus_1)
  ultimately have "unat t + 1 < 18446744073709551616" by simp
  then have "unat (t + 1) = unat t + 1" by (simp add: unat_word_ariths)
  then show "t < t + 1" by (simp add: word_less_nat_alt)
qed

text \<open>Tickets after the scan are those of clients that kept theirs, or new ones above the last.\<close>

lemma scan_tickets:
  assumes "serve_scan r polled i cs t = (cs', t')" "distinct (map cc_ticket (live cs))" "\<forall>c \<in> set (live cs). cc_ticket c \<le> t0" "t0 \<le> t"
  shows "t \<le> t' \<and> distinct (map cc_ticket (live cs')) \<and>
    (\<forall>c \<in> set (live cs'). c \<in> set (live cs) \<or> cc_state c = 1 \<and> t < cc_ticket c \<and> cc_ticket c \<le> t')"
  using assms
proof (induction cs arbitrary: i t cs' t')
  case (Cons c cs)
  obtain c1 t1 where c1: "serve_client r (if polled ! i = cc_fd c then br_events r i else quiet) c t = (c1, t1)" by fastforce
  obtain cs1 where cs1: "serve_scan r polled (i + 1) cs t1 = (cs1, t')" "cs' = c1 # cs1"
    using Cons.prems(1) c1 by (auto split: prod.splits)
  have d: "distinct (map cc_ticket (live cs))" "\<forall>c \<in> set (live cs). cc_ticket c \<le> t0"
    using Cons.prems(2,3) by (auto split: if_splits)
  have t1: "t \<le> t1" using c1
    by (cases rule: serve_client_cases) (auto dest: next_ticket intro: less_imp_le)
  note IH = Cons.IH [OF cs1(1) d order_trans [OF Cons.prems(4) t1]]
  from c1 show ?case
  proof (cases rule: serve_client_cases)
    case same
    show ?thesis
    proof (cases "cc_state c = 0")
      case False
      have "cc_ticket x \<noteq> cc_ticket c" if "x \<in> set (live cs1)" for x
      proof (cases "x \<in> set (live cs)")
        case True
        then show ?thesis using Cons.prems(2) False by (auto simp: image_iff)
      next
        case new: False
        have "cc_ticket c \<le> t" using Cons.prems(3,4) False by force
        then show ?thesis using IH that new same by force
      qed
      then have "cc_ticket c \<notin> cc_ticket ` set (live cs1)" by (metis imageE)
      then show ?thesis using IH same cs1(2) False by auto
    qed (use IH same cs1(2) in auto)
  next
    case drop
    then show ?thesis using IH t1 cs1(2) by (auto simp: lmb_compute_drop_def)
  next
    case (input b)
    then show ?thesis using IH t1 cs1(2) by auto
  next
    case queue
    have lt: "t < t1" using queue next_ticket by simp
    have "cc_ticket x \<noteq> t1" if "x \<in> set (live cs1)" for x
    proof (cases "x \<in> set (live cs)")
      case True
      then show ?thesis using d(2) Cons.prems(4) lt by force
    next
      case False
      then show ?thesis using IH that by force
    qed
    then have "t1 \<notin> cc_ticket ` set (live cs1)" by (metis imageE)
    then show ?thesis using IH queue lt t1 cs1(2) by auto
  qed
qed (auto simp: live_def)


section \<open>The state between rounds\<close>

definition holders :: "LmbComputeClient list \<Rightarrow> nat" where
  "holders cs = length (filter (\<lambda>c. cc_state c = 2) cs)"

definition queue_len :: "LmbComputeClient list \<Rightarrow> nat" where
  "queue_len cs = length (filter (\<lambda>c. cc_state c = 1) cs)"

text \<open>The permit has at most one holder, and it came before everybody who waits.\<close>

definition fifo_ok :: "LmbComputeClient list \<Rightarrow> bool" where
  "fifo_ok cs \<longleftrightarrow> holders cs \<le> 1 \<and>
     (\<forall>h \<in> set cs. \<forall>q \<in> set cs. cc_state h = 2 \<longrightarrow> cc_state q = 1 \<longrightarrow> cc_ticket h < cc_ticket q)"

definition broker_ok :: "LmbComputeBroker \<Rightarrow> bool" where
  "broker_ok b \<longleftrightarrow> length (cb_clients b) = 32 \<and> tickets_ok (cb_ticket b) (cb_clients b) \<and>
     slots_ok (cb_clients b) \<and> fifo_ok (cb_clients b) \<and>
     unat (cb_active b) = holders (cb_clients b) \<and> unat (cb_queued b) = queue_len (cb_clients b)"

lemma slots_ok_simps [simp]:
  "slots_ok []" "slots_ok (c # cs) \<longleftrightarrow> cc_state c \<le> 2 \<and> (cc_fd c = None \<longrightarrow> cc_state c = 0) \<and> slots_ok cs"
  by (auto simp: slots_ok_def)

lemma accept_live: "slots_ok cs \<Longrightarrow> live (accept_into fd now cs) = live cs"
  by (induction cs) simp_all

lemma accept_slots: "slots_ok cs \<Longrightarrow> slots_ok (accept_into fd now cs)"
  by (induction cs) simp_all

lemma length_accept: "length (accept_into fd now cs) = length cs"
  by (induction cs) simp_all

lemma serve_accept_keeps:
  assumes "slots_ok cs"
  shows "live (serve_accept r cs) = live cs" "slots_ok (serve_accept r cs)" "length (serve_accept r cs) = length cs"
  using assms by (auto simp: serve_accept_def accept_live accept_slots length_accept split: option.split bool.split)

lemma filter_live: "filter (\<lambda>c. cc_state c = Suc n) cs = filter (\<lambda>c. cc_state c = Suc n) (live cs)"
  by (induction cs) simp_all

lemma scan_slots:
  assumes "serve_scan r polled i cs t = (cs', t')" "slots_ok cs"
  shows "length cs' = length cs \<and> slots_ok cs' \<and> holders cs' \<le> holders cs \<and>
    (\<forall>c \<in> set cs'. cc_state c = 2 \<longrightarrow> c \<in> set cs)"
  using assms
proof (induction cs arbitrary: i t cs' t')
  case (Cons c cs)
  obtain c1 t1 where c1: "serve_client r (if polled ! i = cc_fd c then br_events r i else quiet) c t = (c1, t1)" by fastforce
  obtain cs1 where cs1: "serve_scan r polled (i + 1) cs t1 = (cs1, t')" "cs' = c1 # cs1"
    using Cons.prems(1) c1 by (auto split: prod.splits)
  have s: "slots_ok cs" "cc_state c \<le> 2" "cc_fd c = None \<longrightarrow> cc_state c = 0" using Cons.prems(2) by (simp_all add: slots_ok_def)
  have h: "cc_state c1 \<le> 2 \<and> (cc_fd c1 = None \<longrightarrow> cc_state c1 = 0) \<and> (cc_state c1 = 2 \<longrightarrow> c1 = c)"
    using c1 s by (cases rule: serve_client_cases) (auto simp: lmb_compute_drop_def)
  show ?case using Cons.IH [OF cs1(1) s(1)] h cs1(2) by (auto simp: slots_ok_def holders_def)
qed (simp add: holders_def)

text \<open>The chosen client has the smallest ticket of the queue.\<close>

lemma serve_first_Some:
  assumes "serve_first i cs first = Some (k, t)"
  shows "(first = Some (k, t) \<or> (\<exists>j < length cs. k = i + j \<and> cc_state (cs ! j) = 1 \<and> cc_ticket (cs ! j) = t)) \<and>
    (\<forall>c \<in> set cs. cc_state c = 1 \<longrightarrow> t \<le> cc_ticket c) \<and> (\<forall>k' t'. first = Some (k', t') \<longrightarrow> t \<le> t')"
  using assms
proof (induction cs arbitrary: i first)
  case (Cons c cs)
  let ?first = "if cc_state c = 1 \<and> (case first of None \<Rightarrow> True | Some (_, t) \<Rightarrow> cc_ticket c < t) then Some (i, cc_ticket c) else first"
  have IH: "(?first = Some (k, t) \<or> (\<exists>j < length cs. k = i + 1 + j \<and> cc_state (cs ! j) = 1 \<and> cc_ticket (cs ! j) = t)) \<and>
      (\<forall>c \<in> set cs. cc_state c = 1 \<longrightarrow> t \<le> cc_ticket c) \<and> (\<forall>k' t'. ?first = Some (k', t') \<longrightarrow> t \<le> t')"
    using Cons.prems by (intro Cons.IH) simp
  have pick: "first = Some (k, t) \<or> (\<exists>j < length (c # cs). k = i + j \<and> cc_state ((c # cs) ! j) = 1 \<and> cc_ticket ((c # cs) ! j) = t)"
  proof (cases "?first = Some (k, t)")
    case True
    then show ?thesis by (cases "first = Some (k, t)") (auto split: if_splits intro!: exI [of _ 0])
  next
    case False
    then obtain j where "j < length cs" "k = i + 1 + j" "cc_state (cs ! j) = 1" "cc_ticket (cs ! j) = t" using IH by blast
    then show ?thesis by (intro disjI2 exI [of _ "j + 1"]) simp
  qed
  have own: "t \<le> cc_ticket c" if "cc_state c = 1"
    using IH that by (cases first) (auto split: if_splits intro: order_trans simp: not_less)
  have old: "t \<le> t'" if "first = Some (k', t')" for k' t'
    using IH that by (auto split: if_splits)
  show ?case using pick own old IH by auto
qed simp

lemma serve_first_None: "serve_first i cs first = None \<longleftrightarrow> first = None \<and> queue_len cs = 0"
proof (induction cs arbitrary: i first)
  case (Cons c cs)
  then show ?case by (cases first) (auto simp: queue_len_def)
qed (simp add: queue_len_def)

lemma queue_small: "length cs = 32 \<Longrightarrow> unat (of_nat (queue_len cs) :: u32) = queue_len cs"
  using length_filter_le [of "\<lambda>c. cc_state c = 1" cs] by (simp add: queue_len_def unsigned_of_nat take_bit_nat_eq_self)

lemma holders_zero: "holders cs = 0 \<longleftrightarrow> \<not> list_ex (\<lambda>c. cc_state c = 2) cs"
  by (auto simp: holders_def list_ex_iff filter_empty_conv)

text \<open>Between the scan and the grant.\<close>

lemma scan_round:
  assumes "serve_scan r (map cc_fd (cb_clients b)) 0 (serve_accept r (cb_clients b)) (cb_ticket b) = (cs, ticket)" "broker_ok b"
  shows "length cs = 32 \<and> tickets_ok ticket cs \<and> slots_ok cs \<and> fifo_ok cs"
proof -
  let ?c0 = "serve_accept r (cb_clients b)"
  have ok: "length (cb_clients b) = 32" "tickets_ok (cb_ticket b) (cb_clients b)" "slots_ok (cb_clients b)" "fifo_ok (cb_clients b)"
    using assms(2) by (simp_all add: broker_ok_def)
  note A = serve_accept_keeps [OF ok(3), of r]
  have t0: "distinct (map cc_ticket (live ?c0))" "\<forall>c \<in> set (live ?c0). cc_ticket c \<le> cb_ticket b"
    using ok(2) by (simp_all add: tickets_ok_def A(1))
  note T = scan_tickets [OF assms(1) t0 order_refl] and S = scan_slots [OF assms(1) A(2)]
  have "holders ?c0 = holders (cb_clients b)"
    using filter_live [of 1 ?c0] filter_live [of 1 "cb_clients b"] A(1) by (simp add: holders_def numeral_2_eq_2)
  then have one: "holders cs \<le> 1" using S ok(4) by (simp add: fifo_ok_def)
  have before: "cc_ticket h < cc_ticket q" if "h \<in> set cs" "q \<in> set cs" "cc_state h = 2" "cc_state q = 1" for h q
  proof -
    have "h \<in> set (live ?c0)" using S that by (auto simp: set_live)
    then have h: "h \<in> set (cb_clients b)" "cc_ticket h \<le> cb_ticket b" using t0(2) by (auto simp: A(1) set_live)
    have "q \<in> set (live cs)" using that by (simp add: set_live)
    then consider "q \<in> set (live ?c0)" | "cb_ticket b < cc_ticket q" using T by blast
    then show ?thesis
    proof cases
      case 1
      then show ?thesis using ok(4) h(1) that by (auto simp: A(1) set_live fifo_ok_def)
    qed (use h(2) in simp)
  qed
  have "tickets_ok ticket cs"
    using T t0(2) by (force simp: tickets_ok_def intro: order_trans)
  then show ?thesis using S A(3) ok(1) one before by (auto simp: fifo_ok_def)
qed

lemma queue_update:
  assumes "i < length cs" "cc_state (cs ! i) = 1" "cc_state c \<noteq> 1"
  shows "queue_len (cs[i := c]) = queue_len cs - 1" "0 < queue_len cs"
proof -
  have e: "cs = take i cs @ cs ! i # drop (Suc i) cs" using assms(1) by (simp add: id_take_nth_drop)
  have "cs[i := c] = take i cs @ c # drop (Suc i) cs" using assms(1) by (simp add: upd_conv_take_nth_drop)
  moreover have "queue_len cs = queue_len (take i cs) + 1 + queue_len (drop (Suc i) cs)"
    by (subst e) (simp add: queue_len_def assms(2))
  ultimately show "queue_len (cs[i := c]) = queue_len cs - 1" "0 < queue_len cs"
    using assms(3) by (simp_all add: queue_len_def)
qed

lemma live_update:
  assumes "i < length cs" "cc_state (cs ! i) = 1" "cc_state c \<noteq> 0" "cc_ticket c = cc_ticket (cs ! i)"
  shows "map cc_ticket (live (cs[i := c])) = map cc_ticket (live cs)"
proof -
  have e: "cs = take i cs @ cs ! i # drop (Suc i) cs" using assms(1) by (simp add: id_take_nth_drop)
  have l: "live cs = live (take i cs) @ cs ! i # live (drop (Suc i) cs)"
    by (subst e) (simp add: live_def assms(2))
  have "cs[i := c] = take i cs @ c # drop (Suc i) cs" using assms(1) by (simp add: upd_conv_take_nth_drop)
  then have "live (cs[i := c]) = live (take i cs) @ c # live (drop (Suc i) cs)" using assms(3) by (simp add: live_def)
  then show ?thesis using l assms(4) by simp
qed

lemma tickets_ok_map: "tickets_ok t cs \<longleftrightarrow> distinct (map cc_ticket (live cs)) \<and> (\<forall>x \<in> set (map cc_ticket (live cs)). x \<le> t)"
  by (auto simp: tickets_ok_def)

lemma drop_update:
  assumes "i < length cs" "tickets_ok t cs" "slots_ok cs" "fifo_ok cs"
  shows "tickets_ok t (cs[i := lmb_compute_drop])" "slots_ok (cs[i := lmb_compute_drop])" "fifo_ok (cs[i := lmb_compute_drop])"
proof -
  have e: "cs = take i cs @ cs ! i # drop (Suc i) cs" using assms(1) by (simp add: id_take_nth_drop)
  have u: "cs[i := lmb_compute_drop] = take i cs @ lmb_compute_drop # drop (Suc i) cs"
    using assms(1) by (simp add: upd_conv_take_nth_drop)
  have d: "cc_state lmb_compute_drop = 0" by (simp add: lmb_compute_drop_def)
  have "tickets_ok t (take i cs @ cs ! i # drop (Suc i) cs)" "fifo_ok (take i cs @ cs ! i # drop (Suc i) cs)"
    "slots_ok (take i cs @ cs ! i # drop (Suc i) cs)" using assms(2-4) e by simp_all
  then show "tickets_ok t (cs[i := lmb_compute_drop])" "slots_ok (cs[i := lmb_compute_drop])" "fifo_ok (cs[i := lmb_compute_drop])"
    unfolding u using d by (auto simp: tickets_ok_def live_def slots_ok_def fifo_ok_def holders_def split: if_splits)
qed

text \<open>The grant: nobody holds the permit, the first of the queue gets it.\<close>

lemma grant_update:
  assumes "i < length cs" "cc_state (cs ! i) = 1" "tickets_ok t cs" "slots_ok cs" "fifo_ok cs" "holders cs = 0"
    "\<forall>c \<in> set cs. cc_state c = 1 \<longrightarrow> cc_ticket (cs ! i) \<le> cc_ticket c"
  defines "ds \<equiv> cs[i := (cs ! i)\<lparr>cc_state := 2\<rparr>]"
  shows "tickets_ok t ds" "slots_ok ds" "fifo_ok ds" "holders ds = 1"
proof -
  let ?c = "(cs ! i)\<lparr>cc_state := 2\<rparr>"
  show "tickets_ok t ds" using assms(3) live_update [OF assms(1,2), of ?c] by (simp add: tickets_ok_map ds_def)
  have "cs ! i \<in> set cs" using assms(1) by simp
  then have "cc_fd (cs ! i) \<noteq> None" using assms(2,4) by (auto simp: slots_ok_def)
  then show "slots_ok ds" using assms(4) set_update_subset_insert [of cs i ?c] by (auto simp: slots_ok_def ds_def)
  have e: "cs = take i cs @ cs ! i # drop (Suc i) cs" using assms(1) by (simp add: id_take_nth_drop)
  have u: "ds = take i cs @ ?c # drop (Suc i) cs" using assms(1) by (simp add: ds_def upd_conv_take_nth_drop)
  have z: "holders (take i cs) = 0" "holders (drop (Suc i) cs) = 0"
    using arg_cong [OF e, of holders] assms(6) by (simp_all add: holders_def split: if_splits)
  then show h: "holders ds = 1" unfolding u by (simp add: holders_def)
  have "cc_ticket (cs ! i) < cc_ticket q" if "q \<in> set (take i cs) \<union> set (drop (Suc i) cs)" "cc_state q = 1" for q
  proof -
    have "q \<in> set cs" using that(1) set_take_subset set_drop_subset by fastforce
    then have "cc_ticket (cs ! i) \<le> cc_ticket q" using assms(7) that(2) by blast
    moreover have "cc_ticket q \<noteq> cc_ticket (cs ! i)"
    proof -
      have "live cs = live (take i cs) @ cs ! i # live (drop (Suc i) cs)" by (subst e) (simp add: live_def assms(2))
      moreover have "q \<in> set (live (take i cs)) \<union> set (live (drop (Suc i) cs))" using that by (auto simp: set_live)
      ultimately show ?thesis using assms(3) by (auto simp: tickets_ok_def image_iff)
    qed
    ultimately show ?thesis by (simp add: order_less_le)
  qed
  moreover have "cc_state x \<noteq> 2" if "x \<in> set (take i cs) \<union> set (drop (Suc i) cs)" for x
    using z that by (auto simp: holders_def filter_empty_conv)
  ultimately show "fifo_ok ds" unfolding fifo_ok_def using h by (auto simp: u)
qed

lemma round_ok:
  assumes "broker_ok b"
  shows "broker_ok (lmb_compute_round r b)"
proof -
  obtain cs ticket where scan: "serve_scan r (map cc_fd (cb_clients b)) 0 (serve_accept r (cb_clients b)) (cb_ticket b) = (cs, ticket)"
    by fastforce
  note S = scan_round [OF scan assms]
  let ?q = "of_nat (queue_len cs) :: u32"
  have q: "unat ?q = queue_len cs" using S queue_small by blast
  show ?thesis
  proof (cases "\<not> list_ex (\<lambda>c. cc_state c = 2) cs \<and> queue_len cs \<noteq> 0")
    case False
    have "unat (if list_ex (\<lambda>c. cc_state c = 2) cs then 1 else 0 :: u32) = holders cs"
      using S holders_zero [of cs] by (auto simp: fifo_ok_def)
    moreover have "lmb_compute_round r b = b\<lparr>cb_clients := cs, cb_ticket := ticket, cb_queued := ?q,
        cb_active := (if list_ex (\<lambda>c. cc_state c = 2) cs then 1 else 0)\<rparr>"
      using False serve_first_None [of 0 cs None]
      by (auto simp: lmb_compute_round_def scan Let_def queue_len_def split: option.split bool.split)
    ultimately show ?thesis using S q by (simp add: broker_ok_def)
  next
    case True
    then obtain i t where f: "serve_first 0 cs None = Some (i, t)"
      using serve_first_None [of 0 cs None] by (cases "serve_first 0 cs None") auto
    from serve_first_Some [OF f] have i: "i < length cs" "cc_state (cs ! i) = 1"
      and least: "\<forall>c \<in> set cs. cc_state c = 1 \<longrightarrow> cc_ticket (cs ! i) \<le> cc_ticket c" by auto
    have h: "holders cs = 0" using True holders_zero by blast
    have "0 < queue_len cs" using True by simp
    then have dec: "unat (?q - 1) = queue_len cs - 1" using q by (subst unat_sub) (simp_all add: word_le_nat_alt)
    have act: "list_ex (\<lambda>c. cc_state c = 2) cs = False" using True by simp
    show ?thesis
    proof (cases "br_sent r")
      case sent: True
      have e: "lmb_compute_round r b = b\<lparr>cb_clients := cs[i := (cs ! i)\<lparr>cc_state := 2\<rparr>], cb_ticket := ticket, cb_queued := ?q - 1,
          cb_active := 1, cb_grants := cb_grants b + 1\<rparr>"
        using sent unfolding lmb_compute_round_def Let_def scan prod.case act f bool.case option.case queue_len_def by simp
      show ?thesis unfolding e
        using S dec grant_update [OF i, of ticket] h least queue_update [OF i, of "(cs ! i)\<lparr>cc_state := 2\<rparr>"]
        by (simp add: broker_ok_def)
    next
      case False
      have e: "lmb_compute_round r b = b\<lparr>cb_clients := cs[i := lmb_compute_drop], cb_ticket := ticket, cb_queued := ?q - 1, cb_active := 0\<rparr>"
        using False unfolding lmb_compute_round_def Let_def scan prod.case act f bool.case option.case queue_len_def by simp
      have "holders (cs[i := lmb_compute_drop]) = 0"
        using h set_update_subset_insert [of cs i lmb_compute_drop]
        by (auto simp: holders_zero list_ex_iff lmb_compute_drop_def)
      then show ?thesis unfolding e
        using S dec drop_update [OF i(1), of ticket] queue_update [OF i, of lmb_compute_drop]
        by (simp add: broker_ok_def lmb_compute_drop_def)
    qed
  qed
qed

section \<open>Every reachable state\<close>

inductive broker_reachable :: "LmbComputeBroker \<Rightarrow> bool" where
  start: "broker_reachable compute_serve_start"
| round: "broker_reachable b \<Longrightarrow> broker_reachable (lmb_compute_round r b)"
| stop: "broker_reachable b \<Longrightarrow> broker_reachable (compute_serve_stop b)"

lemma start_ok: "broker_ok compute_serve_start"
  by (simp add: broker_ok_def compute_serve_start_def tickets_ok_def live_def slots_ok_def fifo_ok_def holders_def
      queue_len_def lmb_compute_drop_def)

lemma stop_ok: "broker_ok b \<Longrightarrow> broker_ok (compute_serve_stop b)"
  by (auto simp: broker_ok_def compute_serve_stop_def tickets_ok_def live_def slots_ok_def fifo_ok_def holders_def
      queue_len_def lmb_compute_drop_def filter_map o_def)

lemma reachable_ok: "broker_reachable b \<Longrightarrow> broker_ok b"
  by (induction rule: broker_reachable.induct) (auto intro: start_ok round_ok stop_ok)

text \<open>C29: In every state the broker can reach, whatever connections, bytes, hang-ups and clock readings it meets,
  at most one connection holds the compute permit, the holder's ticket precedes that of everybody who
  waits, tickets are never given twice, and the published counters are the real ones.\<close>

theorem broker_exclusive_fifo:
  assumes "broker_reachable b"
  shows "holders (cb_clients b) \<le> 1 \<and>
    (\<forall>h \<in> set (cb_clients b). \<forall>q \<in> set (cb_clients b). cc_state h = 2 \<longrightarrow> cc_state q = 1 \<longrightarrow> cc_ticket h < cc_ticket q) \<and>
    distinct (map cc_ticket (live (cb_clients b))) \<and>
    unat (cb_active b) = holders (cb_clients b) \<and> unat (cb_queued b) = queue_len (cb_clients b)"
  using reachable_ok [OF assms] by (simp add: broker_ok_def fifo_ok_def tickets_ok_def)

text \<open>A sample: two connections complete their requests in one round, the first of them gets the permit.\<close>

definition sample_round :: "u64 \<Rightarrow> nat option \<Rightarrow> (nat \<Rightarrow> bytes) \<Rightarrow> broker_round" where
  "sample_round now fd inp = \<lparr>br_now = now, br_accept = map_option (\<lambda>n. (n, True)) fd,
     br_events = (\<lambda>i. \<lparr>ev_hup = False, ev_in = (if inp i = [] then None else Some (RecvBytes (inp i)))\<rparr>), br_sent = True\<rparr>"

definition sample_broker :: LmbComputeBroker where
  "sample_broker = lmb_compute_round (sample_round 3 None (\<lambda>i. if i < 2 then [0x4C, 0x43, 0x50, 1, 9, 0, 0, 0] else []))
     (lmb_compute_round (sample_round 2 (Some 8) (\<lambda>_. []))
       (lmb_compute_round (sample_round 1 (Some 7) (\<lambda>_. [])) compute_serve_start))"

lemma broker_exclusive_fifo_witness:
  "holders (cb_clients sample_broker) = 1 \<and> unat (cb_queued sample_broker) = 1"
proof -
  have "broker_reachable sample_broker"
    unfolding sample_broker_def by (intro broker_reachable.intros)
  from broker_exclusive_fifo [OF this] have "unat (cb_active sample_broker) = holders (cb_clients sample_broker)" by blast
  moreover have "cb_active sample_broker = 1 \<and> cb_queued sample_broker = 1" by code_simp
  ultimately show ?thesis by simp
qed

text \<open>C30: The permit is never idle while somebody waits: after a round in which the grant byte can be sent, a
  queued connection remains only if another one holds the permit.\<close>

theorem broker_work_conserving:
  assumes "broker_reachable b" "br_sent r" "cb_queued (lmb_compute_round r b) \<noteq> 0"
  shows "holders (cb_clients (lmb_compute_round r b)) = 1 \<and> cb_active (lmb_compute_round r b) = 1"
proof -
  have ok: "broker_ok (lmb_compute_round r b)" using assms(1) by (intro round_ok reachable_ok)
  obtain cs ticket where scan: "serve_scan r (map cc_fd (cb_clients b)) 0 (serve_accept r (cb_clients b)) (cb_ticket b) = (cs, ticket)"
    by fastforce
  have "cb_active (lmb_compute_round r b) = 1"
  proof (cases "serve_first 0 cs None")
    case None
    then have "queue_len cs = 0" using serve_first_None by blast
    then show ?thesis using assms(3) None
      by (auto simp: lmb_compute_round_def scan Let_def queue_len_def split: bool.splits if_splits)
  next
    case (Some p)
    then show ?thesis using assms(2) by (cases p) (auto simp: lmb_compute_round_def scan Let_def split: bool.split)
  qed
  then show ?thesis using ok by (simp add: broker_ok_def)
qed

lemma broker_work_conserving_witness:
  "let r = sample_round 4 None (\<lambda>_. []) in cb_queued (lmb_compute_round r sample_broker) = 1 \<and>
     holders (cb_clients (lmb_compute_round r sample_broker)) = 1"
proof -
  let ?r = "sample_round 4 None (\<lambda>_. [])"
  have r: "broker_reachable sample_broker" unfolding sample_broker_def by (intro broker_reachable.intros)
  have q: "cb_queued (lmb_compute_round ?r sample_broker) = 1" by code_simp
  have s: "br_sent ?r" by (simp add: sample_round_def)
  from broker_work_conserving [OF r s] q show ?thesis by simp
qed

end
