(* ===== verification/Journal.thy ===== *)
theory Journal
  imports Lumabri_Prelude "HOL-Library.List_Lexorder" "HOL-Library.AList" "HOL-Library.Multiset"
begin

text \<open>
  The owner-private journal of \<^verbatim>\<open>src/runtime/lumabri_journal_index.h\<close>: records under a 64-digit hexadecimal
  key and a suffix live flat in one directory until it holds a given number of them; later keys go into a
  two-level tree \<^verbatim>\<open>history-v1/ab/cd/\<close> named by the first four digits. Directories are listings in the order
  \<^verbatim>\<open>readdir\<close> returns them; permissions and failing system calls are part of the tree or parameters.
  \<^verbatim>\<open>strcmp\<close> on byte strings is the lexicographic order of the lists.
\<close>

section \<open>The code\<close>

datatype jfile = JFile bytes | JUnsafe

datatype 'a child = Missing | Unsafe | Dir 'a

datatype jerr = J_NOENT | J_FAIL

type_synonym listing = "(bytes \<times> jfile) list"

record journal =
  jr_private :: bool
  jr_flat :: listing
  jr_history :: "(bytes \<Rightarrow> (bytes \<Rightarrow> listing child) child) child"

datatype place = JFlat | JBucket

abbreviation LMB_JOURNAL_PAGE :: nat where "LMB_JOURNAL_PAGE \<equiv> 256"

definition lower_hex :: "u8 \<Rightarrow> bool" where
  "lower_hex b \<longleftrightarrow> 48 \<le> b \<and> b \<le> 57 \<or> 97 \<le> b \<and> b \<le> 102"

definition lmb_journal_name_valid :: "bytes \<Rightarrow> bool" where
  "lmb_journal_name_valid name \<longleftrightarrow>
     \<not> (length name < 66 \<or> length name > 79 \<or> name ! 64 \<noteq> 46) \<and>
     list_all lower_hex (take 64 name) \<and> list_all (\<lambda>b. 97 \<le> b \<and> b \<le> 122) (drop 65 name)"

text \<open>A directory below an open one, without and with creation.\<close>

fun lmb_journal_child :: "'a child \<Rightarrow> jerr + 'a" where
  "lmb_journal_child Missing = Inl J_NOENT"
| "lmb_journal_child Unsafe = Inl J_FAIL"
| "lmb_journal_child (Dir d) = Inr d"

fun child_make :: "'a \<Rightarrow> 'a child \<Rightarrow> 'a child" where
  "child_make d Missing = Dir d"
| "child_make d c = c"

abbreviation first_part :: "bytes \<Rightarrow> bytes" where "first_part name \<equiv> take 2 name"
abbreviation second_part :: "bytes \<Rightarrow> bytes" where "second_part name \<equiv> take 2 (drop 2 name)"

definition lmb_journal_history :: "journal \<Rightarrow> bytes \<Rightarrow> jerr + listing" where
  "lmb_journal_history j name =
     (case lmb_journal_child (jr_history j) of Inl e \<Rightarrow> Inl e
      | Inr f \<Rightarrow> (case lmb_journal_child (f (first_part name)) of Inl e \<Rightarrow> Inl e
      | Inr s \<Rightarrow> lmb_journal_child (s (second_part name))))"

text \<open>With creation: the first \<open>mk\<close> of the three levels are made and made durable.\<close>

definition history_create :: "nat \<Rightarrow> journal \<Rightarrow> bytes \<Rightarrow> journal \<times> (jerr + place)" where
  "history_create mk j name =
     (case (if mk < 1 then Unsafe else child_make (\<lambda>_. Missing) (jr_history j)) of
        Dir f \<Rightarrow>
          (case (if mk < 2 then Unsafe else child_make (\<lambda>_. Missing) (f (first_part name))) of
             Dir s \<Rightarrow>
               (case (if mk < 3 then Unsafe else child_make [] (s (second_part name))) of
                  Dir l \<Rightarrow> (j\<lparr>jr_history := Dir (f(first_part name := Dir (s(second_part name := Dir l))))\<rparr>, Inr JBucket)
                | _ \<Rightarrow> (j\<lparr>jr_history := Dir (f(first_part name := Dir s))\<rparr>, Inl J_FAIL))
           | _ \<Rightarrow> (j\<lparr>jr_history := Dir f\<rparr>, Inl J_FAIL))
      | _ \<Rightarrow> (j, Inl J_FAIL))"

definition lmb_journal_location :: "journal \<Rightarrow> bytes \<Rightarrow> jerr + place" where
  "lmb_journal_location j name =
     (if \<not> lmb_journal_name_valid name then Inl J_FAIL
      else if \<not> jr_private j then Inl J_FAIL
      else if map_of (jr_flat j) name \<noteq> None then Inr JFlat
      else case lmb_journal_history j name of Inl e \<Rightarrow> Inl e
           | Inr l \<Rightarrow> if map_of l name \<noteq> None then Inr JBucket else Inl J_NOENT)"

fun place_listing :: "journal \<Rightarrow> bytes \<Rightarrow> place \<Rightarrow> listing" where
  "place_listing j name JFlat = jr_flat j"
| "place_listing j name JBucket = (case lmb_journal_history j name of Inl e \<Rightarrow> [] | Inr l \<Rightarrow> l)"

definition lmb_journal_open :: "journal \<Rightarrow> bytes \<Rightarrow> jerr + bytes" where
  "lmb_journal_open j name =
     (case lmb_journal_location j name of Inl e \<Rightarrow> Inl e
      | Inr p \<Rightarrow> (case map_of (place_listing j name p) name of
            None \<Rightarrow> Inl J_NOENT | Some JUnsafe \<Rightarrow> Inl J_FAIL | Some (JFile b) \<Rightarrow> Inr b))"

text \<open>Where a key is written: where it already is, else flat below the limit, else in the tree.\<close>

definition lmb_journal_select :: "(bytes \<Rightarrow> bool) \<Rightarrow> nat \<Rightarrow> journal \<Rightarrow> bytes \<Rightarrow> bytes \<Rightarrow> nat \<Rightarrow> journal \<times> (jerr + place)" where
  "lmb_journal_select readable mk j name suffix flat_limit =
     (if \<not> lmb_journal_name_valid name \<or> drop 64 name \<noteq> suffix \<or> flat_limit = 0 then (j, Inl J_FAIL)
      else case lmb_journal_location j name of
        Inr p \<Rightarrow> (j, Inr p)
      | Inl J_FAIL \<Rightarrow> (j, Inl J_FAIL)
      | Inl J_NOENT \<Rightarrow>
          if \<not> readable [] then (j, Inl J_FAIL)
          else let count = length (take flat_limit
                     (filter (\<lambda>(n, _). lmb_journal_name_valid n \<and> drop 64 n = suffix) (jr_flat j)))
               in if count < flat_limit then (j, Inr JFlat) else history_create mk j name)"

text \<open>The atomic replacement of a record (\<^verbatim>\<open>renameat\<close>) in the directory that was selected.\<close>

fun journal_put :: "journal \<Rightarrow> bytes \<Rightarrow> place \<Rightarrow> bytes \<Rightarrow> journal" where
  "journal_put j name JFlat b = j\<lparr>jr_flat := AList.update name (JFile b) (jr_flat j)\<rparr>"
| "journal_put j name JBucket b =
     (case jr_history j of
        Dir f \<Rightarrow> (case f (first_part name) of
          Dir s \<Rightarrow> (case s (second_part name) of
            Dir l \<Rightarrow> j\<lparr>jr_history := Dir (f(first_part name :=
                        Dir (s(second_part name := Dir (AList.update name (JFile b) l)))))\<rparr>
          | _ \<Rightarrow> j) | _ \<Rightarrow> j) | _ \<Rightarrow> j)"

text \<open>One listing of a page: names after the cursor are inserted in order, at most one more than a page.\<close>

fun lmb_journal_page_scan :: "bytes \<Rightarrow> bytes \<Rightarrow> bytes \<Rightarrow> bytes list \<Rightarrow> bytes list \<Rightarrow> bytes list option" where
  "lmb_journal_page_scan suffix after prefix [] page = Some page"
| "lmb_journal_page_scan suffix after prefix (name # names) page =
     (if \<not> lmb_journal_name_valid name \<or> drop 64 name \<noteq> suffix
      then lmb_journal_page_scan suffix after prefix names page
      else if prefix \<noteq> [] \<and> take 4 name \<noteq> prefix then None
      else if after \<noteq> [] \<and> take 64 name \<le> after then lmb_journal_page_scan suffix after prefix names page
      else let at = length (takeWhile (\<lambda>n. n < name) page)
           in if at < length page \<and> page ! at = name then None
              else if at > LMB_JOURNAL_PAGE then lmb_journal_page_scan suffix after prefix names page
              else lmb_journal_page_scan suffix after prefix names
                     (take (LMB_JOURNAL_PAGE + 1) (take at page @ name # drop at page)))"

definition hex_digits :: bytes where
  "hex_digits = map of_nat ([48..<58] @ [97..<103])"

definition hex_pair :: "nat \<Rightarrow> bytes" where
  "hex_pair i = [hex_digits ! (i div 16), hex_digits ! (i mod 16)]"

text \<open>The second level: parts before the cursor are skipped; past a full page nothing can change it.\<close>

fun page_seconds :: "(bytes \<Rightarrow> bool) \<Rightarrow> bytes \<Rightarrow> bytes \<Rightarrow> bytes \<Rightarrow> (bytes \<Rightarrow> listing child) \<Rightarrow> bytes list \<Rightarrow> bytes list \<Rightarrow> bytes list option" where
  "page_seconds readable suffix after first s [] page = Some page"
| "page_seconds readable suffix after first s (second # seconds) page =
     (let prefix = first @ second
      in if after \<noteq> [] \<and> prefix < take 4 after then page_seconds readable suffix after first s seconds page
         else if length page > LMB_JOURNAL_PAGE \<and> take 4 (page ! LMB_JOURNAL_PAGE) < prefix then Some page
         else case s second of
           Missing \<Rightarrow> page_seconds readable suffix after first s seconds page
         | Unsafe \<Rightarrow> None
         | Dir l \<Rightarrow> if \<not> readable prefix then None
             else case lmb_journal_page_scan suffix after prefix (map fst l) page of
               None \<Rightarrow> None | Some page \<Rightarrow> page_seconds readable suffix after first s seconds page)"

fun page_firsts :: "(bytes \<Rightarrow> bool) \<Rightarrow> bytes \<Rightarrow> bytes \<Rightarrow> (bytes \<Rightarrow> (bytes \<Rightarrow> listing child) child) \<Rightarrow> bytes list \<Rightarrow> bytes list \<Rightarrow> bytes list option" where
  "page_firsts readable suffix after f [] page = Some page"
| "page_firsts readable suffix after f (first # firsts) page =
     (if after \<noteq> [] \<and> first < take 2 after then page_firsts readable suffix after f firsts page
      else if length page > LMB_JOURNAL_PAGE \<and> take 2 (page ! LMB_JOURNAL_PAGE) < first then Some page
      else case f first of
        Missing \<Rightarrow> page_firsts readable suffix after f firsts page
      | Unsafe \<Rightarrow> None
      | Dir s \<Rightarrow> (case page_seconds readable suffix after first s (map hex_pair [0..<256]) page of
            None \<Rightarrow> None | Some page \<Rightarrow> page_firsts readable suffix after f firsts page))"

definition lmb_journal_page :: "(bytes \<Rightarrow> bool) \<Rightarrow> journal \<Rightarrow> bytes \<Rightarrow> bytes \<Rightarrow> bytes list option" where
  "lmb_journal_page readable j suffix after =
     (if length suffix > 15 \<or> after \<noteq> [] \<and> length after \<noteq> 64 then None
      else if \<not> lmb_journal_name_valid (replicate 64 48 @ suffix) then None
      else if after \<noteq> [] \<and> \<not> lmb_journal_name_valid (after @ suffix) then None
      else if \<not> jr_private j \<or> \<not> readable [] then None
      else case lmb_journal_page_scan suffix after [] (map fst (jr_flat j)) [] of
        None \<Rightarrow> None
      | Some page \<Rightarrow>
          (case jr_history j of Missing \<Rightarrow> Some page | Unsafe \<Rightarrow> None
           | Dir f \<Rightarrow> page_firsts readable suffix after f (map hex_pair [0..<256]) page))"


section \<open>Reading what was written\<close>

fun file_bytes :: "jfile \<Rightarrow> jerr + bytes" where
  "file_bytes (JFile b) = Inr b"
| "file_bytes JUnsafe = Inl J_FAIL"

definition history_find :: "journal \<Rightarrow> bytes \<Rightarrow> jerr + jfile" where
  "history_find j n = (case lmb_journal_history j n of Inl e \<Rightarrow> Inl e
     | Inr l \<Rightarrow> (case map_of l n of None \<Rightarrow> Inl J_NOENT | Some x \<Rightarrow> Inr x))"

lemma journal_open_eq:
  "lmb_journal_open j n =
     (if \<not> lmb_journal_name_valid n \<or> \<not> jr_private j then Inl J_FAIL
      else case map_of (jr_flat j) n of Some x \<Rightarrow> file_bytes x
           | None \<Rightarrow> (case history_find j n of Inl e \<Rightarrow> Inl e | Inr x \<Rightarrow> file_bytes x))"
  by (auto simp: lmb_journal_open_def lmb_journal_location_def history_find_def
      split: sum.split option.split jfile.split)

lemma journal_history_upd [simp]: "lmb_journal_history (j\<lparr>jr_flat := l\<rparr>) n = lmb_journal_history j n"
  by (simp add: lmb_journal_history_def)

lemma history_find_flat [simp]: "history_find (j\<lparr>jr_flat := l\<rparr>) n = history_find j n"
  by (simp add: history_find_def)

text \<open>Making directories changes no record.\<close>

lemma history_create_keeps:
  assumes "history_create mk j name = (j', r)"
  shows "history_find j' n = history_find j n \<and> jr_flat j' = jr_flat j \<and> jr_private j' = jr_private j"
  using assms
  by (auto simp: history_create_def history_find_def lmb_journal_history_def
      split: child.splits if_splits elim!: child_make.elims)

lemma history_create_bucket:
  assumes "history_create mk j name = (j', Inr p)"
  shows "p = JBucket \<and> (\<exists>l. lmb_journal_history j' name = Inr l)"
  using assms
  by (auto simp: history_create_def lmb_journal_history_def split: child.splits if_splits)

lemma journal_select_keeps:
  assumes "lmb_journal_select rd mk j name suffix lim = (j', r)"
  shows "lmb_journal_open j' n = lmb_journal_open j n"
  using assms history_create_keeps [of mk j name j' r n]
  by (auto simp: lmb_journal_select_def journal_open_eq Let_def split: sum.splits jerr.splits if_splits)

lemma journal_put_history:
  assumes "lmb_journal_history j name = Inr l"
  shows "lmb_journal_history (journal_put j name JBucket b) n =
    (if take 4 n = take 4 name then Inr (AList.update name (JFile b) l) else lmb_journal_history j n)"
proof -
  have four: "take 4 n = take 4 name \<longleftrightarrow> first_part n = first_part name \<and> second_part n = second_part name"
  proof -
    have "take 4 x = first_part x @ second_part x" for x :: bytes
      using take_add [of 2 2 x] by simp
    moreover have "length (first_part n) = length (first_part name)" if "first_part n @ second_part n = first_part name @ second_part name"
      using arg_cong [OF that, of length] by auto
    ultimately show ?thesis by auto
  qed
  from assms obtain f s where h: "jr_history j = Dir f" "f (first_part name) = Dir s" "s (second_part name) = Dir l"
    unfolding lmb_journal_history_def
    by (auto split: sum.splits elim!: lmb_journal_child.elims)
  show ?thesis unfolding four by (simp add: h lmb_journal_history_def)
qed

declare journal_put.simps(2) [simp del]

lemma journal_put_find:
  assumes "lmb_journal_history j name = Inr l"
  shows "history_find (journal_put j name JBucket b) n = (if n = name then Inr (JFile b) else history_find j n)"
proof (cases "take 4 n = take 4 name")
  case True
  have "lmb_journal_history j n = lmb_journal_history j name"
  proof -
    have "take 2 n = take 2 (take 4 n)" "take 2 (drop 2 n) = drop 2 (take 4 n)"
      "take 2 name = take 2 (take 4 name)" "take 2 (drop 2 name) = drop 2 (take 4 name)"
      by (simp_all add: min_def drop_take)
    then show ?thesis using True by (simp only: lmb_journal_history_def)
  qed
  then show ?thesis using True by (auto simp: history_find_def journal_put_history [OF assms] assms update_conv')
next
  case False
  then show ?thesis by (auto simp: history_find_def journal_put_history [OF assms])
qed

lemma journal_put_other:
  "n \<noteq> name \<Longrightarrow> (p = JBucket \<longrightarrow> (\<exists>l. lmb_journal_history j name = Inr l)) \<Longrightarrow>
   lmb_journal_open (journal_put j name p b) n = lmb_journal_open j n"
proof (cases p)
  case JFlat
  assume "n \<noteq> name"
  then show ?thesis by (auto simp: JFlat journal_open_eq update_conv' split: option.split)
next
  case JBucket
  assume a: "n \<noteq> name" "p = JBucket \<longrightarrow> (\<exists>l. lmb_journal_history j name = Inr l)"
  then obtain l where l: "lmb_journal_history j name = Inr l" using JBucket by blast
  have "jr_flat (journal_put j name JBucket b) = jr_flat j" "jr_private (journal_put j name JBucket b) = jr_private j"
    by (auto simp: journal_put.simps(2) split: child.split)
  then show ?thesis using a(1) by (simp only: JBucket journal_open_eq journal_put_find [OF l] if_False)
qed

lemma journal_location_cases:
  "lmb_journal_location j name = Inr JFlat \<Longrightarrow> lmb_journal_name_valid name \<and> jr_private j \<and> map_of (jr_flat j) name \<noteq> None"
  "lmb_journal_location j name = Inr JBucket \<Longrightarrow> lmb_journal_name_valid name \<and> jr_private j \<and>
     map_of (jr_flat j) name = None \<and> (\<exists>l. lmb_journal_history j name = Inr l \<and> map_of l name \<noteq> None)"
  "lmb_journal_location j name = Inl J_NOENT \<Longrightarrow> lmb_journal_name_valid name \<and> jr_private j \<and> map_of (jr_flat j) name = None"
  by (auto simp: lmb_journal_location_def split: if_splits sum.splits)

text \<open>A selected place is either flat, or a bucket for a key that is not flat.\<close>

lemma journal_select_place:
  assumes "lmb_journal_select rd mk j name suffix lim = (j', Inr p)"
  shows "lmb_journal_name_valid name \<and> jr_private j' \<and>
    (p = JBucket \<longrightarrow> map_of (jr_flat j') name = None \<and> (\<exists>l. lmb_journal_history j' name = Inr l))"
proof (cases "lmb_journal_location j name")
  case (Inr q)
  then have "j' = j \<and> p = q" using assms by (auto simp: lmb_journal_select_def split: if_splits)
  then show ?thesis using Inr journal_location_cases(1,2) [of j name] by (cases q; simp; blast)
next
  case (Inl e)
  then have e: "e = J_NOENT" using assms by (cases e) (auto simp: lmb_journal_select_def split: if_splits)
  note L = journal_location_cases(3) [OF Inl [unfolded e]]
  have "(j, Inr JFlat) = (j', Inr p :: jerr + place) \<or> history_create mk j name = (j', Inr p)"
    using assms unfolding lmb_journal_select_def Inl e sum.case jerr.case Let_def
    by (cases "history_create mk j name") (simp split: if_splits)
  then consider "j' = j \<and> p = JFlat" | "history_create mk j name = (j', Inr p)" by fastforce
  then show ?thesis
  proof cases
    case 1
    then show ?thesis using L by simp
  next
    case 2
    then show ?thesis using L history_create_bucket [OF 2] history_create_keeps [OF 2] by auto
  qed
qed

lemma journal_put_same:
  assumes "lmb_journal_select rd mk j name suffix lim = (j', Inr p)"
  shows "lmb_journal_open (journal_put j' name p b) name = Inr b"
proof (cases p)
  case JFlat
  then show ?thesis using journal_select_place [OF assms] by (simp add: journal_open_eq update_conv')
next
  case JBucket
  then obtain l where l: "lmb_journal_history j' name = Inr l" and f: "map_of (jr_flat j') name = None"
    using journal_select_place [OF assms] by blast
  have "jr_flat (journal_put j' name JBucket b) = jr_flat j'" "jr_private (journal_put j' name JBucket b) = jr_private j'"
    by (auto simp: journal_put.simps(2) split: child.split)
  then show ?thesis using journal_select_place [OF assms] f
    by (simp only: JBucket journal_open_eq journal_put_find [OF l]) simp
qed


section \<open>Pages\<close>

text \<open>The names a page ranges over.\<close>

definition page_key :: "bytes \<Rightarrow> bytes \<Rightarrow> bytes \<Rightarrow> bool" where
  "page_key suffix after n \<longleftrightarrow> lmb_journal_name_valid n \<and> drop 64 n = suffix \<and> (after = [] \<or> after < take 64 n)"

definition child_listing :: "'a list child \<Rightarrow> 'a list" where
  "child_listing c = (case c of Dir l \<Rightarrow> l | _ \<Rightarrow> [])"

definition bucket_names :: "journal \<Rightarrow> bytes \<Rightarrow> bytes \<Rightarrow> bytes list" where
  "bucket_names j first second =
     (case jr_history j of Dir f \<Rightarrow> (case f first of Dir s \<Rightarrow> map fst (child_listing (s second)) | _ \<Rightarrow> []) | _ \<Rightarrow> [])"

definition journal_names :: "journal \<Rightarrow> bytes list" where
  "journal_names j = map fst (jr_flat j) @
     concat (map (\<lambda>i. concat (map (\<lambda>k. bucket_names j (hex_pair i) (hex_pair k)) [0..<256])) [0..<256])"

lemma take_insort:
  "sorted xs \<Longrightarrow> take k (insort x (take k xs)) = take k (insort (x :: 'a :: linorder) xs)"
proof (induction xs arbitrary: k)
  case (Cons y ys)
  then show ?case by (cases k; cases "x \<le> y") (auto simp: take_Cons')
qed simp

lemma takeWhile_insort:
  "sorted xs \<Longrightarrow> x \<notin> set xs \<Longrightarrow>
   take (length (takeWhile (\<lambda>n. n < x) xs)) xs @ x # drop (length (takeWhile (\<lambda>n. n < x) xs)) xs = insort (x :: 'a :: linorder) xs"
  by (induction xs) auto

lemma sort_append1: "sort (xs @ [x]) = insort (x :: 'a :: linorder) (sort xs)"
  by (rule properties_for_sort) (simp_all add: sorted_insort)

lemma insort_at_most:
  assumes "sorted xs" "k \<le> length (takeWhile (\<lambda>n. n < x) (take k xs))"
  shows "take k (insort (x :: 'a :: linorder) xs) = take k xs"
  using assms
proof (induction xs arbitrary: k)
  case (Cons y ys)
  then show ?case by (cases k) (auto split: if_splits)
qed simp

lemma page_scan_step:
  assumes "lmb_journal_name_valid n" "drop 64 n = suffix" "prefix = [] \<or> take 4 n = prefix" "\<not> (after \<noteq> [] \<and> take 64 n \<le> after)"
    "n \<notin> set page"
  shows "lmb_journal_page_scan suffix after prefix (n # names) page =
    lmb_journal_page_scan suffix after prefix names
      (let at = length (takeWhile (\<lambda>k. k < n) page) in if at > 256 then page else take 257 (take at page @ n # drop at page))"
proof -
  have "\<not> (at < length page \<and> page ! at = n)" for at using assms(5) nth_mem by metis
  then show ?thesis using assms(1-4) by (auto simp: Let_def)
qed

text \<open>Invariant of the scan: the page is the first 257 of what has been seen.\<close>

lemma page_scan_eq:
  assumes "distinct (S @ names)" "\<forall>n \<in> set names. lmb_journal_name_valid n \<longrightarrow> drop 64 n = suffix \<longrightarrow> prefix \<noteq> [] \<longrightarrow> take 4 n = prefix"
  shows "lmb_journal_page_scan suffix after prefix names (take 257 (sort S)) =
    Some (take 257 (sort (S @ filter (page_key suffix after) names)))"
  using assms
proof (induction names arbitrary: S)
  case (Cons n names)
  show ?case
  proof (cases "page_key suffix after n")
    case False
    then show ?thesis using Cons by (auto simp: page_key_def not_less)
  next
    case True
    have key: "lmb_journal_name_valid n" "drop 64 n = suffix" "\<not> (after \<noteq> [] \<and> take 64 n \<le> after)"
      using True by (auto simp: page_key_def)
    have pre: "prefix = [] \<or> take 4 n = prefix" using Cons.prems(2) key(1,2) by auto
    have new: "n \<notin> set (take 257 (sort S))" using Cons.prems(1) by (auto dest: in_set_takeD)
    have "(let at = length (takeWhile (\<lambda>k. k < n) (take 257 (sort S))) in if at > 256 then take 257 (sort S)
        else take 257 (take at (take 257 (sort S)) @ n # drop at (take 257 (sort S)))) = take 257 (sort (S @ [n]))"
    proof (cases "length (takeWhile (\<lambda>k. k < n) (take 257 (sort S))) > 256")
      case full: True
      then have "take 257 (sort (S @ [n])) = take 257 (sort S)"
        unfolding sort_append1 by (intro insort_at_most) simp_all
      then show ?thesis using full by (simp only: Let_def if_True)
    next
      case False
      then show ?thesis unfolding Let_def sort_append1
        by (subst takeWhile_insort) (simp_all only: new sorted_wrt_take sorted_sort if_False take_insort simp_thms)
    qed
    then show ?thesis
      using page_scan_step [OF key(1,2) pre key(3) new] Cons.IH [of "S @ [n]"] Cons.prems True by simp
  qed
qed simp

text \<open>A full page is not changed by larger names.\<close>

lemma insort_last: "\<forall>m \<in> set xs. m < (n :: 'a :: linorder) \<Longrightarrow> insort n xs = xs @ [n]"
  by (induction xs) auto

lemma sort_append_larger:
  assumes "length (take k (sort S)) = k" "\<forall>n \<in> set ns. \<forall>m \<in> set (take k (sort S)). m < (n :: 'a :: linorder)"
  shows "take k (sort (S @ ns)) = take k (sort S)"
  using assms(2)
proof (induction ns rule: rev_induct)
  case (snoc n ns)
  have "take k (sort ((S @ ns) @ [n])) = take k (insort n (take k (sort (S @ ns))))"
    unfolding sort_append1 by (rule take_insort [symmetric]) simp
  also have "\<dots> = take k (insort n (take k (sort S)))" using snoc by simp
  also have "\<dots> = take k (sort S)" using snoc.prems assms(1) by (subst insort_last) auto
  finally show ?case by simp
qed simp

lemma take_mono_lex: "(a :: bytes) \<le> b \<Longrightarrow> take k a \<le> take k b"
proof (induction k arbitrary: a b)
  case (Suc k)
  then show ?case by (cases a; cases b) auto
qed simp

lemma append_le_lex: "(b :: bytes) \<le> c \<Longrightarrow> xs @ b \<le> xs @ c"
  by (induction xs) simp_all

lemma take_less_lex: "take k (a :: bytes) < take k b \<Longrightarrow> a < b"
  using take_mono_lex [of b a k] by (meson leD leI)

lemma page_last_greatest:
  assumes "257 \<le> length (S :: bytes list)" "m \<in> set (take 257 (sort S))"
  shows "m \<le> take 257 (sort S) ! 256"
proof -
  obtain i where i: "i < 257" "m = sort S ! i" using assms by (auto simp: in_set_conv_nth)
  have "sort S ! i \<le> sort S ! 256" using i(1) assms(1) by (intro sorted_nth_mono) auto
  then show ?thesis using i by simp
qed

text \<open>Names whose first digits are past those of the last of a full page do not change it.\<close>

lemma page_done:
  assumes "length (take 257 (sort S)) > 256" "\<forall>n \<in> set ns. take k (take 257 (sort S) ! 256) < take k (n :: bytes)"
  shows "take 257 (sort (S @ filter P ns)) = take 257 (sort S)"
proof (rule sort_append_larger)
  show "length (take 257 (sort S)) = 257" using assms(1) by simp
  have l: "257 \<le> length S" using assms(1) by simp
  show "\<forall>n \<in> set (filter P ns). \<forall>m \<in> set (take 257 (sort S)). m < n"
  proof (intro ballI)
    fix n m assume n: "n \<in> set (filter P ns)" and m: "m \<in> set (take 257 (sort S))"
    have "n \<in> set ns" using n unfolding set_filter by blast
    from bspec [OF assms(2) this] have "take 257 (sort S) ! 256 < n" by (rule take_less_lex)
    then show "m < n" by (rule order_le_less_trans [OF page_last_greatest [OF l m]])
  qed
qed

lemma page_before:
  assumes "after \<noteq> []" "\<forall>n \<in> set ns. take k n < take k after" "k \<le> 64"
  shows "filter (page_key suffix after) ns = []"
proof -
  have "\<not> page_key suffix after n" if "n \<in> set ns" for n
  proof
    assume "page_key suffix after n"
    then have "after \<le> take 64 n" using assms(1) by (auto simp: page_key_def intro: order.strict_implies_order)
    then have "take k after \<le> take k (take 64 n)" by (rule take_mono_lex)
    then have "take k after \<le> take k n" using assms(3) by (simp add: min_absorb1)
    then show False using assms(2) that by (meson leD)
  qed
  then show ?thesis by (simp add: filter_empty_conv)
qed

abbreviation second_names :: "(bytes \<Rightarrow> listing child) \<Rightarrow> bytes \<Rightarrow> bytes list" where
  "second_names s second \<equiv> map fst (child_listing (s second))"

lemma page_seconds_eq:
  assumes "distinct (S @ concat (map (second_names s) seconds))" "sorted_wrt (<) seconds"
    "\<forall>b \<in> set seconds. s b \<noteq> Unsafe \<and> readable (first @ b) \<and> (\<forall>n \<in> set (second_names s b). take 4 n = first @ b)"
    "length first = 2" "\<forall>b \<in> set seconds. length b = 2"
  shows "page_seconds readable suffix after first s seconds (take 257 (sort S)) =
    Some (take 257 (sort (S @ filter (page_key suffix after) (concat (map (second_names s) seconds)))))"
  using assms(1-3,5)
proof (induction seconds arbitrary: S)
  case (Cons b seconds)
  let ?F = "filter (page_key suffix after)"
  have apart: "distinct (S @ concat (map (second_names s) seconds))" "distinct (S @ second_names s b)"
    "distinct ((S @ ?F (second_names s b)) @ concat (map (second_names s) seconds))"
    using Cons.prems(1) by (auto simp del: set_map set_concat)
  have rest: "sorted_wrt (<) seconds" "\<forall>b \<in> set seconds. s b \<noteq> Unsafe \<and> readable (first @ b) \<and> (\<forall>n \<in> set (second_names s b). take 4 n = first @ b)"
    "\<forall>b \<in> set seconds. length b = 2" using Cons.prems(2-) by simp_all
  have names: "\<forall>n \<in> set (second_names s b). take 4 n = first @ b" and safe: "s b \<noteq> Unsafe" "readable (first @ b)"
    and len: "length b = 2" using Cons.prems by simp_all
  consider (before) "after \<noteq> []" "first @ b < take 4 after"
    | (past) "\<not> (after \<noteq> [] \<and> first @ b < take 4 after)" "length (take 257 (sort S)) > 256" "take 4 (take 257 (sort S) ! 256) < first @ b"
    | (scan) "\<not> (after \<noteq> [] \<and> first @ b < take 4 after)"
       "\<not> (length (take 257 (sort S)) > 256 \<and> take 4 (take 257 (sort S) ! 256) < first @ b)" by blast
  then show ?case
  proof cases
    case before
    have "?F (second_names s b) = []" using before names by (intro page_before [where k = 4]) auto
    moreover have "page_seconds readable suffix after first s seconds (take 257 (sort S)) =
        Some (take 257 (sort (S @ ?F (concat (map (second_names s) seconds)))))"
      by (intro Cons.IH apart rest)
    ultimately show ?thesis using before by simp
  next
    case past
    have gt: "\<forall>n \<in> set (concat (map (second_names s) (b # seconds))). take 4 (take 257 (sort S) ! 256) < take 4 n"
    proof
      fix n assume "n \<in> set (concat (map (second_names s) (b # seconds)))"
      then obtain c where c: "c \<in> set (b # seconds)" "n \<in> set (second_names s c)" by auto
      then have "take 4 n = first @ c" using Cons.prems(3) by blast
      moreover have "b \<le> c" using c(1) Cons.prems(2) by (auto intro: order.strict_implies_order)
      then have "first @ b \<le> first @ c" by (rule append_le_lex)
      ultimately show "take 4 (take 257 (sort S) ! 256) < take 4 n" using past(3) by simp
    qed
    have step: "page_seconds readable suffix after first s (b # seconds) (take 257 (sort S)) = Some (take 257 (sort S))"
      using past by (simp only: page_seconds.simps Let_def if_False if_True simp_thms)
    show ?thesis unfolding step page_done [OF past(2) gt, where P = "page_key suffix after"] by (rule refl)
  next
    case scan
    have step: "page_seconds readable suffix after first s (b # seconds) (take 257 (sort S)) =
      (case s b of Missing \<Rightarrow> page_seconds readable suffix after first s seconds (take 257 (sort S)) | Unsafe \<Rightarrow> None
         | Dir l \<Rightarrow> case lmb_journal_page_scan suffix after (first @ b) (map fst l) (take 257 (sort S)) of
               None \<Rightarrow> None | Some page \<Rightarrow> page_seconds readable suffix after first s seconds page)"
      unfolding page_seconds.simps Let_def if_not_P [OF scan(1)] if_not_P [OF scan(2)]
      using safe(2) by (simp only: simp_thms if_False)
    show ?thesis
    proof (cases "s b")
      case Missing
      moreover have "page_seconds readable suffix after first s seconds (take 257 (sort S)) =
          Some (take 257 (sort (S @ ?F (concat (map (second_names s) seconds)))))"
        by (intro Cons.IH apart rest)
      ultimately show ?thesis using step by (simp add: child_listing_def)
    next
      case (Dir l)
      have l: "second_names s b = map fst l" by (simp add: Dir child_listing_def)
      have "lmb_journal_page_scan suffix after (first @ b) (map fst l) (take 257 (sort S)) =
          Some (take 257 (sort (S @ ?F (map fst l))))"
        using apart(2) names unfolding l by (intro page_scan_eq) blast+
      moreover have "page_seconds readable suffix after first s seconds (take 257 (sort (S @ ?F (map fst l)))) =
          Some (take 257 (sort ((S @ ?F (map fst l)) @ ?F (concat (map (second_names s) seconds)))))"
        by (intro Cons.IH rest apart(3) [unfolded l])
      ultimately have "page_seconds readable suffix after first s (b # seconds) (take 257 (sort S)) =
          Some (take 257 (sort ((S @ ?F (map fst l)) @ ?F (concat (map (second_names s) seconds)))))"
        by (simp only: step Dir child.case option.case)
      moreover have "(S @ ?F (map fst l)) @ ?F (concat (map (second_names s) seconds)) =
          S @ ?F (concat (map (second_names s) (b # seconds)))"
        unfolding list.map concat.simps filter_append append_assoc l ..
      ultimately show ?thesis by (simp only:)
    qed (use safe in simp)
  qed
qed simp

lemma hex_digits_nth: "i < 16 \<Longrightarrow> unat (hex_digits ! i) = (if i < 10 then 48 + i else 87 + i)"
proof -
  assume i: "i < 16"
  have "list_all (\<lambda>i. unat (hex_digits ! i) = (if i < 10 then 48 + i else 87 + i)) [0..<16]" by code_simp
  then show ?thesis using i by (auto simp only: list_all_iff set_upt atLeastLessThan_iff)
qed

lemma hex_pair_less:
  assumes "i < k" "k < 256"
  shows "hex_pair i < hex_pair k"
proof -
  have d: "i div 16 < 16" "k div 16 < 16" using assms by auto
  have "i div 16 < k div 16 \<or> i div 16 = k div 16 \<and> i mod 16 < k mod 16"
  proof (cases "i div 16 < k div 16")
    case False
    then have "i div 16 = k div 16" using assms(1) div_le_mono [of i k 16] by simp
    moreover then have "i mod 16 < k mod 16" using assms(1) div_mult_mod_eq [of i 16] div_mult_mod_eq [of k 16] by linarith
    ultimately show ?thesis by simp
  qed simp
  then show ?thesis
    by (auto simp: hex_pair_def word_less_nat_alt word_unat_eq_iff hex_digits_nth d)
qed

lemma hex_pairs_sorted: "sorted_wrt (<) (map hex_pair [0..<256])"
  by (auto simp: sorted_wrt_iff_nth_less hex_pair_less)

lemma lower_hex_digit:
  assumes "lower_hex b"
  shows "\<exists>i < 16. hex_digits ! i = b"
proof (cases "b \<le> 57")
  case True
  then have "48 \<le> unat b \<and> unat b \<le> 57" using assms by (auto simp: lower_hex_def word_le_nat_alt)
  then show ?thesis by (intro exI [of _ "unat b - 48"]) (auto simp: word_unat_eq_iff hex_digits_nth)
next
  case False
  then have "97 \<le> unat b \<and> unat b \<le> 102" using assms by (auto simp: lower_hex_def word_le_nat_alt)
  then show ?thesis by (intro exI [of _ "unat b - 87"]) (auto simp: word_unat_eq_iff hex_digits_nth)
qed

lemma lower_hex_pair:
  assumes "lower_hex a" "lower_hex b"
  shows "[a, b] \<in> set (map hex_pair [0..<256])"
proof -
  obtain i k where "i < 16" "hex_digits ! i = a" "k < 16" "hex_digits ! k = b" using assms lower_hex_digit by metis
  then have "hex_pair (16 * i + k) = [a, b] \<and> 16 * i + k < 256" by (simp add: hex_pair_def)
  then show ?thesis by (metis atLeastLessThan_iff atLeast_upt image_eqI list.set_map lessThan_iff)
qed

lemma valid_name_parts:
  assumes "lmb_journal_name_valid n"
  shows "first_part n \<in> set (map hex_pair [0..<256])" "second_part n \<in> set (map hex_pair [0..<256])"
    "length (first_part n) = 2" "length (second_part n) = 2" "take 4 n = first_part n @ second_part n"
proof -
  have len: "66 \<le> length n" and hex: "list_all lower_hex (take 64 n)" using assms by (auto simp: lmb_journal_name_valid_def)
  from len obtain a b c d r where n: "n = a # b # c # d # r"
    by (cases n; cases "tl n"; cases "tl (tl n)"; cases "tl (tl (tl n))") auto
  have "lower_hex a" "lower_hex b" "lower_hex c" "lower_hex d" using hex by (simp_all add: n)
  then show "first_part n \<in> set (map hex_pair [0..<256])" "second_part n \<in> set (map hex_pair [0..<256])"
    using lower_hex_pair by (simp_all only: n) (simp_all del: set_map)
  show "length (first_part n) = 2" "length (second_part n) = 2" "take 4 n = first_part n @ second_part n"
    by (simp_all add: n)
qed

definition first_names :: "(bytes \<Rightarrow> (bytes \<Rightarrow> listing child) child) \<Rightarrow> bytes \<Rightarrow> bytes list" where
  "first_names f first = (case f first of Dir s \<Rightarrow> concat (map (second_names s) (map hex_pair [0..<256])) | _ \<Rightarrow> [])"

text \<open>A directory below \<open>history-v1\<close> that can be read and holds only its own keys.\<close>

definition first_ok :: "(bytes \<Rightarrow> bool) \<Rightarrow> (bytes \<Rightarrow> (bytes \<Rightarrow> listing child) child) \<Rightarrow> bytes \<Rightarrow> bool" where
  "first_ok readable f first \<longleftrightarrow> length first = 2 \<and> f first \<noteq> Unsafe \<and>
     (\<forall>s. f first = Dir s \<longrightarrow> (\<forall>b \<in> set (map hex_pair [0..<256]).
        s b \<noteq> Unsafe \<and> readable (first @ b) \<and> (\<forall>n \<in> set (second_names s b). take 4 n = first @ b)))"

lemma first_names_take:
  assumes "first_ok readable f first" "n \<in> set (first_names f first)"
  shows "take 2 n = first"
proof -
  obtain s where s: "f first = Dir s" using assms(2) by (cases "f first") (auto simp: first_names_def)
  then obtain b where b: "b \<in> set (map hex_pair [0..<256])" "n \<in> set (second_names s b)"
    using assms(2) by (auto simp: first_names_def)
  then have "take 4 n = first @ b" "length first = 2" using assms(1) s unfolding first_ok_def by blast+
  moreover have "take 2 n = take 2 (take 4 n)" by simp
  ultimately show ?thesis by simp
qed

lemma page_firsts_eq:
  assumes "distinct (S @ concat (map (first_names f) firsts))" "sorted_wrt (<) firsts" "\<forall>a \<in> set firsts. first_ok readable f a"
  shows "page_firsts readable suffix after f firsts (take 257 (sort S)) =
    Some (take 257 (sort (S @ filter (page_key suffix after) (concat (map (first_names f) firsts)))))"
  using assms
proof (induction firsts arbitrary: S)
  case (Cons a firsts)
  let ?F = "filter (page_key suffix after)"
  have apart: "distinct (S @ concat (map (first_names f) firsts))" "distinct (S @ first_names f a)"
    "distinct ((S @ ?F (first_names f a)) @ concat (map (first_names f) firsts))"
    using Cons.prems(1) by (auto simp del: set_map set_concat)
  have rest: "sorted_wrt (<) firsts" "\<forall>a \<in> set firsts. first_ok readable f a" using Cons.prems by simp_all
  have ok: "first_ok readable f a" using Cons.prems(3) by simp
  consider (before) "after \<noteq> []" "a < take 2 after"
    | (past) "\<not> (after \<noteq> [] \<and> a < take 2 after)" "length (take 257 (sort S)) > 256" "take 2 (take 257 (sort S) ! 256) < a"
    | (scan) "\<not> (after \<noteq> [] \<and> a < take 2 after)"
       "\<not> (length (take 257 (sort S)) > 256 \<and> take 2 (take 257 (sort S) ! 256) < a)" by blast
  then show ?case
  proof cases
    case before
    have "?F (first_names f a) = []" using before first_names_take [OF ok] by (intro page_before [where k = 2]) auto
    moreover have "page_firsts readable suffix after f firsts (take 257 (sort S)) =
        Some (take 257 (sort (S @ ?F (concat (map (first_names f) firsts)))))" by (intro Cons.IH apart rest)
    ultimately show ?thesis using before by simp
  next
    case past
    have gt: "\<forall>n \<in> set (concat (map (first_names f) (a # firsts))). take 2 (take 257 (sort S) ! 256) < take 2 n"
    proof
      fix n assume "n \<in> set (concat (map (first_names f) (a # firsts)))"
      then obtain c where c: "c \<in> set (a # firsts)" "n \<in> set (first_names f c)" by auto
      then have "take 2 n = c" using Cons.prems(3) first_names_take by blast
      moreover have "a \<le> c" using c(1) Cons.prems(2) by (auto intro: order.strict_implies_order)
      ultimately show "take 2 (take 257 (sort S) ! 256) < take 2 n" using past(3) by simp
    qed
    have step: "page_firsts readable suffix after f (a # firsts) (take 257 (sort S)) = Some (take 257 (sort S))"
      using past by (simp only: page_firsts.simps if_False if_True simp_thms)
    show ?thesis unfolding step page_done [OF past(2) gt, where P = "page_key suffix after"] by (rule refl)
  next
    case scan
    have step: "page_firsts readable suffix after f (a # firsts) (take 257 (sort S)) =
      (case f a of Missing \<Rightarrow> page_firsts readable suffix after f firsts (take 257 (sort S)) | Unsafe \<Rightarrow> None
         | Dir s \<Rightarrow> case page_seconds readable suffix after a s (map hex_pair [0..<256]) (take 257 (sort S)) of
               None \<Rightarrow> None | Some page \<Rightarrow> page_firsts readable suffix after f firsts page)"
      unfolding page_firsts.simps if_not_P [OF scan(1)] if_not_P [OF scan(2)] by (rule refl)
    show ?thesis
    proof (cases "f a")
      case Missing
      moreover have "page_firsts readable suffix after f firsts (take 257 (sort S)) =
          Some (take 257 (sort (S @ ?F (concat (map (first_names f) firsts)))))" by (intro Cons.IH apart rest)
      moreover have "first_names f a = []" by (simp only: Missing first_names_def child.case)
      ultimately show ?thesis using step Missing by simp
    next
      case (Dir s)
      let ?N = "concat (map (second_names s) (map hex_pair [0..<256]))"
      have N: "first_names f a = ?N" by (simp only: Dir first_names_def child.case)
      have two: "\<forall>b \<in> set (map hex_pair [0..<256]). length b = 2" by (simp add: hex_pair_def)
      have one: "length a = 2" "\<forall>b \<in> set (map hex_pair [0..<256]). s b \<noteq> Unsafe \<and> readable (a @ b) \<and>
          (\<forall>n \<in> set (second_names s b). take 4 n = a @ b)" using ok Dir unfolding first_ok_def by blast+
      have "page_seconds readable suffix after a s (map hex_pair [0..<256]) (take 257 (sort S)) = Some (take 257 (sort (S @ ?F ?N)))"
        by (rule page_seconds_eq [OF apart(2) [unfolded N] hex_pairs_sorted one(2,1) two])
      moreover have "page_firsts readable suffix after f firsts (take 257 (sort (S @ ?F ?N))) =
          Some (take 257 (sort ((S @ ?F ?N) @ ?F (concat (map (first_names f) firsts)))))"
        by (intro Cons.IH rest apart(3) [unfolded N])
      ultimately have "page_firsts readable suffix after f (a # firsts) (take 257 (sort S)) =
          Some (take 257 (sort ((S @ ?F ?N) @ ?F (concat (map (first_names f) firsts)))))"
        by (simp only: step Dir child.case option.case)
      moreover have "(S @ ?F ?N) @ ?F (concat (map (first_names f) firsts)) = S @ ?F (concat (map (first_names f) (a # firsts)))"
        unfolding list.map(2) [of "first_names f"] concat.simps filter_append append_assoc N ..
      ultimately show ?thesis by (simp only:)
    qed (use ok in \<open>simp add: first_ok_def\<close>)
  qed
qed simp

end
