(* ===== verification/Tracker_Store.thy ===== *)
theory Tracker_Store
  imports Journal Sha256 Wire
begin

text \<open>
  The durable evidence of the tracker, \<^verbatim>\<open>src/runtime/lumabri_tracker_history.h\<close> over the journal: a record is
  the magic, its payload and a SHA-256 digest over the record's name and these bytes. Locks and
  directories that cannot be opened, unreadable files and failing writes are parameters; a write may
  fail after its rename has become visible.
\<close>

section \<open>Hexadecimal text\<close>

definition hex_char :: "u8 \<Rightarrow> u8" where
  "hex_char v = (if v < 10 then 48 + v else 87 + v)"

definition lmb_hex :: "bytes \<Rightarrow> bytes" where
  "lmb_hex src = concat (map (\<lambda>b. [hex_char (drop_bit 4 b), hex_char (b AND 15)]) src)"

definition hex_value :: "u8 \<Rightarrow> u8 option" where
  "hex_value a =
     (if 48 \<le> a \<and> a \<le> 57 then Some (a - 48) else if 97 \<le> a \<and> a \<le> 102 then Some (a - 97 + 10)
      else if 65 \<le> a \<and> a \<le> 70 then Some (a - 65 + 10) else None)"

fun lmb_unhex :: "nat \<Rightarrow> bytes \<Rightarrow> bytes option" where
  "lmb_unhex 0 src = Some []"
| "lmb_unhex (Suc n) (a # b # src) =
     (case (hex_value a, hex_value b) of
        (Some hi, Some lo) \<Rightarrow> map_option ((#) (push_bit 4 hi OR lo)) (lmb_unhex n src)
      | _ \<Rightarrow> None)"
| "lmb_unhex (Suc n) _ = None"

lemma length_lmb_hex [simp]: "length (lmb_hex src) = 2 * length src"
  by (induction src) (simp_all add: lmb_hex_def)

lemma hex_value_char: "v < 16 \<Longrightarrow> hex_value (hex_char v) = Some v"
proof -
  assume "v < 16"
  then have "unat v \<in> set [0..<16]" by (simp add: word_less_nat_alt)
  moreover have "list_all (\<lambda>n. hex_value (hex_char (of_nat n)) = Some (of_nat n)) [0..<16]" by code_simp
  ultimately have "hex_value (hex_char (of_nat (unat v))) = Some (of_nat (unat v))" unfolding list_all_iff by blast
  then show ?thesis by simp
qed

lemma nibbles:
  fixes b :: u8
  shows "drop_bit 4 b < 16" "b AND 15 < 16" "push_bit 4 (drop_bit 4 b) OR (b AND 15) = b"
proof -
  show "drop_bit 4 b < 16" using unsigned_less [of b, where ?'a = nat]
    by (simp add: word_less_nat_alt drop_bit_eq_div unat_div)
  show "b AND 15 < 16" by (rule order_le_less_trans [of _ 15]) (auto simp: word_and_le1)
  have "b AND 15 = take_bit 4 b" by (simp add: take_bit_eq_mask mask_eq_exp_minus_1)
  moreover have "push_bit 4 (drop_bit 4 b) OR take_bit 4 b = b"
    by (rule bit_word_eqI) (auto simp: bit_simps)
  ultimately show "push_bit 4 (drop_bit 4 b) OR (b AND 15) = b" by simp
qed

lemma unhex_hex: "lmb_unhex (length src) (lmb_hex src) = Some src"
proof (induction src)
  case (Cons b src)
  then show ?case using nibbles [of b] by (simp add: lmb_hex_def hex_value_char)
qed (simp add: lmb_hex_def)

lemma lower_hex_char: "v < 16 \<Longrightarrow> lower_hex (hex_char v)"
proof -
  assume "v < 16"
  then have "unat v \<in> set [0..<16]" by (simp add: word_less_nat_alt)
  moreover have "list_all (\<lambda>n. lower_hex (hex_char (of_nat n))) [0..<16]" by code_simp
  ultimately have "lower_hex (hex_char (of_nat (unat v)))" unfolding list_all_iff by blast
  then show ?thesis by simp
qed

lemma lower_hex_lmb_hex: "list_all lower_hex (lmb_hex src)"
  by (induction src) (use nibbles in \<open>simp_all add: lmb_hex_def lower_hex_char\<close>)


section \<open>Records\<close>

definition tracker_history_key :: "bytes \<Rightarrow> bytes \<Rightarrow> bytes \<Rightarrow> bytes" where
  "tracker_history_key kind model path =
     lmb_hex (lmb_sha_final (fold (\<lambda>part sha. lmb_sha_update sha (part @ [0])) [kind, model, path] lmb_sha_init)) @
       [46, 101, 110, 116, 114, 121]"

definition tracker_history_digest :: "bytes \<Rightarrow> bytes \<Rightarrow> bytes" where
  "tracker_history_digest name b =
     lmb_sha_final (lmb_sha_update (lmb_sha_update lmb_sha_init (name @ [0])) b)"

definition record_magic :: bytes where
  "record_magic = [0x4C, 0x4D, 0x42, 0x2D, 0x54, 0x52, 0x48, 0x31]"

datatype 'a history_result = HAbsent | HBad | HFound 'a

definition tracker_history_read :: "bool \<Rightarrow> journal \<Rightarrow> bytes \<Rightarrow> bytes history_result" where
  "tracker_history_read io h name =
     (case lmb_journal_open h name of
        Inl J_NOENT \<Rightarrow> HAbsent
      | Inl J_FAIL \<Rightarrow> HBad
      | Inr b \<Rightarrow>
          if length b < 40 \<or> length b > unat LMB_MAX_BODY + 2048 \<or> \<not> io then HBad
          else let expected = tracker_history_digest name (take (length b - 32) b)
               in if take 8 b \<noteq> record_magic \<or> expected \<noteq> drop (length b - 32) b then HBad
                  else HFound (take (length b - 40) (drop 8 b)))"

datatype write_outcome = WriteFails | WriteUnsure | WriteDone

record history_io =
  io_begin :: bool
  io_read :: bool
  io_scan :: "bytes \<Rightarrow> bool"
  io_make :: nat
  io_write :: write_outcome

definition record_bytes :: "bytes \<Rightarrow> bytes \<Rightarrow> bytes" where
  "record_bytes name payload =
     record_magic @ payload @ tracker_history_digest name (record_magic @ payload)"

definition tracker_history_write :: "history_io \<Rightarrow> journal \<Rightarrow> bytes \<Rightarrow> bytes \<Rightarrow> journal \<times> bool" where
  "tracker_history_write io h name payload =
     (if length payload > unat LMB_MAX_BODY + 2008 then (h, False)
      else case lmb_journal_select (io_scan io) (io_make io) h name [46, 101, 110, 116, 114, 121] 256 of
        (h, Inl _) \<Rightarrow> (h, False)
      | (h, Inr at) \<Rightarrow>
          (case io_write io of
             WriteFails \<Rightarrow> (h, False)
           | WriteUnsure \<Rightarrow> (journal_put h name at (record_bytes name payload), False)
           | WriteDone \<Rightarrow> (journal_put h name at (record_bytes name payload), True)))"

lemma length_lmb_sha_final [simp]: "length (lmb_sha_final s) = 32"
  by (simp add: lmb_sha_final_def sha_digest_def Let_def length_concat comp_def sum_list_triv)

lemma length_history_digest [simp]: "length (tracker_history_digest name b) = 32"
  by (simp add: tracker_history_digest_def)

lemma length_record_magic [simp]: "length record_magic = 8"
  by (simp add: record_magic_def)

lemma history_key_valid:
  "lmb_journal_name_valid (tracker_history_key kind model path)" "drop 64 (tracker_history_key kind model path) = [46, 101, 110, 116, 114, 121]"
proof -
  obtain d where d: "tracker_history_key kind model path = lmb_hex d @ [46, 101, 110, 116, 114, 121]" "length d = 32"
    unfolding tracker_history_key_def using length_lmb_sha_final by blast
  have l: "length (lmb_hex d) = 64" using d(2) by simp
  have "(lmb_hex d @ [46, 101, 110, 116, 114, 121]) ! 64 = 46" using nth_append_length [of "lmb_hex d"] l by simp
  then show "lmb_journal_name_valid (tracker_history_key kind model path)"
    unfolding d(1) lmb_journal_name_valid_def using lower_hex_lmb_hex [of d] by (simp add: l del: length_lmb_hex)
  show "drop 64 (tracker_history_key kind model path) = [46, 101, 110, 116, 114, 121]" unfolding d(1) using l by simp
qed

text \<open>What was written is read back.\<close>

lemma history_read_written:
  assumes "lmb_journal_open h name = Inr (record_bytes name payload)" "length payload \<le> unat LMB_MAX_BODY + 2008"
  shows "tracker_history_read True h name = HFound payload"
proof -
  let ?b = "record_bytes name payload"
  have l: "length ?b = length payload + 40" by (simp add: record_bytes_def)
  have t: "take (length ?b - 32) ?b = record_magic @ payload" "drop (length ?b - 32) ?b = tracker_history_digest name (record_magic @ payload)"
    "take 8 ?b = record_magic" "take (length ?b - 40) (drop 8 ?b) = payload"
    by (simp_all add: l) (simp_all add: record_bytes_def)
  show ?thesis
    unfolding tracker_history_read_def assms(1) sum.case t Let_def using assms(2) by (simp add: l)
qed

text \<open>A read depends on the stored bytes alone; without a read error it finds a record or none.\<close>

lemma history_read_io: "tracker_history_read True h name = HFound b \<Longrightarrow> tracker_history_read io h name = HFound b \<or> tracker_history_read io h name = HBad"
  by (auto simp: tracker_history_read_def Let_def split: sum.splits jerr.splits if_splits)

lemma history_read_True: "tracker_history_read io h name = HFound b \<Longrightarrow> tracker_history_read True h name = HFound b"
  by (auto simp: tracker_history_read_def Let_def split: sum.splits jerr.splits if_splits)

lemma history_read_cong: "lmb_journal_open h' name = lmb_journal_open h name \<Longrightarrow> tracker_history_read io h' name = tracker_history_read io h name"
  by (simp add: tracker_history_read_def)

text \<open>A write changes at most its own record, and a write that succeeds stores the payload.\<close>

lemma history_write_cases:
  assumes "tracker_history_write io h name payload = (h', ok)"
  shows "(\<forall>n. n \<noteq> name \<longrightarrow> lmb_journal_open h' n = lmb_journal_open h n) \<and>
    (lmb_journal_open h' name = lmb_journal_open h name \<and> \<not> ok \<or>
     tracker_history_read True h' name = HFound payload \<and> length payload \<le> unat LMB_MAX_BODY + 2008)"
proof (cases "length payload > unat LMB_MAX_BODY + 2008")
  case False
  obtain j r where s: "lmb_journal_select (io_scan io) (io_make io) h name [46, 101, 110, 116, 114, 121] 256 = (j, r)" by fastforce
  note K = journal_select_keeps [OF s]
  show ?thesis
  proof (cases r)
    case (Inl e)
    then show ?thesis using assms False K s by (auto simp: tracker_history_write_def)
  next
    case (Inr at)
    note S = s [unfolded Inr]
    have w: "h' = j \<and> \<not> ok \<or> h' = journal_put j name at (record_bytes name payload)"
      using assms False S by (auto simp: tracker_history_write_def split: write_outcome.splits)
    then show ?thesis
    proof
      assume "h' = j \<and> \<not> ok"
      then show ?thesis using K by simp
    next
      assume h: "h' = journal_put j name at (record_bytes name payload)"
      have "lmb_journal_open h' n = lmb_journal_open h n" if "n \<noteq> name" for n
        using journal_put_other [OF that, of at j] journal_select_place [OF S] K unfolding h by simp
      moreover have "tracker_history_read True h' name = HFound payload"
        unfolding h using journal_put_same [OF S] False by (intro history_read_written) simp_all
      ultimately show ?thesis using False by simp
    qed
  qed
qed (use assms in \<open>simp add: tracker_history_write_def\<close>)

end
