(* ===== verification/Tracker_Bindings.thy ===== *)
theory Tracker_Bindings
  imports Tracker_Store
begin

text \<open>
  Who owns a name: the bindings of \<^verbatim>\<open>src/tracker.c\<close> (lines 199 to 334). The first key that claims a name owns it.
  The owner is kept in a bounded cache, in an append-only text file and in the exact history; the model has
  all three, with every read and write of the disk free to fail and a restart of the process.
  A name and a line of the file are C strings: lists without a zero byte.
\<close>

section \<open>The cache\<close>

abbreviation MAX_BINDINGS :: nat where "MAX_BINDINGS \<equiv> 4096"

record Binding =
  bd_name :: bytes
  bd_pubkey :: bytes
  bd_is_expert :: bool

record binding_cache =
  g_bindings :: "Binding list"
  g_binding_cursor :: u32

definition binding_name_ok :: "bytes \<Rightarrow> bool" where
  "binding_name_ok s \<longleftrightarrow> s \<noteq> [] \<and> length s < 64 \<and> list_all (\<lambda>p. \<not> (p = 9 \<or> p = 10 \<or> p = 13 \<or> p < 0x20)) s"

fun binding_scan :: "nat \<Rightarrow> Binding list \<Rightarrow> bytes \<Rightarrow> bool \<Rightarrow> nat option" where
  "binding_scan i [] name is_expert = None"
| "binding_scan i (x # xs) name is_expert =
     (if bd_is_expert x = is_expert \<and> bd_name x = name then Some i else binding_scan (i + 1) xs name is_expert)"

definition binding_find :: "binding_cache \<Rightarrow> bytes \<Rightarrow> bool \<Rightarrow> nat option" where
  "binding_find c name is_expert = binding_scan 0 (g_bindings c) name is_expert"

definition binding_remember :: "binding_cache \<Rightarrow> bytes \<Rightarrow> bool \<Rightarrow> bytes \<Rightarrow> binding_cache" where
  "binding_remember c name is_expert pk =
     (let x = \<lparr>bd_name = take 63 name, bd_pubkey = pk, bd_is_expert = is_expert\<rparr>
      in case binding_find c name is_expert of
           Some at \<Rightarrow> c\<lparr>g_bindings := (g_bindings c)[at := x]\<rparr>
         | None \<Rightarrow>
             if length (g_bindings c) < MAX_BINDINGS then c\<lparr>g_bindings := g_bindings c @ [x]\<rparr>
             else c\<lparr>g_bindings := (g_bindings c)[unat (g_binding_cursor c) mod MAX_BINDINGS := x],
                    g_binding_cursor := g_binding_cursor c + 1\<rparr>)"


section \<open>The exact history\<close>

definition binding_key :: "bytes \<Rightarrow> bool \<Rightarrow> bytes" where
  "binding_key name is_expert =
     tracker_history_key ([0x62, 0x69, 0x6E, 0x64, 0x69, 0x6E, 0x67, 0x2D] @ [if is_expert then 0x45 else 0x4D]) name []"

definition binding_history_accept :: "history_io \<Rightarrow> journal \<Rightarrow> bytes \<Rightarrow> bool \<Rightarrow> bytes \<Rightarrow> journal \<times> bool" where
  "binding_history_accept io h name is_expert pk =
     (let key = binding_key name is_expert
      in case tracker_history_read (io_read io) h key of
           HFound saved \<Rightarrow> (h, length saved = 32 \<and> saved = pk)
         | HAbsent \<Rightarrow> tracker_history_write io h key pk
         | HBad \<Rightarrow> (h, False))"


section \<open>The file\<close>

text \<open>\<open>fgets\<close> with a buffer of \<open>n\<close> bytes: up to \<open>n - 1\<close> bytes, through the first newline.\<close>

definition fgets_line :: "nat \<Rightarrow> bytes \<Rightarrow> bytes" where
  "fgets_line n b = (let w = takeWhile (\<lambda>x. x \<noteq> 10) b
     in if length w < n - 1 \<and> length w < length b then w @ [10] else take (n - 1) b)"

function fgets_lines :: "bytes \<Rightarrow> bytes list" where
  "fgets_lines b = (if b = [] then [] else fgets_line 768 b # fgets_lines (drop (length (fgets_line 768 b)) b))"
  by auto
termination
  by (relation "measure length") (auto simp: fgets_line_def Let_def)

datatype row = RowSkip | RowBad | Row bool bytes bytes

definition strip_newline :: "bytes \<Rightarrow> bytes" where
  "strip_newline s = (if s \<noteq> [] \<and> last s = 10 then butlast s else s)"

definition binding_row_parse :: "bytes \<Rightarrow> row" where
  "binding_row_parse line =
     (let s = strip_newline (c_str line)
      in if s = [] \<or> hd s = 0x23 then RowSkip
         else let k = takeWhile (\<lambda>x. x \<noteq> 9) s; rest = drop (length k + 1) s;
                  a = takeWhile (\<lambda>x. x \<noteq> 9) rest; b = drop (length a + 1) rest
              in if length k = length s \<or> length a = length rest \<or> length k \<noteq> 1 \<or> hd s \<noteq> 0x4D \<and> hd s \<noteq> 0x45 then RowBad
                 else if length a \<noteq> 64 \<or> \<not> binding_name_ok b then RowBad
                 else case lmb_unhex 32 a of None \<Rightarrow> RowBad | Some pk \<Rightarrow> Row (hd s = 0x45) pk b)"

definition file_rows :: "bytes \<Rightarrow> row list" where
  "file_rows b = map binding_row_parse (fgets_lines b)"

definition binding_row :: "bytes \<Rightarrow> bool \<Rightarrow> bytes \<Rightarrow> bytes" where
  "binding_row name is_expert pk = [if is_expert then 0x45 else 0x4D, 9] @ lmb_hex pk @ [9] @ name @ [10]"

text \<open>The disk and the process. An operation meets: a file or history that cannot be opened, a read error
  after some lines, the history's own failures, and an append of which only the first bytes are stored.\<close>

record bindings_io =
  bi_open :: bool
  bi_lines :: "nat option"
  bi_history :: "nat \<Rightarrow> history_io"
  bi_appended :: nat
  bi_flush :: bool

record bindings_state =
  tb_cache :: binding_cache
  tb_file :: "bytes option"
  tb_history :: journal

definition read_rows :: "bindings_io \<Rightarrow> bytes \<Rightarrow> row list" where
  "read_rows io b = (case bi_lines io of None \<Rightarrow> file_rows b | Some n \<Rightarrow> take n (file_rows b))"

fun bindings_load_rows :: "(nat \<Rightarrow> history_io) \<Rightarrow> nat \<Rightarrow> row list \<Rightarrow> journal \<Rightarrow> binding_cache \<Rightarrow> journal \<times> binding_cache \<times> bool" where
  "bindings_load_rows io i [] h c = (h, c, True)"
| "bindings_load_rows io i (RowSkip # rows) h c = bindings_load_rows io (i + 1) rows h c"
| "bindings_load_rows io i (RowBad # rows) h c = (h, c, False)"
| "bindings_load_rows io i (Row e pk name # rows) h c =
     (case binding_history_accept (io i) h name e pk of
        (h, False) \<Rightarrow> (h, c, False)
      | (h, True) \<Rightarrow> bindings_load_rows io (i + 1) rows h (binding_remember c name e pk))"

definition bindings_load :: "bindings_io \<Rightarrow> bindings_state \<Rightarrow> bindings_state \<times> bool" where
  "bindings_load io st =
     (case tb_file st of
        None \<Rightarrow> (st, bi_open io)
      | Some b \<Rightarrow>
          if \<not> bi_open io \<or> \<not> io_begin (bi_history io 0) then (st, False)
          else case bindings_load_rows (bi_history io) 0 (read_rows io b) (tb_history st) (tb_cache st) of
                 (h, c, ok) \<Rightarrow> (st\<lparr>tb_history := h, tb_cache := c\<rparr>, ok \<and> bi_lines io = None))"

text \<open>The second look at the file, under the lock: \<open>None\<close> is \<open>disk_bad\<close>, else \<open>disk_found\<close>.\<close>

fun binding_on_disk :: "row list \<Rightarrow> bytes \<Rightarrow> bool \<Rightarrow> bytes \<Rightarrow> bool \<Rightarrow> bool option" where
  "binding_on_disk [] name is_expert pk found = Some found"
| "binding_on_disk (RowSkip # rows) name is_expert pk found = binding_on_disk rows name is_expert pk found"
| "binding_on_disk (RowBad # rows) name is_expert pk found = None"
| "binding_on_disk (Row e saved b # rows) name is_expert pk found =
     (if e = is_expert \<and> b = name
      then if saved \<noteq> pk then None else binding_on_disk rows name is_expert pk True
      else binding_on_disk rows name is_expert pk found)"

definition binding_check_or_add :: "bindings_io \<Rightarrow> bindings_state \<Rightarrow> bytes \<Rightarrow> bool \<Rightarrow> bytes \<Rightarrow> bindings_state \<times> bool" where
  "binding_check_or_add io st name is_expert pk =
     (case binding_find (tb_cache st) name is_expert of
        Some old \<Rightarrow> (st, bd_pubkey (g_bindings (tb_cache st) ! old) = pk)
      | None \<Rightarrow>
          if \<not> binding_name_ok name \<or> \<not> bi_open io then (st, False)
          else let b = (case tb_file st of None \<Rightarrow> [] | Some b \<Rightarrow> b);
                   st = st\<lparr>tb_file := Some b\<rparr>
               in case (if bi_lines io = None then binding_on_disk (file_rows b) name is_expert pk False else None) of
                    None \<Rightarrow> (st, False)
                  | Some disk_found \<Rightarrow>
                      if \<not> io_begin (bi_history io 0) then (st, False)
                      else case binding_history_accept (bi_history io 0) (tb_history st) name is_expert pk of
                             (h, False) \<Rightarrow> (st\<lparr>tb_history := h\<rparr>, False)
                           | (h, True) \<Rightarrow>
                               let st = st\<lparr>tb_history := h\<rparr>
                               in if disk_found then (st\<lparr>tb_cache := binding_remember (tb_cache st) name is_expert pk\<rparr>, True)
                                  else let row = binding_row name is_expert pk;
                                           st = st\<lparr>tb_file := Some (b @ take (bi_appended io) row)\<rparr>
                                       in if length row < 768 \<and> length row \<le> bi_appended io \<and> bi_flush io
                                          then (st\<lparr>tb_cache := binding_remember (tb_cache st) name is_expert pk\<rparr>, True)
                                          else (st, False))"

declare fgets_lines.simps [simp del]


section \<open>The history decides\<close>

abbreviation recorded :: "journal \<Rightarrow> bytes \<Rightarrow> bool \<Rightarrow> bytes \<Rightarrow> bool" where
  "recorded h name is_expert pk \<equiv> tracker_history_read True h (binding_key name is_expert) = HFound pk"

text \<open>Accepting records the key, and nothing recorded is ever replaced.\<close>

lemma history_accept_records:
  "binding_history_accept io h name e pk = (h', True) \<Longrightarrow> recorded h' name e pk"
  by (auto simp: binding_history_accept_def Let_def split: history_result.splits
      dest: history_read_True history_write_cases)

lemma history_accept_keeps:
  assumes "binding_history_accept io h name e pk = (h', ok)" "tracker_history_read True h k = HFound b"
  shows "tracker_history_read True h' k = HFound b"
proof (cases "tracker_history_read (io_read io) h (binding_key name e)")
  case HAbsent
  then have w: "tracker_history_write io h (binding_key name e) pk = (h', ok)"
    using assms(1) by (simp add: binding_history_accept_def Let_def)
  have "k \<noteq> binding_key name e" using history_read_io [OF assms(2), of "io_read io"] HAbsent by auto
  then have "lmb_journal_open h' k = lmb_journal_open h k" using history_write_cases [OF w] by blast
  then show ?thesis using assms(2) history_read_cong by metis
qed (use assms in \<open>auto simp: binding_history_accept_def Let_def\<close>)

definition cache_recorded :: "journal \<Rightarrow> binding_cache \<Rightarrow> bool" where
  "cache_recorded h c \<longleftrightarrow> (\<forall>x \<in> set (g_bindings c). recorded h (bd_name x) (bd_is_expert x) (bd_pubkey x))"

lemma binding_scan_Some:
  "binding_scan i xs name e = Some k \<Longrightarrow> \<exists>j < length xs. k = i + j \<and> bd_is_expert (xs ! j) = e \<and> bd_name (xs ! j) = name"
proof (induction xs arbitrary: i)
  case (Cons x xs)
  show ?case
  proof (cases "bd_is_expert x = e \<and> bd_name x = name")
    case False
    then obtain j where "j < length xs" "k = i + 1 + j" "bd_is_expert (xs ! j) = e" "bd_name (xs ! j) = name"
      using Cons.IH [of "i + 1"] Cons.prems by auto
    then show ?thesis by (intro exI [of _ "j + 1"]) simp
  qed (use Cons.prems in auto)
qed simp

lemma binding_find_Some:
  "binding_find c name e = Some k \<Longrightarrow>
   k < length (g_bindings c) \<and> bd_is_expert (g_bindings c ! k) = e \<and> bd_name (g_bindings c ! k) = name"
  unfolding binding_find_def by (drule binding_scan_Some) auto

lemma remember_members:
  assumes "x \<in> set (g_bindings (binding_remember c name e pk))" "binding_name_ok name"
  shows "x \<in> set (g_bindings c) \<or> x = \<lparr>bd_name = name, bd_pubkey = pk, bd_is_expert = e\<rparr>"
proof -
  have "take 63 name = name" using assms(2) by (simp add: binding_name_ok_def)
  then show ?thesis using assms(1)
    by (auto simp: binding_remember_def Let_def split: option.splits if_splits dest: set_update_subset_insert [THEN subsetD])
qed

lemma cache_recorded_remember:
  assumes "cache_recorded h c" "recorded h name e pk" "binding_name_ok name"
  shows "cache_recorded h (binding_remember c name e pk)"
  using assms remember_members [OF _ assms(3)] unfolding cache_recorded_def by fastforce

lemma cache_recorded_mono:
  assumes "cache_recorded h c" "\<And>k b. tracker_history_read True h k = HFound b \<Longrightarrow> tracker_history_read True h' k = HFound b"
  shows "cache_recorded h' c"
  using assms unfolding cache_recorded_def by blast

lemma row_name_ok: "binding_row_parse line = Row e pk name \<Longrightarrow> binding_name_ok name"
  by (auto simp: binding_row_parse_def Let_def split: if_splits option.splits)

lemma file_row_name_ok: "Row e pk name \<in> set (read_rows io b) \<Longrightarrow> binding_name_ok name"
proof -
  assume "Row e pk name \<in> set (read_rows io b)"
  then have "Row e pk name \<in> set (file_rows b)" by (auto simp: read_rows_def split: option.splits dest: in_set_takeD)
  then obtain line where "binding_row_parse line = Row e pk name" by (auto simp: file_rows_def)
  then show ?thesis by (rule row_name_ok)
qed

lemma load_rows_recorded:
  assumes "bindings_load_rows io i rows h c = (h', c', ok)" "cache_recorded h c" "\<And>e pk name. Row e pk name \<in> set rows \<Longrightarrow> binding_name_ok name"
  shows "cache_recorded h' c' \<and> (\<forall>k b. tracker_history_read True h k = HFound b \<longrightarrow> tracker_history_read True h' k = HFound b)"
  using assms
proof (induction io i rows h c rule: bindings_load_rows.induct)
  case (4 io i e pk name rows h c)
  obtain h1 ok1 where a: "binding_history_accept (io i) h name e pk = (h1, ok1)" by fastforce
  note keep = history_accept_keeps [OF a]
  show ?case
  proof (cases ok1)
    case True
    have "cache_recorded h1 (binding_remember c name e pk)"
      using 4(3) a keep True 4(4) [of e pk name]
      by (intro cache_recorded_remember cache_recorded_mono [of h c h1] history_accept_records [of "io i" h]) auto
    moreover have "bindings_load_rows io (i + 1) rows h1 (binding_remember c name e pk) = (h', c', ok)"
      using 4(2) a True by simp
    moreover have "\<And>e pk name. Row e pk name \<in> set rows \<Longrightarrow> binding_name_ok name" using 4(4) by (meson list.set_intros(2))
    ultimately have "cache_recorded h' c' \<and>
        (\<forall>k b. tracker_history_read True h1 k = HFound b \<longrightarrow> tracker_history_read True h' k = HFound b)"
      using 4(1) [of h1 ok1] a True by simp
    then show ?thesis using keep by blast
  next
    case False
    then have "h' = h1 \<and> c' = c" using 4(2) a by simp
    then show ?thesis using cache_recorded_mono [OF 4(3)] keep by blast
  qed
qed auto

text \<open>A claim: what is recorded stays, and an accepted key is the recorded one.\<close>

lemma check_or_add_recorded:
  assumes "binding_check_or_add io st name e pk = (st', ok)" "cache_recorded (tb_history st) (tb_cache st)"
  shows "cache_recorded (tb_history st') (tb_cache st') \<and>
    (\<forall>k b. tracker_history_read True (tb_history st) k = HFound b \<longrightarrow> tracker_history_read True (tb_history st') k = HFound b) \<and>
    (ok \<longrightarrow> recorded (tb_history st') name e pk)"
proof (cases "binding_find (tb_cache st) name e")
  case (Some old)
  have "recorded (tb_history st) name e (bd_pubkey (g_bindings (tb_cache st) ! old))"
    using binding_find_Some [OF Some] assms(2) nth_mem unfolding cache_recorded_def by metis
  moreover have "st' = st" "ok = (bd_pubkey (g_bindings (tb_cache st) ! old) = pk)"
    using assms(1) Some by (auto simp: binding_check_or_add_def)
  ultimately show ?thesis using assms(2) by auto
next
  case None
  obtain h ok1 where a: "binding_history_accept (bi_history io 0) (tb_history st) name e pk = (h, ok1)" by fastforce
  note keep = history_accept_keeps [OF a]
  have c: "cache_recorded h (tb_cache st)" using cache_recorded_mono [OF assms(2)] keep by blast
  consider (same) "tb_history st' = tb_history st" "tb_cache st' = tb_cache st" "\<not> ok"
    | (tried) "tb_history st' = h" "tb_cache st' = tb_cache st" "\<not> ok"
    | (added) "tb_history st' = h" "tb_cache st' = binding_remember (tb_cache st) name e pk" "ok1" "binding_name_ok name"
    using assms(1) None a
    by (auto simp: binding_check_or_add_def Let_def split: if_splits option.splits bool.splits)
  then show ?thesis
  proof cases
    case added
    have r: "recorded h name e pk" using history_accept_records a [unfolded eqTrueI [OF added(3)]] by blast
    then show ?thesis using added keep cache_recorded_remember [OF c r] by auto
  qed (use c keep assms(2) in auto)
qed


section \<open>The first claim wins\<close>

text \<open>Everything that can happen to a tracker and its disk: an arbitrary disk at first; restarts, which load the
  file; claims, each with its own failures; a crash is a failing operation followed by a restart; other
  records of the history may change. The accepted claims are collected.\<close>

inductive bindings_run :: "bool \<Rightarrow> bindings_state \<Rightarrow> (bytes \<times> bool \<times> bytes) set \<Rightarrow> bool" where
  disk: "bindings_run False st {}"
| restart: "bindings_run up st A \<Longrightarrow>
    bindings_load io (st\<lparr>tb_cache := \<lparr>g_bindings = [], g_binding_cursor = 0\<rparr>\<rparr>) = (st', ok) \<Longrightarrow> bindings_run ok st' A"
| claim: "bindings_run True st A \<Longrightarrow> binding_check_or_add io st name is_expert pk = (st', ok) \<Longrightarrow>
    bindings_run True st' (if ok then insert (name, is_expert, pk) A else A)"
| other: "bindings_run up st A \<Longrightarrow>
    (\<forall>name e. lmb_journal_open h (binding_key name e) = lmb_journal_open (tb_history st) (binding_key name e)) \<Longrightarrow>
    bindings_run up (st\<lparr>tb_history := h\<rparr>) A"

lemma bindings_run_recorded:
  "bindings_run up st A \<Longrightarrow>
   (up \<longrightarrow> cache_recorded (tb_history st) (tb_cache st)) \<and> (\<forall>(name, e, pk) \<in> A. recorded (tb_history st) name e pk)"
proof (induction rule: bindings_run.induct)
  case (restart up st A io st' ok)
  let ?c = "\<lparr>g_bindings = [], g_binding_cursor = 0\<rparr>"
  have empty: "cache_recorded (tb_history st) ?c" by (simp add: cache_recorded_def)
  consider "tb_history st' = tb_history st" "tb_cache st' = ?c"
    | b h c k where "bindings_load_rows (bi_history io) 0 (read_rows io b) (tb_history st) ?c = (h, c, k)"
      "tb_history st' = h" "tb_cache st' = c"
  proof (cases "tb_file st = None \<or> \<not> bi_open io \<or> \<not> io_begin (bi_history io 0)")
    case True
    then show ?thesis using restart.hyps(2) that(1) by (auto simp: bindings_load_def split: option.splits)
  next
    case False
    then obtain b where b: "tb_file st = Some b" by auto
    obtain h c k where l: "bindings_load_rows (bi_history io) 0 (read_rows io b) (tb_history st) ?c = (h, c, k)" by (metis prod_cases3)
    then show ?thesis using that(2) [OF l] restart.hyps(2) False b by (auto simp: bindings_load_def)
  qed
  then show ?case
  proof cases
    case 1
    then show ?thesis using empty restart.IH by simp
  next
    case (2 b h c k)
    have "cache_recorded h c \<and> (\<forall>k b. tracker_history_read True (tb_history st) k = HFound b \<longrightarrow> tracker_history_read True h k = HFound b)"
      by (rule load_rows_recorded [OF 2(1) empty]) (rule file_row_name_ok)
    then show ?thesis using 2(2,3) restart.IH by fastforce
  qed
next
  case (claim st A io name e pk st' ok)
  then show ?case using check_or_add_recorded [OF claim.hyps(2)] by auto
next
  case (other up st A h)
  have same: "recorded h name e pk \<longleftrightarrow> recorded (tb_history st) name e pk" for name e pk
    using other.hyps(2) history_read_cong by metis
  show ?case using other.IH unfolding cache_recorded_def by (simp add: same)
qed auto

text \<open>C31: The first key that claims a name keeps it: whatever failures, crashes, cache evictions and restarts a
  tracker goes through, on whatever disk it started, two accepted claims of one name in one role carry
  the same key.\<close>

theorem binding_first_claim_wins:
  assumes "bindings_run up st A" "(name, is_expert, pk1) \<in> A" "(name, is_expert, pk2) \<in> A"
  shows "pk1 = pk2"
proof -
  have "\<forall>(name, is_expert, pk) \<in> A. recorded (tb_history st) name is_expert pk" using bindings_run_recorded [OF assms(1)] ..
  then have "recorded (tb_history st) name is_expert pk1" "recorded (tb_history st) name is_expert pk2" using assms(2,3) by auto
  then show ?thesis by simp
qed

end
