(* ===== verification/Tracker_Segments.thy ===== *)
theory Tracker_Segments
  imports Discovery_Codec Tracker_Bindings
begin

text \<open>
  The Segment registry of \<^verbatim>\<open>src/tracker.c\<close>: which computer holds which layers of which model, under which
  lease. Signed registrations, route queries, compute telemetry, and the assignment of a range to a
  donor. Each section under \<open>g_lk\<close> is one step. A registration has two: one that settles the claim and stores the
  range (\<open>handle_segment_register\<close>), and one that reads the owner to answer (\<open>register_reply\<close>), and anything may
  happen between them. Clock readings are integers (nanoseconds); the Ed25519 check, the identity of the channel, the
  observed address, fresh random bytes and the model identity cache are inputs of the step. A message that
  carries a payload where none belongs is refused before anything else and is not a step. A peer has the fields the
  registry uses; those of expert execution and of the relay mailbox are left out, and so is what a connection that
  ends does to pending relay calls.
\<close>

section \<open>State\<close>

abbreviation MAX_PEERS :: nat where "MAX_PEERS \<equiv> 64"
abbreviation MAX_SEGMENT_PROMISES :: nat where "MAX_SEGMENT_PROMISES \<equiv> 128"
abbreviation MAX_NAMES_PER_KEY :: nat where "MAX_NAMES_PER_KEY \<equiv> 8"
abbreviation SEGMENT_PROMISE_TTL :: int where "SEGMENT_PROMISE_TTL \<equiv> 300000000000"
abbreviation SEGMENT_COMPUTE_TTL :: int where "SEGMENT_COMPUTE_TTL \<equiv> 10000000000"
abbreviation LMB_PEER_AUTH_MAGIC :: u32 where "LMB_PEER_AUTH_MAGIC \<equiv> 0x52554150"
abbreviation LMB_SEG_ASSIGN_MAGIC :: u32 where "LMB_SEG_ASSIGN_MAGIC \<equiv> 0x31415347"
abbreviation LMB_SEG_ASSIGN_VERSION :: u32 where "LMB_SEG_ASSIGN_VERSION \<equiv> 2"

record Peer =
  pe_name :: bytes
  pe_addr :: bytes
  pe_model :: bytes
  pe_source :: bytes
  pe_ts :: int
  pe_used :: bool
  pe_refs :: nat
  pe_is_expert :: bool
  pe_has_expert :: bool
  pe_has_segment :: bool
  pe_pubkey :: bytes
  pe_has_key :: bool
  pe_segment :: lmb_seg_advert
  pe_segment_owner :: lmb_seg_owner
  pe_segment_ts :: int
  pe_segment_live :: bool
  pe_segment_compute :: lmb_seg_compute
  pe_segment_compute_ts :: int
  pe_ctrl_fd :: "nat option"
  pe_evfd :: bool

record SegmentPromise =
  pr_used :: bool
  pr_model :: bytes
  pr_name :: bytes
  pr_engine :: bytes
  pr_model_root :: bytes
  pr_begin :: u32
  pr_end :: u32
  pr_ts :: int

record tracker =
  tk_peers :: "Peer list"
  tk_promises :: "SegmentPromise list"
  tk_generation :: u64
  tk_generation_ready :: bool
  tk_bindings :: bindings_state
  tk_stale :: int
  tk_max_names_per_source :: nat

definition seg_owner_zero :: lmb_seg_owner where
  "seg_owner_zero = \<lparr>lease_id = replicate LMB_SEG_ID_BYTES 0, fencing_epoch = 0, route_generation = 0\<rparr>"

definition peer_zero :: "bool \<Rightarrow> Peer" where
  "peer_zero evfd =
     \<lparr>pe_name = [], pe_addr = [], pe_model = [], pe_source = [], pe_ts = 0, pe_used = False, pe_refs = 0,
      pe_is_expert = False, pe_has_expert = False, pe_has_segment = False,
      pe_pubkey = replicate 32 0, pe_has_key = False, pe_segment = seg_advert_zero, pe_segment_owner = seg_owner_zero,
      pe_segment_ts = 0, pe_segment_live = False, pe_segment_compute = seg_compute_zero, pe_segment_compute_ts = 0,
      pe_ctrl_fd = None, pe_evfd = evfd\<rparr>"

definition promise_zero :: SegmentPromise where
  "promise_zero = \<lparr>pr_used = False, pr_model = [], pr_name = [], pr_engine = [],
     pr_model_root = replicate LMB_SEG_ROOT_BYTES 0, pr_begin = 0, pr_end = 0, pr_ts = 0\<rparr>"

text \<open>The index of the first element a loop stops at.\<close>

fun first_index :: "('a \<Rightarrow> bool) \<Rightarrow> nat \<Rightarrow> 'a list \<Rightarrow> nat option" where
  "first_index P i [] = None"
| "first_index P i (x # xs) = (if P x then Some i else first_index P (i + 1) xs)"

lemma first_index_Some:
  "first_index P i xs = Some k \<Longrightarrow> \<exists>j < length xs. k = i + j \<and> P (xs ! j) \<and> (\<forall>m < j. \<not> P (xs ! m))"
proof (induction xs arbitrary: i)
  case (Cons x xs)
  show ?case
  proof (cases "P x")
    case False
    then obtain j where j: "j < length xs" "k = i + 1 + j" "P (xs ! j)" "\<forall>m < j. \<not> P (xs ! m)"
      using Cons.IH [of "i + 1"] Cons.prems by auto
    have "\<not> P ((x # xs) ! m)" if "m < j + 1" for m using that False j(4) by (cases m) auto
    then show ?thesis using j by (intro exI [of _ "j + 1"]) simp
  qed (use Cons.prems in auto)
qed simp

lemma first_index_None: "first_index P i xs = None \<longleftrightarrow> (\<forall>x \<in> set xs. \<not> P x)"
  by (induction xs arbitrary: i) auto


section \<open>Generations\<close>

definition segment_generation_bump :: "u64 \<Rightarrow> u64 option" where
  "segment_generation_bump g = (if (ucast g :: u32) = UINT32_MAX then None else Some (g + 1))"

text \<open>\<open>strtoull\<close> in base 10: white space, a sign, digits; the value saturates with ERANGE.\<close>

definition c_space :: "u8 \<Rightarrow> bool" where
  "c_space b \<longleftrightarrow> b = 32 \<or> 9 \<le> b \<and> b \<le> 13"

definition c_digit :: "u8 \<Rightarrow> bool" where
  "c_digit b \<longleftrightarrow> 48 \<le> b \<and> b \<le> 57"

definition decimal_value :: "bytes \<Rightarrow> nat" where
  "decimal_value ds = fold (\<lambda>d v. 10 * v + unat (d - 48)) ds 0"

text \<open>The parsed value and the rest, or nothing when no digit is there or it is out of range.\<close>

definition strtoull_10 :: "bytes \<Rightarrow> (u64 \<times> bytes) option" where
  "strtoull_10 s =
     (let s = dropWhile c_space s;
          neg = (s \<noteq> [] \<and> hd s = 45);
          s = (if s \<noteq> [] \<and> (hd s = 45 \<or> hd s = 43) then tl s else s);
          ds = takeWhile c_digit s; v = decimal_value ds
      in if ds = [] \<or> v > unat UINT64_MAX then None
         else Some (if neg then - of_nat v else of_nat v, drop (length ds) s))"

function decimal_text :: "nat \<Rightarrow> bytes" where
  "decimal_text n = (if n < 10 then [48 + of_nat n] else decimal_text (n div 10) @ [48 + of_nat (n mod 10)])"
  by auto
termination
  by (relation "measure id") auto

declare decimal_text.simps [simp del]

text \<open>One generation epoch per process: the counter in the file is increased before it is used. What a write
  that fails leaves is its first bytes over the old content.\<close>

record generation_io =
  gi_open :: bool
  gi_read :: bool
  gi_written :: nat
  gi_flush :: bool

definition segment_generation_init :: "generation_io \<Rightarrow> bytes option \<Rightarrow> bytes option \<times> u64 option" where
  "segment_generation_init io file =
     (if \<not> gi_open io then (file, None)
      else let old = (case file of None \<Rightarrow> [] | Some b \<Rightarrow> b); buf = take 63 old
           in case (if \<not> gi_read io \<or> length buf = 63 then None
                    else if buf = [] then Some 0
                    else case strtoull_10 (c_str buf) of
                           None \<Rightarrow> None
                         | Some (previous, rest) \<Rightarrow>
                             if rest \<noteq> [] \<and> hd rest \<noteq> 10 \<or> previous \<ge> ucast UINT32_MAX then None else Some previous) of
                None \<Rightarrow> (Some old, None)
              | Some previous \<Rightarrow>
                  let epoch = ucast previous + 1 :: u32;
                      text = decimal_text (unat epoch) @ [10];
                      written = min (gi_written io) (length text);
                      file = Some (take written text @ drop written old)
                  in if written < length text \<or> \<not> gi_flush io then (file, None)
                     else (file, Some (push_bit 32 (ucast epoch) OR 1)))"


section \<open>Peers\<close>

definition peer_auth_strip :: "bytes \<Rightarrow> bytes \<times> (bytes \<times> bytes) option" where
  "peer_auth_strip body =
     (let blen = length body
      in if blen < 100 \<or> lmb_get32 (drop (blen - 100) body) \<noteq> LMB_PEER_AUTH_MAGIC then (body, None)
         else let tail = drop (blen - 100) body
              in (take (blen - 100) body, Some (take 32 (drop 4 tail), take 64 (drop 36 tail))))"

text \<open>A free slot, or the first whose peer has been silent for long and is not in use.\<close>

definition peer_slot_new :: "int \<Rightarrow> int \<Rightarrow> bool \<Rightarrow> Peer list \<Rightarrow> (Peer list \<times> nat) option" where
  "peer_slot_new now stale evfd peers =
     (case (case first_index (\<lambda>p. \<not> pe_used p) 0 peers of
              Some i \<Rightarrow> Some i
            | None \<Rightarrow> first_index (\<lambda>p. \<not> (now - pe_ts p \<le> stale \<or> pe_ctrl_fd p \<noteq> None \<or> pe_refs p \<noteq> 0)) 0 peers) of
        None \<Rightarrow> None
      | Some pick \<Rightarrow> Some (peers[pick := peer_zero evfd], pick))"

definition name_key_ok :: "tracker \<Rightarrow> bytes \<Rightarrow> bool \<Rightarrow> bytes \<Rightarrow> bool" where
  "name_key_ok t name is_expert pk =
     (case binding_find (tb_cache (tk_bindings t)) name is_expert of
        Some bi \<Rightarrow> if bd_pubkey (g_bindings (tb_cache (tk_bindings t)) ! bi) \<noteq> pk then False
                   else (case first_index (\<lambda>p. pe_used p \<and> pe_is_expert p = is_expert \<and> pe_has_key p \<and> pe_name p = name) 0 (tk_peers t) of
                           None \<Rightarrow> True | Some i \<Rightarrow> pe_pubkey (tk_peers t ! i) = pk)
      | None \<Rightarrow> (case first_index (\<lambda>p. pe_used p \<and> pe_is_expert p = is_expert \<and> pe_has_key p \<and> pe_name p = name) 0 (tk_peers t) of
                   None \<Rightarrow> True | Some i \<Rightarrow> pe_pubkey (tk_peers t ! i) = pk))"

fun room_scan :: "int \<Rightarrow> int \<Rightarrow> bytes \<Rightarrow> bytes \<Rightarrow> bool \<Rightarrow> bytes \<Rightarrow> Peer list \<Rightarrow> nat \<Rightarrow> nat \<Rightarrow> (nat \<times> nat) option" where
  "room_scan now stale pk name is_expert source [] held from_source = Some (held, from_source)"
| "room_scan now stale pk name is_expert source (p # ps) held from_source =
     (if \<not> pe_used p \<or> \<not> pe_has_key p then room_scan now stale pk name is_expert source ps held from_source
      else if pe_is_expert p = is_expert \<and> pe_name p = name then None
      else if \<not> (now - pe_ts p \<le> stale \<or> pe_ctrl_fd p \<noteq> None) then room_scan now stale pk name is_expert source ps held from_source
      else room_scan now stale pk name is_expert source ps
             (if pe_pubkey p = pk then held + 1 else held)
             (if source \<noteq> [] \<and> pe_source p = source then from_source + 1 else from_source))"

definition identity_has_room :: "int \<Rightarrow> tracker \<Rightarrow> bytes \<Rightarrow> bytes \<Rightarrow> bool \<Rightarrow> bytes \<Rightarrow> bool" where
  "identity_has_room now t pk name is_expert source =
     (case room_scan now (tk_stale t) pk name is_expert source (tk_peers t) 0 0 of
        None \<Rightarrow> True
      | Some (held, from_source) \<Rightarrow> held < MAX_NAMES_PER_KEY \<and> from_source < tk_max_names_per_source t)"


section \<open>Registration\<close>

definition segment_route_shape_equal :: "lmb_seg_advert \<Rightarrow> lmb_seg_advert \<Rightarrow> bool" where
  "segment_route_shape_equal a b \<longleftrightarrow>
     c_str (av_peer_name a) = c_str (av_peer_name b) \<and>
     c_str (av_addr a) = c_str (av_addr b) \<and> c_str (av_model a) = c_str (av_model b) \<and>
     av_model_root a = av_model_root b \<and> av_tokenizer_root a = av_tokenizer_root b \<and>
     av_layer_begin a = av_layer_begin b \<and> av_layer_end a = av_layer_end b \<and>
     av_max_context a = av_max_context b \<and> av_max_rows a = av_max_rows b \<and>
     av_state_dtype a = av_state_dtype b \<and> av_state_width a = av_state_width b \<and>
     av_max_sessions a = av_max_sessions b \<and> av_flags a = av_flags b \<and>
     av_capabilities a = av_capabilities b \<and>
     c_str (av_engine_id a) = c_str (av_engine_id b) \<and>
     c_str (av_state_schema a) = c_str (av_state_schema b) \<and>
     c_str (av_numeric_class a) = c_str (av_numeric_class b)"

text \<open>\<open>snprintf\<close> into a buffer: the string and its terminator, the bytes behind it stay.\<close>

definition snprintf_into :: "bytes \<Rightarrow> bytes \<Rightarrow> bytes" where
  "snprintf_into buf s = (let t = take (length buf - 1) s in t @ [0] @ drop (length t + 1) buf)"

definition loopback_prefix :: bytes where
  "loopback_prefix = [0x31, 0x32, 0x37, 0x2E, 0x30, 0x2E, 0x30, 0x2E, 0x31, 0x3A]"

text \<open>A loopback address of a peer seen elsewhere is replaced by the address it was seen at.\<close>

definition register_addr :: "bytes option \<Rightarrow> lmb_seg_advert \<Rightarrow> lmb_seg_advert" where
  "register_addr seen a =
     (case seen of
        Some ip \<Rightarrow> if take 10 (c_str (av_addr a)) = loopback_prefix
                   then a\<lparr>av_addr := snprintf_into (av_addr a) (take 63 (ip @ [0x3A] @ drop 10 (c_str (av_addr a))))\<rparr>
                   else a
      | None \<Rightarrow> a)"

record register_input =
  rg_fd :: nat
  rg_body :: bytes
  rg_nonce :: "bytes option"
  rg_authentic :: "bytes \<Rightarrow> lmb_seg_advert \<Rightarrow> bytes \<Rightarrow> bytes \<Rightarrow> bool"
  rg_seen :: "bytes option"
  rg_source :: bytes
  rg_next_lease :: seg_id
  rg_now :: int
  rg_root_ok :: "lmb_seg_advert \<Rightarrow> bool"
  rg_evfd :: bool
  rg_io :: bindings_io

text \<open>What the first section of a registration leaves: a refusal, a process that has run out of generations, or the
  slot it stored the range in and whether that is a new placement.\<close>

datatype register_result = RegRefused | RegAborted | RegStored nat bool

text \<open>A range that was not live, or that looks different, is a new placement under a new lease.\<close>

definition register_changed :: "int \<Rightarrow> int \<Rightarrow> lmb_seg_advert \<Rightarrow> Peer \<Rightarrow> bool" where
  "register_changed now stale advert p \<longleftrightarrow>
     (let was_live = (pe_has_segment p \<and> pe_segment_live p \<and> now - pe_segment_ts p \<le> stale)
      in \<not> was_live \<or> \<not> segment_route_shape_equal (pe_segment p) advert)"

definition register_owner :: "bool \<Rightarrow> u64 \<Rightarrow> seg_id \<Rightarrow> lmb_seg_owner \<Rightarrow> lmb_seg_owner" where
  "register_owner changed g next_lease w =
     (let w = (if changed then w\<lparr>lease_id := next_lease, fencing_epoch := g\<rparr> else w)
      in w\<lparr>route_generation := g\<rparr>)"

text \<open>The slot of a peer whose claim is settled.\<close>

definition register_peer :: "register_input \<Rightarrow> lmb_seg_advert \<Rightarrow> bytes \<Rightarrow> bool \<Rightarrow> u64 \<Rightarrow> Peer \<Rightarrow> Peer" where
  "register_peer r advert pk changed g p =
     (let now = rg_now r;
          p = (if changed \<or> pe_ctrl_fd p \<noteq> Some (rg_fd r)
               then p\<lparr>pe_segment_compute := seg_compute_zero, pe_segment_compute_ts := 0\<rparr> else p);
          p = p\<lparr>pe_segment := advert, pe_segment_owner := register_owner changed g (rg_next_lease r) (pe_segment_owner p),
                pe_segment_ts := now, pe_segment_live := True, pe_used := True, pe_is_expert := True, pe_has_segment := True,
                pe_ts := now, pe_ctrl_fd := Some (rg_fd r), pe_pubkey := pk, pe_has_key := True,
                pe_name := c_str (av_peer_name advert), pe_source := rg_source r\<rparr>
      in if pe_has_expert p then p
         else p\<lparr>pe_addr := c_str (av_addr advert), pe_model := c_str (av_model advert)\<rparr>)"

definition register_slot :: "register_input \<Rightarrow> lmb_seg_advert \<Rightarrow> bytes \<Rightarrow> tracker \<Rightarrow> nat \<Rightarrow> tracker \<times> register_result" where
  "register_slot r advert pk t i =
     (let changed = register_changed (rg_now r) (tk_stale t) advert (tk_peers t ! i)
      in case (if changed then segment_generation_bump (tk_generation t) else Some (tk_generation t)) of
           None \<Rightarrow> (t, RegAborted)
         | Some g \<Rightarrow>
             let p = register_peer r advert pk changed g (tk_peers t ! i)
             in (t\<lparr>tk_peers := (tk_peers t)[i := p], tk_generation := g,
                   tk_promises := map (\<lambda>q. if pr_used q \<and> pr_name q = pe_name p then q\<lparr>pr_used := False\<rparr> else q) (tk_promises t)\<rparr>,
                 RegStored i changed))"

text \<open>The section that admits the claim and stores the range.\<close>

definition handle_segment_register :: "register_input \<Rightarrow> tracker \<Rightarrow> tracker \<times> register_result" where
  "handle_segment_register r t =
     (if \<not> tk_generation_ready t then (t, RegRefused)
      else case peer_auth_strip (rg_body r) of
        (body, auth) \<Rightarrow>
          (case lmb_seg_advert_decode body of
             None \<Rightarrow> (t, RegRefused)
           | Some advert \<Rightarrow>
               (case (auth, rg_nonce r) of
                  (Some (pk, sig), Some nonce) \<Rightarrow>
                    if \<not> rg_authentic r nonce advert pk sig then (t, RegRefused)
                    else let advert = register_addr (rg_seen r) advert; name = c_str (av_peer_name advert)
                         in if \<not> rg_root_ok r advert \<or> \<not> name_key_ok t name True pk \<or>
                               \<not> identity_has_room (rg_now r) t pk name True (rg_source r) then (t, RegRefused)
                            else (case first_index (\<lambda>p. pe_used p \<and> pe_is_expert p \<and> pe_name p = name) 0 (tk_peers t) of
                                Some i \<Rightarrow>
                                  if pe_has_expert (tk_peers t ! i) \<and> pe_model (tk_peers t ! i) \<noteq> c_str (av_model advert) then (t, RegRefused)
                                  else (case binding_check_or_add (rg_io r) (tk_bindings t) name True pk of
                                      (b, False) \<Rightarrow> (t\<lparr>tk_bindings := b\<rparr>, RegRefused)
                                    | (b, True) \<Rightarrow> register_slot r advert pk (t\<lparr>tk_bindings := b\<rparr>) i)
                              | None \<Rightarrow>
                                  (case peer_slot_new (rg_now r) (tk_stale t) (rg_evfd r) (tk_peers t) of
                                     None \<Rightarrow> (t, RegRefused)
                                   | Some (peers, i) \<Rightarrow>
                                       (case binding_check_or_add (rg_io r) (tk_bindings t) name True pk of
                                          (b, False) \<Rightarrow> (t\<lparr>tk_peers := peers, tk_bindings := b\<rparr>, RegRefused)
                                        | (b, True) \<Rightarrow> register_slot r advert pk (t\<lparr>tk_peers := peers, tk_bindings := b\<rparr>) i)))
                | _ \<Rightarrow> (t, RegRefused))))"

text \<open>The section that answers: the owner that is in the slot now, at the generation that is current now.\<close>

definition register_reply :: "alloc \<Rightarrow> nat \<Rightarrow> tracker \<Rightarrow> (lmb_seg_owner \<times> bytes) option" where
  "register_reply mem i t =
     (let owner = (pe_segment_owner (tk_peers t ! i))\<lparr>route_generation := tk_generation t\<rparr>
      in map_option (Pair owner) (lmb_seg_registration_reply_encode mem owner))"


section \<open>Routes\<close>

fun expire_peers :: "int \<Rightarrow> int \<Rightarrow> Peer list \<Rightarrow> u64 \<Rightarrow> (Peer list \<times> u64) option" where
  "expire_peers now stale [] g = Some ([], g)"
| "expire_peers now stale (p # ps) g =
     (if pe_used p \<and> pe_has_segment p \<and> pe_segment_live p \<and> now - pe_segment_ts p > stale
      then (case segment_generation_bump g of None \<Rightarrow> None
            | Some g \<Rightarrow> map_option (\<lambda>(ps, g). (p\<lparr>pe_segment_live := False\<rparr> # ps, g)) (expire_peers now stale ps g))
      else map_option (\<lambda>(ps, g). (p # ps, g)) (expire_peers now stale ps g))"

definition peer_live :: "int \<Rightarrow> int \<Rightarrow> Peer \<Rightarrow> bool" where
  "peer_live now stale p \<longleftrightarrow> \<not> (\<not> pe_used p \<or> \<not> pe_has_segment p \<or> \<not> pe_segment_live p \<or> now - pe_segment_ts p > stale)"

definition route_entry :: "u64 \<Rightarrow> Peer \<Rightarrow> lmb_seg_route_entry" where
  "route_entry g p =
     disc_fresh_entry (pe_segment p) ((pe_segment_owner p)\<lparr>route_generation := g\<rparr>)
       ((if c_str (av_addr (pe_segment p)) \<noteq> [] \<and> av_flags (pe_segment p) AND LMB_SEG_ADVERT_RELAY_ONLY = 0
         then LMB_SEG_TRANSPORT_DIRECT else 0) OR
        (if pe_ctrl_fd p \<noteq> None \<and> pe_evfd p then LMB_SEG_TRANSPORT_RELAY else 0))"

definition route_snapshot :: "int \<Rightarrow> int \<Rightarrow> lmb_seg_query \<Rightarrow> Peer list \<Rightarrow> u64 \<Rightarrow> lmb_seg_route_snapshot" where
  "route_snapshot now stale q peers g =
     (let es = take LMB_SEG_ROUTE_MAX (map (route_entry g)
                 (filter (\<lambda>p. peer_live now stale p \<and> lmb_seg_advert_compatible (pe_segment p) q) peers));
          s = \<lparr>rs_route_generation = g, rs_fetched_at_ms = 0, rs_complete = 0, rs_count = of_nat (length es),
               rs_entries = es @ replicate (LMB_SEG_ROUTE_MAX - length es) seg_entry_zero\<rparr>
      in s\<lparr>rs_complete := (if lmb_seg_route_complete s q then 1 else 0)\<rparr>)"

datatype routes_result = RoutesRefused | RoutesAborted | RoutesFailed | RoutesReply bytes

definition handle_segment_routes :: "alloc \<Rightarrow> int \<Rightarrow> bytes \<Rightarrow> tracker \<Rightarrow> tracker \<times> routes_result" where
  "handle_segment_routes mem now body t =
     (if \<not> tk_generation_ready t then (t, RoutesRefused)
      else case lmb_seg_query_decode body of
        None \<Rightarrow> (t, RoutesRefused)
      | Some q \<Rightarrow>
          (case expire_peers now (tk_stale t) (tk_peers t) (tk_generation t) of
             None \<Rightarrow> (t, RoutesAborted)
           | Some (peers, g) \<Rightarrow>
               let t = t\<lparr>tk_peers := peers, tk_generation := g\<rparr>
               in (case lmb_seg_route_encode mem (route_snapshot now (tk_stale t) q peers g) of
                     None \<Rightarrow> (t, RoutesFailed)
                   | Some reply \<Rightarrow> (t, RoutesReply reply))))"


section \<open>Compute telemetry\<close>

definition handle_segment_compute_get :: "alloc \<Rightarrow> int \<Rightarrow> bytes \<Rightarrow> tracker \<Rightarrow> bytes option" where
  "handle_segment_compute_get mem now body t =
     (case lmb_seg_compute_get_request_decode body of
        None \<Rightarrow> None
      | Some requested \<Rightarrow>
          lmb_seg_compute_get_reply_encode mem
            (concat (map (\<lambda>q.
               case first_index (\<lambda>p. \<not> (\<not> pe_used p \<or> \<not> pe_has_segment p \<or> \<not> pe_segment_live p \<or>
                      now - pe_segment_ts p > tk_stale t \<or> now - pe_segment_compute_ts p > SEGMENT_COMPUTE_TTL \<or>
                      \<not> lmb_seg_compute_valid (pe_segment_compute p) \<or>
                      \<not> lmb_seg_id_equal (cp_lease_id q) (lease_id (pe_segment_owner p)) \<or>
                      cp_fencing_epoch q \<noteq> fencing_epoch (pe_segment_owner p))) 0 (tk_peers t) of
                 None \<Rightarrow> [] | Some j \<Rightarrow> [pe_segment_compute (tk_peers t ! j)]) requested)))"

definition handle_segment_compute_put :: "nat \<Rightarrow> int \<Rightarrow> bytes \<Rightarrow> nat option \<Rightarrow> tracker \<Rightarrow> tracker \<times> bool" where
  "handle_segment_compute_put fd now body ctrl t =
     (case (lmb_seg_compute_put_decode body, ctrl) of
        (Some value, Some i) \<Rightarrow>
          let p = tk_peers t ! i
          in if pe_used p \<and> pe_has_segment p \<and> pe_segment_live p \<and> pe_ctrl_fd p = Some fd \<and>
                lmb_seg_id_equal (cp_lease_id value) (lease_id (pe_segment_owner p)) \<and>
                cp_fencing_epoch value = fencing_epoch (pe_segment_owner p) \<and>
                cp_samples value \<ge> cp_samples (pe_segment_compute p)
             then (t\<lparr>tk_peers := (tk_peers t)[i := p\<lparr>pe_segment_compute := value, pe_segment_compute_ts := now\<rparr>]\<rparr>, True)
             else (t, False)
      | _ \<Rightarrow> (t, False))"

text \<open>A control connection ends: its peer can no longer be relayed to.\<close>

definition ctrl_teardown :: "nat \<Rightarrow> nat \<Rightarrow> tracker \<Rightarrow> tracker" where
  "ctrl_teardown fd i t =
     (let p = tk_peers t ! i;
          p = (if pe_ctrl_fd p = Some fd then p\<lparr>pe_ctrl_fd := None\<rparr> else p);
          p = (if pe_refs p \<noteq> 0 then p\<lparr>pe_refs := pe_refs p - 1\<rparr> else p)
      in t\<lparr>tk_peers := (tk_peers t)[i := p]\<rparr>)"

text \<open>A control connection adopts the peer its first registration returned.\<close>

definition ctrl_adopt :: "nat \<Rightarrow> tracker \<Rightarrow> tracker" where
  "ctrl_adopt i t = t\<lparr>tk_peers := (tk_peers t)[i := (tk_peers t ! i)\<lparr>pe_refs := pe_refs (tk_peers t ! i) + 1\<rparr>]\<rparr>"

text \<open>A connection that registers a second identity gives up that control link.\<close>

definition ctrl_refuse :: "nat \<Rightarrow> nat \<Rightarrow> tracker \<Rightarrow> tracker" where
  "ctrl_refuse fd i t =
     (let p = tk_peers t ! i
      in t\<lparr>tk_peers := (tk_peers t)[i := if pe_ctrl_fd p = Some fd then p\<lparr>pe_ctrl_fd := None\<rparr> else p]\<rparr>)"

end
