(* ===== verification/Tracker_Assign.thy ===== *)
theory Tracker_Assign
  imports Tracker_Segments
begin

text \<open>
  Segment assignment in \<^verbatim>\<open>src/tracker.c\<close>: a donor asks for layers and is given the origin slice with the fewest
  replicas, counting the promises made to donors that are still loading; a promise is a table entry per
  donor that expires. The loops over the peer and promise tables are folds and searches over the lists.
\<close>

section \<open>The request\<close>

definition lmb_cur_bytes :: "nat \<Rightarrow> cursor \<Rightarrow> (bytes \<times> cursor) option" where
  "lmb_cur_bytes n c = (if n > length c then None else Some (take n c, drop n c))"

definition lmb_cur_u32 :: "cursor \<Rightarrow> (u32 \<times> cursor) option" where
  "lmb_cur_u32 c = (if 4 > length c then None else Some (lmb_get32 c, drop 4 c))"

definition lmb_cur_u16 :: "cursor \<Rightarrow> (u16 \<times> cursor) option" where
  "lmb_cur_u16 c = (if 2 > length c then None else Some (ucast (c ! 0) OR push_bit 8 (ucast (c ! 1)), drop 2 c))"

text \<open>The C string that is left in the destination: what precedes the first zero byte.\<close>

definition lmb_cur_str :: "nat \<Rightarrow> cursor \<Rightarrow> (bytes \<times> cursor) option" where
  "lmb_cur_str cap c =
     (case lmb_cur_u16 c of
        None \<Rightarrow> None
      | Some (n, c) \<Rightarrow> if unat n > length c \<or> unat n + 1 > cap then None else Some (c_str (take (unat n) c), drop (unat n) c))"

record assign_request =
  ar_model :: bytes
  ar_name :: bytes
  ar_engine :: bytes
  ar_root :: bytes

definition assign_request_decode :: "bytes \<Rightarrow> assign_request option" where
  "assign_request_decode body = do {
     (magic, c) \<leftarrow> lmb_cur_u32 body;
     (version, c) \<leftarrow> lmb_cur_u32 c;
     if magic \<noteq> LMB_SEG_ASSIGN_MAGIC \<or> version \<noteq> LMB_SEG_ASSIGN_VERSION then None
     else do {
       (model, c) \<leftarrow> lmb_cur_str LMB_SEG_MODEL_MAX c;
       (name, c) \<leftarrow> lmb_cur_str LMB_SEG_PEER_NAME_MAX c;
       (engine, c) \<leftarrow> lmb_cur_str LMB_SEG_ENGINE_MAX c;
       (root, c) \<leftarrow> lmb_cur_bytes LMB_SEG_ROOT_BYTES c;
       if c \<noteq> [] then None
       else Some \<lparr>ar_model = model, ar_name = name, ar_engine = engine, ar_root = root\<rparr>
     }
   }"


section \<open>The choice\<close>

definition segment_matches :: "assign_request \<Rightarrow> lmb_seg_advert \<Rightarrow> bool" where
  "segment_matches q a \<longleftrightarrow> c_str (av_model a) = ar_model q \<and> c_str (av_engine_id a) = ar_engine q \<and> av_model_root a = ar_root q"

definition promise_matches :: "assign_request \<Rightarrow> SegmentPromise \<Rightarrow> bool" where
  "promise_matches q p \<longleftrightarrow> pr_model p = ar_model q \<and> pr_engine p = ar_engine q \<and> pr_model_root p = ar_root q"

abbreviation slice :: "Peer \<Rightarrow> u32 \<times> u32" where
  "slice p \<equiv> (av_layer_begin (pe_segment p), av_layer_end (pe_segment p))"

text \<open>The donor's own live range, else its promise; looking for a promise clears the expired ones it passes.\<close>

fun retained_peer :: "int \<Rightarrow> int \<Rightarrow> assign_request \<Rightarrow> Peer list \<Rightarrow> u32 \<times> u32 \<Rightarrow> (u32 \<times> u32) \<times> bool" where
  "retained_peer now stale q [] chosen = (chosen, False)"
| "retained_peer now stale q (p # ps) chosen =
     (if peer_live now stale p \<and> c_str (av_peer_name (pe_segment p)) = ar_name q \<and> segment_matches q (pe_segment p)
      then if av_layer_end (pe_segment p) \<noteq> 0 then (slice p, True)
           else (case retained_peer now stale q ps (slice p) of (chosen, _) \<Rightarrow> (chosen, True))
      else retained_peer now stale q ps chosen)"

fun retained_promise :: "int \<Rightarrow> assign_request \<Rightarrow> SegmentPromise list \<Rightarrow> u32 \<times> u32 \<Rightarrow> bool \<Rightarrow> SegmentPromise list \<times> (u32 \<times> u32) \<times> bool" where
  "retained_promise now q [] chosen retained = ([], chosen, retained)"
| "retained_promise now q (p # ps) chosen retained =
     (if snd chosen \<noteq> 0 then (p # ps, chosen, retained)
      else let p = (if pr_used p \<and> now - pr_ts p > SEGMENT_PROMISE_TTL then p\<lparr>pr_used := False\<rparr> else p);
               hit = (pr_used p \<and> pr_name p = ar_name q \<and> promise_matches q p);
               (ps, chosen, retained) = retained_promise now q ps (if hit then (pr_begin p, pr_end p) else chosen) (hit \<or> retained)
           in (p # ps, chosen, retained))"

definition assign_origin :: "int \<Rightarrow> int \<Rightarrow> assign_request \<Rightarrow> Peer \<Rightarrow> bool" where
  "assign_origin now stale q p \<longleftrightarrow>
     \<not> (\<not> pe_used p \<or> \<not> pe_has_segment p \<or> \<not> pe_segment_live p \<or> now - pe_segment_ts p > stale \<or>
        av_flags (pe_segment p) AND LMB_SEG_ADVERT_FALLBACK = 0 \<or>
        av_flags (pe_segment p) AND LMB_SEG_ADVERT_DRAINING \<noteq> 0 \<or> \<not> segment_matches q (pe_segment p))"

text \<open>\<open>duplicate\<close>: an earlier origin with the same range. Whether that one is stale or draining is not asked.\<close>

definition assign_duplicate :: "assign_request \<Rightarrow> Peer list \<Rightarrow> Peer \<Rightarrow> bool" where
  "assign_duplicate q earlier origin \<longleftrightarrow>
     list_ex (\<lambda>p. pe_used p \<and> pe_has_segment p \<and> pe_segment_live p \<and>
                av_flags (pe_segment p) AND LMB_SEG_ADVERT_FALLBACK \<noteq> 0 \<and> segment_matches q (pe_segment p) \<and>
                slice p = slice origin) earlier"

definition assign_replicas :: "int \<Rightarrow> int \<Rightarrow> assign_request \<Rightarrow> Peer list \<Rightarrow> SegmentPromise list \<Rightarrow> u32 \<times> u32 \<Rightarrow> u32" where
  "assign_replicas now stale q peers promises rng =
     of_nat (length (filter (\<lambda>p. \<not> (\<not> pe_used p \<or> \<not> pe_has_segment p \<or> \<not> pe_segment_live p \<or> now - pe_segment_ts p > stale \<or>
                av_flags (pe_segment p) AND (LMB_SEG_ADVERT_FALLBACK OR LMB_SEG_ADVERT_DRAINING) \<noteq> 0 \<or>
                \<not> segment_matches q (pe_segment p)) \<and> slice p = rng) peers)) +
     of_nat (length (filter (\<lambda>p. \<not> (\<not> pr_used p \<or> now - pr_ts p > SEGMENT_PROMISE_TTL \<or> pr_name p = ar_name q \<or>
                \<not> promise_matches q p) \<and> (pr_begin p, pr_end p) = rng) promises))"

definition assign_load :: "lmb_seg_advert \<Rightarrow> u32" where
  "assign_load a =
     (let raw = ucast (av_active_sessions a) + ucast (av_queue_depth a) + ucast (av_inflight a) :: u64
      in if raw > ucast UINT32_MAX then UINT32_MAX else ucast raw)"

record assign_best =
  ab_replicas :: u32
  ab_load :: u32
  ab_slice :: "u32 \<times> u32"

fun assign_choose :: "int \<Rightarrow> int \<Rightarrow> assign_request \<Rightarrow> Peer list \<Rightarrow> SegmentPromise list \<Rightarrow> Peer list \<Rightarrow> Peer list \<Rightarrow> assign_best \<Rightarrow> assign_best" where
  "assign_choose now stale q peers promises earlier [] best = best"
| "assign_choose now stale q peers promises earlier (p # ps) best =
     assign_choose now stale q peers promises (earlier @ [p]) ps
       (if \<not> assign_origin now stale q p \<or> assign_duplicate q earlier p then best
        else let replicas = assign_replicas now stale q peers promises (slice p); load = assign_load (pe_segment p)
             in if replicas < ab_replicas best \<or> replicas = ab_replicas best \<and> load < ab_load best \<or>
                   replicas = ab_replicas best \<and> load = ab_load best \<and> fst (slice p) < fst (ab_slice best)
                then \<lparr>ab_replicas = replicas, ab_load = load, ab_slice = slice p\<rparr> else best)"

text \<open>The promise of a donor: its own entry, else the first that is free or expired.\<close>

fun promise_slot :: "int \<Rightarrow> bytes \<Rightarrow> nat \<Rightarrow> SegmentPromise list \<Rightarrow> nat option \<Rightarrow> nat option" where
  "promise_slot now name i [] slot = slot"
| "promise_slot now name i (p # ps) slot =
     (if pr_used p \<and> pr_name p = name then Some i
      else promise_slot now name (i + 1) ps
             (if slot = None \<and> (\<not> pr_used p \<or> now - pr_ts p > SEGMENT_PROMISE_TTL) then Some i else slot))"

definition promise_put :: "int \<Rightarrow> assign_request \<Rightarrow> u32 \<times> u32 \<Rightarrow> SegmentPromise list \<Rightarrow> SegmentPromise list" where
  "promise_put now q rng promises =
     (case promise_slot now (ar_name q) 0 promises None of
        None \<Rightarrow> promises
      | Some i \<Rightarrow> promises[i := \<lparr>pr_used = True, pr_model = ar_model q, pr_name = ar_name q, pr_engine = ar_engine q,
                    pr_model_root = ar_root q, pr_begin = fst rng, pr_end = snd rng, pr_ts = now\<rparr>])"

definition assign_model_layers :: "int \<Rightarrow> int \<Rightarrow> assign_request \<Rightarrow> Peer list \<Rightarrow> u32" where
  "assign_model_layers now stale q peers =
     fold (\<lambda>p layers. if peer_live now stale p \<and> av_flags (pe_segment p) AND LMB_SEG_ADVERT_FALLBACK \<noteq> 0 \<and>
                         segment_matches q (pe_segment p) \<and> av_layer_end (pe_segment p) > layers
                      then av_layer_end (pe_segment p) else layers) peers 0"

datatype assign_result = AssignBad | AssignNone | AssignRange "u32 \<times> u32" u32 bool

definition handle_segment_assign :: "int \<Rightarrow> bytes \<Rightarrow> tracker \<Rightarrow> tracker \<times> assign_result" where
  "handle_segment_assign now body t =
     (case assign_request_decode body of
        None \<Rightarrow> (t, AssignBad)
      | Some q \<Rightarrow>
          if ar_model q = [] \<or> ar_name q = [] \<or> ar_engine q = [] \<or> fold (OR) (ar_root q) 0 = 0 then (t, AssignBad)
          else case retained_peer now (tk_stale t) q (tk_peers t) (0, 0) of
            (chosen, retained) \<Rightarrow>
              (case retained_promise now q (tk_promises t) chosen retained of
                 (promises, chosen, retained) \<Rightarrow>
                   let best = (if retained then \<lparr>ab_replicas = UINT32_MAX, ab_load = UINT32_MAX, ab_slice = chosen\<rparr>
                               else assign_choose now (tk_stale t) q (tk_peers t) promises [] (tk_peers t)
                                      \<lparr>ab_replicas = UINT32_MAX, ab_load = UINT32_MAX, ab_slice = chosen\<rparr>);
                       rng = ab_slice best;
                       promises = (if snd rng \<noteq> 0 then promise_put now q rng promises else promises);
                       layers = assign_model_layers now (tk_stale t) q (tk_peers t);
                       t = t\<lparr>tk_promises := promises\<rparr>
                   in if snd rng = 0 \<or> layers < snd rng then (t, AssignNone)
                      else (t, AssignRange rng layers retained)))"

definition handle_segment_assign_release :: "bytes \<Rightarrow> tracker \<Rightarrow> tracker \<times> bool" where
  "handle_segment_assign_release body t =
     (case assign_request_decode body of
        None \<Rightarrow> (t, False)
      | Some q \<Rightarrow>
          (t\<lparr>tk_promises := map (\<lambda>p. if pr_used p \<and> promise_matches q p \<and> pr_name p = ar_name q then promise_zero else p)
                              (tk_promises t)\<rparr>, True))"

end
