(* ===== verification/Tracker_Registry.thy ===== *)
theory Tracker_Registry
  imports Tracker_Assign Segment_Slot Discovery_Claims
begin

text \<open>
  The leases of the Segment registry (\<^verbatim>\<open>src/tracker.c\<close>): what every section under \<open>g_lk\<close> does to the ranges of the
  peer table, the log of the owners that registration and route replies have published, the invariant of all
  reachable tables and logs, and the replies a chat reads.
\<close>

section \<open>Generations only grow\<close>

lemma div_next: "n mod m \<noteq> m - 1 \<Longrightarrow> 0 < (m :: nat) \<Longrightarrow> (n + 1) div m = n div m"
  by (auto simp: div_Suc mod_Suc split: if_splits)

lemma low_half_bump:
  assumes "segment_generation_bump g = Some g'"
  shows "g < g'" "g' = g + 1" "drop_bit 32 g' = drop_bit 32 g"
proof -
  have n: "(ucast g :: u32) \<noteq> UINT32_MAX" and g': "g' = g + 1"
    using assms by (auto simp: segment_generation_bump_def split: if_splits)
  have "unat (ucast g :: u32) = unat g mod 2 ^ 32" by (simp add: unsigned_ucast_eq take_bit_eq_mod)
  moreover have "unat (ucast g :: u32) \<noteq> 2 ^ 32 - 1" using n by (metis unat_UINT_MAX(1) word_unat_eq_iff)
  ultimately have m: "unat g mod 2 ^ 32 \<noteq> 2 ^ 32 - 1" by simp
  have lt: "unat g < 2 ^ 64" using unsigned_less [of g, where ?'a = nat] by simp
  have "unat g + 1 < 2 ^ 64"
  proof (rule ccontr)
    assume "\<not> unat g + 1 < 2 ^ 64"
    then have "unat g = 2 ^ 64 - 1" using lt by simp
    then show False using m by simp
  qed
  then have u: "unat g' = unat g + 1" unfolding g' by (simp add: unat_word_ariths)
  then show "g < g'" by (simp add: word_less_nat_alt)
  have "(unat g + 1) div 2 ^ 32 = unat g div 2 ^ 32" using m by (intro div_next) simp_all
  then show "drop_bit 32 g' = drop_bit 32 g"
    by (simp add: word_unat_eq_iff drop_bit_eq_div unat_div u)
  show "g' = g + 1" by (rule g')
qed


section \<open>Leases\<close>

abbreviation registered :: "Peer \<Rightarrow> bool" where
  "registered p \<equiv> pe_has_segment p"

abbreviation lease_of :: "lmb_seg_owner \<Rightarrow> seg_id \<times> u64" where
  "lease_of w \<equiv> (lease_id w, fencing_epoch w)"

text \<open>What slot \<open>i\<close> answers with at the moment.\<close>

abbreviation owner_now :: "tracker \<Rightarrow> nat \<Rightarrow> lmb_seg_owner" where
  "owner_now t i \<equiv> (pe_segment_owner (tk_peers t ! i))\<lparr>route_generation := tk_generation t\<rparr>"

text \<open>The owners published so far, newest first, each with the slot it was read from, and what the table may hold: a
  registered range has an epoch of its own, under which nothing but its lease was ever published, and in its slot
  nothing newer; a slot that is not registered has no lease; nothing is beyond the generation.\<close>

type_synonym published = "(nat \<times> lmb_seg_owner) list"

definition registry_ok :: "tracker \<Rightarrow> published \<Rightarrow> bool" where
  "registry_ok t L \<longleftrightarrow>
     (\<forall>(j, w) \<in> set L. fencing_epoch w \<le> tk_generation t \<and> route_generation w \<le> tk_generation t) \<and>
     (\<forall>i < length (tk_peers t). if registered (tk_peers t ! i) then fencing_epoch (owner_now t i) \<le> tk_generation t
        else lease_id (owner_now t i) = replicate LMB_SEG_ID_BYTES 0) \<and>
     (\<forall>i < length (tk_peers t). registered (tk_peers t ! i) \<longrightarrow> (\<forall>(j, w) \<in> set L.
        if j = i then fencing_epoch w < fencing_epoch (owner_now t i) \<or> lease_of w = lease_of (owner_now t i)
        else fencing_epoch w \<noteq> fencing_epoch (owner_now t i))) \<and>
     (\<forall>i < length (tk_peers t). \<forall>j < length (tk_peers t). registered (tk_peers t ! i) \<longrightarrow> registered (tk_peers t ! j) \<longrightarrow>
        fencing_epoch (owner_now t i) = fencing_epoch (owner_now t j) \<longrightarrow> i = j)"

lemma registry_okD:
  assumes "registry_ok t L"
  shows "(j, w) \<in> set L \<Longrightarrow> fencing_epoch w \<le> tk_generation t \<and> route_generation w \<le> tk_generation t"
    "i < length (tk_peers t) \<Longrightarrow> registered (tk_peers t ! i) \<Longrightarrow> fencing_epoch (pe_segment_owner (tk_peers t ! i)) \<le> tk_generation t"
    "i < length (tk_peers t) \<Longrightarrow> \<not> registered (tk_peers t ! i) \<Longrightarrow>
       lease_id (pe_segment_owner (tk_peers t ! i)) = replicate LMB_SEG_ID_BYTES 0"
    "i < length (tk_peers t) \<Longrightarrow> registered (tk_peers t ! i) \<Longrightarrow> (i, w) \<in> set L \<Longrightarrow>
       fencing_epoch w < fencing_epoch (pe_segment_owner (tk_peers t ! i)) \<or> lease_of w = lease_of (pe_segment_owner (tk_peers t ! i))"
    "i < length (tk_peers t) \<Longrightarrow> registered (tk_peers t ! i) \<Longrightarrow> (j, w) \<in> set L \<Longrightarrow> j \<noteq> i \<Longrightarrow>
       fencing_epoch w \<noteq> fencing_epoch (pe_segment_owner (tk_peers t ! i))"
    "i < length (tk_peers t) \<Longrightarrow> k < length (tk_peers t) \<Longrightarrow> registered (tk_peers t ! i) \<Longrightarrow> registered (tk_peers t ! k) \<Longrightarrow>
       fencing_epoch (pe_segment_owner (tk_peers t ! i)) = fencing_epoch (pe_segment_owner (tk_peers t ! k)) \<Longrightarrow> i = k"
  using assms unfolding registry_ok_def by (fastforce split: if_splits)+

text \<open>Steps that register no range: a slot keeps its range, or is emptied.\<close>

definition slot_kept :: "Peer \<Rightarrow> Peer \<Rightarrow> bool" where
  "slot_kept p q \<longleftrightarrow>
     registered q = registered p \<and> pe_segment_owner q = pe_segment_owner p \<and> pe_segment q = pe_segment p \<or>
     \<not> registered q \<and> lease_id (pe_segment_owner q) = replicate LMB_SEG_ID_BYTES 0"

definition segments_kept :: "tracker \<Rightarrow> tracker \<Rightarrow> bool" where
  "segments_kept t t' \<longleftrightarrow> length (tk_peers t') = length (tk_peers t) \<and> tk_generation t \<le> tk_generation t' \<and>
     (\<forall>i < length (tk_peers t). slot_kept (tk_peers t ! i) (tk_peers t' ! i))"

lemma slot_kept_refl [simp]: "slot_kept p p"
  by (simp add: slot_kept_def)

lemma segments_keptD:
  assumes "segments_kept t t'"
  shows "length (tk_peers t') = length (tk_peers t)" "tk_generation t \<le> tk_generation t'"
    "i < length (tk_peers t) \<Longrightarrow> registered (tk_peers t' ! i) \<Longrightarrow> registered (tk_peers t ! i) \<and>
       pe_segment_owner (tk_peers t' ! i) = pe_segment_owner (tk_peers t ! i) \<and> pe_segment (tk_peers t' ! i) = pe_segment (tk_peers t ! i)"
    "i < length (tk_peers t) \<Longrightarrow> \<not> registered (tk_peers t' ! i) \<Longrightarrow>
       \<not> registered (tk_peers t ! i) \<and> pe_segment_owner (tk_peers t' ! i) = pe_segment_owner (tk_peers t ! i) \<or>
       lease_id (pe_segment_owner (tk_peers t' ! i)) = replicate LMB_SEG_ID_BYTES 0"
  using assms unfolding segments_kept_def slot_kept_def by blast+

lemma kept_ok:
  assumes ok: "registry_ok t L" and kept: "segments_kept t t'"
  shows "registry_ok t' L"
proof -
  note K = segments_keptD [OF kept]
  note D = registry_okD [OF ok]
  show ?thesis unfolding registry_ok_def K(1)
  proof (intro conjI ballI allI impI, goal_cases)
    case (1 x)
    then show ?case using D(1) [of "fst x" "snd x"] K(2) by (auto intro: order_trans)
  next
    case (2 i)
    then show ?case using K(2) K(3,4) [of i] D(2,3) [of i] by (auto intro: order_trans)
  next
    case (3 i x)
    then show ?case using K(3) [of i] D(4) [of i "snd x"] D(5) [of i "fst x" "snd x"] by (cases x) auto
  next
    case (4 i j)
    then show ?case using K(3) [of i] K(3) [of j] D(6) [of i j] by auto
  qed
qed

lemma kept_refl [simp]: "segments_kept t t"
  by (simp add: segments_kept_def)

lemma kept_update:
  assumes "slot_kept (tk_peers t ! i) p" "tk_generation t' = tk_generation t" "tk_peers t' = (tk_peers t)[i := p]"
  shows "segments_kept t t'"
proof -
  have "slot_kept (tk_peers t ! k) ((tk_peers t)[i := p] ! k)" if "k < length (tk_peers t)" for k
    using assms(1) that by (cases "k = i") simp_all
  then show ?thesis by (simp add: segments_kept_def assms(2,3))
qed

lemma slot_new_kept:
  assumes "peer_slot_new now stale evfd peers = Some (peers', i)"
  shows "peers' = peers[i := peer_zero evfd] \<and> i < length peers"
  using assms by (auto simp: peer_slot_new_def split: option.splits dest!: first_index_Some)

text \<open>What a grant does.\<close>

lemma register_slot_cases:
  assumes "register_slot r a pk t i = (t', res)" "i < length (tk_peers t)"
  obtains (aborted) "res = RegAborted" "t' = t"
  | (granted) w ch p where "res = RegStored i ch" "tk_peers t' = (tk_peers t)[i := p]" "registered p" "pe_segment_owner p = w"
      "p = register_peer r a pk ch (tk_generation t') (tk_peers t ! i)" "route_generation w = tk_generation t'"
      "if ch then segment_generation_bump (tk_generation t) = Some (tk_generation t') \<and> fencing_epoch w = tk_generation t'
       else tk_generation t' = tk_generation t \<and> registered (tk_peers t ! i) \<and> lease_of w = lease_of (pe_segment_owner (tk_peers t ! i))"
proof -
  let ?p = "tk_peers t ! i" and ?ch = "register_changed (rg_now r) (tk_stale t) a (tk_peers t ! i)"
  have same: "\<not> ?ch \<Longrightarrow> registered ?p" by (auto simp: register_changed_def Let_def)
  have q: "registered (register_peer r a pk ?ch g ?p)"
    "pe_segment_owner (register_peer r a pk ?ch g ?p) = register_owner ?ch g (rg_next_lease r) (pe_segment_owner ?p)" for g
    by (simp_all add: register_peer_def Let_def)
  show thesis
  proof (cases "if ?ch then segment_generation_bump (tk_generation t) else Some (tk_generation t)")
    case None
    then show thesis using aborted assms(1) by (simp add: register_slot_def)
  next
    case (Some g)
    let ?q = "register_peer r a pk ?ch g ?p"
    have "res = RegStored i ?ch" "tk_generation t' = g" "tk_peers t' = (tk_peers t)[i := ?q]"
      using assms(1) Some by (auto simp: register_slot_def Let_def)
    then show thesis
      by (intro granted [of ?ch ?q "pe_segment_owner ?q"]) (use q same Some in \<open>simp_all add: register_owner_def split: if_splits\<close>)
  qed
qed

lemma granted_ok:
  assumes ok: "registry_ok t L" and i: "i < length (tk_peers t)" and t': "tk_peers t' = (tk_peers t)[i := p]"
    and p: "registered p" "pe_segment_owner p = w"
    and g: "if ch then segment_generation_bump (tk_generation t) = Some (tk_generation t') \<and> fencing_epoch w = tk_generation t'
     else tk_generation t' = tk_generation t \<and> registered (tk_peers t ! i) \<and> lease_of w = lease_of (pe_segment_owner (tk_peers t ! i))"
  shows "registry_ok t' L"
proof -
  let ?n = "length (tk_peers t)"
  let ?e = "\<lambda>k. fencing_epoch (pe_segment_owner (tk_peers t ! k))"
  note D = registry_okD [OF ok]
  have gen: "tk_generation t \<le> tk_generation t'" "ch \<Longrightarrow> tk_generation t < tk_generation t'"
    using g low_half_bump(1) by (auto split: if_splits intro: less_imp_le)
  have epoch: "fencing_epoch w \<le> tk_generation t'"
    using g D(2) [OF i] by (cases ch) auto
  have apart: "fencing_epoch w \<noteq> ?e k" if "k < ?n" "registered (tk_peers t ! k)" "k \<noteq> i" for k
  proof (cases ch)
    case True
    then have "?e k < fencing_epoch w" using D(2) [OF that(1,2)] gen(2) g by simp
    then show ?thesis by simp
  next
    case False
    then have "fencing_epoch w = ?e i" "registered (tk_peers t ! i)" using g by simp_all
    then show ?thesis using D(6) [OF that(1) i that(2)] that(3) by auto
  qed
  have fenced: "if j = i then fencing_epoch w' < fencing_epoch w \<or> lease_of w' = lease_of w
      else fencing_epoch w' \<noteq> fencing_epoch w" if m: "(j, w') \<in> set L" for j w'
  proof (cases ch)
    case True
    then have "fencing_epoch w' < fencing_epoch w" using D(1) [OF m] gen(2) g by auto
    then show ?thesis by auto
  next
    case False
    then show ?thesis using g D(4) [OF i, of w'] D(5) [OF i, of j w'] m by auto
  qed
  have peer: "tk_peers t' ! k = (if k = i then p else tk_peers t ! k)" if "k < ?n" for k
    using that t' by (simp add: nth_list_update)
  have len: "length (tk_peers t') = ?n" using t' by simp
  show ?thesis unfolding registry_ok_def len
  proof (intro conjI ballI allI impI, goal_cases)
    case (1 x)
    then show ?case using D(1) [of "fst x" "snd x"] gen(1) by (auto intro: order_trans)
  next
    case (2 k)
    then show ?case using D(2,3) [of k] gen(1) epoch p peer [OF 2] by (cases "k = i") (auto intro: order_trans)
  next
    case (3 k x)
    then show ?case
      using fenced [of "fst x" "snd x"] D(4) [of k "snd x"] D(5) [of k "fst x" "snd x"] p peer [OF 3(1)]
      by (cases "k = i"; cases x) auto
  next
    case (4 k m)
    then show ?case using D(6) [of k m] apart [of k] apart [of m] peer [OF 4(1)] peer [OF 4(2)] p
      by (cases "k = i"; cases "m = i") auto
  qed
qed

lemma snprintf_into_length: "buf \<noteq> [] \<Longrightarrow> length (snprintf_into buf s) = length buf"
  by (cases buf) (auto simp: snprintf_into_def Let_def min_def)

lemma register_addr_sized:
  assumes "advert_sized a"
  shows "advert_sized (register_addr seen a)"
proof -
  have "av_addr a \<noteq> []" using assms by (auto simp: advert_sized_def)
  then show ?thesis using assms by (auto simp: advert_sized_def register_addr_def snprintf_into_length simp del: take_append split: option.split)
qed

text \<open>A registration: either no range is registered, or one is stored after such a step.\<close>

lemma kept_same: "tk_peers t' = tk_peers t \<Longrightarrow> tk_generation t' = tk_generation t \<Longrightarrow> segments_kept t t'"
  by (simp add: segments_kept_def slot_kept_def)

lemma kept_fresh_slot:
  assumes "peer_slot_new now stale evfd (tk_peers t) = Some (peers', i)"
  shows "segments_kept t (t\<lparr>tk_peers := peers', tk_bindings := b\<rparr>)" "i < length peers'" "\<not> pe_has_segment (peers' ! i)"
  using slot_new_kept [OF assms] by (auto intro!: kept_update [where i = i and p = "peer_zero evfd"] simp: peer_zero_def slot_kept_def Tracker_Segments.seg_owner_zero_def)

lemma register_cases:
  assumes "handle_segment_register r t = (t', res)"
  obtains (kept) "segments_kept t t'" "res = RegRefused"
  | (slot) t1 a pk i where "segments_kept t t1" "register_slot r a pk t1 i = (t', res)" "i < length (tk_peers t1)"
      "advert_sized a"
proof -
  obtain body auth where strip: "peer_auth_strip (rg_body r) = (body, auth)" by (metis surj_pair)
  show thesis
  proof (cases "t' = t \<and> res = RegRefused")
    case True
    then show thesis using kept by simp
  next
    case False
    then obtain a0 pk sig nonce where
      dec: "tk_generation_ready t" "lmb_seg_advert_decode body = Some a0" "auth = Some (pk, sig)" "rg_nonce r = Some nonce"
        "rg_authentic r nonce a0 pk sig"
      using assms(1) strip by (auto simp: handle_segment_register_def split: option.splits prod.splits if_splits)
    let ?a = "register_addr (rg_seen r) a0"
    let ?name = "c_str (av_peer_name ?a)"
    have sized: "advert_sized ?a" by (rule register_addr_sized [OF advert_msg.decode_SomeD(2) [OF dec(2)]])
    let ?find = "first_index (\<lambda>p. pe_used p \<and> pe_is_expert p \<and> pe_name p = ?name) 0 (tk_peers t)"
    obtain b ok where bind: "binding_check_or_add (rg_io r) (tk_bindings t) ?name True pk = (b, ok)" by (metis surj_pair)
    have main: "(case ?find of
            Some i \<Rightarrow> if pe_has_expert (tk_peers t ! i) \<and> pe_model (tk_peers t ! i) \<noteq> c_str (av_model ?a) then (t, RegRefused)
                      else if ok then register_slot r ?a pk (t\<lparr>tk_bindings := b\<rparr>) i else (t\<lparr>tk_bindings := b\<rparr>, RegRefused)
          | None \<Rightarrow> (case peer_slot_new (rg_now r) (tk_stale t) (rg_evfd r) (tk_peers t) of None \<Rightarrow> (t, RegRefused)
             | Some (peers, i) \<Rightarrow> if ok then register_slot r ?a pk (t\<lparr>tk_peers := peers, tk_bindings := b\<rparr>) i
                                 else (t\<lparr>tk_peers := peers, tk_bindings := b\<rparr>, RegRefused))) = (t', res)"
      using assms(1) strip False dec bind
      by (cases ok) (auto simp: handle_segment_register_def Let_def split: if_splits option.splits)
    show thesis
    proof (cases ?find)
      case (Some i)
      then have i: "i < length (tk_peers t)" by (auto dest!: first_index_Some)
      show thesis
      proof (cases ok)
        case True
        then have "register_slot r ?a pk (t\<lparr>tk_bindings := b\<rparr>) i = (t', res)"
          using main Some False by (simp split: if_splits)
        then show thesis using slot [of "t\<lparr>tk_bindings := b\<rparr>" ?a pk i] i sized by (simp add: kept_same)
      next
        case notok: False
        then have "t' = t\<lparr>tk_bindings := b\<rparr>" "res = RegRefused" using main Some False by (simp_all split: if_splits)
        then show thesis using kept by (simp add: kept_same)
      qed
    next
      case None
      then obtain peers i where new: "peer_slot_new (rg_now r) (tk_stale t) (rg_evfd r) (tk_peers t) = Some (peers, i)"
        using main False by (auto split: option.splits)
      note fresh = kept_fresh_slot [OF new]
      show thesis
      proof (cases ok)
        case True
        then have "register_slot r ?a pk (t\<lparr>tk_peers := peers, tk_bindings := b\<rparr>) i = (t', res)" using main None new by simp
        then show thesis using slot [of "t\<lparr>tk_peers := peers, tk_bindings := b\<rparr>" ?a pk i] fresh sized by simp
      next
        case notok: False
        then have "t' = t\<lparr>tk_peers := peers, tk_bindings := b\<rparr>" "res = RegRefused" using main None new by simp_all
        then show thesis using kept fresh(1) by simp
      qed
    qed
  qed
qed


section \<open>Everything else keeps the ranges\<close>

lemma expire_kept:
  assumes "expire_peers now stale ps g = Some (ps', g')"
  shows "list_all2 (\<lambda>p p'. p' = p \<or> p' = p\<lparr>pe_segment_live := False\<rparr> \<and> \<not> peer_live now stale p) ps ps' \<and> g \<le> g'"
  using assms
proof (induction ps arbitrary: g ps' g')
  case (Cons p ps)
  let ?old = "pe_used p \<and> pe_has_segment p \<and> pe_segment_live p \<and> now - pe_segment_ts p > stale"
  obtain h qs where h: "(if ?old then segment_generation_bump g else Some g) = Some h"
      "expire_peers now stale ps h = Some (qs, g')" "ps' = (if ?old then p\<lparr>pe_segment_live := False\<rparr> else p) # qs"
    using Cons.prems by (auto split: if_splits option.splits)
  have "g \<le> h" using h(1) low_half_bump(1) by (auto split: if_splits intro: less_imp_le)
  then show ?case using Cons.IH [OF h(2)] h(3) by (auto simp: peer_live_def)
qed simp

lemma routes_cases:
  assumes "handle_segment_routes mem now body t = (t', res)"
  obtains (same) "t' = t" "\<And>reply. res \<noteq> RoutesReply reply"
  | (expired) q peers g where "lmb_seg_query_decode body = Some q"
      "expire_peers now (tk_stale t) (tk_peers t) (tk_generation t) = Some (peers, g)"
      "t' = t\<lparr>tk_peers := peers, tk_generation := g\<rparr>"
      "res = (case lmb_seg_route_encode mem (route_snapshot now (tk_stale t) q peers g) of None \<Rightarrow> RoutesFailed | Some r \<Rightarrow> RoutesReply r)"
proof (cases "tk_generation_ready t")
  case False
  then show thesis using same assms by (auto simp: handle_segment_routes_def)
next
  case True
  show thesis
  proof (cases "lmb_seg_query_decode body")
    case None
    then show thesis using True same assms by (auto simp: handle_segment_routes_def)
  next
    case (Some q)
    show thesis
    proof (cases "expire_peers now (tk_stale t) (tk_peers t) (tk_generation t)")
      case None
      then show thesis using True Some same assms by (auto simp: handle_segment_routes_def)
    next
      case e: (Some pg)
      obtain peers g where pg: "pg = (peers, g)" by (cases pg)
      show thesis
      proof (rule expired [OF Some])
        show "expire_peers now (tk_stale t) (tk_peers t) (tk_generation t) = Some (peers, g)" using e pg by simp
        show "t' = t\<lparr>tk_peers := peers, tk_generation := g\<rparr>"
          using assms True Some e pg by (simp add: handle_segment_routes_def Let_def split: option.splits)
        show "res = (case lmb_seg_route_encode mem (route_snapshot now (tk_stale t) q peers g) of None \<Rightarrow> RoutesFailed | Some r \<Rightarrow> RoutesReply r)"
          using assms True Some e pg by (simp add: handle_segment_routes_def Let_def split: option.splits)
      qed
    qed
  qed
qed

lemma expired_kept:
  assumes "expire_peers now stale (tk_peers t) (tk_generation t) = Some (peers, g)"
  shows "segments_kept t (t\<lparr>tk_peers := peers, tk_generation := g\<rparr>)"
proof -
  note e = expire_kept [OF assms]
  then have len: "length peers = length (tk_peers t)" by (auto dest: list_all2_lengthD)
  have "peers ! i = tk_peers t ! i \<or> peers ! i = (tk_peers t ! i)\<lparr>pe_segment_live := False\<rparr>" if "i < length (tk_peers t)" for i
    using e that by (auto simp: list_all2_conv_all_nth)
  then show ?thesis unfolding segments_kept_def slot_kept_def using e len by fastforce
qed

lemma routes_kept: "segments_kept t (fst (handle_segment_routes mem now body t))"
proof -
  obtain t' res where r: "handle_segment_routes mem now body t = (t', res)" by (metis surj_pair)
  then have "segments_kept t t'" by (cases rule: routes_cases) (simp_all add: expired_kept)
  then show ?thesis by (simp add: r)
qed

lemma compute_put_kept: "segments_kept t (fst (handle_segment_compute_put fd now body ctrl t))"
proof -
  have "segments_kept t (t\<lparr>tk_peers := (tk_peers t)[i := (tk_peers t ! i)\<lparr>pe_segment_compute := v, pe_segment_compute_ts := now\<rparr>]\<rparr>)" for i v
    by (rule kept_update [where i = i]) (auto simp: slot_kept_def)
  then show ?thesis by (simp add: handle_segment_compute_put_def Let_def split: option.split)
qed

lemma teardown_kept: "segments_kept t (ctrl_teardown fd i t)"
  unfolding ctrl_teardown_def Let_def by (rule kept_update [where i = i]) (auto simp: slot_kept_def)

lemma refuse_kept: "segments_kept t (ctrl_refuse fd i t)"
  unfolding ctrl_refuse_def Let_def by (rule kept_update [where i = i]) (auto simp: slot_kept_def)

lemma adopt_kept: "segments_kept t (ctrl_adopt i t)"
  unfolding ctrl_adopt_def by (rule kept_update [where i = i]) (auto simp: slot_kept_def)

lemma assign_kept: "segments_kept t (fst (handle_segment_assign now body t))"
  by (rule kept_same) (auto simp: handle_segment_assign_def Let_def split: option.split prod.split)

lemma release_kept: "segments_kept t (fst (handle_segment_assign_release body t))"
  by (rule kept_same) (auto simp: handle_segment_assign_release_def split: option.split)


section \<open>Reachable registries\<close>

text \<open>The registered ranges are as the codec needs them: string buffers, roots and lease of their declared size.\<close>

definition ranges_sized :: "tracker \<Rightarrow> bool" where
  "ranges_sized t \<longleftrightarrow> (\<forall>i < length (tk_peers t). registered (tk_peers t ! i) \<longrightarrow>
     advert_sized (pe_segment (tk_peers t ! i)) \<and> owner_sized (pe_segment_owner (tk_peers t ! i)))"

lemma kept_sized: "ranges_sized t \<Longrightarrow> segments_kept t t' \<Longrightarrow> ranges_sized t'"
  using segments_keptD(1,3) [of t t'] unfolding ranges_sized_def by simp

text \<open>The owners a route reply lists.\<close>

definition route_publishes :: "int \<Rightarrow> bytes \<Rightarrow> tracker \<Rightarrow> tracker \<times> routes_result \<Rightarrow> published" where
  "route_publishes now body t r =
     (case (snd r, lmb_seg_query_decode body) of
        (RoutesReply _, Some q) \<Rightarrow>
          map (\<lambda>i. (i, owner_now (fst r) i))
            (filter (\<lambda>i. peer_live now (tk_stale t) (tk_peers t ! i) \<and> lmb_seg_advert_compatible (pe_segment (tk_peers t ! i)) q)
              [0..<length (tk_peers t)])
      | _ \<Rightarrow> [])"

text \<open>A process starts with no registered range, in a table that is zero. Every section under \<open>g_lk\<close> is a step: a
  registration that stores a range, its reply, which may come at any time and reads any slot, a route query. The
  handlers of other messages register no range and publish no owner.\<close>

definition tracker_start :: "tracker \<Rightarrow> bool" where
  "tracker_start t \<longleftrightarrow> length (tk_peers t) = MAX_PEERS \<and>
     list_all (\<lambda>p. \<not> pe_has_segment p \<and> lease_id (pe_segment_owner p) = replicate LMB_SEG_ID_BYTES 0) (tk_peers t)"

inductive tracker_step :: "tracker \<times> published \<Rightarrow> tracker \<times> published \<Rightarrow> bool" where
  register: "\<lbrakk>length (rg_next_lease r) = LMB_SEG_ID_BYTES; handle_segment_register r t = (t', res)\<rbrakk>
    \<Longrightarrow> tracker_step (t, L) (t', L)"
| reply: "\<lbrakk>i < length (tk_peers t); register_reply mem i t = Some (w, body)\<rbrakk> \<Longrightarrow> tracker_step (t, L) (t, (i, w) # L)"
| routes: "handle_segment_routes mem now body t = (t', res) \<Longrightarrow>
    tracker_step (t, L) (t', route_publishes now body t (t', res) @ L)"
| compute_put: "tracker_step (t, L) (fst (handle_segment_compute_put fd now body ctrl t), L)"
| teardown: "tracker_step (t, L) (ctrl_teardown fd i t, L)"
| adopt: "tracker_step (t, L) (ctrl_adopt i t, L)"
| refuse: "tracker_step (t, L) (ctrl_refuse fd i t, L)"
| assign: "tracker_step (t, L) (fst (handle_segment_assign now body t), L)"
| release: "tracker_step (t, L) (fst (handle_segment_assign_release body t), L)"
| other: "segments_kept t t' \<Longrightarrow> tracker_step (t, L) (t', L)"

definition tracker_reach :: "tracker \<Rightarrow> published \<Rightarrow> bool" where
  "tracker_reach t L \<longleftrightarrow> (\<exists>t0. tracker_start t0 \<and> tracker_step\<^sup>*\<^sup>* (t0, []) (t, L))"

lemma reach_step: "tracker_reach t L \<Longrightarrow> tracker_step (t, L) (t', L') \<Longrightarrow> tracker_reach t' L'"
  unfolding tracker_reach_def by (meson rtranclp.rtrancl_into_rtrancl)

lemma reach_steps: "tracker_reach t L \<Longrightarrow> tracker_step\<^sup>*\<^sup>* (t, L) (t', L') \<Longrightarrow> tracker_reach t' L'"
  unfolding tracker_reach_def by (meson rtranclp_trans)

lemma register_peer_sized:
  assumes "advert_sized a" "length (rg_next_lease r) = LMB_SEG_ID_BYTES"
    "\<not> ch \<Longrightarrow> owner_sized (pe_segment_owner p)"
  shows "advert_sized (pe_segment (register_peer r a pk ch g p))" "owner_sized (pe_segment_owner (register_peer r a pk ch g p))"
  using assms by (auto simp: register_peer_def Let_def register_owner_def owner_sized_def)


abbreviation reg_inv :: "tracker \<Rightarrow> published \<Rightarrow> bool" where
  "reg_inv t L \<equiv> registry_ok t L \<and> ranges_sized t \<and> length (tk_peers t) = MAX_PEERS"

lemma kept_inv: "reg_inv t L \<Longrightarrow> segments_kept t t' \<Longrightarrow> reg_inv t' L"
  using kept_ok kept_sized segments_keptD(1) by metis

text \<open>Storing a range: a new placement gets an epoch beyond everything published, a renewal keeps its lease.\<close>

lemma registered_ok:
  assumes "reg_inv t L" "length (rg_next_lease r) = LMB_SEG_ID_BYTES" "handle_segment_register r t = (t', res)"
  shows "reg_inv t' L"
    "res = RegStored i ch \<Longrightarrow> i < length (tk_peers t') \<and> registered (tk_peers t' ! i) \<and>
       (if ch then \<forall>(j, w) \<in> set L. fencing_epoch w < fencing_epoch (pe_segment_owner (tk_peers t' ! i))
        else registered (tk_peers t ! i) \<and> lease_of (pe_segment_owner (tk_peers t' ! i)) = lease_of (pe_segment_owner (tk_peers t ! i)))"
    "k < length (tk_peers t) \<Longrightarrow> registered (tk_peers t' ! k) \<Longrightarrow>
       registered (tk_peers t ! k) \<and> lease_of (pe_segment_owner (tk_peers t' ! k)) = lease_of (pe_segment_owner (tk_peers t ! k)) \<or>
       (\<forall>(j, w) \<in> set L. fencing_epoch w < fencing_epoch (pe_segment_owner (tk_peers t' ! k)))"
proof -
  have "reg_inv t' L \<and>
     (res = RegStored i ch \<longrightarrow> i < length (tk_peers t') \<and> registered (tk_peers t' ! i) \<and>
       (if ch then \<forall>(j, w) \<in> set L. fencing_epoch w < fencing_epoch (pe_segment_owner (tk_peers t' ! i))
        else registered (tk_peers t ! i) \<and> lease_of (pe_segment_owner (tk_peers t' ! i)) = lease_of (pe_segment_owner (tk_peers t ! i)))) \<and>
     (k < length (tk_peers t) \<longrightarrow> registered (tk_peers t' ! k) \<longrightarrow>
       registered (tk_peers t ! k) \<and> lease_of (pe_segment_owner (tk_peers t' ! k)) = lease_of (pe_segment_owner (tk_peers t ! k)) \<or>
       (\<forall>(j, w) \<in> set L. fencing_epoch w < fencing_epoch (pe_segment_owner (tk_peers t' ! k))))"
    using assms(3)
  proof (cases rule: register_cases)
    case kept
    then show ?thesis using kept_inv [OF assms(1) kept(1)] segments_keptD(3) [OF kept(1)] by auto
  next
    case (slot t1 a pk m)
    note inv = kept_inv [OF assms(1) slot(1)]
    note K = segments_keptD [OF slot(1)]
    from slot(2,3) show ?thesis
    proof (cases rule: register_slot_cases)
      case aborted
      then show ?thesis using inv K(3) by auto
    next
      case (granted w c p)
      have "advert_sized (pe_segment p)" "owner_sized (pe_segment_owner p)"
        using register_peer_sized [of a r c "tk_peers t1 ! m" pk "tk_generation t'"] slot(4) assms(2) granted inv slot(3)
        by (auto simp: ranges_sized_def owner_sized_def split: if_splits)
      then have sized: "ranges_sized t'"
        using inv slot(3) unfolding ranges_sized_def granted(2) by (auto simp: nth_list_update)
      have ok: "registry_ok t' L"
        by (rule granted_ok [OF _ slot(3) granted(2,3,4,7)]) (use inv in blast)
      have len: "length (tk_peers t') = length (tk_peers t1)" using granted(2) by simp
      have m: "tk_peers t' ! m = p" using granted(2) slot(3) by simp
      have newer: "fencing_epoch w' < fencing_epoch w" if c "(j, w') \<in> set L" for j w'
      proof -
        have "tk_generation t1 < tk_generation t'" "fencing_epoch w = tk_generation t'"
          using granted(7) that(1) low_half_bump(1) by auto
        then show ?thesis using registry_okD(1) [OF conjunct1 [OF inv] that(2)] by auto
      qed
      have same: "registered (tk_peers t ! m) \<and> lease_of w = lease_of (pe_segment_owner (tk_peers t ! m))" if "\<not> c"
        using granted(7) that K(1) K(3) [of m] slot(3) by auto
      have other: "registered (tk_peers t ! k) \<and> pe_segment_owner (tk_peers t' ! k) = pe_segment_owner (tk_peers t ! k)"
        if "k < length (tk_peers t)" "registered (tk_peers t' ! k)" "k \<noteq> m"
        using K(3) [OF that(1)] that(2,3) granted(2) by simp
      show ?thesis
        using ok sized len inv m newer same other granted(1,3,4) slot(3)
        by (cases "k = m"; cases c) (auto simp: case_prod_unfold)
    qed
  qed
  then show "reg_inv t' L"
    "res = RegStored i ch \<Longrightarrow> i < length (tk_peers t') \<and> registered (tk_peers t' ! i) \<and>
       (if ch then \<forall>(j, w) \<in> set L. fencing_epoch w < fencing_epoch (pe_segment_owner (tk_peers t' ! i))
        else registered (tk_peers t ! i) \<and> lease_of (pe_segment_owner (tk_peers t' ! i)) = lease_of (pe_segment_owner (tk_peers t ! i)))"
    "k < length (tk_peers t) \<Longrightarrow> registered (tk_peers t' ! k) \<Longrightarrow>
       registered (tk_peers t ! k) \<and> lease_of (pe_segment_owner (tk_peers t' ! k)) = lease_of (pe_segment_owner (tk_peers t ! k)) \<or>
       (\<forall>(j, w) \<in> set L. fencing_epoch w < fencing_epoch (pe_segment_owner (tk_peers t' ! k)))"
    by blast+
qed

text \<open>What is published is what registered slots hold at the moment.\<close>

abbreviation current :: "tracker \<Rightarrow> published \<Rightarrow> bool" where
  "current t P \<equiv> \<forall>(k, w) \<in> set P. k < length (tk_peers t) \<and> registered (tk_peers t ! k) \<and> w = owner_now t k"

lemma reply_current:
  assumes "registry_ok t L" "i < length (tk_peers t)" "register_reply mem i t = Some (w, body)"
  shows "current t [(i, w)]" "lmb_seg_registration_reply_encode mem w = Some body"
proof -
  from assms(3) have w: "w = owner_now t i" and e: "lmb_seg_registration_reply_encode mem w = Some body"
    by (auto simp: register_reply_def Let_def)
  then have "\<not> lmb_seg_id_is_zero (lease_id (pe_segment_owner (tk_peers t ! i)))"
    by (auto simp: lmb_seg_registration_reply_encode_def disc_owner_valid_def split: if_splits)
  moreover have "lmb_seg_id_is_zero (replicate LMB_SEG_ID_BYTES 0)" by code_simp
  ultimately have "registered (tk_peers t ! i)" using registry_okD(3) [OF assms(1,2)] by metis
  then show "current t [(i, w)]" "lmb_seg_registration_reply_encode mem w = Some body" using w e assms(2) by simp_all
qed

lemma routes_current:
  assumes "handle_segment_routes mem now body t = (t', res)"
  shows "segments_kept t t'" "current t' (route_publishes now body t (t', res))"
proof -
  show "segments_kept t t'" using routes_kept [of t mem now body] assms by simp
  from assms show "current t' (route_publishes now body t (t', res))"
  proof (cases rule: routes_cases)
    case same
    then show ?thesis by (auto simp: route_publishes_def split: routes_result.split)
  next
    case (expired q peers g)
    note e = expire_kept [OF expired(2), THEN conjunct1]
    have "registered (peers ! i)" if "i < length (tk_peers t)" "peer_live now (tk_stale t) (tk_peers t ! i)" for i
      using e that by (auto simp: list_all2_conv_all_nth peer_live_def)
    then show ?thesis
      using expired(1,3) list_all2_lengthD [OF e] by (auto simp: route_publishes_def split: routes_result.split)
  qed
qed

lemma published_ok:
  assumes ok: "registry_ok t L" and P: "current t P"
  shows "registry_ok t (P @ L)"
proof -
  note D = registry_okD [OF ok]
  have P': "k < length (tk_peers t) \<and> registered (tk_peers t ! k) \<and> w = owner_now t k" if "(k, w) \<in> set P" for k w
    using P that by auto
  have gen: "fencing_epoch w \<le> tk_generation t \<and> route_generation w \<le> tk_generation t" if "(k, w) \<in> set (P @ L)" for k w
    using that D(1) P' [of k w] D(2) [of k] by auto
  have fence: "if k = i then fencing_epoch w < fencing_epoch (owner_now t i) \<or> lease_of w = lease_of (owner_now t i)
        else fencing_epoch w \<noteq> fencing_epoch (owner_now t i)"
    if "i < length (tk_peers t)" "registered (tk_peers t ! i)" "(k, w) \<in> set (P @ L)" for i k w
    using that P' [of k w] D(4) [OF that(1,2), of w] D(5) [OF that(1,2), of k w] D(6) [of k i] by auto
  show ?thesis unfolding registry_ok_def
  proof (intro conjI ballI allI impI, goal_cases)
    case (1 x)
    then show ?case using gen [of "fst x" "snd x"] by (simp add: case_prod_beta)
  next
    case (2 i)
    then show ?case using D(2,3) [of i] by simp
  next
    case (3 i x)
    then show ?case using fence [of i "fst x" "snd x"] by (simp add: case_prod_beta)
  next
    case (4 i k)
    then show ?case using D(6) [of i k] by simp
  qed
qed

lemma step_cases:
  assumes "tracker_step (t, L) (t', L')" "registry_ok t L"
  obtains (stored) r res where "length (rg_next_lease r) = LMB_SEG_ID_BYTES" "handle_segment_register r t = (t', res)" "L' = L"
  | (kept) P where "segments_kept t t'" "current t' P" "L' = P @ L"
  using assms(1)
proof (cases rule: tracker_step.cases)
  case (register r res)
  then show thesis using stored by blast
next
  case (reply i mem w body)
  then show thesis using kept [of "[(i, w)]"] reply_current(1) [OF assms(2)] by simp
next
  case (routes mem now body res)
  then show thesis using kept [of "route_publishes now body t (t', res)"] routes_current by simp
qed (use kept [of "[]"] in \<open>simp_all add: compute_put_kept teardown_kept adopt_kept refuse_kept assign_kept release_kept\<close>)

lemma step_inv:
  assumes "tracker_step (t, L) (t', L')" "reg_inv t L"
  shows "reg_inv t' L'"
  using assms(1) conjunct1 [OF assms(2)]
proof (cases rule: step_cases)
  case (stored r res)
  then show ?thesis using registered_ok(1) [OF assms(2) stored(1,2)] by simp
next
  case (kept P)
  then show ?thesis using kept_inv [OF assms(2) kept(1)] published_ok [of t' L P] by simp
qed

lemma reach_ok:
  assumes "tracker_reach t L"
  shows "reg_inv t L"
proof -
  obtain t0 where t0: "tracker_start t0" "tracker_step\<^sup>*\<^sup>* (t0, []) (t, L)" using assms by (auto simp: tracker_reach_def)
  have "reg_inv t0 []"
    using t0(1) by (auto simp: tracker_start_def registry_ok_def ranges_sized_def list_all_length)
  from t0(2) this show ?thesis by (induction rule: rtranclp_induct2) (use step_inv in blast)+
qed

text \<open>Later publications against earlier ones. The flag marks a slot whose epoch is beyond everything in \<open>L\<close>.\<close>

lemma owner_later:
  assumes "fencing_epoch w' < fencing_epoch w \<or> lease_of w' = lease_of w" "route_generation w' \<le> route_generation w"
  shows "seg_owner_relation w w' \<in> {0, 1}" "fencing_epoch w' < fencing_epoch w \<Longrightarrow> seg_owner_relation w w' = 1"
  using assms by (auto simp: seg_owner_relation_def Let_def lmb_seg_id_equal_def)

definition fences :: "bool \<Rightarrow> nat \<times> lmb_seg_owner \<Rightarrow> nat \<times> lmb_seg_owner \<Rightarrow> bool" where
  "fences strict x y \<longleftrightarrow>
     (if strict then seg_owner_relation (snd x) (snd y) = 1
      else if fst x = fst y then seg_owner_relation (snd x) (snd y) \<in> {0, 1}
      else fencing_epoch (snd x) \<noteq> fencing_epoch (snd y))"

definition beyond :: "tracker \<Rightarrow> nat \<Rightarrow> published \<Rightarrow> bool" where
  "beyond t i L \<longleftrightarrow> (registered (tk_peers t ! i) \<longrightarrow>
     (\<forall>(j, w) \<in> set L. fencing_epoch w < fencing_epoch (pe_segment_owner (tk_peers t ! i))))"

lemma current_fences:
  assumes "registry_ok t L" "current t P" "strict \<Longrightarrow> beyond t i L" "x \<in> set P" "y \<in> set L"
  shows "fences (strict \<and> fst x = i) x y"
proof -
  obtain k w j w' where xy: "x = (k, w)" "y = (j, w')" by (cases x; cases y) auto
  have k: "k < length (tk_peers t)" "registered (tk_peers t ! k)" "w = owner_now t k" using assms(2,4) xy(1) by auto
  note D = registry_okD [OF assms(1)]
  have y: "(j, w') \<in> set L" using assms(5) xy(2) by simp
  have g: "route_generation w' \<le> route_generation w" using D(1) [OF y] k(3) by simp
  have new: "seg_owner_relation w w' = 1" if "strict" "k = i"
    using assms(3) [OF that(1)] k y that(2) by (intro owner_later(2) [OF _ g]) (auto simp: beyond_def)
  have same: "seg_owner_relation w w' \<in> {0, 1}" if "j = k"
    using D(4) [OF k(1,2), of w'] y that k(3) by (intro owner_later(1) [OF _ g]) simp
  show ?thesis
    using new same D(5) [OF k(1,2) y] k(3) by (auto simp: fences_def xy)
qed

lemma step_beyond:
  assumes "tracker_step (t, L') (t', L'')" "reg_inv t L'" "beyond t i L" "i < length (tk_peers t)" "set L \<subseteq> set L'"
  shows "beyond t' i L"
  using assms(1) conjunct1 [OF assms(2)]
proof (cases rule: step_cases)
  case (stored r res)
  show ?thesis
    unfolding beyond_def
  proof
    assume reg: "registered (tk_peers t' ! i)"
    from registered_ok(3) [OF assms(2) stored(1,2) assms(4) reg] assms(3,5)
    show "\<forall>(j, w) \<in> set L. fencing_epoch w < fencing_epoch (pe_segment_owner (tk_peers t' ! i))"
      by (auto simp: beyond_def)
  qed
next
  case (kept P)
  then show ?thesis using assms(3) segments_keptD(3) [OF kept(1) assms(4)] by (auto simp: beyond_def)
qed

lemma steps_fence:
  assumes "tracker_step\<^sup>*\<^sup>* (t, L) (t', L')" "reg_inv t L" "strict \<Longrightarrow> beyond t i L" "i < MAX_PEERS"
  shows "reg_inv t' L' \<and> (strict \<longrightarrow> beyond t' i L) \<and>
    (\<exists>M. L' = M @ L \<and> (\<forall>x \<in> set M. \<forall>y \<in> set L. fences (strict \<and> fst x = i) x y))"
  using assms(1)
proof (induction rule: rtranclp_induct2)
  case refl
  then show ?case using assms(2,3) by auto
next
  case (step t1 L1 t2 L2)
  then obtain M where M: "reg_inv t1 L1" "strict \<Longrightarrow> beyond t1 i L" "L1 = M @ L"
    "\<forall>x \<in> set M. \<forall>y \<in> set L. fences (strict \<and> fst x = i) x y" by blast
  have i: "i < length (tk_peers t1)" and sub: "set L \<subseteq> set L1" using M(1,3) assms(4) by auto
  have inv: "reg_inv t2 L2" by (rule step_inv [OF step.hyps(2) M(1)])
  have b: "beyond t2 i L" if strict
    by (rule step_beyond [OF step.hyps(2) M(1) M(2) [OF that] i sub])
  from step.hyps(2) conjunct1 [OF M(1)] have "\<exists>P. L2 = P @ L1 \<and> current t2 P"
    by (cases rule: step_cases) force+
  then obtain P where P: "L2 = P @ L1" "current t2 P" by blast
  have "registry_ok t2 L" using inv P(1) M(3) unfolding registry_ok_def by auto
  then have "fences (strict \<and> fst x = i) x y" if "x \<in> set P" "y \<in> set L" for x y
    using current_fences [OF _ P(2) b that] by blast
  with M(3,4) P(1) inv b show ?case by (intro conjI exI [of _ "P @ M"]) auto
qed


section \<open>The reply of a route query\<close>

lemma transport_bits:
  "(if a then LMB_SEG_TRANSPORT_DIRECT else 0) OR (if b then LMB_SEG_TRANSPORT_RELAY else 0) = (0 :: u32) \<longleftrightarrow> \<not> a \<and> \<not> b"
  by (cases a; cases b) simp_all

lemma canon_compatible:
  assumes "advert_sized a" "lmb_seg_advert_compatible a q"
  shows "lmb_seg_advert_compatible (canon_advert a) q"
proof -
  have v: "lmb_seg_advert_valid a" using assms(2) by (simp add: lmb_seg_advert_compatible_def)
  then have ok: "advert_ok a" by (rule advert_valid_ok [OF _ assms(1)])
  have "c_str (canon_str s) = c_str s" if "str_ok s" for s using that by (simp add: c_str_canon str_ok_def)
  then show ?thesis
    using assms(2) ok advert_valid_canon [OF v]
    by (simp add: lmb_seg_advert_compatible_def canon_advert_def advert_ok_def)
qed

lemma expired_filter:
  assumes "expire_peers now stale ps g = Some (ps', g')"
  shows "filter (\<lambda>p. peer_live now stale p \<and> C p) ps' = filter (\<lambda>p. peer_live now stale p \<and> C p) ps"
  using expire_kept [OF assms, THEN conjunct1]
proof (induction rule: list_all2_induct)
  case (Cons p ps p' ps')
  have "\<not> peer_live now stale (p\<lparr>pe_segment_live := False\<rparr>)" by (simp add: peer_live_def)
  then show ?case using Cons by auto
qed simp

abbreviation served :: "int \<Rightarrow> int \<Rightarrow> lmb_seg_query \<Rightarrow> Peer list \<Rightarrow> Peer list" where
  "served now stale q ps \<equiv> filter (\<lambda>p. peer_live now stale p \<and> lmb_seg_advert_compatible (pe_segment p) q) ps"

lemma route_snapshot_used:
  assumes "length ps \<le> MAX_PEERS"
  shows "rs_used (route_snapshot now stale q ps g) = map (route_entry g) (served now stale q ps)"
    "unat (rs_count (route_snapshot now stale q ps g)) = length (served now stale q ps)"
    "rs_route_generation (route_snapshot now stale q ps g) = g"
    "length (rs_entries (route_snapshot now stale q ps g)) = LMB_SEG_ROUTE_MAX"
    "rs_complete (route_snapshot now stale q ps g) = (if lmb_seg_route_complete (route_snapshot now stale q ps g) q then 1 else 0)"
proof -
  let ?es = "map (route_entry g) (served now stale q ps)"
  have n: "length (served now stale q ps) \<le> 64" using assms length_filter_le le_trans by blast
  then have c: "unat (of_nat (length (served now stale q ps)) :: u32) = length (served now stale q ps)"
    by (simp add: unat_of_nat take_bit_eq_mod)
  note sn = route_snapshot_def Let_def
  show "unat (rs_count (route_snapshot now stale q ps g)) = length (served now stale q ps)"
    "rs_route_generation (route_snapshot now stale q ps g) = g"
    "length (rs_entries (route_snapshot now stale q ps g)) = LMB_SEG_ROUTE_MAX"
    using n c by (simp_all add: sn)
  show "rs_used (route_snapshot now stale q ps g) = ?es"
    using n c by (simp add: sn rs_used_def)
  show "rs_complete (route_snapshot now stale q ps g) = (if lmb_seg_route_complete (route_snapshot now stale q ps g) q then 1 else 0)"
    by (simp add: sn route_complete_iff rs_used_def)
qed

lemma route_entry_fields [simp]: "re_advert (route_entry g p) = pe_segment p"
    "re_owner (route_entry g p) = (pe_segment_owner p)\<lparr>route_generation := g\<rparr>"
  by (simp_all add: route_entry_def disc_fresh_entry_def)

lemma canon_entry_advert [simp]: "re_advert (canon_entry e) = canon_advert (re_advert e)"
  by (simp add: canon_entry_def disc_fresh_entry_def)

lemma canon_edges:
  assumes "\<forall>e \<in> set es. advert_sized (re_advert e) \<and> lmb_seg_advert_compatible (re_advert e) q"
  shows "route_edges q (map canon_entry es) = route_edges q es"
proof -
  let ?in = "\<lambda>a. qy_layer_begin q \<le> av_layer_begin a \<and> av_layer_end a \<le> qy_layer_end q"
  have E: "route_edges q fs = (\<lambda>a. (av_layer_begin a, av_layer_end a)) ` {a \<in> re_advert ` set fs. ?in a}"
    if "\<forall>e \<in> set fs. lmb_seg_advert_compatible (re_advert e) q" for fs
    using that by (force simp: route_edges_def)
  have "\<forall>e \<in> set (map canon_entry es). lmb_seg_advert_compatible (re_advert e) q"
    using assms canon_compatible by (simp add: ball_conj_distrib)
  then have "route_edges q (map canon_entry es) =
      (\<lambda>a. (av_layer_begin a, av_layer_end a)) ` {a \<in> re_advert ` set (map canon_entry es). ?in a}" by (rule E)
  also have "re_advert ` set (map canon_entry es) = canon_advert ` re_advert ` set es" by (simp add: image_image)
  also have "(\<lambda>a. (av_layer_begin a, av_layer_end a)) ` {a \<in> canon_advert ` re_advert ` set es. ?in a} =
      (\<lambda>a. (av_layer_begin a, av_layer_end a)) ` {a \<in> re_advert ` set es. ?in a}"
  proof -
    have l: "av_layer_begin (canon_advert a) = av_layer_begin a" "av_layer_end (canon_advert a) = av_layer_end a" for a
      by (simp_all add: canon_advert_def)
    have "{a \<in> canon_advert ` X. ?in a} = canon_advert ` {a \<in> X. ?in a}" for X using l by auto
    from this [of "re_advert ` set es"] show ?thesis by (simp only:) (simp add: image_image l)
  qed
  also have "\<dots> = route_edges q es" using E [of es] assms by blast
  finally show ?thesis .
qed

lemma routes_reply_decodes:
  assumes "length ps \<le> MAX_PEERS"
    "\<forall>p \<in> set (served now stale q ps). advert_sized (pe_segment p) \<and> owner_sized (pe_segment_owner p)"
    "lmb_seg_route_encode mem (route_snapshot now stale q ps g) = Some reply"
  shows "\<exists>s. lmb_seg_route_decode ms reply = Some s \<and> rs_route_generation s = g \<and>
     rs_used s = map (canon_entry \<circ> route_entry g) (served now stale q ps) \<and>
     (rs_complete s = 1 \<longleftrightarrow> lmb_seg_route_complete s q)"
proof -
  let ?r = "route_snapshot now stale q ps g"
  note u = route_snapshot_used [OF assms(1), of now stale q g]
  have "routes_sized ?r"
    using assms(2) u by (auto simp: routes_sized_def entry_sized_def owner_sized_def)
  note d = route_msg.roundtrip [OF this assms(3), of ms]
  let ?s = "canon_routes ms ?r"
  have used: "rs_used ?s = map (canon_entry \<circ> route_entry g) (served now stale q ps)"
    using u by (simp add: canon_routes_def rs_used_def)
  have "route_edges q (rs_used ?s) = route_edges q (rs_used ?r)"
    unfolding used u(1) map_map [symmetric] using assms(2) by (intro canon_edges) auto
  then have "lmb_seg_route_complete ?s q = lmb_seg_route_complete ?r q"
    by (simp add: route_complete_iff) (simp add: canon_routes_def)
  moreover have "rs_complete ?s = 1 \<longleftrightarrow> lmb_seg_route_complete ?r q"
    using u(5) by (simp add: canon_routes_def)
  moreover have "rs_route_generation ?s = g" using u(3) by (simp add: canon_routes_def)
  ultimately show ?thesis using d used by blast
qed

end
