(* ===== verification/Tracker_Registry_Claims.thy ===== *)
theory Tracker_Registry_Claims
  imports Tracker_Registry
begin

text \<open>
  The properties of the Segment registry, and the concrete tracker they are applied to: one computer that
  registers the layers 0 to 4 of a model, whose name its key already owns.
\<close>

section \<open>A concrete tracker\<close>

definition ex_registry :: tracker where
  "ex_registry = \<lparr>tk_peers = replicate MAX_PEERS (peer_zero True), tk_promises = replicate MAX_SEGMENT_PROMISES promise_zero,
     tk_generation = 0x100000001, tk_generation_ready = True,
     tk_bindings = \<lparr>tb_cache = \<lparr>g_bindings = [\<lparr>bd_name = [112], bd_pubkey = replicate 32 7, bd_is_expert = True\<rparr>], g_binding_cursor = 1\<rparr>,
                    tb_file = None, tb_history = \<lparr>jr_private = True, jr_flat = [], jr_history = Missing\<rparr>\<rparr>,
     tk_stale = 30000000000, tk_max_names_per_source = 8\<rparr>"

definition ex_auth :: bytes where
  "ex_auth = lmb_put32 LMB_PEER_AUTH_MAGIC @ replicate 32 7 @ replicate 64 9"

definition ex_register :: "u8 \<Rightarrow> int \<Rightarrow> lmb_seg_advert \<Rightarrow> register_input" where
  "ex_register b now a = \<lparr>rg_fd = 5, rg_body = (enc_disc_prefix @ enc_advert a) @ ex_auth, rg_nonce = Some [],
     rg_authentic = (\<lambda>_ _ _ _. True), rg_seen = None, rg_source = [], rg_next_lease = replicate LMB_SEG_ID_BYTES b, rg_now = now,
     rg_root_ok = (\<lambda>_. True), rg_evfd = True,
     rg_io = \<lparr>bi_open = False, bi_lines = None, bi_history = (\<lambda>_. undefined), bi_appended = 0, bi_flush = False\<rparr>\<rparr>"

lemma ex_strip: "peer_auth_strip (body @ ex_auth) = (body, Some (replicate 32 7, replicate 64 9))"
proof -
  have "length ex_auth = 100" by (simp add: ex_auth_def lmb_put32_def)
  moreover have "lmb_get32 ex_auth = LMB_PEER_AUTH_MAGIC" "take 32 (drop 4 ex_auth) = replicate 32 7"
    "take 64 (drop 36 ex_auth) = replicate 64 9" by code_simp+
  ultimately show ?thesis by (simp add: peer_auth_strip_def Let_def)
qed

lemma ex_register_eq:
  assumes "tk_generation_ready t" "lmb_seg_advert_valid a" "advert_sized a" "canon_advert a = a"
    "name_key_ok t (c_str (av_peer_name a)) True (replicate 32 7)"
    "identity_has_room now t (replicate 32 7) (c_str (av_peer_name a)) True []"
    "binding_check_or_add (rg_io (ex_register b now a)) (tk_bindings t) (c_str (av_peer_name a)) True (replicate 32 7) = (tk_bindings t, True)"
  shows "handle_segment_register (ex_register b now a) t =
    (case first_index (\<lambda>p. pe_used p \<and> pe_is_expert p \<and> pe_name p = c_str (av_peer_name a)) 0 (tk_peers t) of
       Some i \<Rightarrow> if pe_has_expert (tk_peers t ! i) \<and> pe_model (tk_peers t ! i) \<noteq> c_str (av_model a) then (t, RegRefused)
                 else register_slot (ex_register b now a) a (replicate 32 7) t i
     | None \<Rightarrow> (case peer_slot_new now (tk_stale t) True (tk_peers t) of None \<Rightarrow> (t, RegRefused)
          | Some (peers, i) \<Rightarrow> register_slot (ex_register b now a) a (replicate 32 7) (t\<lparr>tk_peers := peers\<rparr>) i))"
proof -
  have "lmb_seg_advert_decode (enc_disc_prefix @ enc_advert a) = Some a"
    using advert_msg.get_enc [OF advert_valid_ok [OF assms(2,3)], of "[]"] assms(2,4)
    by (simp add: advert_msg.decode_eq)
  then have d: "lmb_seg_advert_decode (fst (peer_auth_strip (rg_body (ex_register b now a)))) = Some a"
    by (simp add: ex_register_def ex_strip del: append_assoc)
  have f: "rg_nonce (ex_register b now a) = Some []" "rg_seen (ex_register b now a) = None" "rg_now (ex_register b now a) = now"
    "rg_source (ex_register b now a) = []" "rg_evfd (ex_register b now a) = True"
    "rg_authentic (ex_register b now a) n x y z" "rg_root_ok (ex_register b now a) a" for n x y z
    by (simp_all add: ex_register_def)
  have s: "peer_auth_strip (rg_body (ex_register b now a)) = (enc_disc_prefix @ enc_advert a, Some (replicate 32 7, replicate 64 9))"
    by (simp add: ex_register_def ex_strip del: append_assoc)
  have t: "t\<lparr>tk_bindings := tk_bindings t\<rparr> = t" "t\<lparr>tk_peers := ps, tk_bindings := tk_bindings t\<rparr> = t\<lparr>tk_peers := ps\<rparr>" for ps
    by simp_all
  show ?thesis
    using d unfolding handle_segment_register_def s
    by (simp add: assms f register_addr_def t Let_def split: option.split)
qed


text \<open>The range it offers, reachable directly or through its control connection only.\<close>

definition ex_offer :: "bool \<Rightarrow> lmb_seg_advert" where
  "ex_offer relay = ex_advert\<lparr>av_flags := (if relay then LMB_SEG_ADVERT_RELAY_ONLY else 0)\<rparr>"

lemma ex_offer_valid: "lmb_seg_advert_valid (ex_offer relay)" "lmb_seg_advert_compatible (ex_offer relay) ex_query"
proof -
  have v: "lmb_seg_advert_valid (ex_offer relay)"
    using ex_advert_valid by (cases relay) (simp_all add: ex_offer_def lmb_seg_advert_valid_def)
  then show "lmb_seg_advert_valid (ex_offer relay)" .
  show "lmb_seg_advert_compatible (ex_offer relay) ex_query"
    using ex_compatible v by (cases relay) (simp_all add: ex_offer_def lmb_seg_advert_compatible_def)
qed

lemma ex_offer_facts:
  "lmb_seg_advert_valid (ex_offer relay)" "c_str (av_peer_name (ex_offer relay)) = [112]"
  "canon_advert (ex_offer relay) = ex_offer relay" "advert_sized (ex_offer relay)"
  by (rule ex_offer_valid) (simp_all add: ex_offer_def ex_advert_def canon_advert_def canon_str_def advert_sized_def)

definition ex_owner :: "u8 \<Rightarrow> u64 \<Rightarrow> lmb_seg_owner" where
  "ex_owner b g = \<lparr>lease_id = replicate LMB_SEG_ID_BYTES b, fencing_epoch = g, route_generation = g\<rparr>"

lemma ex_registry_ready:
  "name_key_ok ex_registry [112] True (replicate 32 7)"
  "identity_has_room now ex_registry (replicate 32 7) [112] True []"
  "binding_check_or_add io (tk_bindings ex_registry) [112] True (replicate 32 7) = (tk_bindings ex_registry, True)"
proof -
  have f: "binding_find (tb_cache (tk_bindings ex_registry)) [112] True = Some 0" by code_simp
  have none: "first_index (\<lambda>p. pe_used p \<and> P p) i (replicate n (peer_zero b)) = None" for P i n b
    by (simp add: first_index_None peer_zero_def)
  have scan: "room_scan now stale pk name e src (replicate n (peer_zero b)) h k = Some (h, k)" for now stale pk name e src n b h k
    by (induction n) (simp_all add: peer_zero_def)
  show "name_key_ok ex_registry [112] True (replicate 32 7)"
    using f none by (simp add: name_key_ok_def) (simp add: ex_registry_def)
  show "identity_has_room now ex_registry (replicate 32 7) [112] True []"
    by (simp add: identity_has_room_def ex_registry_def scan)
  show "binding_check_or_add io (tk_bindings ex_registry) [112] True (replicate 32 7) = (tk_bindings ex_registry, True)"
    using f by (simp add: binding_check_or_add_def) (simp add: ex_registry_def)
qed

definition ex_served :: "bool \<Rightarrow> tracker" where
  "ex_served relay = fst (register_slot (ex_register 3 0 (ex_offer relay)) (ex_offer relay) (replicate 32 7) ex_registry 0)"

lemma ex_first_grant:
  "handle_segment_register (ex_register 3 0 (ex_offer relay)) ex_registry = (ex_served relay, RegStored 0 True)"
proof -
  have n: "first_index (\<lambda>p. pe_used p \<and> pe_is_expert p \<and> pe_name p = [112]) 0 (tk_peers ex_registry) = None"
    by (simp add: first_index_None ex_registry_def peer_zero_def)
  have s: "peer_slot_new 0 (tk_stale ex_registry) True (tk_peers ex_registry) = Some (tk_peers ex_registry, 0)"
    by code_simp
  have b: "segment_generation_bump (tk_generation ex_registry) = Some 0x100000002" by code_simp
  have c: "register_changed (rg_now (ex_register 3 0 (ex_offer relay))) (tk_stale ex_registry) (ex_offer relay) (tk_peers ex_registry ! 0)" by code_simp
  have "register_slot (ex_register 3 0 (ex_offer relay)) (ex_offer relay) (replicate 32 7) ex_registry 0 =
      (ex_served relay, RegStored 0 True)"
    unfolding ex_served_def register_slot_def Let_def
    by (simp add: b c)
  then show ?thesis
    using ex_register_eq [of ex_registry "ex_offer relay" 0 3] ex_registry_ready ex_offer_facts
    by (simp add: ex_offer_facts n s) (simp add: ex_registry_def)
qed

definition ex_peer :: "bool \<Rightarrow> Peer" where
  "ex_peer relay = register_peer (ex_register 3 0 (ex_offer relay)) (ex_offer relay) (replicate 32 7) True 0x100000002 (peer_zero True)"

lemma ex_peer_fields:
  "pe_used (ex_peer relay)" "pe_is_expert (ex_peer relay)" "pe_has_segment (ex_peer relay)" "pe_segment_live (ex_peer relay)" "pe_has_key (ex_peer relay)" "\<not> pe_has_expert (ex_peer relay)"
  "pe_name (ex_peer relay) = [112]" "pe_pubkey (ex_peer relay) = replicate 32 7" "pe_segment_ts (ex_peer relay) = 0" "pe_segment (ex_peer relay) = (ex_offer relay)"
  "pe_segment_owner (ex_peer relay) = ex_owner 3 0x100000002" "pe_ctrl_fd (ex_peer relay) = Some 5" "pe_evfd (ex_peer relay)"
  by (simp_all add: ex_peer_def register_peer_def Let_def peer_zero_def ex_offer_facts ex_owner_def register_owner_def ex_register_def)

lemma ex_served_fields:
  "tk_peers (ex_served relay) = ex_peer relay # replicate 63 (peer_zero True)"
  "tk_generation (ex_served relay) = 0x100000002" "tk_generation_ready (ex_served relay)" "tk_stale (ex_served relay) = 30000000000"
  "tk_bindings (ex_served relay) = tk_bindings ex_registry"
proof -
  have b: "segment_generation_bump (tk_generation ex_registry) = Some 0x100000002" by code_simp
  have c: "register_changed (rg_now (ex_register 3 0 (ex_offer relay))) (tk_stale ex_registry) (ex_offer relay) (peer_zero True)" by code_simp
  have p: "tk_peers ex_registry ! 0 = peer_zero True" "(tk_peers ex_registry)[0 := p] = p # replicate 63 (peer_zero True)" for p
    by (simp_all add: ex_registry_def numeral_eq_Suc)
  note e = ex_served_def register_slot_def Let_def
  show "tk_peers (ex_served relay) = ex_peer relay # replicate 63 (peer_zero True)" by (simp add: e b c p ex_peer_def)
  show "tk_generation (ex_served relay) = 0x100000002" by (simp add: e b c p)
  show "tk_generation_ready (ex_served relay)" by (simp add: e b c p) (simp add: ex_registry_def)
  show "tk_stale (ex_served relay) = 30000000000" by (simp add: e b c p) (simp add: ex_registry_def)
  show "tk_bindings (ex_served relay) = tk_bindings ex_registry" by (simp add: e b c p)
qed

definition ex_renewed :: "bool \<Rightarrow> tracker" where
  "ex_renewed relay =
     fst (register_slot (ex_register 4 60000000000 (ex_offer relay)) (ex_offer relay) (replicate 32 7) (ex_served relay) 0)"

lemma ex_lapsed_grant:
  "handle_segment_register (ex_register 4 60000000000 (ex_offer relay)) (ex_served relay) = (ex_renewed relay, RegStored 0 True)"
  "owner_now (ex_renewed relay) 0 = ex_owner 4 0x100000003" "length (tk_peers (ex_renewed relay)) = 64"
proof -
  let ?r = "ex_register 4 60000000000 (ex_offer relay)"
  have f: "first_index (\<lambda>p. pe_used p \<and> pe_is_expert p \<and> pe_name p = [112]) 0 (tk_peers (ex_served relay)) = Some 0"
      "first_index (\<lambda>p. pe_used p \<and> pe_is_expert p \<and> pe_has_key p \<and> pe_name p = [112]) 0 (tk_peers (ex_served relay)) = Some 0"
    by (simp_all add: ex_served_fields ex_peer_fields)
  have "binding_find (tb_cache (tk_bindings ex_registry)) [112] True = Some 0" by code_simp
  then have k: "name_key_ok (ex_served relay) [112] True (replicate 32 7)"
    by (simp add: name_key_ok_def f ex_served_fields ex_peer_fields) (simp add: ex_registry_def)
  have room: "identity_has_room 60000000000 (ex_served relay) (replicate 32 7) [112] True []"
    by (simp add: identity_has_room_def ex_served_fields ex_peer_fields)
  have b: "segment_generation_bump 0x100000002 = Some 0x100000003" by code_simp
  have c: "register_changed (rg_now ?r) (tk_stale (ex_served relay)) (ex_offer relay) (tk_peers (ex_served relay) ! 0)"
    by (simp add: register_changed_def Let_def ex_served_fields ex_peer_fields) (simp add: ex_register_def)
  have g: "register_slot ?r (ex_offer relay) (replicate 32 7) (ex_served relay) 0 = (ex_renewed relay, RegStored 0 True)"
    unfolding ex_renewed_def using c by (simp add: register_slot_def Let_def ex_served_fields b)
  then show "handle_segment_register ?r (ex_served relay) = (ex_renewed relay, RegStored 0 True)"
    using ex_register_eq [of "ex_served relay" "ex_offer relay" 60000000000 4] k room ex_registry_ready(3) ex_offer_facts
    by (simp add: ex_offer_facts f ex_served_fields ex_peer_fields)
  show "owner_now (ex_renewed relay) 0 = ex_owner 4 0x100000003" "length (tk_peers (ex_renewed relay)) = 64"
    using c by (simp_all add: ex_renewed_def register_slot_def Let_def ex_served_fields b)
      (simp_all add: register_peer_def register_owner_def ex_owner_def ex_register_def Let_def)
qed

lemma ex_registry_reach: "tracker_reach ex_registry []"
proof -
  have "tracker_start ex_registry"
    by (simp add: tracker_start_def ex_registry_def peer_zero_def Tracker_Segments.seg_owner_zero_def list_all_iff)
  then show ?thesis by (auto simp: tracker_reach_def)
qed

lemma ex_served_reach: "tracker_reach (ex_served relay) []"
  by (rule reach_step [OF ex_registry_reach tracker_step.register [OF _ ex_first_grant]]) (simp add: ex_register_def)

text \<open>The reply of a registration, read from a tracker at some later moment.\<close>

lemma ex_reply:
  assumes "owner_now t 0 = ex_owner b g" "\<not> lmb_seg_id_is_zero (replicate LMB_SEG_ID_BYTES b)" "g \<noteq> 0"
  obtains body where "register_reply (\<lambda>_. True) 0 t = Some (ex_owner b g, body)"
proof -
  have "disc_owner_valid (ex_owner b g)" "owner_sized (ex_owner b g)"
    using assms(2,3) by (simp_all add: disc_owner_valid_def ex_owner_def owner_sized_def)
  moreover have "length (enc_disc_prefix @ enc_owner (ex_owner b g)) \<le> disc_limit"
    by (simp add: enc_disc_prefix_def enc_owner_def enc_u64_def lmb_put32_def ex_owner_def)
  ultimately have "lmb_seg_registration_reply_encode (\<lambda>_. True) (ex_owner b g)
      = Some (enc_disc_prefix @ enc_owner (ex_owner b g))"
    by (intro registration_msg.encode_total) simp_all
  then show thesis using that assms(1) by (simp add: register_reply_def Let_def)
qed

lemma ex_lease_set:
  "\<not> lmb_seg_id_is_zero (replicate LMB_SEG_ID_BYTES 3)" "\<not> lmb_seg_id_is_zero (replicate LMB_SEG_ID_BYTES 4)"
  by code_simp+

lemma ex_served_now: "owner_now (ex_served relay) 0 = ex_owner 3 0x100000002"
  by (simp add: ex_served_fields ex_peer_fields ex_owner_def)

lemma ex_answered:
  "tracker_step\<^sup>*\<^sup>* (ex_registry, []) (ex_served relay, [(0, ex_owner 3 0x100000002)])"
  "tracker_reach (ex_served relay) [(0, ex_owner 3 0x100000002)]"
  "tracker_step (ex_renewed relay, L) (ex_renewed relay, (0, ex_owner 4 0x100000003) # L)"
proof -
  have s: "tracker_step (ex_registry, []) (ex_served relay, [])"
    by (rule tracker_step.register [OF _ ex_first_grant]) (simp add: ex_register_def)
  obtain body where "register_reply (\<lambda>_. True) 0 (ex_served relay) = Some (ex_owner 3 0x100000002, body)"
    by (rule ex_reply [OF ex_served_now ex_lease_set(1)]) simp
  then have r: "tracker_step (ex_served relay, []) (ex_served relay, [(0, ex_owner 3 0x100000002)])"
    by (intro tracker_step.reply) (simp_all add: ex_served_fields)
  show "tracker_step\<^sup>*\<^sup>* (ex_registry, []) (ex_served relay, [(0, ex_owner 3 0x100000002)])"
    using s r by (meson r_into_rtranclp rtranclp.rtrancl_into_rtrancl)
  then show "tracker_reach (ex_served relay) [(0, ex_owner 3 0x100000002)]"
    by (rule reach_steps [OF ex_registry_reach])
  obtain body where "register_reply (\<lambda>_. True) 0 (ex_renewed relay) = Some (ex_owner 4 0x100000003, body)"
    by (rule ex_reply [OF ex_lapsed_grant(2) ex_lease_set(2)]) simp
  then show "tracker_step (ex_renewed relay, L) (ex_renewed relay, (0, ex_owner 4 0x100000003) # L)"
    by (intro tracker_step.reply) (simp_all add: ex_lapsed_grant(3))
qed


lemma expire_none:
  "\<forall>p \<in> set ps. \<not> (pe_used p \<and> pe_has_segment p \<and> pe_segment_live p \<and> now - pe_segment_ts p > stale) \<Longrightarrow>
   expire_peers now stale ps g = Some (ps, g)"
  by (induction ps) auto

lemma ex_query_body: "\<exists>body. lmb_seg_query_decode body = Some ex_query"
proof -
  obtain body where b: "lmb_seg_query_encode (\<lambda>_. True) ex_query = Some body" using ex_query_encode by blast
  have "canon_query ex_query = ex_query" by (simp add: canon_query_def canon_str_def ex_query_def)
  then show ?thesis using query_msg.roundtrip [OF ex_query_sized b] by auto
qed

lemma ex_live: "peer_live 1000 30000000000 (ex_peer relay)" "\<not> peer_live now stale (peer_zero b)"
  by (simp_all add: peer_live_def ex_peer_fields peer_zero_def)

lemma ex_route_reply:
  assumes "lmb_seg_query_decode body = Some ex_query"
  obtains t' reply where "handle_segment_routes (\<lambda>_. True) 1000 body (ex_served relay) = (t', RoutesReply reply)"
proof -
  let ?ps = "tk_peers (ex_served relay)" and ?g = "0x100000002 :: u64"
  let ?s = "route_snapshot 1000 30000000000 ex_query ?ps ?g"
  have e: "expire_peers 1000 30000000000 ?ps ?g = Some (?ps, ?g)"
    by (rule expire_none) (auto simp: ex_served_fields ex_peer_fields peer_zero_def)
  have sv: "served 1000 30000000000 ex_query ?ps = [ex_peer relay]"
    by (simp add: ex_served_fields ex_live ex_peer_fields ex_offer_valid)
  have "length ?ps \<le> MAX_PEERS" by (simp add: ex_served_fields)
  note u = route_snapshot_used [OF this, of 1000 30000000000 ex_query ?g, unfolded sv]
  let ?e = "route_entry ?g (ex_peer relay)"
  have tr: "re_transport ?e = 3 \<or> re_transport ?e = 2" "lease_id (re_owner ?e) = replicate LMB_SEG_ID_BYTES 3"
    "fencing_epoch (re_owner ?e) = ?g"
    by (auto simp: route_entry_def disc_fresh_entry_def ex_peer_fields ex_owner_def)
  moreover have "\<not> lmb_seg_id_is_zero (replicate LMB_SEG_ID_BYTES 3)" by code_simp
  ultimately have "disc_entry_valid ?g ?e"
    by (auto simp: disc_entry_valid_def ex_peer_fields ex_offer_facts)
  then have valid: "routes_valid ?s" using u by (simp add: routes_valid_def)
  have sized: "routes_sized ?s"
    using u by (simp add: routes_sized_def entry_sized_def ex_peer_fields ex_offer_facts owner_sized_def ex_owner_def)
  have "length (enc_advert (ex_offer relay)) = length (enc_advert ex_advert)"
    by (simp add: enc_advert_def ex_offer_def enc_u64_def lmb_put32_def)
  moreover have "length (enc_advert ex_advert) \<le> 1000" by code_simp
  ultimately have "length (enc_routes ?s) \<le> disc_limit"
    using u tr by (simp add: enc_routes_def enc_entry_def ex_peer_fields enc_owner_def enc_disc_prefix_def enc_u64_def lmb_put32_def)
  then have "lmb_seg_route_encode (\<lambda>_. True) ?s = Some (enc_routes ?s)"
    by (intro route_msg.encode_total [OF valid sized]) simp_all
  then show thesis
    using that assms e by (simp add: handle_segment_routes_def ex_served_fields)
qed

section \<open>Properties\<close>

text \<open>C3: the leases the tracker gives out are fenced. A registration that changes the placement of a slot moves it
  beyond everything published before: whatever steps follow, in any interleaving with the other connections, every
  owner of this slot that a registration reply or a route reply gives from then on compares as newer
  (\<open>seg_owner_relation\<close> 1) than every owner that any reply gave for any slot before the registration, so a segment
  that has seen it refuses all earlier holders. A registration that only renews keeps the lease and the fencing epoch
  of the slot. No two registered slots are ever under one epoch.\<close>

theorem segment_leases_fenced:
  assumes "tracker_reach t L" "length (rg_next_lease r) = LMB_SEG_ID_BYTES"
    "handle_segment_register r t = (t1, RegStored i changed)" "tracker_step\<^sup>*\<^sup>* (t1, L) (t2, M @ L)"
  shows "(if changed then \<forall>(k, w) \<in> set M. k = i \<longrightarrow> (\<forall>(j, w') \<in> set L. seg_owner_relation w w' = 1)
      else pe_has_segment (tk_peers t ! i) \<and>
        lease_of (pe_segment_owner (tk_peers t1 ! i)) = lease_of (pe_segment_owner (tk_peers t ! i))) \<and>
    (\<forall>j < length (tk_peers t2). \<forall>k < length (tk_peers t2).
       pe_has_segment (tk_peers t2 ! j) \<longrightarrow> pe_has_segment (tk_peers t2 ! k) \<longrightarrow>
       fencing_epoch (pe_segment_owner (tk_peers t2 ! j)) = fencing_epoch (pe_segment_owner (tk_peers t2 ! k)) \<longrightarrow> j = k)"
proof -
  note inv = reach_ok [OF assms(1)]
  note inv1 = registered_ok(1) [OF inv assms(2,3)] and stored = registered_ok(2) [OF inv assms(2,3)]
  have i: "i < MAX_PEERS" using stored [of i changed] inv1 by simp
  have "beyond t1 i L" if changed using stored [of i changed] that by (simp add: beyond_def)
  from steps_fence [OF assms(4) inv1 this i] have inv2: "reg_inv t2 (M @ L)"
    and f: "\<forall>x \<in> set M. \<forall>y \<in> set L. fences (changed \<and> fst x = i) x y" by auto
  have "seg_owner_relation w w' = 1" if "changed" "(i, w) \<in> set M" "(j, w') \<in> set L" for j w w'
    using f that by (fastforce simp: fences_def)
  moreover have "j = k" if "j < length (tk_peers t2)" "k < length (tk_peers t2)" "pe_has_segment (tk_peers t2 ! j)"
      "pe_has_segment (tk_peers t2 ! k)"
      "fencing_epoch (pe_segment_owner (tk_peers t2 ! j)) = fencing_epoch (pe_segment_owner (tk_peers t2 ! k))" for j k
    using registry_okD(6) [OF conjunct1 [OF inv2]] that by blast
  ultimately show ?thesis using stored [of i changed] by (cases changed) (auto simp: case_prod_beta)
qed

lemma segment_leases_fenced_witness: "seg_owner_relation (ex_owner 4 0x100000003) (ex_owner 3 0x100000002) = 1"
proof -
  have l: "length (rg_next_lease (ex_register 4 60000000000 (ex_offer False))) = LMB_SEG_ID_BYTES" by (simp add: ex_register_def)
  have s: "tracker_step\<^sup>*\<^sup>* (ex_renewed False, [(0, ex_owner 3 0x100000002)])
      (ex_renewed False, [(0, ex_owner 4 0x100000003)] @ [(0, ex_owner 3 0x100000002)])"
    using ex_answered(3) by (intro r_into_rtranclp) simp
  from segment_leases_fenced [OF ex_answered(2) l ex_lapsed_grant(1) s] show ?thesis by simp
qed


lemma registry_ranges: "tracker_reach t L \<Longrightarrow> p \<in> set (tk_peers t) \<Longrightarrow> pe_has_segment p \<Longrightarrow>
    advert_sized (pe_segment p) \<and> owner_sized (pe_segment_owner p)"
  using reach_ok [of t L] by (auto simp: ranges_sized_def in_set_conv_nth)

text \<open>C36: what the tracker publishes is ordered, although a registration answers in a section of its own and anything
  may happen before it. Between two moments the log of published owners only grows; an owner published later never
  compares as stale or in conflict with one published earlier for the same slot, and an owner of another slot has
  another fencing epoch. A registration reply carries the current generation of the tracker, and the computer that
  registered decodes from it exactly the owner in the log.\<close>

theorem published_owners_ordered:
  assumes "tracker_reach t L" "tracker_step\<^sup>*\<^sup>* (t, L) (t', L')"
    "i < length (tk_peers t')" "register_reply mem i t' = Some (w, body)"
  shows "(\<exists>M. L' = M @ L \<and> (\<forall>(k, v) \<in> set ((i, w) # M). \<forall>(j, v') \<in> set L.
       if k = j then seg_owner_relation v v' \<in> {0, 1} else fencing_epoch v \<noteq> fencing_epoch v')) \<and>
    route_generation w = tk_generation t' \<and> lmb_seg_registration_reply_decode body = Some w"
proof -
  note inv = reach_ok [OF assms(1)]
  have s: "tracker_step\<^sup>*\<^sup>* (t, L) (t', (i, w) # L')"
    using assms(2) tracker_step.reply [OF assms(3,4)] by (rule rtranclp.rtrancl_into_rtrancl)
  have z: "(0 :: nat) < MAX_PEERS" by simp
  obtain M where M: "L' = M @ L" using steps_fence [OF assms(2) inv _ z, of False] by blast
  from steps_fence [OF s inv _ z, of False] M
  have f: "\<forall>x \<in> set ((i, w) # M). \<forall>y \<in> set L. fences False x y" by auto
  have inv': "reg_inv t' L'" using steps_fence [OF assms(2) inv _ z, of False] by blast
  note c = reply_current [OF conjunct1 [OF inv'] assms(3,4)]
  have w: "w = owner_now t' i" "pe_has_segment (tk_peers t' ! i)" using c(1) by simp_all
  have "owner_sized (pe_segment_owner (tk_peers t' ! i))" using inv' w(2) assms(3) by (simp add: ranges_sized_def)
  then have "owner_sized w" using w(1) by (simp add: owner_sized_def)
  from registration_msg.roundtrip [OF this c(2)] have "lmb_seg_registration_reply_decode body = Some w" by simp
  moreover have "route_generation w = tk_generation t'" using w(1) by simp
  moreover have "\<forall>(k, v) \<in> set ((i, w) # M). \<forall>(j, v') \<in> set L.
      if k = j then seg_owner_relation v v' \<in> {0, 1} else fencing_epoch v \<noteq> fencing_epoch v'"
    using f by (simp only: fences_def case_prod_unfold if_False)
  ultimately show ?thesis using M by blast
qed

lemma published_owners_ordered_witness:
  "\<exists>body. lmb_seg_registration_reply_decode body = Some (ex_owner 4 0x100000003) \<and>
     seg_owner_relation (ex_owner 4 0x100000003) (ex_owner 3 0x100000002) \<in> {0, 1}"
proof -
  have s: "tracker_step\<^sup>*\<^sup>* (ex_served False, [(0, ex_owner 3 0x100000002)]) (ex_renewed False, [(0, ex_owner 3 0x100000002)])"
    by (rule r_into_rtranclp, rule tracker_step.register [OF _ ex_lapsed_grant(1)]) (simp add: ex_register_def)
  obtain body where r: "register_reply (\<lambda>_. True) 0 (ex_renewed False) = Some (ex_owner 4 0x100000003, body)"
    by (rule ex_reply [OF ex_lapsed_grant(2) ex_lease_set(2)]) simp
  have "0 < length (tk_peers (ex_renewed False))" by (simp add: ex_lapsed_grant(3))
  from published_owners_ordered [OF ex_answered(2) s this r] show ?thesis by (intro exI [of _ body]) auto
qed

text \<open>C4: a route reply is exact. What a tracker in a reachable state answers decodes, on the chat's side, to a
  snapshot of the tracker's generation whose entries are exactly the live peers compatible with the query, each
  with its advert, its lease at that generation and the ways to reach it; it is marked complete exactly when
  these entries cover the queried layers.\<close>

theorem routes_reply_exact:
  assumes "tracker_reach t L" "handle_segment_routes mem now body t = (t', RoutesReply reply)"
  shows "\<exists>q s. lmb_seg_query_decode body = Some q \<and> lmb_seg_route_decode ms reply = Some s \<and>
    rs_route_generation s = tk_generation t' \<and>
    rs_used s = map (\<lambda>p. canon_entry (route_entry (tk_generation t') p))
      (filter (\<lambda>p. peer_live now (tk_stale t) p \<and> lmb_seg_advert_compatible (pe_segment p) q) (tk_peers t)) \<and>
    (rs_complete s = 1 \<longleftrightarrow> lmb_seg_route_complete s q)"
  using assms(2)
proof (cases rule: routes_cases)
  case (expired q peers g)
  have len: "length peers \<le> MAX_PEERS"
    using expire_kept [OF expired(2)] reach_ok [OF assms(1)] by (auto dest: list_all2_lengthD)
  have f: "served now (tk_stale t) q peers = served now (tk_stale t) q (tk_peers t)" by (rule expired_filter [OF expired(2)])
  have "\<forall>p \<in> set (served now (tk_stale t) q peers). advert_sized (pe_segment p) \<and> owner_sized (pe_segment_owner p)"
    unfolding f using registry_ranges [OF assms(1)] by (auto simp: peer_live_def)
  moreover have "lmb_seg_route_encode mem (route_snapshot now (tk_stale t) q peers g) = Some reply"
    using expired(4) by (simp split: option.splits)
  ultimately show ?thesis
    using routes_reply_decodes [OF len, of now "tk_stale t" q mem g reply ms] expired(1,3) unfolding f by (auto simp: comp_def)
next
  case same
  from same(2) [of reply] show ?thesis by simp
qed

lemma routes_reply_exact_witness:
  "\<exists>body reply s. snd (handle_segment_routes (\<lambda>_. True) 1000 body (ex_served False)) = RoutesReply reply \<and>
     lmb_seg_route_decode 5 reply = Some s \<and> length (rs_used s) = 1"
proof -
  obtain body where b: "lmb_seg_query_decode body = Some ex_query" using ex_query_body by blast
  obtain t' reply where r: "handle_segment_routes (\<lambda>_. True) 1000 body (ex_served False) = (t', RoutesReply reply)"
    using ex_route_reply [OF b] by blast
  obtain s where "lmb_seg_route_decode 5 reply = Some s"
      "rs_used s = map (\<lambda>p. canon_entry (route_entry (tk_generation t') p)) (served 1000 (tk_stale (ex_served False)) ex_query (tk_peers (ex_served False)))"
    using routes_reply_exact [OF ex_served_reach r, of 5] b by auto
  then show ?thesis using r
    by (intro exI [of _ body] exI [of _ reply] exI [of _ s]) (simp add: ex_served_fields ex_live ex_peer_fields ex_offer_valid)
qed

text \<open>C34: a computer that serves only through its control connection blocks the routes of everybody while it is
  gone. When that connection of a live, compatible, relay-only peer ends, no query its advert is compatible with
  is answered with routes until the peer has become stale, whoever else serves the layers: the entry without any
  transport makes the whole snapshot fail to encode.\<close>

theorem relay_only_blocks_routes:
  assumes "tracker_reach t L" "i < length (tk_peers t)" "pe_ctrl_fd (tk_peers t ! i) = Some fd"
    "av_flags (pe_segment (tk_peers t ! i)) AND LMB_SEG_ADVERT_RELAY_ONLY \<noteq> 0"
    "peer_live now (tk_stale t) (tk_peers t ! i)"
    "lmb_seg_query_decode body = Some q" "lmb_seg_advert_compatible (pe_segment (tk_peers t ! i)) q"
  shows "snd (handle_segment_routes mem now body (ctrl_teardown fd i t)) \<noteq> RoutesReply reply"
proof
  let ?t = "ctrl_teardown fd i t"
  assume r: "snd (handle_segment_routes mem now body ?t) = RoutesReply reply"
  then obtain t' where h: "handle_segment_routes mem now body ?t = (t', RoutesReply reply)" by (metis prod.collapse)
  obtain p where p: "tk_peers ?t ! i = p" "pe_ctrl_fd p = None" "pe_segment p = pe_segment (tk_peers t ! i)"
      "peer_live now (tk_stale t) p" "length (tk_peers ?t) = length (tk_peers t)" "tk_stale ?t = tk_stale t"
    using assms(2,3,5) by (auto simp: ctrl_teardown_def Let_def peer_live_def)
  from h show False
  proof (cases rule: routes_cases)
    case (expired q' peers g)
    have q: "q' = q" using expired(1) assms(6) by simp
    have "p \<in> set (tk_peers ?t)" using p(1,5) assms(2) by (metis nth_mem)
    then have "p \<in> set (served now (tk_stale t) q (tk_peers ?t))" using p(3,4) assms(7) by simp
    then have pin: "p \<in> set (served now (tk_stale t) q peers)" using expired_filter [OF expired(2)] p(6) by metis
    have len: "length peers \<le> MAX_PEERS"
      using expire_kept [OF expired(2)] reach_ok [OF assms(1)] p(5) by (auto dest: list_all2_lengthD)
    note u = route_snapshot_used [OF len, of now "tk_stale t" q g]
    have "re_transport (route_entry g p) = 0"
      using p(2,3) assms(4) by (simp add: route_entry_def disc_fresh_entry_def)
    then have "\<not> disc_entry_valid g (route_entry g p)" by (simp add: disc_entry_valid_def)
    then have "\<exists>e \<in> set (rs_used (route_snapshot now (tk_stale t) q peers g)). \<not> disc_entry_valid g e"
      using pin u(1) by auto
    then have "disc_put_routes mem (route_snapshot now (tk_stale t) q peers g) b = None" for b
      using put_entries_None u(3) by (cases "disc_buf_prefix mem b") (simp_all add: disc_put_routes_def bind_eq_None_conv)
    then have "lmb_seg_route_encode mem (route_snapshot now (tk_stale t) q peers g) = None"
      by (simp add: lmb_seg_route_encode_def)
    then show False using expired(4) p(6) q by simp
  next
    case same
    from same(2) [of reply] show ?thesis by simp
  qed
qed

lemma relay_only_blocks_routes_witness:
  "\<exists>body. lmb_seg_query_decode body = Some ex_query \<and>
     (\<exists>reply. snd (handle_segment_routes (\<lambda>_. True) 1000 body (ex_served True)) = RoutesReply reply) \<and>
     (\<forall>reply. snd (handle_segment_routes (\<lambda>_. True) 1000 body (ctrl_teardown 5 0 (ex_served True))) \<noteq> RoutesReply reply)"
proof -
  obtain body where b: "lmb_seg_query_decode body = Some ex_query" using ex_query_body by blast
  obtain t' reply where r: "handle_segment_routes (\<lambda>_. True) 1000 body (ex_served True) = (t', RoutesReply reply)"
    using ex_route_reply [OF b] by blast
  have f: "0 < length (tk_peers (ex_served True))" "pe_ctrl_fd (tk_peers (ex_served True) ! 0) = Some 5"
    "av_flags (pe_segment (tk_peers (ex_served True) ! 0)) AND LMB_SEG_ADVERT_RELAY_ONLY \<noteq> 0"
    "peer_live 1000 (tk_stale (ex_served True)) (tk_peers (ex_served True) ! 0)"
    "lmb_seg_advert_compatible (pe_segment (tk_peers (ex_served True) ! 0)) ex_query"
    by (simp_all add: ex_served_fields ex_peer_fields ex_live ex_offer_valid) (simp add: ex_offer_def)
  show ?thesis using relay_only_blocks_routes [OF ex_served_reach f(1-4) b f(5)] b r by auto
qed

end
