(* ===== verification/Tracker_Assign_Claims.thy ===== *)
theory Tracker_Assign_Claims
  imports Tracker_Registry_Claims
begin

text \<open>
  What segment assignment promises: a new donor is given the slice of a live origin with the fewest
  replicas, a donor that asks again keeps its slice, and where the choice misses a live origin.
\<close>

section \<open>The searches\<close>

lemma retained_peer_False: "retained_peer now stale q ps chosen = (c, False) \<Longrightarrow> c = chosen"
  by (induction ps arbitrary: chosen) (auto split: if_splits prod.splits)

lemma retained_peer_None:
  "\<forall>p \<in> set ps. peer_live now stale p \<longrightarrow> segment_matches q (pe_segment p) \<longrightarrow> c_str (av_peer_name (pe_segment p)) \<noteq> ar_name q \<Longrightarrow>
   retained_peer now stale q ps chosen = (chosen, False)"
  by (induction ps) auto

text \<open>Looking for a promise only clears expired ones.\<close>

lemma retained_promise_clears:
  assumes "retained_promise now q ps chosen ret = (ps', c, r)"
  shows "list_all2 (\<lambda>p p'. p' = p \<or> p' = p\<lparr>pr_used := False\<rparr> \<and> now - pr_ts p > SEGMENT_PROMISE_TTL) ps ps'"
  using assms
proof (induction now q ps chosen ret arbitrary: ps' c r rule: retained_promise.induct)
  case (2 now q p ps chosen ret)
  show ?case
  proof (cases "snd chosen \<noteq> 0")
    case True
    then show ?thesis using "2.prems" by (auto simp: list_all2_refl)
  next
    case False
    let ?p = "if pr_used p \<and> now - pr_ts p > SEGMENT_PROMISE_TTL then p\<lparr>pr_used := False\<rparr> else p"
    let ?hit = "pr_used ?p \<and> pr_name ?p = ar_name q \<and> promise_matches q ?p"
    obtain qs where qs: "retained_promise now q ps (if ?hit then (pr_begin ?p, pr_end ?p) else chosen) (?hit \<or> ret) = (qs, c, r)" "ps' = ?p # qs"
      using "2.prems" False by (auto simp: Let_def split: prod.splits)
    show ?thesis using "2.IH" [OF _ refl refl qs(1)] False qs(2) by auto
  qed
qed simp

lemma retained_promise_False:
  "retained_promise now q ps chosen ret = (ps', c, False) \<Longrightarrow> c = chosen \<and> \<not> ret"
proof (induction ps arbitrary: chosen ret ps')
  case (Cons p ps)
  show ?case
  proof (cases "snd chosen \<noteq> 0")
    case False
    let ?p = "if pr_used p \<and> now - pr_ts p > SEGMENT_PROMISE_TTL then p\<lparr>pr_used := False\<rparr> else p"
    let ?hit = "pr_used ?p \<and> pr_name ?p = ar_name q \<and> promise_matches q ?p"
    obtain qs where "retained_promise now q ps (if ?hit then (pr_begin ?p, pr_end ?p) else chosen) (?hit \<or> ret) = (qs, c, False)"
      using Cons.prems False by (auto simp: Let_def split: prod.splits)
    from Cons.IH [OF this] show ?thesis by (simp only: if_False de_Morgan_disj) simp
  qed (use Cons.prems in simp)
qed simp

lemma retained_promise_None:
  assumes "\<forall>p \<in> set ps. pr_used p \<longrightarrow> pr_name p \<noteq> ar_name q"
  shows "\<exists>ps'. retained_promise now q ps (0, 0) False = (ps', (0, 0), False)"
  using assms by (induction ps) (auto simp: Let_def split: prod.splits)

lemma replicas_cleared:
  assumes "list_all2 (\<lambda>p p'. p' = p \<or> p' = p\<lparr>pr_used := False\<rparr> \<and> now - pr_ts p > SEGMENT_PROMISE_TTL) ps ps'"
  shows "assign_replicas now stale q peers ps' rng = assign_replicas now stale q peers ps rng"
proof -
  let ?P = "\<lambda>p. \<not> (\<not> pr_used p \<or> now - pr_ts p > SEGMENT_PROMISE_TTL \<or> pr_name p = ar_name q \<or> \<not> promise_matches q p) \<and>
      (pr_begin p, pr_end p) = rng"
  have "length (filter ?P ps') = length (filter ?P ps)"
    using assms by (induction rule: list_all2_induct) auto
  then show ?thesis by (simp add: assign_replicas_def)
qed

lemma choose_spec:
  fixes now stale q peers promises
  defines "R \<equiv> \<lambda>p. assign_replicas now stale q peers promises (slice p)"
  assumes "assign_choose now stale q peers promises earlier ps best = best'"
  shows "ab_replicas best' \<le> ab_replicas best \<and>
    (best' = best \<or> (\<exists>p \<in> set ps. assign_origin now stale q p \<and> ab_slice best' = slice p \<and> ab_replicas best' = R p)) \<and>
    (\<forall>xs p ys. ps = xs @ p # ys \<longrightarrow> assign_origin now stale q p \<longrightarrow> \<not> assign_duplicate q (earlier @ xs) p \<longrightarrow> ab_replicas best' \<le> R p)"
  using assms(2)
proof (induction ps arbitrary: earlier best)
  case (Cons p ps)
  let ?new = "\<lparr>ab_replicas = R p, ab_load = assign_load (pe_segment p), ab_slice = slice p\<rparr>"
  let ?better = "R p < ab_replicas best \<or> R p = ab_replicas best \<and> assign_load (pe_segment p) < ab_load best \<or>
      R p = ab_replicas best \<and> assign_load (pe_segment p) = ab_load best \<and> fst (slice p) < fst (ab_slice best)"
  let ?in = "assign_origin now stale q p \<and> \<not> assign_duplicate q earlier p"
  define b where "b = (if ?in \<and> ?better then ?new else best)"
  have b: "assign_choose now stale q peers promises (earlier @ [p]) ps b = best'"
    using Cons.prems by (auto simp: b_def R_def Let_def split: if_splits)
  note IH = Cons.IH [OF b]
  have mono: "ab_replicas b \<le> ab_replicas best" "?in \<Longrightarrow> ab_replicas b \<le> R p"
    by (auto simp: b_def not_less intro: less_imp_le)
  have from_b: "b = best \<or> (assign_origin now stale q p \<and> ab_slice b = slice p \<and> ab_replicas b = R p)"
    by (auto simp: b_def)
  have c3: "ab_replicas best' \<le> R p'"
    if "p # ps = xs @ p' # ys" "assign_origin now stale q p'" "\<not> assign_duplicate q (earlier @ xs) p'" for xs p' ys
  proof (cases xs)
    case Nil
    then show ?thesis using that mono(2) IH by (auto intro: order_trans)
  next
    case (Cons x xs')
    then show ?thesis using that IH by auto
  qed
  have c1: "ab_replicas best' \<le> ab_replicas best" using IH mono(1) by (auto intro: order_trans)
  have c2: "best' = best \<or> (\<exists>x \<in> set (p # ps). assign_origin now stale q x \<and> ab_slice best' = slice x \<and> ab_replicas best' = R x)"
    using IH from_b by (metis list.set_intros(1) list.set_intros(2))
  show ?case using c1 c2 c3 by blast
qed simp


lemma assign_unfold:
  assumes "assign_request_decode body = Some q" "handle_segment_assign now body t = (t', AssignRange rng layers False)"
  obtains promises where
    "list_all2 (\<lambda>p p'. p' = p \<or> p' = p\<lparr>pr_used := False\<rparr> \<and> now - pr_ts p > SEGMENT_PROMISE_TTL) (tk_promises t) promises"
    "ab_slice (assign_choose now (tk_stale t) q (tk_peers t) promises [] (tk_peers t)
       \<lparr>ab_replicas = UINT32_MAX, ab_load = UINT32_MAX, ab_slice = (0, 0)\<rparr>) = rng" "snd rng \<noteq> 0"
    "tk_promises t' = promise_put now q rng promises"
proof -
  obtain c1 r1 where p1: "retained_peer now (tk_stale t) q (tk_peers t) (0, 0) = (c1, r1)" by (metis surj_pair)
  obtain ps c2 r2 where p2: "retained_promise now q (tk_promises t) c1 r1 = (ps, c2, r2)" by (metis prod_cases3)
  have r: "r2 = False" using assms p1 p2 by (auto simp: handle_segment_assign_def Let_def split: if_splits)
  have c: "c2 = (0, 0)" using retained_promise_False [OF p2 [unfolded r]] retained_peer_False p1 by auto
  have "ab_slice (assign_choose now (tk_stale t) q (tk_peers t) ps [] (tk_peers t)
       \<lparr>ab_replicas = UINT32_MAX, ab_load = UINT32_MAX, ab_slice = (0, 0)\<rparr>) = rng" "snd rng \<noteq> 0"
    "tk_promises t' = promise_put now q rng ps"
    using assms p1 p2 r c by (auto simp: handle_segment_assign_def Let_def split: if_splits)
  then show thesis using that retained_promise_clears [OF p2] by blast
qed

text \<open>A donor that neither serves the model nor holds a promise of it.\<close>

definition new_donor :: "int \<Rightarrow> assign_request \<Rightarrow> tracker \<Rightarrow> bool" where
  "new_donor now q t \<longleftrightarrow>
     \<not> (ar_model q = [] \<or> ar_name q = [] \<or> ar_engine q = [] \<or> fold (OR) (ar_root q) 0 = 0) \<and>
     (\<forall>p \<in> set (tk_peers t). peer_live now (tk_stale t) p \<longrightarrow> segment_matches q (pe_segment p) \<longrightarrow>
        c_str (av_peer_name (pe_segment p)) \<noteq> ar_name q) \<and>
     (\<forall>p \<in> set (tk_promises t). pr_used p \<longrightarrow> pr_name p \<noteq> ar_name q)"

lemma assign_fresh:
  assumes "assign_request_decode body = Some q" "new_donor now q t"
  obtains promises where
    "list_all2 (\<lambda>p p'. p' = p \<or> p' = p\<lparr>pr_used := False\<rparr> \<and> now - pr_ts p > SEGMENT_PROMISE_TTL) (tk_promises t) promises"
    "snd (handle_segment_assign now body t) =
      (let rng = ab_slice (assign_choose now (tk_stale t) q (tk_peers t) promises [] (tk_peers t)
                   \<lparr>ab_replicas = UINT32_MAX, ab_load = UINT32_MAX, ab_slice = (0, 0)\<rparr>);
           layers = assign_model_layers now (tk_stale t) q (tk_peers t)
       in if snd rng = 0 \<or> layers < snd rng then AssignNone else AssignRange rng layers False)"
proof -
  have ok: "(ar_model q = [] \<or> ar_name q = [] \<or> ar_engine q = [] \<or> fold (OR) (ar_root q) 0 = 0) = False"
    and peer: "\<forall>p \<in> set (tk_peers t). peer_live now (tk_stale t) p \<longrightarrow> segment_matches q (pe_segment p) \<longrightarrow>
        c_str (av_peer_name (pe_segment p)) \<noteq> ar_name q"
    and promise: "\<forall>p \<in> set (tk_promises t). pr_used p \<longrightarrow> pr_name p \<noteq> ar_name q"
    using assms(2) unfolding new_donor_def by simp_all
  obtain ps where ps: "retained_promise now q (tk_promises t) (0, 0) False = (ps, (0, 0), False)"
    using retained_promise_None [OF promise] by blast
  show thesis
  proof (rule that [OF retained_promise_clears [OF ps]])
    show "snd (handle_segment_assign now body t) =
      (let rng = ab_slice (assign_choose now (tk_stale t) q (tk_peers t) ps [] (tk_peers t)
                   \<lparr>ab_replicas = UINT32_MAX, ab_load = UINT32_MAX, ab_slice = (0, 0)\<rparr>);
           layers = assign_model_layers now (tk_stale t) q (tk_peers t)
       in if snd rng = 0 \<or> layers < snd rng then AssignNone else AssignRange rng layers False)"
      by (simp only: handle_segment_assign_def assms(1) ok retained_peer_None [OF peer] ps Let_def prod.case option.case if_False
          if_distrib [of snd] snd_conv)
  qed
qed

lemma choose_skip:
  "\<forall>xs p ys. ps = xs @ p # ys \<longrightarrow> assign_origin now stale q p \<longrightarrow> assign_duplicate q (earlier @ xs) p \<Longrightarrow>
   assign_choose now stale q peers promises earlier ps best = best"
proof (induction ps arbitrary: earlier)
  case (Cons p ps)
  have "assign_duplicate q (earlier @ [p] @ xs) x" if "ps = xs @ x # ys" "assign_origin now stale q x" for xs x ys
    using Cons.prems [rule_format, of "p # xs" x ys] that by simp
  then have "assign_choose now stale q peers promises (earlier @ [p]) ps best = best" by (intro Cons.IH) simp
  moreover have "\<not> assign_origin now stale q p \<or> assign_duplicate q earlier p"
    using Cons.prems [rule_format, of "[]" p ps] by auto
  ultimately show ?case by simp
qed simp

section \<open>A concrete request\<close>

definition ex_assign_body :: bytes where
  "ex_assign_body = lmb_put32 LMB_SEG_ASSIGN_MAGIC @ lmb_put32 LMB_SEG_ASSIGN_VERSION @
     [1, 0, 109] @ [1, 0, 100] @ [1, 0, 97] @ replicate LMB_SEG_ROOT_BYTES 1"

definition ex_assign :: assign_request where
  "ex_assign = \<lparr>ar_model = [109], ar_name = [100], ar_engine = [97], ar_root = replicate LMB_SEG_ROOT_BYTES 1\<rparr>"

lemma ex_assign_decode: "assign_request_decode ex_assign_body = Some ex_assign"
  by code_simp

text \<open>An origin of the layers 0 to 4, last seen at the given time.\<close>

definition ex_origin :: "int \<Rightarrow> Peer" where
  "ex_origin ts = (peer_zero True)\<lparr>pe_used := True, pe_has_segment := True, pe_segment_live := True, pe_segment_ts := ts,
     pe_segment := ex_advert\<lparr>av_flags := LMB_SEG_ADVERT_FALLBACK\<rparr>\<rparr>"

definition ex_origins :: "int list \<Rightarrow> tracker" where
  "ex_origins ts = ex_registry\<lparr>tk_peers := map ex_origin ts @ replicate (MAX_PEERS - length ts) (peer_zero True)\<rparr>"

lemma ex_origin_facts:
  "assign_origin 40000000000 30000000000 ex_assign (ex_origin ts) \<longleftrightarrow> ts \<ge> 10000000000"
  "\<not> assign_origin now stale ex_assign (peer_zero b)" "slice (ex_origin ts) = (0, 4)"
  "segment_matches ex_assign (pe_segment (ex_origin ts))" "c_str (av_peer_name (pe_segment (ex_origin ts))) = [112]"
  "pe_used (ex_origin ts)" "pe_has_segment (ex_origin ts)" "pe_segment_live (ex_origin ts)"
  "av_flags (pe_segment (ex_origin ts)) AND LMB_SEG_ADVERT_FALLBACK \<noteq> 0"
  "\<not> peer_live now stale (peer_zero b)"
  by (simp_all add: assign_origin_def ex_origin_def peer_zero_def segment_matches_def ex_assign_def ex_advert_def ex_live [unfolded peer_zero_def] not_less)

lemma ex_new_donor: "new_donor 40000000000 ex_assign (ex_origins ts)"
proof -
  have "fold (OR) (ar_root ex_assign) 0 \<noteq> 0" by code_simp
  then show ?thesis
    unfolding new_donor_def by (auto simp: ex_origins_def ex_registry_def ex_origin_facts promise_zero_def) (auto simp: ex_assign_def)
qed


lemma idle: "((\<lambda>x. x) ^^ n) l = l"
  by (induction n) simp_all

lemma ex_assign_answer: "snd (handle_segment_assign 40000000000 ex_assign_body (ex_origins [30000000000])) = AssignRange (0, 4) 4 False"
proof -
  let ?t = "ex_origins [30000000000]" and ?o = "ex_origin 30000000000" and ?z = "replicate 63 (peer_zero True)"
  have t: "tk_peers ?t = ?o # ?z" "tk_stale ?t = 30000000000" "tk_promises ?t = replicate MAX_SEGMENT_PROMISES promise_zero"
    by (simp_all add: ex_origins_def ex_registry_def)
  obtain ps where
    ps: "list_all2 (\<lambda>p p'. p' = p \<or> p' = p\<lparr>pr_used := False\<rparr> \<and> 40000000000 - pr_ts p > SEGMENT_PROMISE_TTL) (tk_promises ?t) ps" and
    ans: "snd (handle_segment_assign 40000000000 ex_assign_body ?t) =
      (let rng = ab_slice (assign_choose 40000000000 30000000000 ex_assign (?o # ?z) ps [] (?o # ?z)
                   \<lparr>ab_replicas = UINT32_MAX, ab_load = UINT32_MAX, ab_slice = (0, 0)\<rparr>);
           layers = assign_model_layers 40000000000 30000000000 ex_assign (?o # ?z)
       in if snd rng = 0 \<or> layers < snd rng then AssignNone else AssignRange rng layers False)"
    using assign_fresh [OF ex_assign_decode ex_new_donor, of "[30000000000]"] unfolding t by blast
  have "assign_replicas 40000000000 30000000000 ex_assign (?o # ?z) ps (0, 4) = 0"
    unfolding replicas_cleared [OF ps] t
    by (simp add: assign_replicas_def peer_zero_def promise_zero_def) (simp add: ex_origin_def)
  moreover have "assign_choose 40000000000 30000000000 ex_assign (?o # ?z) ps [?o] ?z b = b" for b
    by (rule choose_skip) (auto simp: ex_origin_facts dest!: arg_cong [where f = set])
  moreover have "0 < UINT32_MAX" by code_simp
  moreover have "\<not> assign_duplicate ex_assign [] ?o" by (simp add: assign_duplicate_def)
  ultimately have c: "ab_slice (assign_choose 40000000000 30000000000 ex_assign (?o # ?z) ps [] (?o # ?z)
      \<lparr>ab_replicas = UINT32_MAX, ab_load = UINT32_MAX, ab_slice = (0, 0)\<rparr>) = (0, 4)"
    by (simp add: ex_origin_facts)
  have "fold (\<lambda>p layers. if peer_live 40000000000 30000000000 p \<and> P p \<and> Q p \<and> R p layers then F p else layers) ?z l = l" for P Q R F l
    by (simp add: ex_origin_facts idle)
  then have "assign_model_layers 40000000000 30000000000 ex_assign (?o # ?z) = 4"
    by (simp add: assign_model_layers_def) (simp add: ex_origin_def peer_live_def ex_advert_def segment_matches_def ex_assign_def)
  then show ?thesis unfolding ans Let_def c by simp
qed

section \<open>Properties\<close>

text \<open>C6: a donor that asks for the first time is given the exact range of a live origin, and, unless an origin that
  is stale or draining is still listed, no live origin of the model has a range with fewer replicas, promises to
  other donors included.\<close>

theorem assign_least_replicated:
  assumes "assign_request_decode body = Some q" "handle_segment_assign now body t = (t', AssignRange rng layers False)"
  shows "(\<exists>p \<in> set (tk_peers t). assign_origin now (tk_stale t) q p \<and> slice p = rng) \<and>
    ((\<forall>p \<in> set (tk_peers t). pe_used p \<and> pe_has_segment p \<and> pe_segment_live p \<and> segment_matches q (pe_segment p) \<and>
        av_flags (pe_segment p) AND LMB_SEG_ADVERT_FALLBACK \<noteq> 0 \<longrightarrow> assign_origin now (tk_stale t) q p) \<longrightarrow>
     (\<forall>p \<in> set (tk_peers t). assign_origin now (tk_stale t) q p \<longrightarrow>
        assign_replicas now (tk_stale t) q (tk_peers t) (tk_promises t) rng \<le>
        assign_replicas now (tk_stale t) q (tk_peers t) (tk_promises t) (slice p)))"
  using assms
proof (rule assign_unfold)
  fix promises
  let ?O = "assign_origin now (tk_stale t) q" and ?P = "tk_peers t"
  let ?start = "\<lparr>ab_replicas = UINT32_MAX, ab_load = UINT32_MAX, ab_slice = (0, 0)\<rparr>"
  let ?b = "assign_choose now (tk_stale t) q ?P promises [] ?P ?start"
  assume cl: "list_all2 (\<lambda>p p'. p' = p \<or> p' = p\<lparr>pr_used := False\<rparr> \<and> now - pr_ts p > SEGMENT_PROMISE_TTL) (tk_promises t) promises"
    and rng: "ab_slice ?b = rng" "snd rng \<noteq> 0"
  note R = replicas_cleared [OF cl, of "tk_stale t" q ?P]
  note spec = choose_spec [where best' = ?b, OF refl, unfolded R]
  have "?b \<noteq> ?start"
  proof
    assume "?b = ?start"
    then have "ab_slice ?b = ab_slice ?start" by (rule arg_cong)
    with rng(1) have "rng = ab_slice ?start" by (rule trans [OF sym])
    then show False using rng(2) by simp
  qed
  then obtain p where p: "p \<in> set ?P" "?O p" "slice p = rng"
      "ab_replicas ?b = assign_replicas now (tk_stale t) q ?P (tk_promises t) rng"
    using spec rng(1) by metis
  have "assign_replicas now (tk_stale t) q ?P (tk_promises t) rng \<le> assign_replicas now (tk_stale t) q ?P (tk_promises t) (slice x)"
    if all: "\<forall>p \<in> set ?P. pe_used p \<and> pe_has_segment p \<and> pe_segment_live p \<and> segment_matches q (pe_segment p) \<and>
        av_flags (pe_segment p) AND LMB_SEG_ADVERT_FALLBACK \<noteq> 0 \<longrightarrow> ?O p" and x: "x \<in> set ?P" "?O x" for x
  proof -
    obtain xs y ys where s: "?P = xs @ y # ys" "?O y" "slice y = slice x" "\<forall>z \<in> set xs. \<not> (?O z \<and> slice z = slice x)"
      using split_list_first_prop [of ?P "\<lambda>z. ?O z \<and> slice z = slice x"] x by auto
    have "\<not> assign_duplicate q xs y"
      using s all by (auto simp: assign_duplicate_def list_ex_iff)
    then have "ab_replicas ?b \<le> assign_replicas now (tk_stale t) q ?P (tk_promises t) (slice y)"
      using spec s(1,2) by simp
    then show ?thesis using p(4) s(3) by simp
  qed
  then show ?thesis using p by blast
qed


lemma assign_least_replicated_witness:
  "\<exists>p \<in> set (tk_peers (ex_origins [30000000000])). assign_origin 40000000000 (tk_stale (ex_origins [30000000000])) ex_assign p \<and> slice p = (0, 4)"
proof -
  obtain t' where "handle_segment_assign 40000000000 ex_assign_body (ex_origins [30000000000]) = (t', AssignRange (0, 4) 4 False)"
    using ex_assign_answer by (metis prod.collapse)
  from assign_least_replicated [OF ex_assign_decode this] show ?thesis by blast
qed

text \<open>C35: a fallback origin that stopped answering, or is draining, hides a live one. Whether an earlier origin with the
  same range is still alive is not asked when duplicates are skipped, so while no route query has marked it, a
  new donor is told that there is no origin although a live origin serves the range.\<close>

theorem assign_hidden_origin:
  assumes "assign_request_decode body = Some q" "new_donor now q t"
    "tk_peers t = xs @ live # ys" "assign_origin now (tk_stale t) q live"
    "\<forall>p \<in> set xs \<union> set ys. \<not> assign_origin now (tk_stale t) q p"
    "old \<in> set xs" "pe_used old" "pe_has_segment old" "pe_segment_live old" "segment_matches q (pe_segment old)"
    "av_flags (pe_segment old) AND LMB_SEG_ADVERT_FALLBACK \<noteq> 0" "slice old = slice live"
  shows "snd (handle_segment_assign now body t) = AssignNone"
proof -
  have "assign_duplicate q ([] @ as) p" if "tk_peers t = as @ p # bs" "assign_origin now (tk_stale t) q p" for as p bs
  proof -
    have no: "p \<notin> set xs" "p \<notin> set ys" using assms(5) that(2) by auto
    have "as = xs \<and> p = live"
    proof -
      have "xs @ live # ys = as @ p # bs" using assms(3) that(1) by simp
      then obtain us where "xs = as @ us \<and> us @ live # ys = p # bs \<or> xs @ us = as \<and> live # ys = us @ p # bs"
        by (auto simp: append_eq_append_conv2)
      then show ?thesis using no by (cases us) auto
    qed
    then show ?thesis using assms(6-12) by (auto simp: assign_duplicate_def list_ex_iff)
  qed
  then have "assign_choose now (tk_stale t) q (tk_peers t) ps [] (tk_peers t) b = b" for ps b
    by (intro choose_skip) blast
  then have none: "assign_choose now (tk_stale t) q (tk_peers t) ps [] (tk_peers t) b = b" for ps b .
  show ?thesis by (rule assign_fresh [OF assms(1,2)]) (simp add: none Let_def)
qed


lemma assign_hidden_origin_witness:
  "snd (handle_segment_assign 40000000000 ex_assign_body (ex_origins [0, 30000000000])) = AssignNone \<and>
   snd (handle_segment_assign 40000000000 ex_assign_body (ex_origins [30000000000])) = AssignRange (0, 4) 4 False"
proof -
  let ?t = "ex_origins [0, 30000000000]"
  have t: "tk_peers ?t = [ex_origin 0] @ ex_origin 30000000000 # replicate 62 (peer_zero True)" "tk_stale ?t = 30000000000"
    by (simp_all add: ex_origins_def ex_registry_def)
  have "snd (handle_segment_assign 40000000000 ex_assign_body ?t) = AssignNone"
    by (rule assign_hidden_origin [OF ex_assign_decode ex_new_donor t(1), of "ex_origin 0"])
      (simp_all add: t(2) ex_origin_facts)
  then show ?thesis using ex_assign_answer by simp
qed

end
