(* ===== verification/Tracker_Generation.thy ===== *)
theory Tracker_Generation
  imports Tracker_Registry
begin

text \<open>
  The durable half of the route generation (\<^verbatim>\<open>segment_generation_init\<close> of \<^verbatim>\<open>src/tracker.c\<close>): every process reserves
  the next number of a counter file before it grants a lease.
\<close>

section \<open>Decimal numbers\<close>

lemma decimal_digit:
  assumes "m < 10"
  shows "c_digit (48 + of_nat m :: u8)" "unat ((48 + of_nat m :: u8) - 48) = m" "\<not> c_space (48 + of_nat m :: u8)"
    "(48 + of_nat m :: u8) \<noteq> 45" "(48 + of_nat m :: u8) \<noteq> 43" "(48 + of_nat m :: u8) \<noteq> 0"
proof -
  have "m \<in> set [0..<10]" using assms by simp
  moreover have "\<forall>m \<in> set [0..<10]. c_digit (48 + of_nat m :: u8) \<and> unat ((48 + of_nat m :: u8) - 48) = m \<and>
      \<not> c_space (48 + of_nat m :: u8) \<and> (48 + of_nat m :: u8) \<noteq> 45 \<and> (48 + of_nat m :: u8) \<noteq> 43 \<and> (48 + of_nat m :: u8) \<noteq> 0"
    by code_simp
  ultimately show "c_digit (48 + of_nat m :: u8)" "unat ((48 + of_nat m :: u8) - 48) = m" "\<not> c_space (48 + of_nat m :: u8)"
    "(48 + of_nat m :: u8) \<noteq> 45" "(48 + of_nat m :: u8) \<noteq> 43" "(48 + of_nat m :: u8) \<noteq> 0" by blast+
qed

lemma decimal_text_props:
  "decimal_value (decimal_text n) = n \<and> list_all (\<lambda>b. c_digit b \<and> b \<noteq> 0 \<and> \<not> c_space b \<and> b \<noteq> 45 \<and> b \<noteq> 43) (decimal_text n) \<and> decimal_text n \<noteq> []"
proof (induction n rule: decimal_text.induct)
  case (1 n)
  show ?case
  proof (cases "n < 10")
    case True
    then show ?thesis using decimal_digit [OF True] by (subst (1 2 3) decimal_text.simps) (simp add: decimal_value_def)
  next
    case False
    have m: "n mod 10 < 10" by simp
    show ?thesis using 1 [OF False] decimal_digit [OF m] False
      by (subst (1 2 3) decimal_text.simps) (simp add: decimal_value_def)
  qed
qed

lemma decimal_text_length: "n < 10 ^ Suc k \<Longrightarrow> length (decimal_text n) \<le> Suc k"
proof (induction k arbitrary: n)
  case 0
  then show ?case by (subst decimal_text.simps) simp
next
  case (Suc k)
  show ?case
  proof (cases "n < 10")
    case False
    have "n div 10 < 10 ^ Suc k" using Suc.prems by (simp add: less_mult_imp_div_less)
    then show ?thesis using Suc.IH [of "n div 10"] False by (subst decimal_text.simps) simp
  qed (subst decimal_text.simps, simp)
qed

lemma strtoull_decimal:
  assumes "n < 2 ^ 64" "rest = [] \<or> \<not> c_digit (hd rest)"
  shows "strtoull_10 (decimal_text n @ rest) = Some (of_nat n, rest)"
proof -
  note P = decimal_text_props [of n]
  have d: "\<forall>b \<in> set (decimal_text n). c_digit b" "decimal_text n \<noteq> []" using P by (auto simp: list_all_iff)
  then have t: "takeWhile c_digit (decimal_text n @ rest) = decimal_text n"
    using assms(2) by (cases rest) (auto simp: takeWhile_append)
  have h: "\<not> c_space (hd (decimal_text n @ rest))" "hd (decimal_text n @ rest) \<noteq> 45" "hd (decimal_text n @ rest) \<noteq> 43"
    using P by (auto simp: list_all_iff)
  have "dropWhile c_space (decimal_text n @ rest) = decimal_text n @ rest"
    using h(1) d(2) by (cases "decimal_text n") auto
  moreover have "n \<le> unat UINT64_MAX" using assms(1) by simp
  ultimately show ?thesis
    using h(2,3) d(2) t P by (simp add: strtoull_10_def Let_def)
qed


section \<open>One boot\<close>

text \<open>The file holds a number: its digits, a line break, and anything behind it.\<close>

definition holds_number :: "bytes option \<Rightarrow> nat \<Rightarrow> bool" where
  "holds_number file n \<longleftrightarrow> n < 2 ^ 32 \<and> (\<exists>rest. file = Some (decimal_text n @ 10 # rest))"

lemma number_parses:
  assumes "holds_number (Some old) n"
  shows "\<exists>rest. strtoull_10 (c_str (take 63 old)) = Some (of_nat n, rest)" "take 63 old \<noteq> []"
proof -
  obtain rest where n: "n < 2 ^ 32" and old: "old = decimal_text n @ 10 # rest" using assms by (auto simp: holds_number_def)
  have l: "length (decimal_text n) \<le> 10" using decimal_text_length [of n 9] n by simp
  have z: "\<forall>b \<in> set (decimal_text n). b \<noteq> 0" using decimal_text_props [of n] by (auto simp: list_all_iff)
  have "take 63 old = decimal_text n @ 10 # take (62 - length (decimal_text n)) rest"
    using l by (simp add: old take_Cons')
  then have c: "c_str (take 63 old) = decimal_text n @ 10 # c_str (take (62 - length (decimal_text n)) rest)"
    using z by (simp add: c_str_def takeWhile_append)
  have "\<not> c_digit 10" by code_simp
  then show "\<exists>rest. strtoull_10 (c_str (take 63 old)) = Some (of_nat n, rest)"
    unfolding c using strtoull_decimal [of n "10 # c_str (take (62 - length (decimal_text n)) rest)"] n by auto
  show "take 63 old \<noteq> []" using old by simp
qed

lemma generation_word:
  assumes "0 < e" "e < 2 ^ 32"
  shows "unat (push_bit 32 (of_nat e) OR 1 :: u64) = e * 2 ^ 32 + 1"
proof -
  have "push_bit 32 (of_nat e) OR 1 = (push_bit 32 (of_nat e) + 1 :: u64)"
  proof (rule disjunctive_add [symmetric])
    fix k
    show "\<not> bit (push_bit 32 (of_nat e) :: u64) k \<or> \<not> bit (1 :: u64) k" by (auto simp: bit_simps)
  qed
  moreover have "unat (push_bit 32 (of_nat e) :: u64) = e * 2 ^ 32"
    using assms by (simp add: push_bit_eq_mult unat_word_ariths unat_of_nat take_bit_eq_mod)
  moreover have "e * 2 ^ 32 + 1 < 2 ^ 64" using assms by simp
  ultimately show ?thesis by (simp add: unat_word_ariths)
qed

text \<open>The new counter reaches the file as a whole or not at all.\<close>

definition whole_write :: "generation_io \<Rightarrow> bool" where
  "whole_write io \<longleftrightarrow> gi_written io = 0 \<or> gi_written io \<ge> 11"

lemma init_cases:
  assumes "segment_generation_init io file = (file', res)" "whole_write io"
  obtains (unchanged) "res = None" "file' = file \<or> file = None \<and> file' = Some []"
  | (reserved) e where "0 < e" "holds_number file' e" "res = None \<or> res = Some (push_bit 32 (of_nat e) OR 1)"
      "\<And>n. holds_number file n \<Longrightarrow> e = n + 1"
proof (cases "gi_open io")
  case False
  then show thesis using unchanged assms(1) by (simp add: segment_generation_init_def)
next
  case True
  define old where "old = (case file of None \<Rightarrow> [] | Some b \<Rightarrow> b)"
  define parsed :: "u64 option" where "parsed = (if \<not> gi_read io \<or> length (take 63 old) = 63 then None
      else if take 63 old = [] then Some 0
      else case strtoull_10 (c_str (take 63 old)) of None \<Rightarrow> None
           | Some (previous, rest) \<Rightarrow>
               if rest \<noteq> [] \<and> hd rest \<noteq> 10 \<or> previous \<ge> ucast UINT32_MAX then None else Some previous)"
  have run: "(case parsed of None \<Rightarrow> (Some old, None)
      | Some previous \<Rightarrow>
          let epoch = ucast previous + 1 :: u32; text = decimal_text (unat epoch) @ [10];
              written = min (gi_written io) (length text); file = Some (take written text @ drop written old)
          in if written < length text \<or> \<not> gi_flush io then (file, None) else (file, Some (push_bit 32 (ucast epoch) OR 1))) = (file', res)"
    using assms(1) True unfolding segment_generation_init_def old_def [symmetric] parsed_def by (simp add: Let_def)
  have same: "Some old = file \<or> file = None \<and> Some old = Some []" by (simp add: old_def split: option.split)
  show thesis
  proof (cases parsed)
    case None
    then show thesis using unchanged run same by auto
  next
    case (Some previous)
    have "(0 :: u64) < ucast UINT32_MAX" by code_simp
    then have lt: "previous < ucast UINT32_MAX" using Some by (auto simp: parsed_def not_le split: if_splits option.splits)
    let ?epoch = "ucast previous + 1 :: u32"
    let ?e = "unat previous + 1"
    have "(ucast UINT32_MAX :: u64) = 0xFFFFFFFF" by code_simp
    then have "unat (ucast UINT32_MAX :: u64) = 2 ^ 32 - 1" by simp
    then have p: "unat previous < 2 ^ 32 - 1" using lt by (simp add: word_less_nat_alt)
    have "unat (ucast previous :: u32) = unat previous mod 2 ^ 32" by (simp add: unsigned_ucast_eq take_bit_eq_mod)
    also have "\<dots> = unat previous" using p by (intro mod_less) linarith
    finally have "unat (ucast previous :: u32) = unat previous" .
    then have e: "unat ?epoch = ?e" using p by (simp add: unat_word_ariths)
    have small: "length (decimal_text ?e @ [10 :: u8]) \<le> 11" using decimal_text_length [of ?e 9] p by simp
    have num: "e = n + 1" if "holds_number file n" "e = ?e" for n e
    proof -
      have stored: "holds_number (Some old) n" using that(1) by (auto simp: old_def holds_number_def)
      then obtain rest where "strtoull_10 (c_str (take 63 old)) = Some (of_nat n, rest)" using number_parses by blast
      then have "previous = of_nat n" using Some number_parses(2) [OF stored] by (auto simp: parsed_def split: if_splits)
      moreover have "n < 2 ^ 64" using stored by (simp add: holds_number_def)
      ultimately show ?thesis using that(2) by (simp add: unat_of_nat take_bit_nat_eq_self)
    qed
    show thesis
    proof (cases "gi_written io = 0")
      case True
      then show thesis using unchanged run Some same by (auto simp: Let_def)
    next
      case False
      then have w: "gi_written io \<ge> length (decimal_text ?e @ [10 :: u8])" using assms(2) small by (simp add: whole_write_def)
      let ?f = "Some (decimal_text ?e @ 10 # drop (Suc (length (decimal_text ?e))) old)"
      have r: "file' = ?f \<and> (res = None \<or> res = Some (push_bit 32 (of_nat ?e) OR 1))"
      proof -
        have ge: "ucast ?epoch = (of_nat ?e :: u64)" by (metis e of_nat_unat)
        show ?thesis using run Some w e ge by (simp add: Let_def split: if_splits)
      qed
      have "holds_number file' ?e" using r p by (auto simp: holds_number_def)
      then show thesis using reserved [of ?e] r num by auto
    qed
  qed
qed


section \<open>All boots\<close>

text \<open>The generations that were in force, newest first: of this process and of all before it.\<close>

inductive generation_runs :: "bytes option \<Rightarrow> u64 list \<Rightarrow> bool" where
  fresh: "generation_runs file []"
| boot: "\<lbrakk>generation_runs file G; whole_write io; segment_generation_init io file = (file', Some g)\<rbrakk> \<Longrightarrow> generation_runs file' (g # G)"
| refused: "\<lbrakk>generation_runs file G; whole_write io; segment_generation_init io file = (file', None)\<rbrakk> \<Longrightarrow> generation_runs file' G"
| bump: "\<lbrakk>generation_runs file (g # G); segment_generation_bump g = Some g'\<rbrakk> \<Longrightarrow> generation_runs file (g' # g # G)"

lemma runs_ordered:
  assumes "generation_runs file G"
  shows "sorted_wrt (>) G \<and> (G \<noteq> [] \<longrightarrow> (\<exists>n. holds_number file n \<and> unat (hd G) div 2 ^ 32 \<le> n))"
  using assms
proof induction
  case (boot f G io f' g)
  from boot.hyps(3,2) show ?case
  proof (cases rule: init_cases)
    case (reserved e)
    have e: "e < 2 ^ 32" using reserved(2) by (simp add: holds_number_def)
    have g: "unat g = e * 2 ^ 32 + 1" using reserved generation_word [OF reserved(1) e] by simp
    have "h < g" if "h \<in> set G" for h
    proof -
      have "G \<noteq> []" using that by auto
      then obtain n where n: "holds_number f n" "unat (hd G) div 2 ^ 32 \<le> n" using boot.IH by blast
      have "unat (hd G) < (n + 1) * 2 ^ 32" using n(2) by (simp add: div_less_iff_less_mult less_Suc_eq_le [symmetric])
      moreover have "h \<le> hd G" using that boot.IH \<open>G \<noteq> []\<close> by (cases G) auto
      ultimately show ?thesis using reserved(4) [OF n(1)] g by (simp add: word_less_nat_alt word_le_nat_alt)
    qed
    moreover have "unat g div 2 ^ 32 = e" by (simp add: g)
    ultimately show ?thesis using boot.IH reserved(2) by auto
  qed simp
next
  case (refused f G io f')
  from refused.hyps(3,2) show ?case
  proof (cases rule: init_cases)
    case unchanged
    then show ?thesis using refused.IH by (auto simp: holds_number_def)
  next
    case (reserved e)
    then show ?thesis using refused.IH by fastforce
  qed
next
  case (bump f g G g')
  have "unat g' div 2 ^ 32 = unat g div 2 ^ 32"
    using low_half_bump(3) [OF bump.hyps(2)] by (simp add: drop_bit_eq_div unat_div word_unat_eq_iff)
  moreover have "g < g'" by (rule low_half_bump(1) [OF bump.hyps(2)])
  ultimately show ?case using bump.IH by auto
qed simp

text \<open>C5: a restarted tracker never publishes an old generation. If the counter reaches its file as a whole or not at
  all, the generations of all processes that ever ran on the file are strictly increasing in the order they were
  in force, through refused starts, failing flushes and damaged files.\<close>

theorem generation_never_reused:
  assumes "generation_runs file G"
  shows "sorted_wrt (>) G"
  using runs_ordered [OF assms] by blast

lemma generation_never_reused_witness:
  "sorted_wrt (>) [0xA00000001 :: u64, 0x900000002, 0x900000001]"
proof -
  let ?io = "\<lparr>gi_open = True, gi_read = True, gi_written = 64, gi_flush = True\<rparr>"
  have w: "whole_write ?io" by (simp add: whole_write_def)
  have d: "decimal_text 8 = [56]" "decimal_text 9 = [57]" "decimal_text 10 = [49, 48]"
    by (simp_all add: decimal_text.simps)
  have "\<not> c_digit 10" by code_simp
  then have p: "strtoull_10 [56, 10] = Some (8, [10])" "strtoull_10 [57, 10] = Some (9, [10])"
    using strtoull_decimal [of 8 "[10]"] strtoull_decimal [of 9 "[10]"] d by simp_all
  have "c_str [56, 10] = [56, 10]" "c_str [57, 10] = [57, 10]" "\<not> ucast UINT32_MAX \<le> (8 :: u64)" "\<not> ucast UINT32_MAX \<le> (9 :: u64)"
    "(push_bit 32 9 OR 1 :: u64) = 0x900000001" "(push_bit 32 10 OR 1 :: u64) = 0xA00000001"
    by code_simp+
  with d p have "segment_generation_init ?io (Some [56, 10]) = (Some [57, 10], Some 0x900000001)"
    "segment_generation_init ?io (Some [57, 10]) = (Some [49, 48, 10], Some 0xA00000001)"
    by (simp_all add: segment_generation_init_def Let_def)
  moreover have "segment_generation_bump 0x900000001 = Some 0x900000002" by code_simp
  ultimately have "generation_runs (Some [49, 48, 10]) [0xA00000001, 0x900000002, 0x900000001]"
    using generation_runs.fresh generation_runs.boot [OF _ w] generation_runs.bump by metis
  from generation_never_reused [OF this] show ?thesis .
qed

end
