(* ===== verification/Journal_Pages.thy ===== *)
theory Journal_Pages
  imports Journal
begin

text \<open>
  The journal as a whole: which keys a journal built by writing holds, the invariant of the flat directory
  and the tree, and the listing of pages over both.
\<close>

section \<open>The journal as a set of keys\<close>

definition journal_empty :: journal where
  "journal_empty = \<lparr>jr_private = True, jr_flat = [], jr_history = Missing\<rparr>"

text \<open>The journals that writing produces, with the keys written so far. A write may fail while it selects a
  place, after that, or not at all.\<close>

inductive journal_holds :: "journal \<Rightarrow> bytes set \<Rightarrow> bool" where
  start: "journal_holds journal_empty {}"
| failed: "journal_holds j K \<Longrightarrow> lmb_journal_select readable mk j name suffix limit = (j', r) \<Longrightarrow> journal_holds j' K"
| written: "journal_holds j K \<Longrightarrow> lmb_journal_select readable mk j name suffix limit = (j', Inr p) \<Longrightarrow>
    journal_holds (journal_put j' name p b) (insert name K)"

abbreviation flat_names :: "journal \<Rightarrow> bytes list" where
  "flat_names j \<equiv> map fst (jr_flat j)"

abbreviation own_bucket :: "journal \<Rightarrow> bytes \<Rightarrow> bytes list" where
  "own_bucket j n \<equiv> bucket_names j (first_part n) (second_part n)"

lemma journal_history_names:
  "lmb_journal_history j n = Inr l \<Longrightarrow> own_bucket j n = map fst l"
  "lmb_journal_history j n = Inl J_NOENT \<Longrightarrow> own_bucket j n = []"
  by (auto simp: lmb_journal_history_def bucket_names_def child_listing_def split: sum.splits child.splits
      elim!: lmb_journal_child.elims)

lemma location_names:
  "lmb_journal_location j n = Inl J_NOENT \<Longrightarrow> n \<notin> set (flat_names j) \<and> n \<notin> set (own_bucket j n)"
  "lmb_journal_location j n = Inr JFlat \<Longrightarrow> n \<in> set (flat_names j)"
  "lmb_journal_location j n = Inr JBucket \<Longrightarrow> n \<notin> set (flat_names j)"
proof -
  assume a: "lmb_journal_location j n = Inl J_NOENT"
  then have f: "map_of (jr_flat j) n = None" by (rule journal_location_cases(3) [THEN conjunct2, THEN conjunct2])
  have "n \<notin> set (own_bucket j n)"
  proof (cases "lmb_journal_history j n")
    case (Inl e)
    then have "e = J_NOENT" using a f by (simp add: lmb_journal_location_def split: if_splits)
    then have "own_bucket j n = []" using Inl journal_history_names(2) by blast
    then show ?thesis by simp
  next
    case (Inr l)
    then have "map_of l n = None" using a f by (simp add: lmb_journal_location_def split: if_splits)
    then have "n \<notin> set (map fst l)" unfolding set_map map_of_eq_None_iff .
    then show ?thesis unfolding journal_history_names(1) [OF Inr] .
  qed
  then show "n \<notin> set (flat_names j) \<and> n \<notin> set (own_bucket j n)" using f unfolding set_map map_of_eq_None_iff by blast
next
  assume "lmb_journal_location j n = Inr JFlat"
  from journal_location_cases(1) [OF this] show "n \<in> set (flat_names j)"
    unfolding set_map map_of_eq_None_iff by blast
next
  assume "lmb_journal_location j n = Inr JBucket"
  from journal_location_cases(2) [OF this] show "n \<notin> set (flat_names j)"
    unfolding set_map map_of_eq_None_iff by blast
qed

lemma history_create_names:
  assumes "history_create mk j name = (j', r)"
  shows "bucket_names j' a b = bucket_names j a b"
  using assms
  by (auto simp: history_create_def bucket_names_def child_listing_def split: child.splits if_splits
      elim!: child_make.elims)

fun level_safe :: "('a \<Rightarrow> bool) \<Rightarrow> 'a child \<Rightarrow> bool" where
  "level_safe P Missing = True"
| "level_safe P Unsafe = False"
| "level_safe P (Dir d) = P d"

definition tree_safe :: "journal \<Rightarrow> bool" where
  "tree_safe j \<longleftrightarrow> jr_private j \<and>
     level_safe (\<lambda>f. \<forall>a. level_safe (\<lambda>s. \<forall>b. level_safe (\<lambda>_. True) (s b)) (f a)) (jr_history j)"

lemma tree_safe_dir:
  "tree_safe j \<Longrightarrow> jr_history j = Dir f \<Longrightarrow> f a = Dir s \<Longrightarrow> level_safe (\<lambda>_. True) (s b)"
  "tree_safe j \<Longrightarrow> jr_history j = Dir f \<Longrightarrow> level_safe (\<lambda>s. \<forall>b. level_safe (\<lambda>_. True) (s b)) (f a)"
  unfolding tree_safe_def by (metis level_safe.simps(3))+

lemma history_create_safe:
  assumes "history_create mk j name = (j', r)" "tree_safe j"
  shows "tree_safe j'"
proof -
  have p: "jr_private j" using assms(2) by (simp add: tree_safe_def)
  show ?thesis
    using p assms(1) tree_safe_dir [OF assms(2)] assms(2) unfolding history_create_def
    by (auto simp: tree_safe_def split: child.splits if_splits elim!: child_make.elims)
qed

definition journal_inv :: "journal \<Rightarrow> bytes set \<Rightarrow> bool" where
  "journal_inv j K \<longleftrightarrow> tree_safe j \<and> distinct (flat_names j) \<and>
     (\<forall>a b. distinct (bucket_names j a b)) \<and>
     (\<forall>a b. \<forall>n \<in> set (bucket_names j a b). a = first_part n \<and> b = second_part n \<and> n \<notin> set (flat_names j)) \<and>
     (\<forall>n. n \<in> K \<longleftrightarrow> n \<in> set (flat_names j) \<or> n \<in> set (own_bucket j n)) \<and> (\<forall>n \<in> K. lmb_journal_name_valid n)"

lemma journal_put_names:
  assumes "lmb_journal_history j name = Inr l"
  shows "bucket_names (journal_put j name JBucket x) a b =
      (if a = first_part name \<and> b = second_part name then map fst (AList.update name (JFile x) l) else bucket_names j a b)"
    "jr_flat (journal_put j name JBucket x) = jr_flat j" "tree_safe j \<Longrightarrow> tree_safe (journal_put j name JBucket x)"
proof -
  from assms obtain f s where h: "jr_history j = Dir f" "f (first_part name) = Dir s" "s (second_part name) = Dir l"
    unfolding lmb_journal_history_def
    by (auto split: sum.splits elim!: lmb_journal_child.elims)
  show "bucket_names (journal_put j name JBucket x) a b =
      (if a = first_part name \<and> b = second_part name then map fst (AList.update name (JFile x) l) else bucket_names j a b)"
    "jr_flat (journal_put j name JBucket x) = jr_flat j"
    by (auto simp: journal_put.simps(2) h bucket_names_def child_listing_def)
  show "tree_safe (journal_put j name JBucket x)" if "tree_safe j"
    using that tree_safe_dir(1) [OF that h(1,2)] by (simp add: journal_put.simps(2) tree_safe_def h)
qed

lemma journal_inv_cong:
  assumes "journal_inv j K" "\<And>a b. bucket_names j' a b = bucket_names j a b" "jr_flat j' = jr_flat j" "tree_safe j'"
  shows "journal_inv j' K"
  using assms unfolding journal_inv_def assms(2,3) by blast

lemma select_inv:
  assumes "lmb_journal_select readable mk j name suffix limit = (j', r)" "journal_inv j K"
  shows "journal_inv j' K"
proof -
  have "j' = j \<or> (\<exists>r. history_create mk j name = (j', r))"
    using assms(1) by (auto simp: lmb_journal_select_def Let_def split: if_splits sum.splits jerr.splits)
  then show ?thesis
  proof
    assume "\<exists>r. history_create mk j name = (j', r)"
    then obtain r where c: "history_create mk j name = (j', r)" ..
    have "tree_safe j" using assms(2) unfolding journal_inv_def by blast
    then show ?thesis using history_create_names [OF c] history_create_keeps [OF c] history_create_safe [OF c]
      by (intro journal_inv_cong [OF assms(2)]) blast+
  qed (use assms(2) in simp)
qed

lemma select_new:
  assumes "lmb_journal_select readable mk j name suffix limit = (j', Inr p)"
  shows "(p = JFlat \<longrightarrow> name \<in> set (flat_names j') \<or> name \<notin> set (own_bucket j' name)) \<and>
    (p = JBucket \<longrightarrow> name \<notin> set (flat_names j'))"
proof (cases "lmb_journal_location j name")
  case (Inr q)
  then have "j' = j \<and> p = q" using assms by (auto simp: lmb_journal_select_def split: if_splits)
  then show ?thesis using Inr location_names(2,3) [of j name] by auto
next
  case (Inl e)
  then have e: "e = J_NOENT" using assms by (cases e) (auto simp: lmb_journal_select_def split: if_splits)
  have "(j, Inr JFlat) = (j', Inr p :: jerr + place) \<or> history_create mk j name = (j', Inr p)"
    using assms unfolding lmb_journal_select_def Inl e sum.case jerr.case Let_def
    by (cases "history_create mk j name") (simp split: if_splits)
  then show ?thesis
  proof
    assume "history_create mk j name = (j', Inr p)"
    from history_create_bucket [OF this] history_create_keeps [OF this]
    show ?thesis using location_names(1) [OF Inl [unfolded e]] by simp
  qed (use location_names(1) [OF Inl [unfolded e]] in simp)
qed

lemma put_inv:
  assumes "lmb_journal_select readable mk j name suffix limit = (j', Inr p)" "journal_inv j K"
  shows "journal_inv (journal_put j' name p b) (insert name K)"
proof -
  note I = select_inv [OF assms, unfolded journal_inv_def]
  have safe: "tree_safe j'" and dflat: "distinct (flat_names j')" and dbucket: "distinct (bucket_names j' x y)"
    and keys: "n \<in> K \<longleftrightarrow> n \<in> set (flat_names j') \<or> n \<in> set (own_bucket j' n)" and valid: "n \<in> K \<Longrightarrow> lmb_journal_name_valid n" for x y n
    using I by blast+
  have own: "n \<in> set (bucket_names j' x y) \<Longrightarrow> x = first_part n \<and> y = second_part n \<and> n \<notin> set (flat_names j')" for x y n
    using I by blast
  have vname: "lmb_journal_name_valid name" using journal_select_place [OF assms(1)] by blast
  have new: "p = JFlat \<Longrightarrow> name \<notin> set (bucket_names j' x y)" "p = JBucket \<Longrightarrow> name \<notin> set (flat_names j')" for x y
    using select_new [OF assms(1)] own [of name x y] by blast+
  show ?thesis
  proof (cases p)
    case JFlat
    have b: "bucket_names (journal_put j' name p b) x y = bucket_names j' x y" for x y
      by (simp add: JFlat bucket_names_def)
    have f: "set (flat_names (journal_put j' name p b)) = insert name (set (flat_names j'))"
      "distinct (flat_names (journal_put j' name p b))"
      using dflat by (auto simp: JFlat update_keys)
    have s: "tree_safe (journal_put j' name p b)" using safe by (simp add: JFlat tree_safe_def)
    show ?thesis unfolding journal_inv_def b f(1)
      using s f(2) dbucket own keys valid vname new(1) [OF JFlat] by (intro conjI allI ballI) blast+
  next
    case JBucket
    then obtain l where l: "lmb_journal_history j' name = Inr l" using journal_select_place [OF assms(1)] by blast
    note Q = journal_put_names [OF l, of b, folded JBucket]
    have ol: "own_bucket j' name = map fst l" by (rule journal_history_names(1) [OF l])
    have u: "set (map fst (AList.update name (JFile b) l)) = insert name (set (own_bucket j' name))"
      "distinct (map fst (AList.update name (JFile b) l))"
      using dbucket [of "first_part name" "second_part name"] unfolding ol by (auto simp: update_keys)
    have d: "distinct (bucket_names (journal_put j' name p b) x y)" for x y
      using dbucket u(2) unfolding Q(1) by (cases "x = first_part name \<and> y = second_part name") (simp_all only: if_True if_False simp_thms)
    have m: "n \<in> set (bucket_names (journal_put j' name p b) x y) \<longleftrightarrow>
        n \<in> set (bucket_names j' x y) \<or> n = name \<and> x = first_part name \<and> y = second_part name" for n x y
      unfolding Q(1) using u(1) by (cases "x = first_part name \<and> y = second_part name") auto
    have c4: "x = first_part n \<and> y = second_part n \<and> n \<notin> set (flat_names j')"
      if "n \<in> set (bucket_names (journal_put j' name p b) x y)" for n x y
      using that own [of n x y] new(2) [OF JBucket] unfolding m by blast
    have c5: "n \<in> insert name K \<longleftrightarrow> n \<in> set (flat_names j') \<or> n \<in> set (own_bucket (journal_put j' name p b) n)" for n
      using keys [of n] unfolding m by blast
    have c6: "\<forall>n \<in> insert name K. lmb_journal_name_valid n" using valid vname by blast
    show ?thesis unfolding journal_inv_def Q(2)
      using Q(3) [OF safe] dflat d c4 c5 c6 by (intro conjI) blast+
  qed
qed

lemma holds_inv: "journal_holds j K \<Longrightarrow> journal_inv j K"
proof (induction rule: journal_holds.induct)
  case start
  show ?case by (simp add: journal_inv_def tree_safe_def journal_empty_def bucket_names_def)
next
  case failed
  then show ?case by (blast intro: select_inv)
next
  case written
  then show ?case by (blast intro: put_inv)
qed

lemma in_concat_map: "n \<in> set (concat (map L ks)) \<longleftrightarrow> (\<exists>k \<in> set ks. n \<in> set (L k))"
  by auto

lemma first_names_bucket:
  assumes "jr_history j = Dir f"
  shows "concat (map (\<lambda>k. bucket_names j a (hex_pair k)) [0..<256]) = first_names f a"
proof (cases "f a")
  case (Dir s)
  then show ?thesis by (simp only: assms bucket_names_def first_names_def child.case list.map_comp o_def)
next
  case Missing
  then have "bucket_names j a b = []" for b by (simp add: assms bucket_names_def)
  then show ?thesis by (simp add: first_names_def Missing)
next
  case Unsafe
  then have "bucket_names j a b = []" for b by (simp add: assms bucket_names_def)
  then show ?thesis by (simp add: first_names_def Unsafe)
qed

lemma journal_names_eq:
  "journal_names j = flat_names j @ (case jr_history j of Dir f \<Rightarrow> concat (map (first_names f) (map hex_pair [0..<256])) | _ \<Rightarrow> [])"
proof (cases "jr_history j")
  case (Dir f)
  show ?thesis unfolding journal_names_def first_names_bucket [OF Dir] by (simp only: Dir child.case list.map_comp o_def)
qed (simp_all only: journal_names_def bucket_names_def child.case, simp_all add: concat_eq_Nil_conv)

lemma distinct_concat_keyed:
  assumes "\<And>k. distinct (L k)" "\<And>k x. x \<in> set (L k) \<Longrightarrow> key x = k" "distinct ks"
  shows "distinct (concat (map L ks))"
  using assms(3)
proof (induction ks)
  case (Cons k ks)
  have "x \<notin> set (L k')" if "x \<in> set (L k)" "k' \<in> set ks" for x k'
    using Cons.prems assms(2) that by auto
  then show ?case using Cons assms(1) by auto
qed simp

lemma hex_pairs_distinct: "distinct (map hex_pair [0..<256])"
  using hex_pairs_sorted by (simp only: strict_sorted_iff)

lemma journal_inv_names:
  assumes "journal_inv j K"
  shows "distinct (journal_names j)" "set (journal_names j) = K"
proof -
  note I = assms [unfolded journal_inv_def]
  let ?P = "map hex_pair [0..<256]"
  let ?B = "\<lambda>a. concat (map (bucket_names j a) ?P)"
  have own: "x = first_part n \<and> y = second_part n \<and> n \<notin> set (flat_names j)" if "n \<in> set (bucket_names j x y)" for x y n
    using I that by blast
  have db: "distinct (bucket_names j x y)" for x y using I by blast
  have e: "journal_names j = flat_names j @ concat (map ?B ?P)"
    unfolding journal_names_def by (simp only: list.map_comp o_def)
  have B: "n \<in> set (?B a) \<Longrightarrow> first_part n = a \<and> n \<notin> set (flat_names j)" for n a
    using own unfolding in_concat_map by blast
  have "distinct (?B a)" for a
    by (rule distinct_concat_keyed [where key = second_part]) (use db own hex_pairs_distinct in blast)+
  then have "distinct (concat (map ?B ?P))"
    by (rule distinct_concat_keyed [where key = first_part]) (use B hex_pairs_distinct in blast)+
  moreover have "n \<notin> set (flat_names j)" if "n \<in> set (concat (map ?B ?P))" for n
  proof -
    from that obtain a where "n \<in> set (?B a)" unfolding in_concat_map [of n ?B] by blast
    then show ?thesis using B by blast
  qed
  then have "set (flat_names j) \<inter> set (concat (map ?B ?P)) = {}" by blast
  ultimately show "distinct (journal_names j)" unfolding e distinct_append using I by blast
  have "n \<in> set (concat (map ?B ?P)) \<longleftrightarrow> n \<in> set (own_bucket j n)" for n
  proof
    assume n: "n \<in> set (own_bucket j n)"
    then have "lmb_journal_name_valid n" using I by blast
    then show "n \<in> set (concat (map ?B ?P))" using n valid_name_parts(1,2) unfolding in_concat_map by blast
  next
    assume "n \<in> set (concat (map ?B ?P))"
    then show "n \<in> set (own_bucket j n)" using own unfolding in_concat_map by blast
  qed
  then show "set (journal_names j) = K" unfolding e using I by (simp only: set_append) blast
qed

lemma sort_filter_set: "distinct xs \<Longrightarrow> sort (filter P xs) = sorted_list_of_set {x \<in> set xs. P (x :: 'a :: linorder)}"
  by (metis distinct_filter distinct_remdups_id set_filter sorted_list_of_set_sort_remdups)

text \<open>The checks of the arguments.\<close>

definition page_args :: "bytes \<Rightarrow> bytes \<Rightarrow> bool" where
  "page_args suffix after \<longleftrightarrow> length suffix \<le> 15 \<and> lmb_journal_name_valid (replicate 64 48 @ suffix) \<and>
     (after = [] \<or> length after = 64 \<and> lmb_journal_name_valid (after @ suffix))"

lemma journal_page_names:
  assumes "journal_inv j K" "\<forall>p. readable p" "page_args suffix after"
  shows "lmb_journal_page readable j suffix after =
    Some (take 257 (sort (filter (page_key suffix after) (journal_names j))))"
proof -
  note I = assms(1) [unfolded journal_inv_def]
  have safe: "tree_safe j" using I by blast
  have priv: "jr_private j" using safe by (simp add: tree_safe_def)
  note D = journal_inv_names(1) [OF assms(1)]
  have flat: "lmb_journal_page_scan suffix after [] (flat_names j) [] = Some (take 257 (sort (filter (page_key suffix after) (flat_names j))))"
    using page_scan_eq [of "[]" "flat_names j" suffix "[]" after] I by simp
  have page: "lmb_journal_page readable j suffix after =
      (case jr_history j of Missing \<Rightarrow> Some (take 257 (sort (filter (page_key suffix after) (flat_names j)))) | Unsafe \<Rightarrow> None
       | Dir f \<Rightarrow> page_firsts readable suffix after f (map hex_pair [0..<256]) (take 257 (sort (filter (page_key suffix after) (flat_names j)))))"
    unfolding lmb_journal_page_def flat option.case using assms(2,3) priv by (auto simp: page_args_def)
  show ?thesis
  proof (cases "jr_history j")
    case Missing
    then show ?thesis unfolding page journal_names_eq by simp
  next
    case Unsafe
    then show ?thesis using safe by (simp add: tree_safe_def)
  next
    case (Dir f)
    have N: "journal_names j = flat_names j @ concat (map (first_names f) (map hex_pair [0..<256]))"
      unfolding journal_names_eq Dir child.case ..
    have "distinct (filter (page_key suffix after) (flat_names j) @ concat (map (first_names f) (map hex_pair [0..<256])))"
      using D unfolding N by (auto simp del: set_map set_concat)
    moreover have "first_ok readable f a" if "a \<in> set (map hex_pair [0..<256])" for a
    proof -
      have u: "f a \<noteq> Unsafe" "\<And>s b. f a = Dir s \<Longrightarrow> s b \<noteq> Unsafe"
        using tree_safe_dir [OF safe Dir] level_safe.simps(2) by metis+
      have "take 4 n = a @ b" if "f a = Dir s" "n \<in> set (second_names s b)" for s b n
      proof -
        have n: "n \<in> set (bucket_names j a b)" using that by (simp only: bucket_names_def Dir child.case)
        have own: "a = first_part n" "b = second_part n" using I n by blast+
        then have "n \<in> K" using I n by blast
        then have "lmb_journal_name_valid n" using I by blast
        then show ?thesis unfolding own by (rule valid_name_parts(5))
      qed
      moreover have "length a = 2" using that by (auto simp: hex_pair_def)
      ultimately show ?thesis using u assms(2) unfolding first_ok_def by blast
    qed
    ultimately show ?thesis unfolding page Dir child.case N filter_append
      by (intro page_firsts_eq hex_pairs_sorted) blast+
  qed
qed

text \<open>C37: A page lists the smallest 257 written keys after the cursor, in order: for every journal that
  writing can produce, however its records are spread over the flat directory and the tree and in
  whatever order the directories are read, nothing is skipped, repeated or invented.\<close>

theorem journal_page_exact:
  assumes "journal_holds j K" "\<forall>p. readable p" "page_args suffix after"
  shows "lmb_journal_page readable j suffix after = Some (take 257 (sorted_list_of_set {n \<in> K. page_key suffix after n}))"
proof -
  note inv = holds_inv [OF assms(1)]
  show ?thesis
    using journal_page_names [OF inv assms(2,3)]
    unfolding sort_filter_set [OF journal_inv_names(1) [OF inv]] journal_inv_names(2) [OF inv] .
qed

text \<open>A sample: with room for one flat record the first key stays flat and the second goes into the tree.\<close>

definition sample_key :: "u8 \<Rightarrow> bytes" where
  "sample_key b = replicate 64 b @ [46, 101]"

definition sample_select :: "journal \<Rightarrow> u8 \<Rightarrow> journal \<times> (jerr + place)" where
  "sample_select j b = lmb_journal_select (\<lambda>_. True) 3 j (sample_key b) [46, 101] 1"

definition sample_flat :: journal where
  "sample_flat = journal_put (fst (sample_select journal_empty 49)) (sample_key 49) JFlat [1]"

definition sample_journal :: journal where
  "sample_journal = journal_put (fst (sample_select sample_flat 48)) (sample_key 48) JBucket [2]"

lemma journal_page_exact_witness:
  "lmb_journal_page (\<lambda>_. True) sample_journal [46, 101] [] = Some [sample_key 48, sample_key 49]"
proof -
  have s1: "snd (sample_select journal_empty 49) = Inr JFlat" by code_simp
  have e: "snd (sample_select j b) = r \<Longrightarrow>
      lmb_journal_select (\<lambda>_. True) 3 j (sample_key b) [46, 101] 1 = (fst (sample_select j b), r)" for j b r
    by (auto simp: sample_select_def)
  have s2: "snd (sample_select sample_flat 48) = Inr JBucket" by code_simp
  have "journal_holds sample_flat {sample_key 49}"
    unfolding sample_flat_def
    by (rule journal_holds.written [OF journal_holds.start, of "\<lambda>_. True" 3 "sample_key 49" "[46, 101]" 1])
      (rule e [OF s1])
  then have h: "journal_holds sample_journal {sample_key 48, sample_key 49}"
    unfolding sample_journal_def
    by (rule journal_holds.written [of _ _ "\<lambda>_. True" 3 "sample_key 48" "[46, 101]" 1])
      (rule e [OF s2])
  have a: "page_args [46, 101] []" by code_simp
  have keys: "{n \<in> {sample_key 48, sample_key 49}. page_key [46, 101] [] n} =
      set (filter (page_key [46, 101] []) [sample_key 48, sample_key 49])" unfolding set_filter by auto
  show ?thesis unfolding journal_page_exact [OF h _ a, of "\<lambda>_. True", simplified simp_thms, OF TrueI] keys
      sorted_list_of_set_sort_remdups by code_simp
qed

end
