(* ===== verification/Tracker_Ownership.thy ===== *)
theory Tracker_Ownership
  imports Tracker_Bindings Journal_Pages
begin

text \<open>
  The name bindings on a disk that works: rows of the file are parsed as they were written, a restart
  finds every claim again, and what a torn append does.
\<close>

section \<open>Writing and reading the file\<close>

lemma hex_char_plain: "v < 16 \<Longrightarrow> 48 \<le> hex_char v"
  by (auto simp: hex_char_def word_le_nat_alt word_less_nat_alt unat_word_ariths)

definition plain :: "u8 \<Rightarrow> bool" where
  "plain x \<longleftrightarrow> x \<noteq> 9 \<and> x \<noteq> 10 \<and> x \<noteq> 0"

lemma plain_ge: "32 \<le> x \<Longrightarrow> plain x"
  by (auto simp: plain_def)

lemma lmb_hex_plain: "list_all plain (lmb_hex src)"
proof (induction src)
  case (Cons b src)
  have "plain (hex_char v)" if "v < 16" for v
    using hex_char_plain [OF that] by (intro plain_ge) (rule order_trans [of _ 48], simp_all)
  then show ?case using Cons nibbles [of b] by (simp add: lmb_hex_def)
qed (simp add: lmb_hex_def)

lemma name_plain: "binding_name_ok name \<Longrightarrow> list_all plain name"
  by (auto simp: binding_name_ok_def list_all_iff not_less intro: plain_ge)

lemma plain_list: "list_all plain xs \<Longrightarrow> x \<in> set xs \<Longrightarrow> x \<noteq> 9 \<and> x \<noteq> 10 \<and> x \<noteq> 0"
  by (auto simp: list_all_iff plain_def)

lemma takeWhile_stop: "\<forall>x \<in> set xs. P x \<Longrightarrow> \<not> P y \<Longrightarrow> takeWhile P (xs @ y # ys) = xs"
  by (induction xs) auto

lemma strip_newline_append: "s \<noteq> [] \<Longrightarrow> last s \<noteq> 10 \<Longrightarrow> nl \<in> {[], [10]} \<Longrightarrow> strip_newline (s @ nl) = s"
  by (auto simp: strip_newline_def)

text \<open>A row, with or without its newline, is parsed back.\<close>

lemma binding_row_parse:
  assumes "binding_name_ok name" "length pk = 32" "nl \<in> {[], [10]}"
  shows "binding_row_parse ([if e then 0x45 else 0x4D, 9] @ lmb_hex pk @ [9] @ name @ nl) = Row e pk name"
proof -
  let ?s = "[if e then 0x45 else 0x4D, 9] @ lmb_hex pk @ [9] @ name"
  have n: "name \<noteq> []" using assms(1) by (simp add: binding_name_ok_def)
  have h: "\<forall>x \<in> set (lmb_hex pk). x \<noteq> 9" using plain_list [OF lmb_hex_plain] by blast
  have "\<forall>x \<in> set ?s. x \<noteq> 0" using plain_list [OF lmb_hex_plain] plain_list [OF name_plain [OF assms(1)]] by (simp add: ball_Un)
  then have "c_str (?s @ nl) = ?s @ nl" using assms(3) by (auto simp: c_str_def takeWhile_eq_all_conv)
  moreover have "last name \<noteq> 10" using plain_list [OF name_plain [OF assms(1)] last_in_set [OF n]] by simp
  then have "last ?s \<noteq> 10" using n by simp
  ultimately have strip: "strip_newline (c_str ([if e then 0x45 else 0x4D, 9] @ lmb_hex pk @ [9] @ name @ nl)) = ?s"
    using strip_newline_append [of ?s nl] assms(3) by (simp only: append_assoc) simp
  have k: "takeWhile (\<lambda>x. x \<noteq> 9) ?s = [if e then 0x45 else 0x4D]" by simp
  have a: "takeWhile (\<lambda>x. x \<noteq> 9) (lmb_hex pk @ [9] @ name) = lmb_hex pk" using h takeWhile_stop [of "lmb_hex pk"] by simp
  have u: "lmb_unhex 32 (lmb_hex pk) = Some pk" using unhex_hex [of pk] assms(2) by simp
  have d: "drop (length [if e then 0x45 else (0x4D :: u8)] + 1) ?s = lmb_hex pk @ [9] @ name"
    "drop (length (lmb_hex pk) + 1) (lmb_hex pk @ [9] @ name) = name" by simp_all
  show ?thesis
    unfolding binding_row_parse_def strip Let_def k d a u using assms(1,2) by simp
qed

lemma length_takeWhile_lt: "x \<in> set xs \<Longrightarrow> \<not> P x \<Longrightarrow> length (takeWhile P xs) < length xs"
  by (induction xs) auto

lemma fgets_line_append:
  assumes "last b = 10" "b \<noteq> []"
  shows "fgets_line n (b @ c) = fgets_line n b" "length (fgets_line n b) \<le> length b"
proof -
  have "10 \<in> set b" using assms last_in_set by metis
  then have "takeWhile (\<lambda>x. x \<noteq> 10) (b @ c) = takeWhile (\<lambda>x. x \<noteq> 10) b" "length (takeWhile (\<lambda>x. x \<noteq> 10) b) < length b"
    by (auto simp: takeWhile_append1 intro: length_takeWhile_lt)
  then show "fgets_line n (b @ c) = fgets_line n b" "length (fgets_line n b) \<le> length b"
    by (auto simp: fgets_line_def Let_def)
qed

lemma fgets_lines_append:
  "b = [] \<or> last b = 10 \<Longrightarrow> fgets_lines (b @ c) = fgets_lines b @ fgets_lines c"
proof (induction b rule: fgets_lines.induct)
  case (1 b)
  show ?case
  proof (cases "b = []")
    case False
    then have l: "last b = 10" using 1(2) by simp
    let ?n = "length (fgets_line 768 b)"
    have n: "?n \<le> length b" using fgets_line_append(2) [OF l False] .
    have "drop ?n b = [] \<or> last (drop ?n b) = 10" using l by (cases "?n < length b") (auto simp: last_drop)
    then have "fgets_lines (drop ?n b @ c) = fgets_lines (drop ?n b) @ fgets_lines c" using 1(1) False by blast
    then show ?thesis
      using False n by (subst (1 2) fgets_lines.simps) (simp add: fgets_line_append(1) [OF l False])
  qed (simp add: fgets_lines.simps)
qed

lemma fgets_lines_one:
  assumes "\<forall>x \<in> set w. x \<noteq> 10" "length w < 767" "nl \<in> {[], [10]}" "w \<noteq> []"
  shows "fgets_lines (w @ nl) = [w @ nl]"
proof -
  have "takeWhile (\<lambda>x. x \<noteq> 10) (w @ nl) = w" using assms(1,3) by (auto simp: takeWhile_eq_all_conv takeWhile_stop)
  then have "fgets_line 768 (w @ nl) = w @ nl" using assms(2,3) by (auto simp: fgets_line_def Let_def)
  then show ?thesis using assms(4) by (subst fgets_lines.simps) (simp add: fgets_lines.simps)
qed

definition row_text :: "bytes \<Rightarrow> bool \<Rightarrow> bytes \<Rightarrow> bytes" where
  "row_text name e pk = [if e then 0x45 else 0x4D, 9] @ lmb_hex pk @ [9] @ name"

lemma file_rows_one:
  assumes "binding_name_ok name" "length pk = 32" "nl \<in> {[], [10]}"
  shows "file_rows (row_text name e pk @ nl) = [Row e pk name]"
proof -
  have "\<forall>x \<in> set (row_text name e pk). x \<noteq> 10" using plain_list [OF lmb_hex_plain] plain_list [OF name_plain [OF assms(1)]]
    by (simp add: row_text_def ball_Un)
  moreover have "length (row_text name e pk) < 767" using assms(1,2) by (simp add: row_text_def binding_name_ok_def)
  ultimately have "fgets_lines (row_text name e pk @ nl) = [row_text name e pk @ nl]"
    by (rule fgets_lines_one [OF _ _ assms(3)]) (simp add: row_text_def)
  then show ?thesis using binding_row_parse [OF assms] by (simp add: file_rows_def row_text_def)
qed

lemma file_rows_append:
  assumes "b = [] \<or> last b = 10" "binding_name_ok name" "length pk = 32"
  shows "file_rows (b @ binding_row name e pk) = file_rows b @ [Row e pk name]"
  using fgets_lines_append [OF assms(1), of "binding_row name e pk"] file_rows_one [OF assms(2,3), of "[10]" e]
  by (simp add: file_rows_def row_text_def binding_row_def)


section \<open>A disk that works\<close>

definition history_works :: "history_io \<Rightarrow> bool" where
  "history_works io \<longleftrightarrow> io_begin io \<and> io_read io \<and> (\<forall>p. io_scan io p) \<and> 3 \<le> io_make io \<and> io_write io = WriteDone"

definition disk_works :: "bindings_io \<Rightarrow> bool" where
  "disk_works io \<longleftrightarrow> bi_open io \<and> bi_lines io = None \<and> (\<forall>i. history_works (bi_history io i)) \<and>
     768 \<le> bi_appended io \<and> bi_flush io"

text \<open>A history in which every binding record can be read or is absent.\<close>

definition history_sound :: "journal \<Rightarrow> bool" where
  "history_sound h \<longleftrightarrow> tree_safe h \<and> (\<forall>name e. tracker_history_read True h (binding_key name e) \<noteq> HBad)"

lemma binding_key_valid: "lmb_journal_name_valid (binding_key name e)" "drop 64 (binding_key name e) = [46, 101, 110, 116, 114, 121]"
  unfolding binding_key_def by (rule history_key_valid)+

lemma tree_safe_not:
  assumes "tree_safe j"
  shows "jr_history j \<noteq> Unsafe" "jr_history j = Dir f \<Longrightarrow> f a \<noteq> Unsafe" "jr_history j = Dir f \<Longrightarrow> f a = Dir s \<Longrightarrow> s b \<noteq> Unsafe"
  using assms tree_safe_dir [OF assms, of f a] level_safe.simps(2) unfolding tree_safe_def by metis+

lemma tree_safe_history:
  assumes "tree_safe j"
  shows "lmb_journal_history j n \<noteq> Inl J_FAIL"
proof (cases "jr_history j")
  case (Dir f)
  then show ?thesis
  proof (cases "f (first_part n)")
    case s: (Dir s)
    then show ?thesis using Dir tree_safe_not(3) [OF assms Dir s, of "second_part n"]
      by (cases "s (second_part n)") (simp_all add: lmb_journal_history_def)
  qed (use tree_safe_not(2) [OF assms Dir, of "first_part n"] in \<open>simp_all add: lmb_journal_history_def Dir\<close>)
qed (use tree_safe_not(1) [OF assms] in \<open>simp_all add: lmb_journal_history_def\<close>)

lemma history_create_works:
  assumes "tree_safe j" "3 \<le> mk"
  shows "\<exists>j' p. history_create mk j n = (j', Inr p)"
proof (cases "jr_history j")
  case (Dir f)
  show ?thesis
  proof (cases "f (first_part n)")
    case s: (Dir s)
    then show ?thesis using assms(2) Dir tree_safe_not(3) [OF assms(1) Dir s, of "second_part n"]
      by (cases "s (second_part n)") (simp_all add: history_create_def)
  qed (use assms(2) tree_safe_not(2) [OF assms(1) Dir, of "first_part n"] in \<open>simp_all add: history_create_def Dir\<close>)
qed (use assms(2) tree_safe_not(1) [OF assms(1)] in \<open>simp_all add: history_create_def\<close>)

lemma select_works:
  assumes "tree_safe j" "lmb_journal_name_valid name" "drop 64 name = suffix" "0 < limit" "\<forall>p. readable p" "3 \<le> mk"
  shows "\<exists>j' p. lmb_journal_select readable mk j name suffix limit = (j', Inr p)"
proof (cases "lmb_journal_location j name")
  case (Inr q)
  then show ?thesis using assms by (simp add: lmb_journal_select_def)
next
  case (Inl e)
  have "e = J_NOENT" using Inl assms(1,2) tree_safe_history [OF assms(1), of name]
    by (cases e) (auto simp: lmb_journal_location_def tree_safe_def split: if_splits sum.splits)
  then show ?thesis using assms(2-5) Inl history_create_works [OF assms(1,6), of name]
    by (simp add: lmb_journal_select_def Let_def)
qed

lemma select_safe:
  assumes "lmb_journal_select readable mk j name suffix limit = (j', r)" "tree_safe j"
  shows "tree_safe j'"
proof -
  have "j' = j \<or> (\<exists>r. history_create mk j name = (j', r))"
    using assms(1) by (auto simp: lmb_journal_select_def Let_def split: if_splits sum.splits jerr.splits)
  then show ?thesis using history_create_safe assms(2) by blast
qed

lemma history_write_works:
  assumes "history_works io" "tree_safe h" "lmb_journal_name_valid k" "drop 64 k = [46, 101, 110, 116, 114, 121]"
    "length pk \<le> unat LMB_MAX_BODY + 2008"
  shows "\<exists>h'. tracker_history_write io h k pk = (h', True) \<and> tree_safe h'"
proof -
  obtain j p where s: "lmb_journal_select (io_scan io) (io_make io) h k [46, 101, 110, 116, 114, 121] 256 = (j, Inr p)"
    using select_works [OF assms(2-4), of 256 "io_scan io" "io_make io"] assms(1) by (auto simp: history_works_def)
  have j: "tree_safe j" by (rule select_safe [OF s assms(2)])
  have "tree_safe (journal_put j k p x)" for x
  proof (cases p)
    case JBucket
    then obtain l where "lmb_journal_history j k = Inr l" using journal_select_place [OF s] by blast
    from journal_put_names(3) [OF this j] show ?thesis unfolding JBucket .
  qed (use j in \<open>simp add: tree_safe_def\<close>)
  then show ?thesis using assms(1,5) s by (simp add: tracker_history_write_def history_works_def)
qed

text \<open>On a disk that works a key is accepted exactly when no other key is recorded.\<close>

lemma history_accept_works:
  assumes "history_works io" "history_sound h" "length pk = 32"
  obtains h' ok where "binding_history_accept io h name e pk = (h', ok)" "history_sound h'"
    "ok \<longleftrightarrow> (\<forall>b. recorded h name e b \<longrightarrow> b = pk)"
proof (cases "tracker_history_read True h (binding_key name e)")
  case HAbsent
  let ?k = "binding_key name e"
  obtain h' where w: "tracker_history_write io h ?k pk = (h', True)" "tree_safe h'"
    using history_write_works [OF assms(1) _ binding_key_valid(1) binding_key_valid(2), of h pk name e] assms(2,3)
    by (auto simp: history_sound_def)
  have "history_sound h'"
  proof -
    have "tracker_history_read True h' (binding_key n x) \<noteq> HBad" for n x
    proof (cases "binding_key n x = ?k")
      case True
      then show ?thesis using history_write_cases [OF w(1)] by auto
    next
      case False
      then have "lmb_journal_open h' (binding_key n x) = lmb_journal_open h (binding_key n x)"
        using history_write_cases [OF w(1)] by blast
      then show ?thesis using assms(2) history_read_cong unfolding history_sound_def by metis
    qed
    then show ?thesis using w(2) by (simp add: history_sound_def)
  qed
  moreover have "binding_history_accept io h name e pk = (h', True)"
    using HAbsent w(1) assms(1) by (simp add: binding_history_accept_def history_works_def)
  ultimately show ?thesis using that HAbsent by simp
next
  case (HFound b)
  then have "binding_history_accept io h name e pk = (h, length b = 32 \<and> b = pk)"
    using assms(1) by (simp add: binding_history_accept_def history_works_def)
  then show ?thesis using that assms(2,3) HFound by auto
qed (use assms(2) in \<open>simp add: history_sound_def\<close>)

text \<open>A file whose rows are all recorded.\<close>

definition file_sound :: "journal \<Rightarrow> bytes \<Rightarrow> bool" where
  "file_sound h b \<longleftrightarrow> (b = [] \<or> last b = 10) \<and>
     (\<forall>r \<in> set (file_rows b). \<exists>e pk name. r = Row e pk name \<and> length pk = 32 \<and> binding_name_ok name \<and> recorded h name e pk)"

lemma load_rows_sound:
  assumes "\<forall>r \<in> set rows. \<exists>e pk name. r = Row e pk name \<and> length pk = 32 \<and> binding_name_ok name \<and> recorded h name e pk"
    "\<forall>k. history_works (io k)"
  shows "\<exists>c'. bindings_load_rows io i rows h c = (h, c', True)"
  using assms(1)
proof (induction rows arbitrary: i c)
  case (Cons r rows)
  then obtain e pk name where r: "r = Row e pk name" "length pk = 32" "recorded h name e pk" by auto
  have "io_read (io i)" using assms(2) by (simp add: history_works_def)
  then have "binding_history_accept (io i) h name e pk = (h, True)" using r by (simp add: binding_history_accept_def)
  then show ?case using Cons r by simp
qed simp

definition cache_ok :: "journal \<Rightarrow> binding_cache \<Rightarrow> bool" where
  "cache_ok h c \<longleftrightarrow> cache_recorded h c \<and> (\<forall>x \<in> set (g_bindings c). binding_name_ok (bd_name x))"

definition bindings_ok :: "bindings_state \<Rightarrow> (bytes \<times> bool \<times> bytes) set \<Rightarrow> bool" where
  "bindings_ok st A \<longleftrightarrow> history_sound (tb_history st) \<and> cache_ok (tb_history st) (tb_cache st) \<and>
     file_sound (tb_history st) (case tb_file st of None \<Rightarrow> [] | Some b \<Rightarrow> b) \<and>
     (\<forall>(name, e, pk) \<in> A. binding_name_ok name \<and> length pk = 32 \<and> recorded (tb_history st) name e pk)"

lemma cache_ok_remember:
  "cache_ok h c \<Longrightarrow> recorded h name e pk \<Longrightarrow> binding_name_ok name \<Longrightarrow> cache_ok h (binding_remember c name e pk)"
  unfolding cache_ok_def using cache_recorded_remember remember_members by fastforce

lemma load_rows_cache_ok:
  assumes "bindings_load_rows io i rows h c = (h', c', ok)" "\<forall>x \<in> set (g_bindings c). binding_name_ok (bd_name x)"
    "\<And>e pk name. Row e pk name \<in> set rows \<Longrightarrow> binding_name_ok name"
  shows "\<forall>x \<in> set (g_bindings c'). binding_name_ok (bd_name x)"
  using assms
proof (induction io i rows h c rule: bindings_load_rows.induct)
  case (4 io i e pk name rows h c)
  have n: "binding_name_ok name" using 4(4) by (meson list.set_intros(1))
  have "\<forall>x \<in> set (g_bindings (binding_remember c name e pk)). binding_name_ok (bd_name x)"
    using 4(3) remember_members [OF _ n] n by fastforce
  moreover have "\<And>e pk name. Row e pk name \<in> set rows \<Longrightarrow> binding_name_ok name" using 4(4) by (meson list.set_intros(2))
  ultimately show ?case using 4(1,2,3) by (auto split: prod.splits bool.splits)
qed auto

lemma on_disk_sound:
  assumes "\<forall>r \<in> set rows. \<exists>e pk name. r = Row e pk name \<and> length pk = 32 \<and> binding_name_ok name \<and> recorded h name e pk"
  shows "(\<exists>f. binding_on_disk rows name e pk found = Some f) \<longleftrightarrow> (\<forall>saved. Row e saved name \<in> set rows \<longrightarrow> saved = pk)"
  using assms
proof (induction rows arbitrary: found)
  case (Cons r rows)
  then obtain e' pk' name' where "r = Row e' pk' name'" by auto
  then show ?case using Cons by auto
qed simp

text \<open>A restart loads the file, and what was claimed is still there.\<close>

lemma load_ok:
  assumes "bindings_ok st A" "disk_works io"
  obtains st' where "bindings_load io (st\<lparr>tb_cache := \<lparr>g_bindings = [], g_binding_cursor = 0\<rparr>\<rparr>) = (st', True)"
    "bindings_ok st' A" "tb_history st' = tb_history st"
proof (cases "tb_file st")
  case None
  then show ?thesis using that assms by (auto simp: bindings_load_def disk_works_def bindings_ok_def cache_ok_def cache_recorded_def)
next
  case (Some b)
  let ?c = "\<lparr>g_bindings = [], g_binding_cursor = 0\<rparr>" and ?h = "tb_history st"
  have w: "bi_open io" "bi_lines io = None" "\<forall>k. history_works (bi_history io k)" "io_begin (bi_history io 0)"
    using assms(2) by (auto simp: disk_works_def history_works_def)
  have rows: "\<forall>r \<in> set (file_rows b). \<exists>e pk name. r = Row e pk name \<and> length pk = 32 \<and> binding_name_ok name \<and> recorded ?h name e pk"
    using assms(1) Some by (simp add: bindings_ok_def file_sound_def)
  obtain c where l: "bindings_load_rows (bi_history io) 0 (file_rows b) ?h ?c = (?h, c, True)"
    using load_rows_sound [OF rows w(3)] by blast
  have n: "Row e pk name \<in> set (file_rows b) \<Longrightarrow> binding_name_ok name" for e pk name using rows by blast
  have "cache_ok ?h c" unfolding cache_ok_def
    using load_rows_recorded [OF l _ n] load_rows_cache_ok [OF l _ n] by (simp add: cache_recorded_def)
  then show ?thesis using that l w Some assms(1) by (auto simp: bindings_load_def read_rows_def bindings_ok_def)
qed

lemma bindings_ok_mono:
  assumes "bindings_ok st A" "history_sound h" "\<And>k b. tracker_history_read True (tb_history st) k = HFound b \<Longrightarrow> tracker_history_read True h k = HFound b"
  shows "cache_ok h (tb_cache st)" "file_sound h (case tb_file st of None \<Rightarrow> [] | Some b \<Rightarrow> b)"
    "\<forall>(name, e, pk) \<in> A. binding_name_ok name \<and> length pk = 32 \<and> recorded h name e pk"
proof -
  show "cache_ok h (tb_cache st)"
    using assms cache_recorded_mono [of "tb_history st" "tb_cache st" h] unfolding bindings_ok_def cache_ok_def by blast
  show "file_sound h (case tb_file st of None \<Rightarrow> [] | Some b \<Rightarrow> b)"
    using assms unfolding bindings_ok_def file_sound_def by blast
  show "\<forall>(name, e, pk) \<in> A. binding_name_ok name \<and> length pk = 32 \<and> recorded h name e pk"
    using assms(1,3) unfolding bindings_ok_def by blast
qed

lemma bindings_okI:
  assumes "history_sound (tb_history st)" "cache_ok (tb_history st) (tb_cache st)" "file_sound (tb_history st) b" "tb_file st = Some b"
    "\<forall>(name, e, pk) \<in> A. binding_name_ok name \<and> length pk = 32 \<and> recorded (tb_history st) name e pk"
  shows "bindings_ok st A"
  using assms by (simp add: bindings_ok_def)

lemma file_sound_append:
  assumes "file_sound h b" "binding_name_ok name" "length pk = 32" "recorded h name e pk"
  shows "file_sound h (b @ binding_row name e pk)"
  using assms file_rows_append [of b name pk e] by (auto simp: file_sound_def binding_row_def)

lemma check_or_add_ok:
  assumes "bindings_ok st A" "disk_works io" "length pk = 32" "binding_name_ok name"
  obtains st' ok where "binding_check_or_add io st name e pk = (st', ok)"
    "bindings_ok st' (if ok then insert (name, e, pk) A else A)" "ok \<longleftrightarrow> (\<forall>b. recorded (tb_history st) name e b \<longrightarrow> b = pk)"
proof (cases "binding_find (tb_cache st) name e")
  case (Some old)
  let ?b = "bd_pubkey (g_bindings (tb_cache st) ! old)"
  have f: "bd_is_expert (g_bindings (tb_cache st) ! old) = e" "bd_name (g_bindings (tb_cache st) ! old) = name"
    and m: "g_bindings (tb_cache st) ! old \<in> set (g_bindings (tb_cache st))"
    using binding_find_Some [OF Some] nth_mem by blast+
  have "cache_recorded (tb_history st) (tb_cache st)" using assms(1) by (simp add: bindings_ok_def cache_ok_def)
  from bspec [OF this [unfolded cache_recorded_def] m] have r: "recorded (tb_history st) name e ?b" unfolding f .
  have "binding_check_or_add io st name e pk = (st, ?b = pk)" using Some by (simp add: binding_check_or_add_def)
  moreover have "bindings_ok st (if ?b = pk then insert (name, e, pk) A else A)"
    using assms r by (auto simp: bindings_ok_def)
  moreover have "(?b = pk) \<longleftrightarrow> (\<forall>b. recorded (tb_history st) name e b \<longrightarrow> b = pk)" using r by simp
  ultimately show ?thesis by (rule that)
next
  case None
  define h0 where "h0 = tb_history st"
  define b where "b = (case tb_file st of None \<Rightarrow> [] | Some b \<Rightarrow> b)"
  have w: "bi_open io" "bi_lines io = None" "history_works (bi_history io 0)" "io_begin (bi_history io 0)" "768 \<le> bi_appended io" "bi_flush io"
    using assms(2) by (auto simp: disk_works_def history_works_def)
  have I: "history_sound h0" "file_sound h0 b" using assms(1) by (simp_all add: bindings_ok_def h0_def b_def)
  have rows: "\<forall>r \<in> set (file_rows b). \<exists>e pk name. r = Row e pk name \<and> length pk = 32 \<and> binding_name_ok name \<and> recorded h0 name e pk"
    using I(2) by (simp add: file_sound_def)
  obtain h ok where acc: "binding_history_accept (bi_history io 0) h0 name e pk = (h, ok)" "history_sound h"
    "ok \<longleftrightarrow> (\<forall>b. recorded h0 name e b \<longrightarrow> b = pk)"
    using history_accept_works [OF w(3) I(1) assms(3)] by blast
  note keep = bindings_ok_mono [OF assms(1) acc(2), folded h0_def b_def, OF history_accept_keeps [OF acc(1)]]
  note step = binding_check_or_add_def [of io st name e pk, unfolded None option.case, folded b_def h0_def]
  have small: "length (binding_row name e pk) < 768" using assms(3,4) by (simp add: binding_row_def binding_name_ok_def)
  show ?thesis
  proof (cases "binding_on_disk (file_rows b) name e pk False")
    case bad: None
    then obtain saved where "Row e saved name \<in> set (file_rows b)" "saved \<noteq> pk" using on_disk_sound [OF rows, of name e pk False] by auto
    then have "\<not> (\<forall>b. recorded h0 name e b \<longrightarrow> b = pk)" using rows by blast
    moreover have "binding_check_or_add io st name e pk = (st\<lparr>tb_file := Some b\<rparr>, False)"
      unfolding step using assms(4) w bad by (simp add: Let_def)
    moreover have "bindings_ok (st\<lparr>tb_file := Some b\<rparr>) A" using assms(1) I by (intro bindings_okI [of _ b]) (auto simp: bindings_ok_def h0_def)
    ultimately show ?thesis by (intro that [of _ False]) (simp_all add: h0_def)
  next
    case (Some found)
    show ?thesis
    proof (cases ok)
      case False
      have "binding_check_or_add io st name e pk = (st\<lparr>tb_file := Some b, tb_history := h\<rparr>, False)"
        unfolding step using assms(4) w Some acc(1) False by (simp add: Let_def h0_def)
      moreover have "bindings_ok (st\<lparr>tb_file := Some b, tb_history := h\<rparr>) A"
        using acc(2) keep by (intro bindings_okI [of _ b]) simp_all
      ultimately show ?thesis using acc(3) False by (intro that [of _ False]) (simp_all add: h0_def)
    next
      case True
      let ?c = "binding_remember (tb_cache st) name e pk"
      have r: "recorded h name e pk" by (rule history_accept_records [OF acc(1) [unfolded eqTrueI [OF True]]])
      have c: "cache_ok h ?c" by (rule cache_ok_remember [OF keep(1) r assms(4)])
      let ?b = "if found then b else b @ binding_row name e pk"
      have "binding_check_or_add io st name e pk = (st\<lparr>tb_file := Some ?b, tb_history := h, tb_cache := ?c\<rparr>, True)"
        unfolding step using assms(4) w Some acc(1) True small by (simp add: Let_def h0_def)
      moreover have "file_sound h ?b" using keep(2) file_sound_append [OF keep(2) assms(4,3) r] by simp
      then have "bindings_ok (st\<lparr>tb_file := Some ?b, tb_history := h, tb_cache := ?c\<rparr>) (insert (name, e, pk) A)"
        using acc(2) keep(3) c r assms(3,4) by (intro bindings_okI [of _ ?b]) auto
      ultimately show ?thesis using that acc(3) True by (simp add: h0_def)
    qed
  qed
qed

section \<open>Claims survive\<close>

definition bindings_fresh :: bindings_state where
  "bindings_fresh = \<lparr>tb_cache = \<lparr>g_bindings = [], g_binding_cursor = 0\<rparr>, tb_file = None, tb_history = journal_empty\<rparr>"

definition process_exit :: "bindings_state \<Rightarrow> bindings_state" where
  "process_exit st = st\<lparr>tb_cache := \<lparr>g_bindings = [], g_binding_cursor = 0\<rparr>\<rparr>"

text \<open>Runs from an empty disk on which every operation works.\<close>

inductive working_run :: "bindings_state \<Rightarrow> (bytes \<times> bool \<times> bytes) set \<Rightarrow> bool" where
  fresh: "working_run bindings_fresh {}"
| restart: "working_run st A \<Longrightarrow> disk_works io \<Longrightarrow> bindings_load io (process_exit st) = (st', ok) \<Longrightarrow> working_run st' A"
| claim: "working_run st A \<Longrightarrow> disk_works io \<Longrightarrow> length pk = 32 \<Longrightarrow>
    binding_check_or_add io st name e pk = (st', ok) \<Longrightarrow> working_run st' (if ok then insert (name, e, pk) A else A)"

lemma empty_open: "lmb_journal_name_valid n \<Longrightarrow> lmb_journal_open journal_empty n = Inl J_NOENT"
  by (simp add: journal_open_eq journal_empty_def history_find_def lmb_journal_history_def)

lemma fresh_ok: "bindings_ok bindings_fresh {}"
proof -
  have "tracker_history_read True journal_empty (binding_key name e) = HAbsent" for name e
    by (simp add: tracker_history_read_def empty_open binding_key_valid)
  then show ?thesis
    by (simp add: bindings_ok_def bindings_fresh_def history_sound_def tree_safe_def journal_empty_def cache_ok_def
        cache_recorded_def file_sound_def file_rows_def fgets_lines.simps)
qed

lemma bad_name_refused:
  assumes "bindings_ok st A" "\<not> binding_name_ok name" "binding_check_or_add io st name e pk = (st', ok)"
  shows "st' = st \<and> \<not> ok"
proof (cases "binding_find (tb_cache st) name e")
  case (Some old)
  then have "binding_name_ok name"
    using binding_find_Some [OF Some] nth_mem assms(1) unfolding bindings_ok_def cache_ok_def by blast
  then show ?thesis using assms(2) by blast
next
  case None
  then show ?thesis using assms(2,3) by (simp add: binding_check_or_add_def)
qed

lemma working_run_ok: "working_run st A \<Longrightarrow> bindings_ok st A"
proof (induction rule: working_run.induct)
  case (restart st A io st' ok)
  then show ?case using load_ok [OF restart.IH restart.hyps(2)] by (auto simp: process_exit_def)
next
  case (claim st A io pk name e st' ok)
  show ?case
  proof (cases "binding_name_ok name")
    case True
    show ?thesis using check_or_add_ok [OF claim.IH claim.hyps(2,3) True, of e] claim.hyps(4) by fastforce
  qed (use bad_name_refused [OF claim.IH _ claim.hyps(4)] claim.IH in auto)
qed (rule fresh_ok)

text \<open>C32: On a disk that works no claim is lost: in every run from an empty disk, a restarted tracker loads its
  file, and every name accepted before is again accepted under its key.\<close>

theorem binding_survives_restart:
  assumes "working_run st A" "(name, is_expert, pk) \<in> A" "disk_works io" "disk_works io'"
  shows "\<exists>st1 st2. bindings_load io (process_exit st) = (st1, True) \<and>
    binding_check_or_add io' st1 name is_expert pk = (st2, True)"
proof -
  obtain st1 where l: "bindings_load io (process_exit st) = (st1, True)" "bindings_ok st1 A"
    using load_ok [OF working_run_ok [OF assms(1)] assms(3)] unfolding process_exit_def by blast
  have k: "binding_name_ok name" "length pk = 32" "recorded (tb_history st1) name is_expert pk"
    using l(2) assms(2) unfolding bindings_ok_def by auto
  obtain st2 ok where "binding_check_or_add io' st1 name is_expert pk = (st2, ok)"
    "ok \<longleftrightarrow> (\<forall>b. recorded (tb_history st1) name is_expert b \<longrightarrow> b = pk)"
    using check_or_add_ok [OF l(2) assms(4) k(2,1)] by blast
  then show ?thesis using l(1) k(3) by auto
qed

definition good_history_io :: history_io where
  "good_history_io = \<lparr>io_begin = True, io_read = True, io_scan = (\<lambda>_. True), io_make = 3, io_write = WriteDone\<rparr>"

definition good_io :: bindings_io where
  "good_io = \<lparr>bi_open = True, bi_lines = None, bi_history = (\<lambda>_. good_history_io), bi_appended = 768, bi_flush = True\<rparr>"

definition sample_pk :: bytes where
  "sample_pk = replicate 32 7"

lemma good_io_works: "disk_works good_io"
  by (simp add: disk_works_def good_io_def history_works_def good_history_io_def)

lemma sample_claim:
  "\<exists>st. binding_check_or_add good_io bindings_fresh [97] False sample_pk = (st, True)"
proof -
  have n: "binding_name_ok [97]" by code_simp
  have l: "length sample_pk = 32" by (simp add: sample_pk_def)
  have "\<not> recorded (tb_history bindings_fresh) [97] False b" for b
    by (simp add: bindings_fresh_def tracker_history_read_def empty_open binding_key_valid)
  then show ?thesis using check_or_add_ok [OF fresh_ok good_io_works l n, of False] by metis
qed

lemma binding_survives_restart_witness:
  "\<exists>st st1 st2. binding_check_or_add good_io bindings_fresh [97] False sample_pk = (st, True) \<and>
     bindings_load good_io (process_exit st) = (st1, True) \<and> binding_check_or_add good_io st1 [97] False sample_pk = (st2, True)"
proof -
  obtain st where c: "binding_check_or_add good_io bindings_fresh [97] False sample_pk = (st, True)" using sample_claim by blast
  have "working_run st {([97], False, sample_pk)}"
    using working_run.claim [OF working_run.fresh good_io_works _ c] by (simp add: sample_pk_def)
  from binding_survives_restart [OF this _ good_io_works good_io_works] c show ?thesis by blast
qed

lemma binding_first_claim_wins_witness:
  "\<exists>st. binding_check_or_add good_io bindings_fresh [97] False sample_pk = (st, True) \<and>
     (\<forall>io st'. binding_check_or_add io st [97] False (replicate 32 8) \<noteq> (st', True))"
proof -
  obtain st where c: "binding_check_or_add good_io bindings_fresh [97] False sample_pk = (st, True)" using sample_claim by blast
  have "bindings_load good_io (bindings_fresh\<lparr>tb_cache := \<lparr>g_bindings = [], g_binding_cursor = 0\<rparr>\<rparr>) = (bindings_fresh, True)"
    by (simp add: bindings_load_def bindings_fresh_def good_io_def)
  then have "bindings_run True bindings_fresh {}" by (rule bindings_run.restart [OF bindings_run.disk])
  from bindings_run.claim [OF this c] have r: "bindings_run True st {([97], False, sample_pk)}" by simp
  have "binding_check_or_add io st [97] False (replicate 32 8) \<noteq> (st', True)" for io st'
  proof
    assume "binding_check_or_add io st [97] False (replicate 32 8) = (st', True)"
    from bindings_run.claim [OF r this] binding_first_claim_wins [of True st' _ "[97]" False sample_pk "replicate 32 8"]
    have "sample_pk = replicate 32 8" by simp
    then show False by (simp add: sample_pk_def)
  qed
  then show ?thesis using c by blast
qed

text \<open>An append that stores all but the end of a row leaves a row of a shorter name.\<close>

lemma torn_row:
  "take (length (binding_row (name @ [c]) e pk) - 2) (binding_row (name @ [c]) e pk) = row_text name e pk"
  by (simp add: binding_row_def row_text_def)

text \<open>C33: A torn append invents an owner: when the disk takes all but the last two bytes of a row, the claim
  is refused, but what is left is a complete row of the name without its last byte, and after a restart
  that name belongs to the key although it was never claimed; every other key is refused.\<close>

theorem binding_torn_append:
  assumes "disk_works io" "length pk = 32" "binding_name_ok (name @ [c])" "name \<noteq> []"
  shows "\<exists>st1 st2. binding_check_or_add (io\<lparr>bi_appended := length (binding_row (name @ [c]) is_expert pk) - 2\<rparr>)
      bindings_fresh (name @ [c]) is_expert pk = (st1, False) \<and>
    bindings_load io (process_exit st1) = (st2, True) \<and>
    (\<forall>io' pk'. pk' \<noteq> pk \<longrightarrow> binding_check_or_add io' st2 name is_expert pk' = (st2, False))"
proof -
  let ?row = "binding_row (name @ [c]) is_expert pk"
  let ?io = "io\<lparr>bi_appended := length ?row - 2\<rparr>" and ?c = "\<lparr>g_bindings = [], g_binding_cursor = 0\<rparr>"
  have n: "binding_name_ok name" using assms(3,4) by (auto simp: binding_name_ok_def)
  have w: "bi_open io" "bi_lines io = None" "history_works (bi_history io 0)" "io_begin (bi_history io 0)"
    using assms(1) by (auto simp: disk_works_def history_works_def)
  have s: "history_sound journal_empty" using fresh_ok by (simp add: bindings_ok_def bindings_fresh_def)
  have none: "\<not> recorded journal_empty m x b" for m x b
    by (simp add: tracker_history_read_def empty_open binding_key_valid)
  obtain h where acc: "binding_history_accept (bi_history io 0) journal_empty (name @ [c]) is_expert pk = (h, True)" "history_sound h"
    using history_accept_works [OF w(3) s assms(2), of "name @ [c]" is_expert] none by (metis (full_types))
  let ?st1 = "\<lparr>tb_cache = ?c, tb_file = Some (row_text name is_expert pk), tb_history = h\<rparr>"
  have "binding_check_or_add ?io bindings_fresh (name @ [c]) is_expert pk = (?st1, False)"
    using assms(3) w acc(1) torn_row [of name c is_expert pk]
    by (simp add: binding_check_or_add_def bindings_fresh_def binding_find_def file_rows_def fgets_lines.simps binding_row_def Let_def)
  moreover have "b = pk" if "recorded h name is_expert b" for b
  proof (cases "binding_key name is_expert = binding_key (name @ [c]) is_expert")
    case True
    then show ?thesis using history_accept_records [OF acc(1)] that by simp
  next
    case False
    have "tracker_history_write (bi_history io 0) journal_empty (binding_key (name @ [c]) is_expert) pk = (h, True)"
      using acc(1) by (simp add: binding_history_accept_def tracker_history_read_def empty_open binding_key_valid)
    from history_write_cases [OF this] False
    have "lmb_journal_open h (binding_key name is_expert) = lmb_journal_open journal_empty (binding_key name is_expert)" by metis
    then have "recorded journal_empty name is_expert b" using that history_read_cong by metis
    then show ?thesis using none by blast
  qed
  then obtain h2 where acc2: "binding_history_accept (bi_history io 0) h name is_expert pk = (h2, True)"
    using history_accept_works [OF w(3) acc(2) assms(2), of name is_expert] by metis
  let ?st2 = "\<lparr>tb_cache = binding_remember ?c name is_expert pk, tb_file = Some (row_text name is_expert pk), tb_history = h2\<rparr>"
  have "bindings_load io (process_exit ?st1) = (?st2, True)"
    using w acc2 file_rows_one [OF n assms(2), of "[]" is_expert]
    by (simp add: bindings_load_def process_exit_def read_rows_def)
  moreover have "binding_check_or_add io' ?st2 name is_expert pk' = (?st2, False)" if "pk' \<noteq> pk" for io' pk'
    using that n by (simp add: binding_check_or_add_def binding_find_def binding_remember_def binding_name_ok_def)
  ultimately show ?thesis by blast
qed

lemma binding_torn_append_witness:
  "\<exists>st1 st2. binding_check_or_add (good_io\<lparr>bi_appended := length (binding_row ([97] @ [98]) False sample_pk) - 2\<rparr>)
      bindings_fresh ([97] @ [98]) False sample_pk = (st1, False) \<and>
    bindings_load good_io (process_exit st1) = (st2, True) \<and>
    binding_check_or_add good_io st2 [97] False (replicate 32 8) = (st2, False)"
proof -
  have n: "binding_name_ok ([97] @ [98])" by code_simp
  have l: "length sample_pk = 32" "replicate 32 8 \<noteq> sample_pk" by (simp_all add: sample_pk_def)
  from binding_torn_append [OF good_io_works l(1) n] l(2) show ?thesis by blast
qed

end
