(* ===== verification/Spec2Isabelle.thy ===== *)
theory Spec2Isabelle
  imports Secure_Guarantees Codec_Guarantees Segment_Guarantees Discovery_Claims Demand_Window Run_Gate
    Planner_Claims Cluster_Plan Compute_Broker Tracker_Registry_Claims Tracker_Assign_Claims Tracker_Generation
    Tracker_Ownership
begin

text \<open>
  Lumabri serves large language models from a household of ordinary computers. A tracker knows who owns
  which name, which files and layers each computer holds and where it can be reached; Segment nodes hold a
  contiguous range of layers and the sessions of the conversations that run through them; a chat asks the
  tracker (or a discovery worker) for a chain of Segments that covers the model and sends its tokens
  through it; the planner decides, before anything is loaded, which computer can hold which layers. All
  of this is C under \<^verbatim>\<open>src/\<close>. This development models the parts of it whose behaviour does not depend on
  the operating system or on tensors, and proves what they promise to each other.

  \<^bold>\<open>Conventions.\<close> A C struct is a record or a datatype with the source's field names behind a short prefix,
  an enum is a datatype, \<open>uintN_t\<close> is an \<open>N\<close>-bit word that wraps, a buffer is a list of bytes. A function that
  returns 0 or -1 with an out parameter returns an option. Allocation, clocks, random numbers, socket
  reads and writes and disk operations are arguments: every way they can answer, failures
  included, is an input of the model, so each error path of the source is a branch. A section the source
  runs under one mutex is one atomic step; threads are the interleavings of such steps. Everything that
  computes is executable. \<^verbatim>\<open>Lumabri_Prelude\<close> holds the vocabulary, the shared lemmas and the fact
  collections.

  \<^bold>\<open>Theories and the code they model\<close> (lower lines use the ones above them).

  \<^item> \<^verbatim>\<open>Wire\<close>, \<^verbatim>\<open>Byte_Buffer\<close>: \<^verbatim>\<open>src/src/protocol/lumabri_wire.h\<close>, the growing buffers and cursors of
    \<^verbatim>\<open>lumabri_segment.c\<close> and \<^verbatim>\<open>lumabri_proto.h\<close>. Writers append exactly their bytes or fail; readers are their inverse.
  \<^item> \<^verbatim>\<open>Sha256\<close>, \<^verbatim>\<open>Model_Root\<close>: \<^verbatim>\<open>src/lumabri_sha.h\<close>. Streaming equals the one-shot standard; the canonical root of an
    inventory is the hash of a message that determines it.
  \<^item> \<^verbatim>\<open>Chacha\<close>, \<^verbatim>\<open>Poly1305\<close> with \<^verbatim>\<open>Poly1305_Limbs\<close>, \<^verbatim>\<open>Poly1305_Stream\<close>, \<^verbatim>\<open>Poly1305_Claims\<close>, \<^verbatim>\<open>Aead\<close>:
    \<^verbatim>\<open>src/lumabri_crypto.h\<close>. The 26-bit limbs never overflow and compute the polynomial modulo
    \<open>2 ^ 130 - 5\<close> however the message is cut; the AEAD opens exactly what carries the right tag.
  \<^item> \<^verbatim>\<open>Frames\<close>, \<^verbatim>\<open>Frame_Guarantees\<close>: frames, the shared receive budget and the life of a message in
    \<^verbatim>\<open>src/lumabri_proto.h\<close>. Partial reads and writes are turns of a transfer; the budget is the sum of what is in flight.
  \<^item> \<^verbatim>\<open>Secure_Channel\<close>, \<^verbatim>\<open>Secure_Guarantees\<close>: \<^verbatim>\<open>src/src/protocol/lumabri_secure_channel.h\<close> over the two above.
  \<^item> \<^verbatim>\<open>Segment_Codec\<close>, \<^verbatim>\<open>Segment_Messages\<close>, \<^verbatim>\<open>Codec_Guarantees\<close>: every Segment v2 message of \<^verbatim>\<open>src/lumabri_segment.c\<close>;
    decoding inverts encoding and accepts nothing else.
  \<^item> \<^verbatim>\<open>Segment_Slot\<close>, \<^verbatim>\<open>Segment_Table\<close>, \<^verbatim>\<open>Segment_Sessions\<close>, \<^verbatim>\<open>Segment_Lifecycle\<close>, \<^verbatim>\<open>Segment_Service\<close>,
    \<^verbatim>\<open>Segment_Examples\<close>, \<^verbatim>\<open>Segment_Guarantees\<close>: the session table of the same file: one slot, the open-addressing table, the
    abstract map of sessions it implements, reachable tables, and the promises of the protocol (a run
    counts once, a fenced owner stays out of every call, a busy session is exclusive).
  \<^item> \<^verbatim>\<open>Scheduler\<close>: \<^verbatim>\<open>src/lumabri_scheduler.h\<close>, completion estimates and the circuit breaker of a peer.
  \<^item> \<^verbatim>\<open>Discovery\<close>, \<^verbatim>\<open>Discovery_Codec\<close>, \<^verbatim>\<open>Discovery_Messages\<close>, \<^verbatim>\<open>Discovery_Refresh\<close>, \<^verbatim>\<open>Discovery_Guarantees\<close>,
    \<^verbatim>\<open>Discovery_Claims\<close>: \<^verbatim>\<open>src/lumabri_segment_discovery.c\<close>: messages, coverage of a route, one refresh, and the background
    worker as a step relation whose snapshots are consistent and never go back.
  \<^item> \<^verbatim>\<open>Run_Gate\<close>: \<^verbatim>\<open>src/lumabri_run_gate.c\<close>; \<^verbatim>\<open>Compute_Broker\<close>: \<^verbatim>\<open>src/src/runtime/lumabri_compute_broker.h\<close>. The two admission
    points of a node: bounded concurrent runs, and one compute permit per machine; both exclusive,
    first come first served, and neither idles while somebody waits.
  \<^item> \<^verbatim>\<open>Demand\<close>, \<^verbatim>\<open>Demand_Window\<close>: \<^verbatim>\<open>src/src/runtime/lumabri_demand.h\<close>: worker accounting and the sixty-second window.
  \<^item> \<^verbatim>\<open>Memory_Budget\<close>: \<^verbatim>\<open>lumabri_runtime_roles.h\<close>, \<^verbatim>\<open>lumabri_memory_budget.h\<close>; \<^verbatim>\<open>Planner\<close>, \<^verbatim>\<open>Planner_Claims\<close>:
    \<^verbatim>\<open>src/lumabri_planner.h\<close>; \<^verbatim>\<open>Cluster\<close>, \<^verbatim>\<open>Cluster_Search\<close>, \<^verbatim>\<open>Cluster_Plan\<close>: \<^verbatim>\<open>src/lumabri_cluster.h\<close>. Saturating sizes, reservations and
    the search for a placement; an accepted plan tiles the model and fits. The bisection is proved in a
    locale over any downward closed fit test and interpreted with the code's reservation test.
  \<^item> \<^verbatim>\<open>Journal\<close>, \<^verbatim>\<open>Journal_Pages\<close>: \<^verbatim>\<open>src/src/runtime/lumabri_journal_index.h\<close>: the record directory and its
    hash-prefix overflow tree, and exact pages over both.
  \<^item> \<^verbatim>\<open>Tracker_Store\<close>, \<^verbatim>\<open>Tracker_Bindings\<close>, \<^verbatim>\<open>Tracker_Ownership\<close>: \<^verbatim>\<open>lumabri_tracker_history.h\<close> and the bindings of
    \<^verbatim>\<open>src/tracker.c\<close>: a name belongs to the first key that claims it across failures and restarts, and a
    torn append breaks this for shorter names.
  \<^item> \<^verbatim>\<open>Tracker_Segments\<close>, \<^verbatim>\<open>Tracker_Registry\<close>, \<^verbatim>\<open>Tracker_Registry_Claims\<close>, \<^verbatim>\<open>Tracker_Generation\<close>: the Segment registry of
    the same file. Every section under the tracker's mutex is a step on the peer table; a registration has two, one
    that stores the range and one that answers, with anything in between. The log of the owners that replies have
    given is part of the reachable states: a new placement fences everything published before it, whatever the
    interleaving. Generations survive restarts, and a route reply is read by the discovery codec
    above as exactly the live compatible peers. A relay-only peer without its connection breaks that reply.
  \<^item> \<^verbatim>\<open>Tracker_Assign\<close>, \<^verbatim>\<open>Tracker_Assign_Claims\<close>: which layers a donor is given, with the promises to donors that
    are still loading: the least replicated range of a live origin, unless a dead origin hides it.

  \<^bold>\<open>Bounds and fuel.\<close> No definition runs on fuel that can run out. Loops of the source that are bounded by
  a table or a count recurse on it; the others (buffer growth, hash padding, probing, bisection,
  \<^verbatim>\<open>fgets\<close>, absorption of whole blocks) are functions with a termination proof. Socket transfers recurse on the list of the
  turns the kernel grants, so a peer that stops answering is a finite list of turns after which the call fails.

  \<^bold>\<open>Not modelled.\<close> Socket and process orchestration (\<^verbatim>\<open>lumabri.c\<close>, \<^verbatim>\<open>segment_node.c\<close>, \<^verbatim>\<open>expert_node.c\<close>,
  \<^verbatim>\<open>segment_chat.c\<close>, \<^verbatim>\<open>lumabri_client.h\<close>, \<^verbatim>\<open>lumabri_home_runtime.h\<close>), the inference shims over engines outside the
  repository, HTTP and terminal interfaces, platform layers and vendored code: their behaviour is the
  operating system's or another program's. X25519, HKDF and Ed25519, and with them the
  handshake. Of the sizing, the reading of model configuration files. Of the tracker, the model identity
  cache, the file and expert registrations and their assignment, the relays and the household queries; what they do
  to the Segment registry is the step \<^verbatim>\<open>other\<close> of \<open>tracker_step\<close>, which registers no range. Floating-point display fields.
\<close>

end
